(* ===== verification/Prelude.thy ===== *)
theory Prelude
  imports Main "HOL-Library.Word"
begin

text \<open>
  Shared vocabulary of the development: the machine types of the C++ sources, the
  integer operations whose C++ meaning differs from HOL's, and the list, option and
  word lemmas that several components use. The collection \<open>cpp_simps\<close> gathers the
  facts that unfold the C++ vocabulary in component proofs.
\<close>

unbundle bit_operations_syntax

named_theorems cpp_simps \<open>unfolding rules for the C++ integer vocabulary\<close>

type_synonym u8 = "8 word"
type_synonym u16 = "16 word"
type_synonym u32 = "32 word"
type_synonym u64 = "64 word"
type_synonym u128 = "128 word"

type_synonym vec2i = "int \<times> int"

section \<open>Integer division of C++\<close>

text \<open>C++ division truncates towards zero; \<open>div\<close> of HOL rounds down.\<close>

definition c_div :: "int \<Rightarrow> int \<Rightarrow> int" where
  "c_div a b = sgn a * sgn b * (\<bar>a\<bar> div \<bar>b\<bar>)"

definition c_mod :: "int \<Rightarrow> int \<Rightarrow> int" where
  "c_mod a b = a - c_div a b * b"

lemma c_div_pos [cpp_simps]: "0 \<le> a \<Longrightarrow> 0 < b \<Longrightarrow> c_div a b = a div b"
  by (cases "a = 0") (simp_all add: c_div_def)

lemma c_mod_pos [cpp_simps]: "0 \<le> a \<Longrightarrow> 0 < b \<Longrightarrow> c_mod a b = a mod b"
  by (simp add: c_mod_def c_div_pos minus_div_mult_eq_mod)

lemma unat_sub_le [cpp_simps]: "unat b \<le> unat a \<Longrightarrow> unat (a - b) = unat a - unat b"
  by (simp add: unat_sub word_le_nat_alt)

lemma unat_inc:
  assumes "k \<noteq> -1"
  shows "unat (k + 1) = Suc (unat k)"
proof -
  from assms have "1 + k \<noteq> 0" by (metis add.commute add_eq_0_iff)
  then show ?thesis by (metis add.commute unatSuc)
qed

lemma word_pos_unat: "0 < k \<longleftrightarrow> 0 < unat k"
  by (simp add: word_less_nat_alt)

lemma sint_small32:
  assumes "uint (x :: u32) < 2 ^ 31"
  shows "sint x = uint x"
proof -
  have "- (2 ^ 31) \<le> uint x" by (rule order_trans [OF _ uint_ge_0]) simp
  with assms show ?thesis by (simp add: sint_uint signed_take_bit_int_eq_self_iff)
qed

lemma ceil_div:
  assumes "0 < n"
  shows "(w + n - 1) div n = (if w mod n \<noteq> 0 then w div n + 1 else w div (n::int))"
proof (cases "w mod n = 0")
  case True
  then have "w = n * (w div n)" using mult_div_mod_eq [of n w] by simp
  then have "(w + n - 1) div n = w div n"
    using assms by (intro int_div_pos_eq [where r = "n - 1"]) auto
  with True show ?thesis by simp
next
  case False
  then have "w + n - 1 = n * (w div n + 1) + (w mod n - 1)"
    using mult_div_mod_eq [of n w] by (simp add: algebra_simps)
  moreover have "0 \<le> w mod n - 1" using False assms pos_mod_sign [of n w] by linarith
  moreover have "w mod n - 1 < n" using assms pos_mod_bound [of n w] by linarith
  ultimately have "(w + n - 1) div n = w div n + 1" by (rule int_div_pos_eq)
  with False show ?thesis by simp
qed
lemma le_zdiv_iff:
  assumes "0 < s"
  shows "q \<le> n div s \<longleftrightarrow> q * s \<le> (n :: int)"
proof
  assume "q \<le> n div s"
  then have "q * s \<le> n div s * s" using assms by simp
  also have "\<dots> \<le> n" using pos_mod_sign [OF assms, of n] minus_mod_eq_div_mult [of n s] by linarith
  finally show "q * s \<le> n" .
next
  assume "q * s \<le> n"
  then have "q * s div s \<le> n div s" using assms by (intro zdiv_mono1)
  with assms show "q \<le> n div s" by simp
qed
lemma div_eq_pos_iff:
  assumes "0 < s"
  shows "a div s = t \<longleftrightarrow> t * s \<le> a \<and> a < (t + 1) * (s :: int)"
  using le_zdiv_iff [OF assms, of t a] le_zdiv_iff [OF assms, of "t + 1" a] by linarith

section \<open>Lists\<close>

lemma those_map_Some [simp]: "those (map Some xs) = Some xs"
  by (induction xs) auto

lemma take_drop_concat:
  assumes "\<And>x. x \<in> set xs \<Longrightarrow> length x = c" "i < length xs" "j \<le> c"
  shows "take j (drop (c * i) (concat xs)) = take j (xs ! i)"
  using assms
proof (induction xs arbitrary: i)
  case (Cons x xs)
  then show ?case by (cases i) (auto simp: algebra_simps)
qed simp

lemma distinct_concat_map:
  assumes "distinct ks" and "\<And>k. k \<in> set ks \<Longrightarrow> distinct (f k)"
    and "\<And>j k. j \<in> set ks \<Longrightarrow> k \<in> set ks \<Longrightarrow> j \<noteq> k \<Longrightarrow> set (f j) \<inter> set (f k) = {}"
  shows "distinct (concat (map f ks))"
  using assms by (induction ks) fastforce+

lemma distinct_concat_map_iff:
  assumes "distinct ks"
    and "\<And>j k. j \<in> set ks \<Longrightarrow> k \<in> set ks \<Longrightarrow> j \<noteq> k \<Longrightarrow> set (f j) \<inter> set (f k) = {}"
  shows "distinct (concat (map f ks)) \<longleftrightarrow> (\<forall>k \<in> set ks. distinct (f k))"
  using assms by (induction ks) fastforce+

lemma set_upto_int [simp]: "set (rev [a..b :: int]) = {a..b}"
  by simp

end
