(* ===== verification/Tiles.thy ===== *)
theory Tiles
  imports Prelude
begin

text \<open>
  The tile generators of the server (\<open>libs/eq/server/tiles\<close>) and the tile geometry of
  \<open>CompoundUpdateOutputVisitor\<close>. A strategy appends grid positions to a list of tiles;
  the visitor turns every grid position into a pixel rectangle of the tiled viewport.
  Dimensions are \<open>int\<close>: all products and sums the code forms stay below \<open>dim.x * dim.y\<close>
  and the viewport's own size, so \<open>int32_t\<close> never wraps for a viewport that fits it.
\<close>

section \<open>Strategies\<close>

definition RasterStrategy :: "vec2i list \<Rightarrow> vec2i \<Rightarrow> vec2i list" where
  "RasterStrategy tiles dim =
     tiles @ concat (map (\<lambda>y. map (\<lambda>x. (x, y)) [0..fst dim - 1]) [0..snd dim - 1])"

definition zigzag_row :: "vec2i \<Rightarrow> int \<Rightarrow> vec2i list" where
  "zigzag_row dim y =
     (if c_mod y 2 \<noteq> 0 then map (\<lambda>x. (x, y)) (rev [0..fst dim - 1])
      else map (\<lambda>x. (x, y)) [0..fst dim - 1])"

definition ZigzagStrategy :: "vec2i list \<Rightarrow> vec2i \<Rightarrow> vec2i list" where
  "ZigzagStrategy tiles dim = tiles @ concat (map (zigzag_row dim) [0..snd dim - 1])"

definition grid :: "vec2i \<Rightarrow> vec2i set" where
  "grid dim = {0..<fst dim} \<times> {0..<snd dim}"

lemma Raster_correct:
  "distinct (RasterStrategy [] dim)" "set (RasterStrategy [] dim) = grid dim"
  by (auto simp: RasterStrategy_def grid_def distinct_map inj_on_def
      intro!: distinct_concat_map)

lemma zigzag_row_set: "set (zigzag_row dim y) = {0..<fst dim} \<times> {y}"
  by (auto simp: zigzag_row_def)

lemma zigzag_row_distinct: "distinct (zigzag_row dim y)"
  by (auto simp: zigzag_row_def distinct_map inj_on_def)

lemma Zigzag_correct:
  "distinct (ZigzagStrategy [] dim)" "set (ZigzagStrategy [] dim) = grid dim"
  by (auto simp: ZigzagStrategy_def grid_def zigzag_row_set zigzag_row_distinct
      intro!: distinct_concat_map)

subsection \<open>The spiral strategy\<close>

definition spiral_ring :: "vec2i \<Rightarrow> int \<Rightarrow> vec2i list" where
  "spiral_ring dim level =
     (let dimX = fst dim; dimY = snd dim in
      map (\<lambda>y. (level, y)) [level + 1..dimY - level - 1] @
      map (\<lambda>x. (x, dimY - 1 - level)) [level + 1..dimX - 2 - level] @
      map (\<lambda>y. (dimX - 1 - level, y)) (rev [level + 1..dimY - 1 - level]) @
      map (\<lambda>x. (x, level)) (rev [level..dimX - 1 - level]))"

definition SpiralStrategy :: "vec2i list \<Rightarrow> vec2i \<Rightarrow> vec2i list" where
  "SpiralStrategy tiles dim =
     (let level = c_div (if snd dim < fst dim then snd dim - 1 else fst dim - 1) 2
      in tiles @ concat (map (spiral_ring dim) (rev [0..level])))"

text \<open>The ring of a grid position: its distance to the border of the grid.\<close>

definition ring_of :: "vec2i \<Rightarrow> vec2i \<Rightarrow> int" where
  "ring_of dim p = min (min (fst p) (snd p)) (min (fst dim - 1 - fst p) (snd dim - 1 - snd p))"


lemma spiral_ring_mem:
  "(x, y) \<in> set (spiral_ring (dx, dy) l) \<longleftrightarrow>
     (x = l \<and> l + 1 \<le> y \<and> y \<le> dy - l - 1) \<or> (y = dy - 1 - l \<and> l + 1 \<le> x \<and> x \<le> dx - 2 - l) \<or>
     (x = dx - 1 - l \<and> l + 1 \<le> y \<and> y \<le> dy - 1 - l) \<or> (y = l \<and> l \<le> x \<and> x \<le> dx - 1 - l)"
  by (auto simp: spiral_ring_def Let_def)

lemma spiral_ring_set:
  assumes "0 \<le> l" "2 * l < fst dim" "2 * l < snd dim"
  shows "set (spiral_ring dim l) = {p \<in> grid dim. ring_of dim p = l}"
proof (rule set_eqI, clarify)
  fix x y
  obtain dx dy where dim: "dim = (dx, dy)" by (cases dim)
  show "((x, y) \<in> set (spiral_ring dim l)) = ((x, y) \<in> {p \<in> grid dim. ring_of dim p = l})"
    using assms unfolding dim spiral_ring_mem by (simp add: grid_def ring_of_def) linarith
qed


lemma spiral_ring_distinct:
  assumes "0 \<le> l" "2 * l < fst dim" "2 * l < snd dim"
  shows "distinct (spiral_ring dim l) \<longleftrightarrow>
    (fst dim \<noteq> 2 * l + 1 \<or> snd dim = 2 * l + 1) \<and> (snd dim \<noteq> 2 * l + 1 \<or> fst dim \<le> 2 * l + 2)"
proof (cases dim)
  case (Pair dx dy)
  let ?A = "(\<lambda>y. (l, y)) ` {l + 1..dy - l - 1}" and ?B = "(\<lambda>x. (x, dy - 1 - l)) ` {l + 1..dx - 2 - l}"
  let ?C = "(\<lambda>y. (dx - 1 - l, y)) ` {l + 1..dy - 1 - l}" and ?D = "(\<lambda>x. (x, l)) ` {l..dx - 1 - l}"
  have dims: "2 * l < dx" "2 * l < dy" using assms Pair by auto
  have "?A \<inter> ?B = {}" "?A \<inter> ?D = {}" "?B \<inter> ?C = {}" "?C \<inter> ?D = {}" by auto
  then have "distinct (spiral_ring dim l) \<longleftrightarrow> ?B \<inter> ?D = {} \<and> ?A \<inter> ?C = {}"
    unfolding Pair by (simp add: spiral_ring_def Let_def distinct_map inj_on_def Int_Un_distrib)
  moreover have "?A \<inter> ?C = {} \<longleftrightarrow> dx \<noteq> 2 * l + 1 \<or> dy = 2 * l + 1"
  proof
    assume "?A \<inter> ?C = {}"
    then have "(l, l + 1) \<notin> ?A \<or> (l, l + 1) \<notin> ?C" by blast
    with dims show "dx \<noteq> 2 * l + 1 \<or> dy = 2 * l + 1" by (auto simp: image_iff)
  qed (use dims in auto)
  moreover have "?B \<inter> ?D = {} \<longleftrightarrow> dy \<noteq> 2 * l + 1 \<or> dx \<le> 2 * l + 2"
  proof
    assume "?B \<inter> ?D = {}"
    then have "(l + 1, l) \<notin> ?B \<or> (l + 1, l) \<notin> ?D" by blast
    with dims show "dy \<noteq> 2 * l + 1 \<or> dx \<le> 2 * l + 2" by (auto simp: image_iff)
  qed (use dims in auto)
  ultimately show ?thesis by (auto simp: Pair)
qed

lemma spiral_levels:
  assumes "1 \<le> fst dim" "1 \<le> snd dim"
  shows "c_div (if snd dim < fst dim then snd dim - 1 else fst dim - 1) 2
         = (min (fst dim) (snd dim) - 1) div 2"
  using assms by (auto simp: c_div_pos min_def)

lemma Spiral_set:
  assumes "1 \<le> fst dim" "1 \<le> snd dim"
  shows "set (SpiralStrategy [] dim) = grid dim"
proof -
  let ?L = "(min (fst dim) (snd dim) - 1) div 2"
  have ring: "set (spiral_ring dim l) = {p \<in> grid dim. ring_of dim p = l}" if "l \<in> {0..?L}" for l
    using that assms by (intro spiral_ring_set) auto
  have "ring_of dim p \<in> {0..?L}" if "p \<in> grid dim" for p
    using that by (cases p; cases dim) (auto simp: grid_def ring_of_def)
  with ring show ?thesis
    by (auto simp: SpiralStrategy_def spiral_levels [OF assms] Let_def)
qed

lemma Spiral_distinct:
  assumes "1 \<le> fst dim" "1 \<le> snd dim"
  shows "distinct (SpiralStrategy [] dim) \<longleftrightarrow>
    even (min (fst dim) (snd dim)) \<or> fst dim = snd dim \<or> fst dim = snd dim + 1"
proof -
  let ?m = "min (fst dim) (snd dim)"
  let ?L = "(?m - 1) div 2"
  let ?ok = "\<lambda>l. (fst dim \<noteq> 2 * l + 1 \<or> snd dim = 2 * l + 1) \<and> (snd dim \<noteq> 2 * l + 1 \<or> fst dim \<le> 2 * l + 2)"
  have l: "0 \<le> l \<and> 2 * l < fst dim \<and> 2 * l < snd dim" if "l \<in> {0..?L}" for l
    using that assms by auto
  have disj: "set (spiral_ring dim j) \<inter> set (spiral_ring dim k) = {}"
    if "j \<in> {0..?L}" "k \<in> {0..?L}" "j \<noteq> k" for j k
    using that l [of j] l [of k] by (auto simp: spiral_ring_set)
  have "distinct (SpiralStrategy [] dim) \<longleftrightarrow> (\<forall>l \<in> {0..?L}. distinct (spiral_ring dim l))"
    using distinct_concat_map_iff [of "rev [0..?L]" "spiral_ring dim"] disj
    by (simp add: SpiralStrategy_def Let_def spiral_levels [OF assms])
  also have "\<dots> \<longleftrightarrow> (\<forall>l \<in> {0..?L}. ?ok l)"
    using l by (intro ball_cong refl spiral_ring_distinct) auto
  also have "\<dots> \<longleftrightarrow> even ?m \<or> fst dim = snd dim \<or> fst dim = snd dim + 1"
  proof
    assume "\<forall>l \<in> {0..?L}. ?ok l"
    moreover have "?L \<in> {0..?L}" using assms by simp
    ultimately have "?ok ?L" by blast
    then show "even ?m \<or> fst dim = snd dim \<or> fst dim = snd dim + 1" using assms by presburger
  next
    assume "even ?m \<or> fst dim = snd dim \<or> fst dim = snd dim + 1"
    then show "\<forall>l \<in> {0..?L}. ?ok l" using assms by (auto simp: min_def split: if_splits)
  qed
  finally show ?thesis .
qed
end
