(* ===== verification/Pixel_Viewport.thy ===== *)
theory Pixel_Viewport
  imports Prelude
begin

text \<open>
  \<open>eq::fabric::PixelViewport\<close> and the pixel decomposition \<open>eq::fabric::Pixel\<close>
  (\<open>libs/eq/fabric/pixelViewport.h\<close>, \<open>pixel.h\<close>): integer pixel rectangles and their
  algebra. Coordinates are \<open>int32_t\<close> in the source; the model uses \<open>int\<close>, which agrees
  with the source whenever the sums the source forms fit into 32 bits. A \<open>Pixel\<close> holds
  \<open>uint32_t\<close> values, so where one meets a viewport the source computes in unsigned
  32-bit arithmetic and converts back, and so does the model.
\<close>

section \<open>The data\<close>

record PixelViewport =
  pvp_x :: int
  pvp_y :: int
  pvp_w :: int
  pvp_h :: int

record Pixel =
  pix_x :: u32
  pix_y :: u32
  pix_w :: u32
  pix_h :: u32

definition mk_pvp :: "int \<Rightarrow> int \<Rightarrow> int \<Rightarrow> int \<Rightarrow> PixelViewport" where
  "mk_pvp x y w h = \<lparr>pvp_x = x, pvp_y = y, pvp_w = w, pvp_h = h\<rparr>"

definition pvp_default :: PixelViewport where
  "pvp_default = mk_pvp 0 0 (-1) (-1)"

section \<open>Operations\<close>

definition pvp_invalidate :: "PixelViewport \<Rightarrow> PixelViewport" where
  "pvp_invalidate p = p\<lparr>pvp_x := 0, pvp_y := 0, pvp_w := -1, pvp_h := -1\<rparr>"

definition pvp_isValid :: "PixelViewport \<Rightarrow> bool" where
  "pvp_isValid p \<longleftrightarrow> pvp_w p \<ge> 0 \<and> pvp_h p \<ge> 0"

definition pvp_hasArea :: "PixelViewport \<Rightarrow> bool" where
  "pvp_hasArea p \<longleftrightarrow> pvp_w p > 0 \<and> pvp_h p > 0"

definition pvp_getArea :: "PixelViewport \<Rightarrow> u32" where
  "pvp_getArea p = word_of_int (pvp_w p * pvp_h p)"

definition pvp_isInside :: "PixelViewport \<Rightarrow> int \<Rightarrow> int \<Rightarrow> bool" where
  "pvp_isInside p pX pY \<longleftrightarrow>
     \<not> (pX < pvp_x p \<or> pY < pvp_y p \<or> pX > pvp_x p + pvp_w p \<or> pY > pvp_y p + pvp_h p)"

definition Pixel_isValid :: "Pixel \<Rightarrow> bool" where
  "Pixel_isValid p \<longleftrightarrow> pix_w p > 0 \<and> pix_x p < pix_w p \<and> pix_h p > 0 \<and> pix_y p < pix_h p"

definition Pixel_ALL :: Pixel where
  "Pixel_ALL = \<lparr>pix_x = 0, pix_y = 0, pix_w = 1, pix_h = 1\<rparr>"

definition Pixel_apply :: "Pixel \<Rightarrow> Pixel \<Rightarrow> Pixel" where
  "Pixel_apply p rhs =
     (if \<not> Pixel_isValid p \<or> \<not> Pixel_isValid rhs then p
      else \<lparr>pix_x = pix_x p * pix_w rhs + pix_x rhs, pix_y = pix_y p * pix_h rhs + pix_y rhs,
            pix_w = pix_w p * pix_w rhs, pix_h = pix_h p * pix_h rhs\<rparr>)"

definition Pixel_invalidate :: "Pixel \<Rightarrow> Pixel" where
  "Pixel_invalidate p = p\<lparr>pix_x := 0, pix_y := 0, pix_w := 0, pix_h := 0\<rparr>"

definition Pixel_validate :: "Pixel \<Rightarrow> Pixel" where
  "Pixel_validate p =
     (if Pixel_isValid p then p
      else let w = (if pix_w p = 0 then 1 else pix_w p); h = (if pix_h p = 0 then 1 else pix_h p)
        in \<lparr>pix_x = (if pix_x p \<ge> w then 0 else pix_x p),
            pix_y = (if pix_y p \<ge> h then 0 else pix_y p), pix_w = w, pix_h = h\<rparr>)"

text \<open>One dimension of \<open>PixelViewport::apply( const Pixel& )\<close>.\<close>

definition decompose_extent :: "int \<Rightarrow> u32 \<Rightarrow> int" where
  "decompose_extent w n =
     (if n > 1 then
        let newWidth = word_of_int w div n
        in sint (if word_of_int w - newWidth * n \<noteq> 0 then newWidth + 1 else newWidth)
      else w)"

definition pvp_apply_Pixel :: "PixelViewport \<Rightarrow> Pixel \<Rightarrow> PixelViewport" where
  "pvp_apply_Pixel p pixel =
     p\<lparr>pvp_w := decompose_extent (pvp_w p) (pix_w pixel),
       pvp_h := decompose_extent (pvp_h p) (pix_h pixel)\<rparr>"

definition pvp_unapply :: "PixelViewport \<Rightarrow> Pixel \<Rightarrow> PixelViewport" where
  "pvp_unapply p pixel =
     \<lparr>pvp_x = sint (word_of_int (pvp_x p) + pix_x pixel),
      pvp_y = sint (word_of_int (pvp_y p) + pix_y pixel),
      pvp_w = sint (word_of_int (pvp_w p) * pix_w pixel),
      pvp_h = sint (word_of_int (pvp_h p) * pix_h pixel)\<rparr>"

definition pvp_getXEnd :: "PixelViewport \<Rightarrow> int" where
  "pvp_getXEnd p = pvp_x p + pvp_w p"

definition pvp_getYEnd :: "PixelViewport \<Rightarrow> int" where
  "pvp_getYEnd p = pvp_y p + pvp_h p"

definition pvp_plus :: "PixelViewport \<Rightarrow> vec2i \<Rightarrow> PixelViewport" where
  "pvp_plus p offset = mk_pvp (pvp_x p + fst offset) (pvp_y p + snd offset) (pvp_w p) (pvp_h p)"

definition pvp_minus :: "PixelViewport \<Rightarrow> vec2i \<Rightarrow> PixelViewport" where
  "pvp_minus p offset = p\<lparr>pvp_x := pvp_x p - fst offset, pvp_y := pvp_y p - snd offset\<rparr>"

definition pvp_merge :: "PixelViewport \<Rightarrow> PixelViewport \<Rightarrow> PixelViewport" where
  "pvp_merge p rhs =
     (if p = rhs \<or> \<not> pvp_hasArea rhs then p
      else if \<not> pvp_hasArea p then rhs
      else
        let sEx = pvp_x p + pvp_w p; sEy = pvp_y p + pvp_h p;
            dEx = pvp_x rhs + pvp_w rhs; dEy = pvp_y rhs + pvp_h rhs;
            x' = min (pvp_x p) (pvp_x rhs); y' = min (pvp_y p) (pvp_y rhs)
        in \<lparr>pvp_x = x', pvp_y = y', pvp_w = max sEx dEx - x', pvp_h = max sEy dEy - y'\<rparr>)"

definition pvp_intersect :: "PixelViewport \<Rightarrow> PixelViewport \<Rightarrow> PixelViewport" where
  "pvp_intersect p rhs =
     (if p = rhs then p
      else if \<not> pvp_isValid rhs \<or> \<not> pvp_isValid p then pvp_invalidate p
      else if \<not> pvp_hasArea rhs \<or> \<not> pvp_hasArea p then \<lparr>pvp_x = 0, pvp_y = 0, pvp_w = 0, pvp_h = 0\<rparr>
      else
        let sEx = pvp_x p + pvp_w p; sEy = pvp_y p + pvp_h p;
            dEx = pvp_x rhs + pvp_w rhs; dEy = pvp_y rhs + pvp_h rhs;
            x' = max (pvp_x p) (pvp_x rhs); y' = max (pvp_y p) (pvp_y rhs)
        in \<lparr>pvp_x = x', pvp_y = y', pvp_w = min sEx dEx - x', pvp_h = min sEy dEy - y'\<rparr>)"

section \<open>Pixel sets: the abstraction the operations are about\<close>

definition pixels :: "PixelViewport \<Rightarrow> vec2i set" where
  "pixels p = {pvp_x p..<pvp_x p + pvp_w p} \<times> {pvp_y p..<pvp_y p + pvp_h p}"

lemmas pvp_defs = pixels_def pvp_hasArea_def pvp_isValid_def pvp_invalidate_def mk_pvp_def

lemma pixels_empty_iff: "pixels p = {} \<longleftrightarrow> \<not> pvp_hasArea p"
  by (auto simp: pvp_defs)

lemma mem_pixels:
  "(a, b) \<in> pixels p \<longleftrightarrow> pvp_x p \<le> a \<and> a < pvp_x p + pvp_w p \<and> pvp_y p \<le> b \<and> b < pvp_y p + pvp_h p"
  by (auto simp: pixels_def)

lemma pixels_intersect: "pixels (pvp_intersect p q) = pixels p \<inter> pixels q"
  by (auto simp: pvp_intersect_def Let_def mem_pixels pvp_defs)

lemma card_pixels:
  assumes "pvp_isValid p"
  shows "card (pixels p) = nat (pvp_w p * pvp_h p)"
  using assms by (simp add: pvp_defs card_cartesian_product nat_mult_distrib)

lemma mem_pixelsI:
  assumes "(a, b) \<in> pixels p"
  shows "pvp_hasArea p"
  using assms by (auto simp: pvp_defs)

lemma pixels_merge_upper: "pixels p \<union> pixels q \<subseteq> pixels (pvp_merge p q)"
  by (auto simp: pvp_merge_def Let_def mem_pixels dest: mem_pixelsI)

lemma pixels_merge_least:
  assumes "pixels p \<subseteq> pixels r" "pixels q \<subseteq> pixels r"
  shows "pixels (pvp_merge p q) \<subseteq> pixels r"
proof -
  have corners: "pvp_hasArea s \<Longrightarrow> (pvp_x s, pvp_y s) \<in> pixels s \<and>
      (pvp_x s + pvp_w s - 1, pvp_y s + pvp_h s - 1) \<in> pixels s" for s
    by (simp add: mem_pixels pvp_hasArea_def)
  have sub: "(pvp_x s, pvp_y s) \<in> pixels r \<and> (pvp_x s + pvp_w s - 1, pvp_y s + pvp_h s - 1) \<in> pixels r"
    if "pvp_hasArea s" "pixels s \<subseteq> pixels r" for s
    using corners [OF that(1)] that(2) by blast
  show ?thesis
  proof (cases "p = q \<or> \<not> pvp_hasArea q \<or> \<not> pvp_hasArea p")
    case True
    with assms show ?thesis by (auto simp: pvp_merge_def)
  next
    case False
    with assms have "(pvp_x p, pvp_y p) \<in> pixels r" "(pvp_x q, pvp_y q) \<in> pixels r"
      "(pvp_x p + pvp_w p - 1, pvp_y p + pvp_h p - 1) \<in> pixels r"
      "(pvp_x q + pvp_w q - 1, pvp_y q + pvp_h q - 1) \<in> pixels r"
      using sub by blast+
    moreover from False have "pvp_merge p q =
      (let x' = min (pvp_x p) (pvp_x q); y' = min (pvp_y p) (pvp_y q) in
       \<lparr>pvp_x = x', pvp_y = y', pvp_w = max (pvp_x p + pvp_w p) (pvp_x q + pvp_w q) - x',
        pvp_h = max (pvp_y p + pvp_h p) (pvp_y q + pvp_h q) - y'\<rparr>)"
      by (simp add: pvp_merge_def Let_def)
    ultimately show ?thesis by (clarsimp simp: mem_pixels Let_def) linarith
  qed
qed

section \<open>Pixel decompositions\<close>

lemma decompose_extent_ceil:
  assumes "0 \<le> w" "w < 2 ^ 31" "1 < n"
  shows "decompose_extent w n = (w + uint n - 1) div uint n"
proof -
  let ?w = "word_of_int w :: u32"
  have n: "1 < uint n" using assms(3) by (simp add: word_less_def)
  have w: "uint ?w = w" using assms by (simp add: uint_word_of_int)
  have q: "uint (?w div n) = w div uint n" by (simp add: uint_div w)
  have r: "?w - ?w div n * n \<noteq> 0 \<longleftrightarrow> w mod uint n \<noteq> 0"
    by (metis minus_div_mult_eq_mod uint_mod uint_0_iff w)
  have "w div uint n \<le> w div 2" using assms n by (intro zdiv_mono2) auto
  then have small: "w div uint n + 1 < 2 ^ 31" using assms by simp
  then have "uint (?w div n + 1) = w div uint n + 1"
    using assms n by (simp add: uint_word_ariths q pos_imp_zdiv_nonneg_iff)
  then show ?thesis
    using assms n small q r by (simp add: decompose_extent_def Let_def sint_small32 ceil_div)
qed

lemma decompose_extent_bounds:
  assumes "0 \<le> w" "w < 2 ^ 31" "1 < n"
  shows "w \<le> decompose_extent w n * uint n" "decompose_extent w n * uint n < w + uint n"
proof -
  have n: "1 < uint n" using assms(3) by (simp add: word_less_def)
  then have "(w + uint n - 1) div uint n * uint n \<le> w + uint n - 1"
    using le_zdiv_iff by (metis order_refl zero_less_one order_less_trans)
  moreover have "w + uint n - 1 < ((w + uint n - 1) div uint n + 1) * uint n"
    using n div_eq_pos_iff [of "uint n" "w + uint n - 1" "(w + uint n - 1) div uint n"] by simp
  ultimately show "w \<le> decompose_extent w n * uint n" "decompose_extent w n * uint n < w + uint n"
    unfolding decompose_extent_ceil [OF assms] by (simp_all add: algebra_simps)
qed

lemma nest_index:
  fixes px pw rx rw :: u32
  assumes "px < pw" "rx < rw" "unat pw * unat rw < 2 ^ 32"
  shows "unat (px * rw + rx) = unat px * unat rw + unat rx" "px * rw + rx < pw * rw"
    "0 < pw * rw"
proof -
  have lt: "unat px < unat pw" "unat rx < unat rw" using assms by (simp_all add: word_less_nat_alt)
  then have "unat px * unat rw + unat rx < Suc (unat px) * unat rw" by simp
  also have "\<dots> \<le> unat pw * unat rw" using lt by (intro mult_le_mono1) simp
  finally have b: "unat px * unat rw + unat rx < unat pw * unat rw" .
  then have m: "unat (px * rw) = unat px * unat rw" using assms(3) by (simp add: unat_word_ariths)
  show e: "unat (px * rw + rx) = unat px * unat rw + unat rx"
    using b assms(3) by (simp add: unat_word_ariths m)
  have pr: "unat (pw * rw) = unat pw * unat rw" using assms(3) by (simp add: unat_word_ariths)
  show "px * rw + rx < pw * rw" unfolding word_less_nat_alt e pr by (rule b)
  show "0 < pw * rw" unfolding word_less_nat_alt pr using b by (simp only: unat_0)
qed

lemma nest_index_inverse:
  fixes px pw rx rw :: u32
  assumes "px < pw" "rx < rw" "unat pw * unat rw < 2 ^ 32"
  shows "unat (px * rw + rx) div unat rw = unat px" "unat (px * rw + rx) mod unat rw = unat rx"
  using assms(2) by (auto simp: nest_index(1) [OF assms] word_less_nat_alt)

section \<open>Properties\<close>

text \<open>
  The pixels of the intersection of two pixel viewports are exactly the pixels they
  share, for valid, empty, invalid and disjoint viewports alike.
\<close>
theorem intersect_pixels: "pixels (pvp_intersect p q) = pixels p \<inter> pixels q"
  by (rule pixels_intersect)

text \<open>
  Merging two pixel viewports gives the smallest viewport that contains both: it
  contains the pixels of each, and every viewport that contains both contains it.
\<close>
theorem merge_least_upper_bound:
  "pixels p \<union> pixels q \<subseteq> pixels r \<longleftrightarrow> pixels (pvp_merge p q) \<subseteq> pixels r"
  using pixels_merge_upper [of p q] pixels_merge_least [of p r q] by blast

text \<open>
  Nested pixel decompositions: applying a valid child decomposition to a valid parent
  gives a valid decomposition whose index determines the parent's and the child's index, so
  different pairs of contributors never render the same pixel residue.
\<close>
theorem Pixel_apply_nests:
  assumes "Pixel_isValid p" "Pixel_isValid r"
    and "unat (pix_w p) * unat (pix_w r) < 2 ^ 32" "unat (pix_h p) * unat (pix_h r) < 2 ^ 32"
  shows "Pixel_isValid (Pixel_apply p r) \<and>
    unat (pix_x (Pixel_apply p r)) div unat (pix_w r) = unat (pix_x p) \<and>
    unat (pix_x (Pixel_apply p r)) mod unat (pix_w r) = unat (pix_x r) \<and>
    unat (pix_y (Pixel_apply p r)) div unat (pix_h r) = unat (pix_y p) \<and>
    unat (pix_y (Pixel_apply p r)) mod unat (pix_h r) = unat (pix_y r)"
proof -
  from assms(1,2) have x: "pix_x p < pix_w p" "pix_x r < pix_w r" and y: "pix_y p < pix_h p" "pix_y r < pix_h r"
    by (auto simp: Pixel_isValid_def)
  show ?thesis
    using assms(1,2) nest_index(2,3) [OF x assms(3)] nest_index(2,3) [OF y assms(4)]
      nest_index_inverse [OF x assms(3)] nest_index_inverse [OF y assms(4)]
    by (simp add: Pixel_apply_def) (simp add: Pixel_isValid_def)
qed

theorem Pixel_apply_nests_witness:
  "let p = \<lparr>pix_x = 1, pix_y = 0, pix_w = 2, pix_h = 1\<rparr>; r = \<lparr>pix_x = 2, pix_y = 1, pix_w = 3, pix_h = 2\<rparr>
   in Pixel_isValid (Pixel_apply p r) \<and>
     unat (pix_x (Pixel_apply p r)) div unat (pix_w r) = unat (pix_x p) \<and>
     unat (pix_x (Pixel_apply p r)) mod unat (pix_w r) = unat (pix_x r) \<and>
     unat (pix_y (Pixel_apply p r)) div unat (pix_h r) = unat (pix_y p) \<and>
     unat (pix_y (Pixel_apply p r)) mod unat (pix_h r) = unat (pix_y r)"
  unfolding Let_def by (rule Pixel_apply_nests) (simp_all add: Pixel_isValid_def)

end
