(* ===== verification/Tile_Queue.thy ===== *)
theory Tile_Queue
  imports Tiles Pixel_Viewport
begin

text \<open>
  Tile generation and the tile queues of the server: the tile part of
  \<open>CompoundUpdateOutputVisitor\<close> (\<open>_generateTiles\<close>, \<open>_addTilesToQueue\<close>) and the class
  \<open>TileQueue\<close> (\<open>libs/eq/server/tileQueue.cpp\<close>). The double-precision fraction
  \<open>tileVP\<close> and the frustum computation of the compound are arguments of the model.
  A \<open>LatencyQueue\<close> object is identified by a number, as a pointer would.
\<close>

section \<open>Tile geometry\<close>

definition tile_dim :: "PixelViewport \<Rightarrow> vec2i \<Rightarrow> vec2i" where
  "tile_dim pvp tileSize =
     (c_div (pvp_w pvp) (fst tileSize) + (if c_mod (pvp_w pvp) (fst tileSize) \<noteq> 0 then 1 else 0),
      c_div (pvp_h pvp) (snd tileSize) + (if c_mod (pvp_h pvp) (snd tileSize) \<noteq> 0 then 1 else 0))"

definition tile_pvp :: "PixelViewport \<Rightarrow> vec2i \<Rightarrow> vec2i \<Rightarrow> PixelViewport" where
  "tile_pvp pvp tileSize tile =
     (let p0 = mk_pvp (fst tile * fst tileSize) (snd tile * snd tileSize) (fst tileSize) (snd tileSize);
          p1 = (if pvp_x p0 + fst tileSize > pvp_w pvp then p0\<lparr>pvp_w := pvp_w pvp - pvp_x p0\<rparr> else p0)
      in if pvp_y p1 + snd tileSize > pvp_h pvp then p1\<lparr>pvp_h := pvp_h pvp - pvp_y p1\<rparr> else p1)"

datatype Eye = EYE_CYCLOP | EYE_LEFT | EYE_RIGHT

definition eyes :: "Eye list" where
  "eyes = [EYE_CYCLOP, EYE_LEFT, EYE_RIGHT]"

fun eye_index :: "Eye \<Rightarrow> nat" where
  "eye_index EYE_CYCLOP = 0"
| "eye_index EYE_LEFT = 1"
| "eye_index EYE_RIGHT = 2"

record ('vp, 'fr) TileTaskPacket =
  tile_pvp_of :: PixelViewport
  tile_vp :: 'vp
  tile_frustum :: 'fr
  tile_ortho :: 'fr

section \<open>The queue of tiles\<close>

record 'p LatencyQueue =
  lq_id :: nat
  lq_frame :: u32
  lq_items :: "'p list"

record 'p TileQueue =
  tq_size :: vec2i
  tq_queues :: "'p LatencyQueue list"
  tq_master :: "nat \<Rightarrow> nat option"
  tq_output :: "nat \<Rightarrow> nat option"
  tq_next :: nat

definition NUM_EYES :: nat where
  "NUM_EYES = 3"

definition lq_push :: "'p \<Rightarrow> nat \<Rightarrow> 'p LatencyQueue \<Rightarrow> 'p LatencyQueue" where
  "lq_push p i q = (if lq_id q = i then q\<lparr>lq_items := lq_items q @ [p]\<rparr> else q)"

definition TileQueue_addTile :: "'p TileQueue \<Rightarrow> 'p \<Rightarrow> Eye \<Rightarrow> 'p TileQueue option" where
  "TileQueue_addTile tq tile eye =
     (case tq_master tq (eye_index eye) of
        None \<Rightarrow> None
      | Some i \<Rightarrow> Some (tq\<lparr>tq_queues := map (lq_push tile i) (tq_queues tq)\<rparr>))"

text \<open>One iteration of the loop of \<open>TileQueue::cycleData\<close>.\<close>

definition cycle_eye :: "u32 \<Rightarrow> u32 \<Rightarrow> (nat \<Rightarrow> bool) \<Rightarrow> nat \<Rightarrow> 'p TileQueue \<Rightarrow> 'p TileQueue" where
  "cycle_eye frameNumber latency active i tq =
     (if \<not> active i then tq\<lparr>tq_master := (tq_master tq)(i := None)\<rparr>
      else
        let dataAge = (if tq_queues tq = [] then 0 else lq_frame (last (tq_queues tq)))
        in if tq_queues tq \<noteq> [] \<and> dataAge < frameNumber - latency \<and> frameNumber > latency
           then let q = last (tq_queues tq) in
             tq\<lparr>tq_queues := q\<lparr>lq_frame := frameNumber, lq_items := []\<rparr> # butlast (tq_queues tq),
                tq_master := (tq_master tq)(i := Some (lq_id q))\<rparr>
           else
             tq\<lparr>tq_queues := \<lparr>lq_id = tq_next tq, lq_frame = frameNumber, lq_items = []\<rparr> # tq_queues tq,
                tq_master := (tq_master tq)(i := Some (tq_next tq)),
                tq_next := Suc (tq_next tq)\<rparr>)"

definition TileQueue_cycleData :: "u32 \<Rightarrow> u32 \<Rightarrow> (nat \<Rightarrow> bool) \<Rightarrow> 'p TileQueue \<Rightarrow> 'p TileQueue" where
  "TileQueue_cycleData frameNumber latency active tq =
     fold (cycle_eye frameNumber latency active) [0..<NUM_EYES] tq"

definition TileQueue_setOutputQueue :: "nat \<Rightarrow> (nat \<Rightarrow> bool) \<Rightarrow> 'p TileQueue \<Rightarrow> 'p TileQueue" where
  "TileQueue_setOutputQueue queue active tq =
     tq\<lparr>tq_output := (\<lambda>i. if i < NUM_EYES \<and> active i then Some queue else tq_output tq i)\<rparr>"

definition TileQueue_unsetData :: "'p TileQueue \<Rightarrow> 'p TileQueue" where
  "TileQueue_unsetData tq = tq\<lparr>tq_master := (\<lambda>_. None), tq_output := (\<lambda>_. None)\<rparr>"

definition TileQueue_flush :: "'p TileQueue \<Rightarrow> 'p TileQueue" where
  "TileQueue_flush tq = (TileQueue_unsetData tq)\<lparr>tq_queues := []\<rparr>"

definition TileQueue_getQueueMasterID :: "'p TileQueue \<Rightarrow> Eye \<Rightarrow> nat option" where
  "TileQueue_getQueueMasterID tq eye = tq_master tq (eye_index eye)"

section \<open>The visitor\<close>

text \<open>The packet of one tile and eye, and one iteration of the inner loop over the eyes.\<close>

definition tile_packet ::
  "(PixelViewport \<Rightarrow> PixelViewport \<Rightarrow> 'vp) \<Rightarrow> (Eye \<Rightarrow> 'vp \<Rightarrow> bool \<Rightarrow> 'fr) \<Rightarrow>
   PixelViewport \<Rightarrow> vec2i \<Rightarrow> Eye \<Rightarrow> vec2i \<Rightarrow> ('vp, 'fr) TileTaskPacket" where
  "tile_packet tileVP computeTileFrustum pvp sz eye tile =
     (let tilePVP = tile_pvp pvp sz tile; vp = tileVP pvp tilePVP
      in \<lparr>tile_pvp_of = tilePVP, tile_vp = vp,
          tile_frustum = computeTileFrustum eye vp False,
          tile_ortho = computeTileFrustum eye vp True\<rparr>)"

definition enqueue_eye ::
  "(Eye \<Rightarrow> bool) \<Rightarrow> (Eye \<Rightarrow> 'p) \<Rightarrow> Eye \<Rightarrow> 'p TileQueue option \<Rightarrow> 'p TileQueue option" where
  "enqueue_eye used pkt eye st =
     (case st of None \<Rightarrow> None | Some q \<Rightarrow>
        if \<not> used eye then Some q else TileQueue_addTile q (pkt eye) eye)"

definition addTilesToQueue ::
  "(PixelViewport \<Rightarrow> PixelViewport \<Rightarrow> 'vp) \<Rightarrow> (Eye \<Rightarrow> 'vp \<Rightarrow> bool \<Rightarrow> 'fr) \<Rightarrow> (Eye \<Rightarrow> bool) \<Rightarrow>
   PixelViewport \<Rightarrow> vec2i list \<Rightarrow> ('vp, 'fr) TileTaskPacket TileQueue \<Rightarrow>
   ('vp, 'fr) TileTaskPacket TileQueue option" where
  "addTilesToQueue tileVP computeTileFrustum eyeUsed pvp tiles tq =
     fold (\<lambda>tile. fold (enqueue_eye eyeUsed
             (\<lambda>eye. tile_packet tileVP computeTileFrustum pvp (tq_size tq) eye tile)) eyes)
       tiles (Some tq)"

definition generateTiles ::
  "(PixelViewport \<Rightarrow> PixelViewport \<Rightarrow> 'vp) \<Rightarrow> (Eye \<Rightarrow> 'vp \<Rightarrow> bool \<Rightarrow> 'fr) \<Rightarrow> (Eye \<Rightarrow> bool) \<Rightarrow>
   PixelViewport \<Rightarrow> ('vp, 'fr) TileTaskPacket TileQueue \<Rightarrow>
   ('vp, 'fr) TileTaskPacket TileQueue option" where
  "generateTiles tileVP computeTileFrustum eyeUsed pvp tq =
     (if \<not> pvp_hasArea pvp then Some tq
      else addTilesToQueue tileVP computeTileFrustum eyeUsed pvp
             (ZigzagStrategy [] (tile_dim pvp (tq_size tq))) tq)"

section \<open>Tiles as pixel sets\<close>

lemma tile_dim_grid:
  assumes "0 < w" "0 < s"
  shows "t < c_div w s + (if c_mod w s \<noteq> 0 then 1 else 0) \<longleftrightarrow> t * s < w"
proof -
  have "c_div w s + (if c_mod w s \<noteq> 0 then 1 else 0) = (w + s - 1) div s"
    using assms by (simp add: c_div_pos c_mod_pos ceil_div)
  moreover have "t < (w + s - 1) div s \<longleftrightarrow> (t + 1) * s \<le> w + s - 1"
    using le_zdiv_iff [OF assms(2), of "t + 1" "w + s - 1"] by linarith
  ultimately show ?thesis by (auto simp: algebra_simps)
qed

lemma tile_pvp_pixels:
  assumes "0 < fst sz" "0 < snd sz" "pvp_hasArea pvp" "tile \<in> grid (tile_dim pvp sz)"
  shows "pixels (tile_pvp pvp sz tile) =
    {(a, b). 0 \<le> a \<and> a < pvp_w pvp \<and> 0 \<le> b \<and> b < pvp_h pvp \<and> (a div fst sz, b div snd sz) = tile}"
proof -
  obtain x y where tile: "tile = (x, y)" by (cases tile)
  have xy: "0 \<le> x" "0 \<le> y" "x * fst sz < pvp_w pvp" "y * snd sz < pvp_h pvp"
    using assms by (auto simp: tile grid_def tile_dim_def tile_dim_grid pvp_hasArea_def)
  then have nn: "0 \<le> x * fst sz" "0 \<le> y * snd sz" using assms by auto
  show ?thesis
    using assms(1,2) xy nn
    by (auto simp: tile tile_pvp_def mk_pvp_def Let_def mem_pixels div_eq_pos_iff algebra_simps
        dest: order_trans [OF nn(1)] order_trans [OF nn(2)])
qed

lemma tile_of_pixel:
  assumes "0 < fst sz" "0 < snd sz" "pvp_hasArea pvp"
    and "0 \<le> a" "a < pvp_w pvp" "0 \<le> b" "b < pvp_h pvp"
  shows "(a div fst sz, b div snd sz) \<in> grid (tile_dim pvp sz)"
proof -
  have "a div fst sz * fst sz \<le> a" "b div snd sz * snd sz \<le> b"
    using assms(1,2) div_eq_pos_iff by blast+
  with assms show ?thesis
    by (auto simp: grid_def tile_dim_def tile_dim_grid pvp_hasArea_def pos_imp_zdiv_nonneg_iff)
qed

definition tiles_partition :: "PixelViewport \<Rightarrow> PixelViewport list \<Rightarrow> bool" where
  "tiles_partition pvp ts \<longleftrightarrow>
     (\<forall>t \<in> set ts. pixels t \<noteq> {} \<and> pixels t \<subseteq> {0..<pvp_w pvp} \<times> {0..<pvp_h pvp}) \<and>
     (\<forall>p \<in> {0..<pvp_w pvp} \<times> {0..<pvp_h pvp}. \<exists>!i. i < length ts \<and> p \<in> pixels (ts ! i))"

section \<open>A tile strategy covers the viewport exactly\<close>

locale tile_strategy =
  fixes strategy :: "vec2i list \<Rightarrow> vec2i \<Rightarrow> vec2i list"
    and admissible :: "vec2i \<Rightarrow> bool"
  assumes strategy_set: "admissible dim \<Longrightarrow> set (strategy [] dim) = grid dim"
    and strategy_distinct: "admissible dim \<Longrightarrow> distinct (strategy [] dim)"
begin

lemma strategy_length:
  assumes "admissible dim"
  shows "length (strategy [] dim) = nat (fst dim) * nat (snd dim)"
proof -
  have "length (strategy [] dim) = card (grid dim)"
    using distinct_card [OF strategy_distinct [OF assms]] strategy_set [OF assms] by simp
  then show ?thesis by (simp add: grid_def card_cartesian_product)
qed

lemma strategy_partition:
  assumes "0 < fst sz" "0 < snd sz" "pvp_hasArea pvp" "admissible (tile_dim pvp sz)"
  shows "tiles_partition pvp (map (tile_pvp pvp sz) (strategy [] (tile_dim pvp sz)))"
proof -
  let ?ts = "strategy [] (tile_dim pvp sz)"
  have g: "set ?ts = grid (tile_dim pvp sz)" "distinct ?ts"
    using assms(4) strategy_set strategy_distinct by auto
  have px: "pixels (tile_pvp pvp sz t) = {(a, b). 0 \<le> a \<and> a < pvp_w pvp \<and> 0 \<le> b \<and> b < pvp_h pvp \<and>
      (a div fst sz, b div snd sz) = t}" if "t \<in> set ?ts" for t
    using that assms g by (intro tile_pvp_pixels) auto
  have ne: "pixels (tile_pvp pvp sz t) \<noteq> {}" if "t \<in> set ?ts" for t
  proof -
    have "0 \<le> fst t" "0 \<le> snd t" "fst t * fst sz < pvp_w pvp" "snd t * snd sz < pvp_h pvp"
      using that assms g by (auto simp: grid_def tile_dim_def tile_dim_grid pvp_hasArea_def)
    then have "(fst t * fst sz, snd t * snd sz) \<in> pixels (tile_pvp pvp sz t)"
      using assms by (simp add: px [OF that])
    then show ?thesis by blast
  qed
  have ex: "\<exists>!i. i < length ?ts \<and> (a, b) \<in> pixels (tile_pvp pvp sz (?ts ! i))"
    if ab: "0 \<le> a" "a < pvp_w pvp" "0 \<le> b" "b < pvp_h pvp" for a b
  proof -
    have "(a div fst sz, b div snd sz) \<in> set ?ts"
      using tile_of_pixel [OF assms(1-3) ab] g by simp
    then obtain i where i: "i < length ?ts" "?ts ! i = (a div fst sz, b div snd sz)"
      by (metis in_set_conv_nth)
    show ?thesis
    proof (intro ex1I [of _ i] conjI i)
      show "(a, b) \<in> pixels (tile_pvp pvp sz (?ts ! i))"
        unfolding px [OF nth_mem [OF i(1)]] using ab i(2) by simp
      fix j assume "j < length ?ts \<and> (a, b) \<in> pixels (tile_pvp pvp sz (?ts ! j))"
      then show "j = i" using i g(2) by (auto simp: px nth_eq_iff_index_eq)
    qed
  qed
  show ?thesis
    unfolding tiles_partition_def using ne ex by (auto simp: px cong: conj_cong)
qed

end

interpretation raster: tile_strategy RasterStrategy "\<lambda>_. True"
  by unfold_locales (rule Raster_correct)+

interpretation zigzag: tile_strategy ZigzagStrategy "\<lambda>_. True"
  by unfold_locales (rule Zigzag_correct)+

interpretation spiral: tile_strategy SpiralStrategy
  "\<lambda>dim. 1 \<le> fst dim \<and> 1 \<le> snd dim \<and>
     (even (min (fst dim) (snd dim)) \<or> fst dim = snd dim \<or> fst dim = snd dim + 1)"
  by unfold_locales (simp_all add: Spiral_set Spiral_distinct)

section \<open>What the visitor enqueues\<close>

definition queue_items :: "'p TileQueue \<Rightarrow> nat \<Rightarrow> 'p list" where
  "queue_items tq i = concat (map lq_items (filter (\<lambda>q. lq_id q = i) (tq_queues tq)))"

definition tq_inv :: "'p TileQueue \<Rightarrow> bool" where
  "tq_inv tq \<longleftrightarrow> distinct (map lq_id (tq_queues tq)) \<and> (\<forall>q \<in> set (tq_queues tq). lq_id q < tq_next tq)"

lemma lq_push_id [simp]: "lq_id (lq_push p i q) = lq_id q"
  by (simp add: lq_push_def)

lemma lq_push_items: "lq_items (lq_push p i q) = lq_items q @ (if lq_id q = i then [p] else [])"
  by (simp add: lq_push_def)

lemma map_lq_push_ids [simp]: "map lq_id (map (lq_push p i) qs) = map lq_id qs"
  by simp

lemma queue_items_push:
  assumes "distinct (map lq_id qs)" "i \<in> lq_id ` set qs"
  shows "concat (map lq_items (filter (\<lambda>q. lq_id q = j) (map (lq_push p i) qs))) =
    concat (map lq_items (filter (\<lambda>q. lq_id q = j) qs)) @ (if j = i then [p] else [])"
  using assms
proof (induction qs)
  case (Cons q qs)
  have none: "filter (\<lambda>q. lq_id q = i) (map (lq_push p i) qs) = []" "filter (\<lambda>q. lq_id q = i) qs = []"
    if "i \<notin> lq_id ` set qs"
    using that by (auto simp: filter_empty_conv)
  have skip: "map (lq_push p i) qs = qs" if "i \<notin> lq_id ` set qs"
    using that by (intro map_idI) (auto simp: lq_push_def)
  show ?case
  proof (cases "lq_id q = i")
    case True
    then have "i \<notin> lq_id ` set qs" using Cons.prems by auto
    with True none skip show ?thesis by (cases "j = i") (auto simp: lq_push_items)
  next
    case False
    with Cons show ?thesis by (auto simp: lq_push_items)
  qed
qed simp

text \<open>The masters of the used eyes are pairwise different queues of the pool.\<close>

definition masters_ok :: "(Eye \<Rightarrow> bool) \<Rightarrow> 'p TileQueue \<Rightarrow> bool" where
  "masters_ok used tq \<longleftrightarrow>
     distinct (map lq_id (tq_queues tq)) \<and>
     (\<forall>e. used e \<longrightarrow> (\<exists>i. tq_master tq (eye_index e) = Some i \<and> i \<in> lq_id ` set (tq_queues tq))) \<and>
     (\<forall>e f. used e \<and> used f \<and> e \<noteq> f \<longrightarrow> tq_master tq (eye_index e) \<noteq> tq_master tq (eye_index f))"

lemma addTile_used:
  assumes "masters_ok used tq" "used e"
  shows "\<exists>tq'. TileQueue_addTile tq p e = Some tq' \<and> masters_ok used tq' \<and>
    tq_master tq' = tq_master tq \<and> tq_size tq' = tq_size tq \<and>
    (\<forall>f. used f \<longrightarrow> queue_items tq' (the (tq_master tq (eye_index f))) =
       queue_items tq (the (tq_master tq (eye_index f))) @ (if f = e then [p] else []))"
proof -
  from assms obtain i where i: "tq_master tq (eye_index e) = Some i" "i \<in> lq_id ` set (tq_queues tq)"
    by (auto simp: masters_ok_def)
  let ?tq = "tq\<lparr>tq_queues := map (lq_push p i) (tq_queues tq)\<rparr>"
  have "TileQueue_addTile tq p e = Some ?tq" by (simp add: TileQueue_addTile_def i)
  moreover have "masters_ok used ?tq"
    using assms by (auto simp: masters_ok_def image_image comp_def)
  moreover have "queue_items ?tq (the (tq_master tq (eye_index f))) =
       queue_items tq (the (tq_master tq (eye_index f))) @ (if f = e then [p] else [])" if "used f" for f
  proof -
    from that assms obtain j where j: "tq_master tq (eye_index f) = Some j" by (auto simp: masters_ok_def)
    then have "j = i \<longleftrightarrow> f = e" using assms that i by (metis masters_ok_def option.inject)
    then show ?thesis
      using queue_items_push [of "tq_queues tq" i j p] assms i j by (simp add: queue_items_def masters_ok_def)
  qed
  ultimately show ?thesis by auto
qed

lemma enqueue_eyes:
  assumes "masters_ok used tq" "distinct es"
  shows "\<exists>tq'. fold (enqueue_eye used pkt) es (Some tq) = Some tq' \<and> masters_ok used tq' \<and>
    tq_master tq' = tq_master tq \<and> tq_size tq' = tq_size tq \<and>
    (\<forall>f. used f \<longrightarrow> queue_items tq' (the (tq_master tq (eye_index f))) =
       queue_items tq (the (tq_master tq (eye_index f))) @ (if f \<in> set es then [pkt f] else []))"
  using assms
proof (induction es arbitrary: tq)
  case (Cons e es)
  show ?case
  proof (cases "used e")
    case False
    with Cons show ?thesis by (force simp: enqueue_eye_def)
  next
    case True
    from addTile_used [OF Cons.prems(1) True, of "pkt e"] obtain tq1 where tq1:
      "TileQueue_addTile tq (pkt e) e = Some tq1" "masters_ok used tq1"
      "tq_master tq1 = tq_master tq" "tq_size tq1 = tq_size tq"
      "\<forall>f. used f \<longrightarrow> queue_items tq1 (the (tq_master tq (eye_index f))) =
         queue_items tq (the (tq_master tq (eye_index f))) @ (if f = e then [pkt e] else [])"
      by blast
    have "distinct es" using Cons.prems by simp
    from Cons.IH [OF tq1(2) this] obtain tq2 where tq2:
      "fold (enqueue_eye used pkt) es (Some tq1) = Some tq2" "masters_ok used tq2"
      "tq_master tq2 = tq_master tq" "tq_size tq2 = tq_size tq"
      "\<forall>f. used f \<longrightarrow> queue_items tq2 (the (tq_master tq (eye_index f))) =
         queue_items tq1 (the (tq_master tq (eye_index f))) @ (if f \<in> set es then [pkt f] else [])"
      unfolding tq1(3,4) by blast
    have step: "enqueue_eye used pkt e (Some tq) = Some tq1"
      using True tq1(1) by (simp add: enqueue_eye_def)
    show ?thesis
      by (rule exI [of _ tq2]) (use tq1(5) tq2 step Cons.prems in auto)
  qed
qed simp

lemma mem_eyes [simp]: "e \<in> set eyes" "distinct eyes"
  by (cases e) (simp_all add: eyes_def)

lemma enqueue_tiles:
  assumes "masters_ok used tq"
  shows "\<exists>tq'. fold (\<lambda>tile. fold (enqueue_eye used (pkt tile)) eyes) tiles (Some tq) = Some tq' \<and>
    masters_ok used tq' \<and> tq_master tq' = tq_master tq \<and> tq_size tq' = tq_size tq \<and>
    (\<forall>f. used f \<longrightarrow> queue_items tq' (the (tq_master tq (eye_index f))) =
       queue_items tq (the (tq_master tq (eye_index f))) @ map (\<lambda>t. pkt t f) tiles)"
  using assms
proof (induction tiles arbitrary: tq)
  case (Cons t ts)
  from enqueue_eyes [OF Cons.prems mem_eyes(2), of "pkt t"] obtain tq1 where tq1:
    "fold (enqueue_eye used (pkt t)) eyes (Some tq) = Some tq1" "masters_ok used tq1"
    "tq_master tq1 = tq_master tq" "tq_size tq1 = tq_size tq"
    "\<forall>f. used f \<longrightarrow> queue_items tq1 (the (tq_master tq (eye_index f))) =
       queue_items tq (the (tq_master tq (eye_index f))) @ [pkt t f]"
    by auto
  from Cons.IH [OF tq1(2)] obtain tq2 where tq2:
    "fold (\<lambda>tile. fold (enqueue_eye used (pkt tile)) eyes) ts (Some tq1) = Some tq2" "masters_ok used tq2"
    "tq_master tq2 = tq_master tq" "tq_size tq2 = tq_size tq"
    "\<forall>f. used f \<longrightarrow> queue_items tq2 (the (tq_master tq (eye_index f))) =
       queue_items tq1 (the (tq_master tq (eye_index f))) @ map (\<lambda>t. pkt t f) ts"
    unfolding tq1(3,4) by blast
  show ?case
    by (rule exI [of _ tq2]) (use tq1 tq2 in auto)
qed simp

lemma generateTiles_enqueues:
  assumes "masters_ok used tq" "used e" "pvp_hasArea pvp"
  shows "\<exists>tq'. generateTiles tileVP frustum used pvp tq = Some tq' \<and> tq_master tq' = tq_master tq \<and>
    queue_items tq' (the (tq_master tq (eye_index e))) = queue_items tq (the (tq_master tq (eye_index e))) @
      map (tile_packet tileVP frustum pvp (tq_size tq) e) (ZigzagStrategy [] (tile_dim pvp (tq_size tq)))"
  using enqueue_tiles [OF assms(1), of "\<lambda>t e. tile_packet tileVP frustum pvp (tq_size tq) e t"
      "ZigzagStrategy [] (tile_dim pvp (tq_size tq))"] assms(2,3)
  by (auto simp: generateTiles_def addTilesToQueue_def)

section \<open>Cycling the pool of latency queues\<close>

lemma cycle_eye_inv:
  assumes "tq_inv tq"
  shows "tq_inv (cycle_eye fr lat active i tq)"
proof (cases "tq_queues tq = []")
  case True
  with assms show ?thesis by (auto simp: cycle_eye_def tq_inv_def Let_def)
next
  case False
  then have qs: "tq_queues tq = butlast (tq_queues tq) @ [last (tq_queues tq)]" by simp
  then have d: "distinct (map lq_id (butlast (tq_queues tq)) @ [lq_id (last (tq_queues tq))])"
    using assms unfolding tq_inv_def by (metis list.simps(8) list.simps(9) map_append)
  show ?thesis
    using assms d False by (auto simp: cycle_eye_def tq_inv_def Let_def dest: in_set_butlastD)
qed

lemma cycle_eye_keeps:
  assumes "q \<in> set (tq_queues tq)" "unat fr \<le> unat (lq_frame q) + unat lat"
  shows "q \<in> set (tq_queues (cycle_eye fr lat active i tq))"
proof (cases "lq_frame (last (tq_queues tq)) < fr - lat \<and> fr > lat")
  case True
  then have "unat (lq_frame (last (tq_queues tq))) < unat fr - unat lat"
    by (auto simp: word_less_nat_alt unat_sub_le)
  with assms(2) have "q \<noteq> last (tq_queues tq)" by auto
  with assms(1) have "q \<in> set (butlast (tq_queues tq))"
    by (metis append_butlast_last_id empty_iff empty_set insert_iff list.set(2) rotate1.simps(2) set_rotate1)
  with assms(1) show ?thesis by (auto simp: cycle_eye_def Let_def)
next
  case False
  with assms(1) show ?thesis by (auto simp: cycle_eye_def Let_def)
qed

definition eye_ready :: "u32 \<Rightarrow> nat \<Rightarrow> 'p TileQueue \<Rightarrow> bool" where
  "eye_ready fr i tq \<longleftrightarrow>
     (\<exists>q \<in> set (tq_queues tq). tq_master tq i = Some (lq_id q) \<and> lq_frame q = fr \<and> lq_items q = [])"

definition cycled :: "u32 \<Rightarrow> (nat \<Rightarrow> bool) \<Rightarrow> nat \<Rightarrow> 'p TileQueue \<Rightarrow> bool" where
  "cycled fr active k tq \<longleftrightarrow> tq_inv tq \<and>
     (\<forall>i<k. if active i then eye_ready fr i tq else tq_master tq i = None) \<and>
     (\<forall>i<k. \<forall>j<k. active i \<and> active j \<and> i \<noteq> j \<longrightarrow> tq_master tq i \<noteq> tq_master tq j)"

lemma cycle_eye_master_other: "j \<noteq> i \<Longrightarrow> tq_master (cycle_eye fr lat active i tq) j = tq_master tq j"
  by (simp add: cycle_eye_def Let_def)

lemma eye_ready_step:
  assumes "eye_ready fr j tq" "j \<noteq> i"
  shows "eye_ready fr j (cycle_eye fr lat active i tq)"
  using assms cycle_eye_keeps [where fr = fr and tq = tq]
  unfolding eye_ready_def by (force simp: cycle_eye_master_other)

lemma cycle_eye_ready:
  assumes "active i"
  shows "eye_ready fr i (cycle_eye fr lat active i tq)"
  using assms by (auto simp: eye_ready_def cycle_eye_def Let_def)

lemma cycle_eye_fresh:
  assumes "tq_inv tq" "eye_ready fr j tq" "j \<noteq> i" "active i"
  shows "tq_master (cycle_eye fr lat active i tq) i \<noteq> tq_master tq j"
proof -
  from assms(2) obtain q where q: "q \<in> set (tq_queues tq)" "tq_master tq j = Some (lq_id q)" "lq_frame q = fr"
    by (auto simp: eye_ready_def)
  have old: "lq_id (last (tq_queues tq)) \<noteq> lq_id q" if "lq_frame (last (tq_queues tq)) < fr - lat" "lat < fr"
  proof
    assume "lq_id (last (tq_queues tq)) = lq_id q"
    moreover have "last (tq_queues tq) \<in> set (tq_queues tq)" using q(1) by (cases "tq_queues tq") auto
    ultimately have "last (tq_queues tq) = q"
      using assms(1) q(1) by (auto simp: tq_inv_def distinct_map inj_on_def)
    with that q(3) show False
      by (simp add: word_less_nat_alt unat_sub_le)
  qed
  have "lq_id q < tq_next tq" using assms(1) q(1) by (auto simp: tq_inv_def)
  with old q assms(4) show ?thesis by (auto simp: cycle_eye_def Let_def)
qed

lemma cycled_step:
  assumes "cycled fr active k tq"
  shows "cycled fr active (Suc k) (cycle_eye fr lat active k tq)"
  using assms cycle_eye_inv [of tq fr lat active k] cycle_eye_fresh [of tq fr _ k active lat]
  unfolding cycled_def
  by (auto simp: less_Suc_eq cycle_eye_master_other eye_ready_step cycle_eye_ready; force simp: cycle_eye_def)

lemma cycleData_unfold:
  "TileQueue_cycleData fr lat active tq =
     cycle_eye fr lat active 2 (cycle_eye fr lat active 1 (cycle_eye fr lat active 0 tq))"
  by (simp add: TileQueue_cycleData_def NUM_EYES_def numeral_3_eq_3 numeral_2_eq_2)

lemma cycleData_cycled:
  assumes "tq_inv tq"
  shows "cycled fr active 3 (TileQueue_cycleData fr lat active tq)"
proof -
  have "cycled fr active 0 tq" using assms by (simp add: cycled_def)
  from cycled_step [OF cycled_step [OF cycled_step [OF this]]] show ?thesis
    by (simp add: cycleData_unfold numeral_3_eq_3 numeral_2_eq_2)
qed

lemma cycleData_keeps:
  assumes "q \<in> set (tq_queues tq)" "unat fr \<le> unat (lq_frame q) + unat lat"
  shows "q \<in> set (tq_queues (TileQueue_cycleData fr lat active tq))"
  unfolding cycleData_unfold by (intro cycle_eye_keeps assms)

lemma eye_index_less [simp]: "eye_index e < 3"
  by (cases e) auto

lemma eye_index_inj [simp]: "eye_index e = eye_index f \<longleftrightarrow> e = f"
  by (cases e; cases f) auto

lemma queue_items_ready:
  assumes "tq_inv tq" "eye_ready fr i tq"
  shows "queue_items tq (the (tq_master tq i)) = []"
proof -
  from assms(2) obtain q where q: "q \<in> set (tq_queues tq)" "tq_master tq i = Some (lq_id q)" "lq_items q = []"
    by (auto simp: eye_ready_def)
  then have "q' = q" if "q' \<in> set (tq_queues tq)" "lq_id q' = lq_id q" for q'
    using that assms(1) by (auto simp: tq_inv_def distinct_map inj_on_def)
  with q show ?thesis by (auto simp: queue_items_def)
qed

lemma cycled_masters_ok:
  assumes "cycled fr active 3 tq"
  shows "masters_ok (\<lambda>e. active (eye_index e)) tq"
    and "active (eye_index e) \<Longrightarrow> queue_items tq (the (tq_master tq (eye_index e))) = []"
proof -
  show "masters_ok (\<lambda>e. active (eye_index e)) tq"
    using assms unfolding cycled_def masters_ok_def tq_inv_def eye_ready_def
    by (smt (verit, best) eye_index_inj eye_index_less image_eqI)
  show "queue_items tq (the (tq_master tq (eye_index e))) = []" if "active (eye_index e)"
    using assms that by (intro queue_items_ready [of _ fr]) (auto simp: cycled_def)
qed

lemma cycle_eye_size [simp]: "tq_size (cycle_eye fr lat active i tq) = tq_size tq"
  by (simp add: cycle_eye_def Let_def)

lemma cycleData_size [simp]: "tq_size (TileQueue_cycleData fr lat active tq) = tq_size tq"
  by (simp add: cycleData_unfold)

section \<open>Properties\<close>

text \<open>
  C3. One frame of an output tile queue: after \<open>cycleData\<close> and \<open>_generateTiles\<close>, the
  queue of every active eye holds tiles whose pixel rectangles partition the compound's
  viewport: each pixel lies in exactly one tile, no tile is empty and none sticks out.
\<close>
theorem tiles_cover_viewport:
  assumes "tq_inv tq" "0 < fst (tq_size tq)" "0 < snd (tq_size tq)" "pvp_hasArea pvp"
    and "active (eye_index e)"
  shows "\<exists>tq'. generateTiles tileVP frustum (\<lambda>e. active (eye_index e)) pvp
             (TileQueue_cycleData fr lat active tq) = Some tq' \<and>
           tiles_partition pvp (map tile_pvp_of (queue_items tq' (the (tq_master tq' (eye_index e)))))"
proof -
  let ?tq = "TileQueue_cycleData fr lat active tq"
  note c = cycled_masters_ok [OF cycleData_cycled [OF assms(1), of fr active lat]]
  from generateTiles_enqueues [OF c(1) assms(5,4), of tileVP frustum] obtain tq' where
    tq': "generateTiles tileVP frustum (\<lambda>e. active (eye_index e)) pvp ?tq = Some tq'"
      "tq_master tq' = tq_master ?tq"
      "queue_items tq' (the (tq_master ?tq (eye_index e))) =
        map (tile_packet tileVP frustum pvp (tq_size tq) e) (ZigzagStrategy [] (tile_dim pvp (tq_size tq)))"
    using c(2) [OF assms(5)] by auto
  then show ?thesis
    using zigzag.strategy_partition [OF assms(2-4)] by (simp add: tile_packet_def Let_def comp_def)
qed

theorem tiles_cover_viewport_witness:
  "\<exists>tq'. generateTiles (\<lambda>_ _. ()) (\<lambda>_ _ _. ()) (\<lambda>e. (\<lambda>i. i = 0) (eye_index e)) (mk_pvp 0 0 5 3)
       (TileQueue_cycleData 1 1 (\<lambda>i. i = 0)
         \<lparr>tq_size = (2, 2), tq_queues = [], tq_master = (\<lambda>_. None), tq_output = (\<lambda>_. None), tq_next = 0\<rparr>)
       = Some tq' \<and>
     tiles_partition (mk_pvp 0 0 5 3)
       (map tile_pvp_of (queue_items tq' (the (tq_master tq' (eye_index EYE_CYCLOP)))))"
  by (rule tiles_cover_viewport) (simp_all add: tq_inv_def mk_pvp_def pvp_hasArea_def)

text \<open>
  C34. Cycling a tile queue never touches a queue that is still within the latency of the
  current frame: its object, its frame number and its tiles survive unchanged, so render
  nodes that still work on it do not lose tiles.
\<close>
theorem cycleData_preserves_in_use:
  assumes "q \<in> set (tq_queues tq)" "unat fr \<le> unat (lq_frame q) + unat lat"
  shows "q \<in> set (tq_queues (TileQueue_cycleData fr lat active tq))"
  by (rule cycleData_keeps [OF assms])

theorem cycleData_preserves_in_use_witness:
  "\<lparr>lq_id = 0, lq_frame = 4, lq_items = [7::nat]\<rparr> \<in> set (tq_queues (TileQueue_cycleData 5 1 (\<lambda>_. True)
     \<lparr>tq_size = (2, 2), tq_queues = [\<lparr>lq_id = 0, lq_frame = 4, lq_items = [7]\<rparr>],
      tq_master = (\<lambda>_. None), tq_output = (\<lambda>_. None), tq_next = 1\<rparr>))"
  by (rule cycleData_preserves_in_use) simp_all

text \<open>
  The spiral strategy visits every tile of a non-empty grid, and visits each tile once
  exactly when the smaller dimension is even, the grid is square, or it is one tile wider
  than high; on every other grid the innermost ring collapses to a line that is emitted twice.
\<close>
theorem Spiral_covers_and_repeats:
  assumes "1 \<le> fst dim" "1 \<le> snd dim"
  shows "set (SpiralStrategy [] dim) = grid dim \<and>
    (distinct (SpiralStrategy [] dim) \<longleftrightarrow>
       even (min (fst dim) (snd dim)) \<or> fst dim = snd dim \<or> fst dim = snd dim + 1)"
  using Spiral_set [OF assms] Spiral_distinct [OF assms] by simp

theorem Spiral_covers_and_repeats_witness:
  "set (SpiralStrategy [] (1, 3)) = grid (1, 3) \<and> \<not> distinct (SpiralStrategy [] (1, 3))"
  using Spiral_covers_and_repeats [of "(1, 3)"] by simp

end
