(* ===== verification/Swizzle.thy ===== *)
theory Swizzle
  imports Prelude
begin

text \<open>
  The pixel-to-component mappings of the run-length compressors
  (\<open>libs/co/compressor/compressorRLE*.cpp\<close>): the classes \<open>NoSwizzle\<close>, \<open>SwizzleUInt32\<close>,
  \<open>SwizzleUInt24\<close> and \<open>Swizzle\<close> of the anonymous namespaces. A swizzle splits a pixel into
  component tokens, a deswizzle joins tokens to a pixel. The masks \<open>LB_BITn\<close> are the
  bit constants the sources use; bit 1 is the least significant one.
  Each family is a word-level permutation followed by the plain split of its width; the
  three-component variants drop the alpha component and deliver it as zero.
\<close>

section \<open>Bit masks\<close>

definition LB_BIT :: "nat \<Rightarrow> 'a::len word" where
  "LB_BIT n = push_bit (n - 1) 1"

definition lb_bits :: "nat list \<Rightarrow> 'a::len word" where
  "lb_bits ns = foldr (\<lambda>n acc. LB_BIT n OR acc) ns 0"

lemma bit_LB_BIT [simp]: "bit (LB_BIT n :: 'a::len word) k \<longleftrightarrow> k = n - 1 \<and> k < LENGTH('a)"
  by (auto simp: LB_BIT_def bit_exp_iff)

lemma bit_lb_bits [simp]: "bit (lb_bits ns :: 'a::len word) k \<longleftrightarrow> k < LENGTH('a) \<and> (\<exists>n \<in> set ns. k = n - 1)"
  by (induction ns) (auto simp: lb_bits_def bit_or_iff)

section \<open>Four bytes: \<open>compressorRLE4B.cpp\<close>\<close>

definition NoSwizzle_swizzle4 :: "u32 \<Rightarrow> u8 \<times> u8 \<times> u8 \<times> u8" where
  "NoSwizzle_swizzle4 input =
     (ucast (input AND 0xff), ucast (drop_bit 8 (input AND 0xff00)),
      ucast (drop_bit 16 (input AND 0xff0000)), ucast (drop_bit 24 (input AND 0xff000000)))"

definition NoSwizzle_swizzle3 :: "u32 \<Rightarrow> u8 \<times> u8 \<times> u8" where
  "NoSwizzle_swizzle3 input =
     (ucast (input AND 0xff), ucast (drop_bit 8 (input AND 0xff00)),
      ucast (drop_bit 16 (input AND 0xff0000)))"

definition NoSwizzle_deswizzle4 :: "u8 \<times> u8 \<times> u8 \<times> u8 \<Rightarrow> u32" where
  "NoSwizzle_deswizzle4 c = (case c of (one, two, three, four) \<Rightarrow>
     ucast one + push_bit 8 (ucast two) + push_bit 16 (ucast three) + push_bit 24 (ucast four))"

definition NoSwizzle_deswizzle3 :: "u8 \<times> u8 \<times> u8 \<Rightarrow> u32" where
  "NoSwizzle_deswizzle3 c = (case c of (one, two, three) \<Rightarrow>
     ucast one + push_bit 8 (ucast two) + push_bit 16 (ucast three))"

definition SwizzleUInt32_swizzle :: "u32 \<Rightarrow> u8 \<times> u8 \<times> u8 \<times> u8" where
  "SwizzleUInt32_swizzle input = NoSwizzle_swizzle4
     ((input AND lb_bits [32, 31, 22, 21, 12, 11, 2, 1]) OR
      push_bit 18 (input AND lb_bits [8, 7]) OR
      push_bit 6 (input AND lb_bits [24, 23, 14, 13]) OR
      push_bit 12 (input AND lb_bits [16, 15, 6, 5, 4, 3]) OR
      drop_bit 18 (input AND lb_bits [28, 27, 26, 25]) OR
      drop_bit 12 (input AND lb_bits [18, 17]) OR
      drop_bit 6 (input AND lb_bits [30, 29, 20, 19, 10, 9]))"

definition SwizzleUInt32_deswizzle :: "u8 \<times> u8 \<times> u8 \<times> u8 \<Rightarrow> u32" where
  "SwizzleUInt32_deswizzle c =
     (let input = NoSwizzle_deswizzle4 c in
      (input AND lb_bits [32, 31, 22, 21, 11, 12, 2, 1]) OR
      drop_bit 18 (input AND lb_bits [26, 25]) OR
      drop_bit 6 (input AND lb_bits [30, 29, 20, 19]) OR
      drop_bit 12 (input AND lb_bits [28, 27, 18, 17, 16, 15]) OR
      push_bit 18 (input AND lb_bits [10, 9, 8, 7]) OR
      push_bit 12 (input AND lb_bits [6, 5]) OR
      push_bit 6 (input AND lb_bits [24, 23, 14, 13, 4, 3]))"

definition SwizzleUInt24_swizzle :: "u32 \<Rightarrow> u8 \<times> u8 \<times> u8" where
  "SwizzleUInt24_swizzle input = NoSwizzle_swizzle3
     ((input AND lb_bits [24, 23, 22, 13, 12, 3, 2, 1]) OR
      push_bit 5 (input AND lb_bits [16, 15, 14]) OR
      drop_bit 5 (input AND lb_bits [11, 10, 9]) OR
      push_bit 10 (input AND lb_bits [8, 7, 6, 5, 4]) OR
      drop_bit 10 (input AND lb_bits [21, 20, 19, 18, 17]))"

definition SwizzleUInt24_deswizzle :: "u8 \<times> u8 \<times> u8 \<Rightarrow> u32" where
  "SwizzleUInt24_deswizzle c =
     (let input = NoSwizzle_deswizzle3 c in
      (input AND lb_bits [24, 23, 22, 13, 12, 3, 2, 1]) OR
      drop_bit 5 (input AND lb_bits [21, 20, 19]) OR
      push_bit 5 (input AND lb_bits [6, 5, 4]) OR
      drop_bit 10 (input AND lb_bits [18, 17, 16, 15, 14]) OR
      push_bit 10 (input AND lb_bits [11, 10, 9, 8, 7]))"

section \<open>YUV: \<open>compressorRLEYUV.cpp\<close>\<close>

text \<open>The sources repeat the classes of the four-byte compressor here.\<close>

definition YUV_NoSwizzle_swizzle4 :: "u32 \<Rightarrow> u8 \<times> u8 \<times> u8 \<times> u8" where
  "YUV_NoSwizzle_swizzle4 input =
     (ucast (input AND 0xff), ucast (drop_bit 8 (input AND 0xff00)),
      ucast (drop_bit 16 (input AND 0xff0000)), ucast (drop_bit 24 (input AND 0xff000000)))"

definition YUV_NoSwizzle_swizzle3 :: "u32 \<Rightarrow> u8 \<times> u8 \<times> u8" where
  "YUV_NoSwizzle_swizzle3 input =
     (ucast (input AND 0xff), ucast (drop_bit 8 (input AND 0xff00)),
      ucast (drop_bit 16 (input AND 0xff0000)))"

definition YUV_NoSwizzle_deswizzle4 :: "u8 \<times> u8 \<times> u8 \<times> u8 \<Rightarrow> u32" where
  "YUV_NoSwizzle_deswizzle4 c = (case c of (one, two, three, four) \<Rightarrow>
     ucast one + push_bit 8 (ucast two) + push_bit 16 (ucast three) + push_bit 24 (ucast four))"

definition YUV_NoSwizzle_deswizzle3 :: "u8 \<times> u8 \<times> u8 \<Rightarrow> u32" where
  "YUV_NoSwizzle_deswizzle3 c = (case c of (one, two, three) \<Rightarrow>
     ucast one + push_bit 8 (ucast two) + push_bit 16 (ucast three))"

definition YUV_SwizzleUInt32_swizzle :: "u32 \<Rightarrow> u8 \<times> u8 \<times> u8 \<times> u8" where
  "YUV_SwizzleUInt32_swizzle input = YUV_NoSwizzle_swizzle4
     ((input AND lb_bits [32, 31, 22, 21, 12, 11, 2, 1]) OR
      push_bit 18 (input AND lb_bits [8, 7]) OR
      push_bit 6 (input AND lb_bits [24, 23, 14, 13]) OR
      push_bit 12 (input AND lb_bits [16, 15, 6, 5, 4, 3]) OR
      drop_bit 18 (input AND lb_bits [28, 27, 26, 25]) OR
      drop_bit 12 (input AND lb_bits [18, 17]) OR
      drop_bit 6 (input AND lb_bits [30, 29, 20, 19, 10, 9]))"

definition YUV_SwizzleUInt32_deswizzle :: "u8 \<times> u8 \<times> u8 \<times> u8 \<Rightarrow> u32" where
  "YUV_SwizzleUInt32_deswizzle c =
     (let input = YUV_NoSwizzle_deswizzle4 c in
      (input AND lb_bits [32, 31, 22, 21, 11, 12, 2, 1]) OR
      drop_bit 18 (input AND lb_bits [26, 25]) OR
      drop_bit 6 (input AND lb_bits [30, 29, 20, 19]) OR
      drop_bit 12 (input AND lb_bits [28, 27, 18, 17, 16, 15]) OR
      push_bit 18 (input AND lb_bits [10, 9, 8, 7]) OR
      push_bit 12 (input AND lb_bits [6, 5]) OR
      push_bit 6 (input AND lb_bits [24, 23, 14, 13, 4, 3]))"

definition YUV_SwizzleUInt24_swizzle :: "u32 \<Rightarrow> u8 \<times> u8 \<times> u8" where
  "YUV_SwizzleUInt24_swizzle input = YUV_NoSwizzle_swizzle3
     ((input AND lb_bits [24, 23, 22, 13, 12, 3, 2, 1]) OR
      push_bit 5 (input AND lb_bits [16, 15, 14]) OR
      drop_bit 5 (input AND lb_bits [11, 10, 9]) OR
      push_bit 10 (input AND lb_bits [8, 7, 6, 5, 4]) OR
      drop_bit 10 (input AND lb_bits [21, 20, 19, 18, 17]))"

definition YUV_SwizzleUInt24_deswizzle :: "u8 \<times> u8 \<times> u8 \<Rightarrow> u32" where
  "YUV_SwizzleUInt24_deswizzle c =
     (let input = YUV_NoSwizzle_deswizzle3 c in
      (input AND lb_bits [24, 23, 22, 13, 12, 3, 2, 1]) OR
      drop_bit 5 (input AND lb_bits [21, 20, 19]) OR
      push_bit 5 (input AND lb_bits [6, 5, 4]) OR
      drop_bit 10 (input AND lb_bits [18, 17, 16, 15, 14]) OR
      push_bit 10 (input AND lb_bits [11, 10, 9, 8, 7]))"

section \<open>RGB 565: \<open>compressorRLE565.cpp\<close>\<close>

definition RGB565_NoSwizzle_swizzle4 :: "u32 \<Rightarrow> u8 \<times> u8 \<times> u8 \<times> u8" where
  "RGB565_NoSwizzle_swizzle4 input =
     (ucast (input AND 0xff), ucast (drop_bit 8 (input AND 0xff00)),
      ucast (drop_bit 16 (input AND 0xff0000)), ucast (drop_bit 24 (input AND 0xff000000)))"

definition RGB565_NoSwizzle_swizzle3 :: "u32 \<Rightarrow> u8 \<times> u8 \<times> u8" where
  "RGB565_NoSwizzle_swizzle3 input =
     (ucast (input AND 0xff), ucast (drop_bit 8 (input AND 0xff00)),
      ucast (drop_bit 16 (input AND 0xff0000)))"

definition RGB565_swizzle4 :: "u32 \<Rightarrow> u8 \<times> u8 \<times> u8 \<times> u8" where
  "RGB565_swizzle4 input = RGB565_NoSwizzle_swizzle4
     (drop_bit 3 (input AND lb_bits [6, 5, 4]) OR
      drop_bit 8 (input AND lb_bits [14, 13, 12]) OR
      push_bit 5 (input AND lb_bits [8, 7]) OR
      drop_bit 13 (input AND lb_bits [24, 23, 22, 21, 20]) OR
      drop_bit 1 (input AND lb_bits [16, 15]) OR
      drop_bit 16 (input AND lb_bits [32]))"

definition RGB565_deswizzle4 :: "u8 \<times> u8 \<times> u8 \<times> u8 \<Rightarrow> u32" where
  "RGB565_deswizzle4 c = (case c of (one, two, three, four) \<Rightarrow>
     let input = ucast one + push_bit 8 (ucast two) + push_bit 16 (ucast three) + push_bit 24 (ucast four) in
      (push_bit 3 (input AND lb_bits [3, 2, 1]) OR
       push_bit 8 (input AND lb_bits [6, 5, 4]) OR
       drop_bit 5 (input AND lb_bits [13, 12]) OR
       push_bit 13 (input AND lb_bits [11, 10, 9, 8, 7]) OR
       push_bit 1 (input AND lb_bits [15, 14]) OR
       push_bit 16 (input AND lb_bits [16])) OR 0x3f040404)"

definition RGB565_swizzle3 :: "u32 \<Rightarrow> u8 \<times> u8 \<times> u8" where
  "RGB565_swizzle3 input = RGB565_NoSwizzle_swizzle3
     (drop_bit 3 (input AND lb_bits [6, 5, 4]) OR
      drop_bit 7 (input AND lb_bits [13, 12, 11]) OR
      push_bit 5 (input AND lb_bits [8, 7]) OR
      drop_bit 13 (input AND lb_bits [24, 23, 22, 21, 20]) OR
      (input AND lb_bits [16, 15, 14]))"

definition RGB565_deswizzle3 :: "u8 \<times> u8 \<times> u8 \<Rightarrow> u32" where
  "RGB565_deswizzle3 c = (case c of (one, two, three) \<Rightarrow>
     let input = ucast one + push_bit 8 (ucast two) + push_bit 16 (ucast three) in
      ((push_bit 3 (input AND lb_bits [3, 2, 1]) OR
        push_bit 7 (input AND lb_bits [6, 5, 4]) OR
        drop_bit 5 (input AND lb_bits [13, 12]) OR
        push_bit 13 (input AND lb_bits [11, 10, 9, 8, 7]) OR
        (input AND lb_bits [16, 15, 14])) AND 0xf8fcf8) OR 0x020202)"

section \<open>RGB10 A2: \<open>compressorRLE10A2.cpp\<close>\<close>

definition RGB10A2_swizzle :: "u32 \<Rightarrow> u8 \<times> u8 \<times> u8 \<times> u8" where
  "RGB10A2_swizzle input =
     (ucast ((input AND 0xf) OR drop_bit 8 (input AND lb_bits [14, 13]) OR
             drop_bit 16 (input AND lb_bits [24, 23])),
      ucast (drop_bit 24 (input AND lb_bits [26, 25]) OR (input AND lb_bits [6, 5]) OR
             drop_bit 12 (input AND lb_bits [16, 15]) OR drop_bit 4 (input AND lb_bits [12, 11])),
      ucast (drop_bit 22 (input AND lb_bits [28, 27]) OR drop_bit 14 (input AND lb_bits [18, 17]) OR
             (input AND lb_bits [8, 7]) OR drop_bit 20 (input AND lb_bits [22, 21])),
      ucast (drop_bit 24 (input AND lb_bits [32, 31, 30, 29]) OR drop_bit 16 (input AND lb_bits [20, 19]) OR
             drop_bit 8 (input AND lb_bits [10, 9])))"

definition RGB10A2_deswizzle :: "u8 \<times> u8 \<times> u8 \<times> u8 \<Rightarrow> u32" where
  "RGB10A2_deswizzle c = (case c of (one8, two8, three8, four8) \<Rightarrow>
     let one = ucast one8; two = ucast two8; three = ucast three8; four = ucast four8 in
     (one AND 0xf) OR push_bit 8 (one AND lb_bits [5, 6]) OR push_bit 16 (one AND lb_bits [7, 8]) OR
     push_bit 24 (two AND lb_bits [1, 2]) OR push_bit 12 (two AND lb_bits [3, 4]) OR (two AND 0x30) OR
     push_bit 4 (two AND lb_bits [7, 8]) OR (three AND 0xc0) OR push_bit 22 (three AND lb_bits [6, 5]) OR
     push_bit 14 (three AND lb_bits [4, 3]) OR push_bit 20 (three AND lb_bits [2, 1]) OR
     push_bit 24 (four AND 0xf0) OR push_bit 16 (four AND lb_bits [4, 3]) OR
     push_bit 8 (four AND lb_bits [2, 1]))"

section \<open>Half floats: \<open>compressorRLE4HF.cpp\<close>\<close>

definition HF_NoSwizzle_swizzle4 :: "u64 \<Rightarrow> u16 \<times> u16 \<times> u16 \<times> u16" where
  "HF_NoSwizzle_swizzle4 input =
     (ucast (input AND 0xffff), ucast (drop_bit 16 (input AND 0xffff0000)),
      ucast (drop_bit 32 (input AND 0xffff00000000)), ucast (drop_bit 48 (input AND 0xffff000000000000)))"

definition HF_NoSwizzle_swizzle3 :: "u64 \<Rightarrow> u16 \<times> u16 \<times> u16" where
  "HF_NoSwizzle_swizzle3 input =
     (ucast (input AND 0xffff), ucast (drop_bit 16 (input AND 0xffff0000)),
      ucast (drop_bit 32 (input AND 0xffff00000000)))"

definition HF_NoSwizzle_deswizzle4 :: "u16 \<times> u16 \<times> u16 \<times> u16 \<Rightarrow> u64" where
  "HF_NoSwizzle_deswizzle4 c = (case c of (one, two, three, four) \<Rightarrow>
     ucast one + push_bit 16 (ucast two) + push_bit 32 (ucast three) + push_bit 48 (ucast four))"

definition HF_NoSwizzle_deswizzle3 :: "u16 \<times> u16 \<times> u16 \<Rightarrow> u64" where
  "HF_NoSwizzle_deswizzle3 c = (case c of (one, two, three) \<Rightarrow>
     ucast one + push_bit 16 (ucast two) + push_bit 32 (ucast three))"

definition HF_Swizzle_swizzle4 :: "u64 \<Rightarrow> u16 \<times> u16 \<times> u16 \<times> u16" where
  "HF_Swizzle_swizzle4 input = HF_NoSwizzle_swizzle4
     ((input AND 0xffc0000007c0001f) OR drop_bit 11 (input AND 0x3f0000) OR
      drop_bit 21 (input AND 0x7ff00000000) OR push_bit 22 (input AND 0xc0003fe0) OR
      push_bit 9 (input AND 0x38000000) OR drop_bit 9 (input AND 0x3f000000000000) OR
      push_bit 2 (input AND 0xf80000000000) OR push_bit 36 (input AND 0xc000))"

definition HF_Swizzle_swizzle3 :: "u64 \<Rightarrow> u16 \<times> u16 \<times> u16" where
  "HF_Swizzle_swizzle3 input = HF_NoSwizzle_swizzle3
     ((input AND 0xc073070c380) OR drop_bit 38 (input AND 0x3c000000000) OR
      drop_bit 19 (input AND 0x3800000) OR drop_bit 36 (input AND 0xc00000000000) OR
      drop_bit 18 (input AND 0x3000c0000000) OR
      push_bit 13 (input AND 0x78) OR drop_bit 12 (input AND 0x3800000000) OR
      push_bit 36 (input AND 0xc00) OR push_bit 39 (input AND 0x7) OR
      push_bit 18 (input AND 0xc003000) OR push_bit 19 (input AND 0xf0000))"

definition HF_Swizzle_deswizzle4 :: "u16 \<times> u16 \<times> u16 \<times> u16 \<Rightarrow> u64" where
  "HF_Swizzle_deswizzle4 c =
     (let output = HF_NoSwizzle_deswizzle4 c in
      (output AND 0xffc0000007c0001f) OR push_bit 11 (output AND 0x7e0) OR
      push_bit 21 (output AND 0x3ff800) OR drop_bit 22 (output AND 0x30000ff8000000) OR
      drop_bit 9 (output AND 0x7000000000) OR push_bit 9 (output AND 0x1f8000000000) OR
      drop_bit 2 (output AND 0x3e00000000000) OR drop_bit 36 (output AND 0xc000000000000))"

definition HF_Swizzle_deswizzle3 :: "u16 \<times> u16 \<times> u16 \<Rightarrow> u64" where
  "HF_Swizzle_deswizzle3 c =
     (let output = HF_NoSwizzle_deswizzle3 c in
      (output AND 0xc073070c380) OR push_bit 38 (output AND 0xf) OR push_bit 19 (output AND 0x70) OR
      push_bit 36 (output AND 0xc00) OR push_bit 18 (output AND 0xc003000) OR
      drop_bit 13 (output AND 0xf0000) OR push_bit 12 (output AND 0x3800000) OR
      drop_bit 36 (output AND 0xc00000000000) OR drop_bit 39 (output AND 0x38000000000) OR
      drop_bit 18 (output AND 0x3000c0000000) OR drop_bit 19 (output AND 0x7800000000))"

section \<open>Deciding word equations bit by bit\<close>

lemma all_less_32:
  "(\<forall>k < 32. P k) \<longleftrightarrow> P 0 \<and> P 1 \<and> P 2 \<and> P 3 \<and> P 4 \<and> P 5 \<and> P 6 \<and> P 7 \<and> P 8 \<and> P 9 \<and> P 10 \<and>
     P 11 \<and> P 12 \<and> P 13 \<and> P 14 \<and> P 15 \<and> P 16 \<and> P 17 \<and> P 18 \<and> P 19 \<and> P 20 \<and> P 21 \<and>
     P 22 \<and> P 23 \<and> P 24 \<and> P 25 \<and> P 26 \<and> P 27 \<and> P 28 \<and> P 29 \<and> P 30 \<and> P (31::nat)"
proof -
  have "[0..<32] = [0, 1, 2, 3, 4, 5, 6, 7, 8, 9, 10, 11, 12, 13, 14, 15, 16, 17, 18, 19, 20, 21,
    22, 23, 24, 25, 26, 27, 28, 29, 30, 31]"
    by code_simp
  moreover have "(\<forall>k < 32. P k) \<longleftrightarrow> (\<forall>k \<in> set [0..<32]. P k)" by auto
  ultimately show ?thesis by simp
qed

lemma all_less_64:
  "(\<forall>k < 64. P k) \<longleftrightarrow> (\<forall>k < 32. P k) \<and> (\<forall>k < 32. P (32 + k :: nat))"
proof -
  have "k < 32 \<or> (\<exists>j < 32. k = 32 + j)" if "k < 64" for k :: nat
    using that by (cases "k < 32") (auto intro!: exI [of _ "k - 32"])
  then show ?thesis by (auto; metis)
qed

lemma word32_eqI: "(\<forall>k < 32. bit (x :: u32) k = bit y k) \<Longrightarrow> x = y"
  by (rule bit_word_eqI) simp

lemma word64_eqI: "(\<forall>k < 64. bit (x :: u64) k = bit y k) \<Longrightarrow> x = y"
  by (rule bit_word_eqI) simp

lemma join_bytes:
  fixes a b c d :: u8
  shows "ucast a + push_bit 8 (ucast b) + push_bit 16 (ucast c) =
      (ucast a OR push_bit 8 (ucast b) OR push_bit 16 (ucast c) :: u32)"
    and "ucast a + push_bit 8 (ucast b) + push_bit 16 (ucast c) + push_bit 24 (ucast d) =
      (ucast a OR push_bit 8 (ucast b) OR push_bit 16 (ucast c) OR push_bit 24 (ucast d) :: u32)"
proof -
  have 1: "(ucast a :: u32) + push_bit 8 (ucast b) = ucast a OR push_bit 8 (ucast b)"
    by (rule disjunctive_add_eq_or, rule bit_word_eqI) (auto simp: bit_simps dest: bit_imp_le_length)
  have 2: "(ucast a OR push_bit 8 (ucast b) :: u32) + push_bit 16 (ucast c) =
      (ucast a OR push_bit 8 (ucast b)) OR push_bit 16 (ucast c)"
    by (rule disjunctive_add_eq_or, rule bit_word_eqI) (auto simp: bit_simps dest: bit_imp_le_length)
  have 3: "((ucast a OR push_bit 8 (ucast b)) OR push_bit 16 (ucast c) :: u32) + push_bit 24 (ucast d) =
      ((ucast a OR push_bit 8 (ucast b)) OR push_bit 16 (ucast c)) OR push_bit 24 (ucast d)"
    by (rule disjunctive_add_eq_or, rule bit_word_eqI) (auto simp: bit_simps dest: bit_imp_le_length)
  show "ucast a + push_bit 8 (ucast b) + push_bit 16 (ucast c) =
      (ucast a OR push_bit 8 (ucast b) OR push_bit 16 (ucast c) :: u32)"
    by (subst 1, subst 2, simp only: or.assoc)
  show "ucast a + push_bit 8 (ucast b) + push_bit 16 (ucast c) + push_bit 24 (ucast d) =
      (ucast a OR push_bit 8 (ucast b) OR push_bit 16 (ucast c) OR push_bit 24 (ucast d) :: u32)"
    by (subst 1, subst 2, subst 3, simp only: or.assoc)
qed

lemma NoSwizzle4: "NoSwizzle_deswizzle4 (NoSwizzle_swizzle4 x) = x"
  by (rule word32_eqI)
    (simp add: all_less_32 NoSwizzle_deswizzle4_def NoSwizzle_swizzle4_def join_bytes(2) bit_simps)

lemma NoSwizzle3: "NoSwizzle_deswizzle3 (NoSwizzle_swizzle3 x) = x AND 0xffffff"
  by (rule word32_eqI)
    (simp add: all_less_32 NoSwizzle_deswizzle3_def NoSwizzle_swizzle3_def join_bytes(1) bit_simps)

lemma SwizzleUInt32: "SwizzleUInt32_deswizzle (SwizzleUInt32_swizzle x) = x"
  unfolding SwizzleUInt32_deswizzle_def SwizzleUInt32_swizzle_def NoSwizzle4 Let_def
  by (rule word32_eqI) (simp add: all_less_32 bit_simps del: push_bit_Suc)

lemma SwizzleUInt24: "SwizzleUInt24_deswizzle (SwizzleUInt24_swizzle x) = x AND 0xffffff"
  unfolding SwizzleUInt24_deswizzle_def SwizzleUInt24_swizzle_def NoSwizzle3 Let_def
  by (rule word32_eqI) (simp add: all_less_32 bit_simps del: push_bit_Suc)

lemmas YUV_defs = YUV_NoSwizzle_swizzle4_def YUV_NoSwizzle_swizzle3_def YUV_NoSwizzle_deswizzle4_def
  YUV_NoSwizzle_deswizzle3_def YUV_SwizzleUInt32_swizzle_def YUV_SwizzleUInt32_deswizzle_def
  YUV_SwizzleUInt24_swizzle_def YUV_SwizzleUInt24_deswizzle_def

lemma YUV_same:
  "YUV_NoSwizzle_swizzle4 = NoSwizzle_swizzle4" "YUV_NoSwizzle_swizzle3 = NoSwizzle_swizzle3"
  "YUV_NoSwizzle_deswizzle4 = NoSwizzle_deswizzle4" "YUV_NoSwizzle_deswizzle3 = NoSwizzle_deswizzle3"
  "YUV_SwizzleUInt32_swizzle = SwizzleUInt32_swizzle" "YUV_SwizzleUInt32_deswizzle = SwizzleUInt32_deswizzle"
  "YUV_SwizzleUInt24_swizzle = SwizzleUInt24_swizzle" "YUV_SwizzleUInt24_deswizzle = SwizzleUInt24_deswizzle"
  unfolding fun_eq_iff YUV_defs NoSwizzle_swizzle4_def NoSwizzle_swizzle3_def NoSwizzle_deswizzle4_def
    NoSwizzle_deswizzle3_def SwizzleUInt32_swizzle_def SwizzleUInt32_deswizzle_def
    SwizzleUInt24_swizzle_def SwizzleUInt24_deswizzle_def by (rule allI, rule refl)+

text \<open>The 565 codec keeps the upper bits of each colour and fills the dropped ones with a constant.\<close>

definition quantize565A :: "u32 \<Rightarrow> u32" where
  "quantize565A x = (x AND 0x80f8f8f8) OR 0x3f040404"

definition quantize565 :: "u32 \<Rightarrow> u32" where
  "quantize565 x = (x AND 0xf8fcf8) OR 0x020202"

lemma RGB565_split4: "RGB565_NoSwizzle_swizzle4 = NoSwizzle_swizzle4"
  unfolding fun_eq_iff RGB565_NoSwizzle_swizzle4_def NoSwizzle_swizzle4_def by simp

lemma RGB565_split3: "RGB565_NoSwizzle_swizzle3 = NoSwizzle_swizzle3"
  unfolding fun_eq_iff RGB565_NoSwizzle_swizzle3_def NoSwizzle_swizzle3_def by simp

lemma RGB565_join4:
  "RGB565_deswizzle4 c =
     (let input = NoSwizzle_deswizzle4 c in
      (push_bit 3 (input AND lb_bits [3, 2, 1]) OR push_bit 8 (input AND lb_bits [6, 5, 4]) OR
       drop_bit 5 (input AND lb_bits [13, 12]) OR push_bit 13 (input AND lb_bits [11, 10, 9, 8, 7]) OR
       push_bit 1 (input AND lb_bits [15, 14]) OR push_bit 16 (input AND lb_bits [16])) OR 0x3f040404)"
  by (cases c) (simp only: RGB565_deswizzle4_def NoSwizzle_deswizzle4_def prod.case Let_def)

lemma RGB565_join3:
  "RGB565_deswizzle3 c =
     (let input = NoSwizzle_deswizzle3 c in
      ((push_bit 3 (input AND lb_bits [3, 2, 1]) OR push_bit 7 (input AND lb_bits [6, 5, 4]) OR
        drop_bit 5 (input AND lb_bits [13, 12]) OR push_bit 13 (input AND lb_bits [11, 10, 9, 8, 7]) OR
        (input AND lb_bits [16, 15, 14])) AND 0xf8fcf8) OR 0x020202)"
  by (cases c) (simp only: RGB565_deswizzle3_def NoSwizzle_deswizzle3_def prod.case Let_def)

lemma RGB565_4: "RGB565_deswizzle4 (RGB565_swizzle4 x) = quantize565A x"
  unfolding RGB565_join4 RGB565_swizzle4_def RGB565_split4 NoSwizzle4 Let_def quantize565A_def
  by (rule word32_eqI) (simp add: all_less_32 bit_simps del: push_bit_Suc)

lemma RGB565_3: "RGB565_deswizzle3 (RGB565_swizzle3 x) = quantize565 x"
  unfolding RGB565_join3 RGB565_swizzle3_def RGB565_split3 NoSwizzle3 Let_def quantize565_def
  by (rule word32_eqI) (simp add: all_less_32 bit_simps del: push_bit_Suc)

lemma RGB10A2: "RGB10A2_deswizzle (RGB10A2_swizzle x) = x"
  by (rule word32_eqI)
    (simp add: all_less_32 RGB10A2_deswizzle_def RGB10A2_swizzle_def Let_def bit_simps)

lemma join_halves:
  fixes a b c d :: u16
  shows "ucast a + push_bit 16 (ucast b) + push_bit 32 (ucast c) =
      (ucast a OR push_bit 16 (ucast b) OR push_bit 32 (ucast c) :: u64)"
    and "ucast a + push_bit 16 (ucast b) + push_bit 32 (ucast c) + push_bit 48 (ucast d) =
      (ucast a OR push_bit 16 (ucast b) OR push_bit 32 (ucast c) OR push_bit 48 (ucast d) :: u64)"
proof -
  have 1: "(ucast a :: u64) + push_bit 16 (ucast b) = ucast a OR push_bit 16 (ucast b)"
    by (rule disjunctive_add_eq_or, rule bit_word_eqI) (auto simp: bit_simps dest: bit_imp_le_length)
  have 2: "(ucast a OR push_bit 16 (ucast b) :: u64) + push_bit 32 (ucast c) =
      (ucast a OR push_bit 16 (ucast b)) OR push_bit 32 (ucast c)"
    by (rule disjunctive_add_eq_or, rule bit_word_eqI) (auto simp: bit_simps dest: bit_imp_le_length)
  have 3: "((ucast a OR push_bit 16 (ucast b)) OR push_bit 32 (ucast c) :: u64) + push_bit 48 (ucast d) =
      ((ucast a OR push_bit 16 (ucast b)) OR push_bit 32 (ucast c)) OR push_bit 48 (ucast d)"
    by (rule disjunctive_add_eq_or, rule bit_word_eqI) (auto simp: bit_simps dest: bit_imp_le_length)
  show "ucast a + push_bit 16 (ucast b) + push_bit 32 (ucast c) =
      (ucast a OR push_bit 16 (ucast b) OR push_bit 32 (ucast c) :: u64)"
    by (subst 1, subst 2, simp only: or.assoc)
  show "ucast a + push_bit 16 (ucast b) + push_bit 32 (ucast c) + push_bit 48 (ucast d) =
      (ucast a OR push_bit 16 (ucast b) OR push_bit 32 (ucast c) OR push_bit 48 (ucast d) :: u64)"
    by (subst 1, subst 2, subst 3, simp only: or.assoc)
qed

lemma HF_NoSwizzle4: "HF_NoSwizzle_deswizzle4 (HF_NoSwizzle_swizzle4 x) = x"
  by (rule word64_eqI)
    (simp add: all_less_64 all_less_32 HF_NoSwizzle_deswizzle4_def HF_NoSwizzle_swizzle4_def join_halves(2) bit_simps)

lemma HF_NoSwizzle3: "HF_NoSwizzle_deswizzle3 (HF_NoSwizzle_swizzle3 x) = x AND 0xffffffffffff"
  by (rule word64_eqI)
    (simp add: all_less_64 all_less_32 HF_NoSwizzle_deswizzle3_def HF_NoSwizzle_swizzle3_def join_halves(1) bit_simps)

lemma HF_Swizzle4: "HF_Swizzle_deswizzle4 (HF_Swizzle_swizzle4 x) = x"
  unfolding HF_Swizzle_deswizzle4_def HF_Swizzle_swizzle4_def HF_NoSwizzle4 Let_def
  by (rule word64_eqI) (simp add: all_less_64 all_less_32 bit_simps del: push_bit_Suc)

lemma HF_Swizzle3: "HF_Swizzle_deswizzle3 (HF_Swizzle_swizzle3 x) = x AND 0xffffffffffff"
  unfolding HF_Swizzle_deswizzle3_def HF_Swizzle_swizzle3_def HF_NoSwizzle3 Let_def
  by (rule word64_eqI) (simp add: all_less_64 all_less_32 bit_simps del: push_bit_Suc)

end
