(* ===== verification/Rle_Stream.thy ===== *)
theory Rle_Stream
  imports Prelude
begin

text \<open>
  One token stream of the run-length compressors (\<open>libs/co/compressor/compressorRLE.ipp\<close>):
  the templates \<open>_write\<close> and \<open>_compressToken\<close> and the macro \<open>READ\<close>, for a token type of
  any machine width. A run is written as the marker, the token and the run length; runs of
  one or two tokens are written literally unless the token is the marker itself.
  Reading past the end of a stream is undefined in the source and \<open>None\<close> here.
\<close>

section \<open>Writing\<close>

definition rle_write :: "'c::len word \<Rightarrow> 'c word \<Rightarrow> 'c word \<Rightarrow> 'c word list \<Rightarrow> 'c word list" where
  "rle_write marker token numTokens out =
     (if token = marker then out @ [marker, marker, numTokens]
      else if numTokens = 2 then out @ [token, token]
      else if numTokens = 1 then out @ [token]
      else if numTokens = 0 then out
      else out @ [marker, token, numTokens])"

text \<open>The state of one output channel: the pending token, its run length, the data written.\<close>

type_synonym 'c chan = "'c word \<times> 'c word \<times> 'c word list"

fun compressToken :: "'c::len word \<Rightarrow> 'c word \<Rightarrow> 'c chan \<Rightarrow> 'c chan" where
  "compressToken marker x (lst, numLast, out) =
     (if x = lst \<and> numLast \<noteq> -1 then (lst, numLast + 1, out)
      else (x, 1, rle_write marker lst numLast out))"

fun chan_flush :: "'c::len word \<Rightarrow> 'c chan \<Rightarrow> 'c word list" where
  "chan_flush marker (lst, numLast, out) = rle_write marker lst numLast out"

definition rle_stream :: "'c::len word \<Rightarrow> 'c word list \<Rightarrow> 'c word list" where
  "rle_stream marker xs =
     (case xs of [] \<Rightarrow> [] | y # ys \<Rightarrow> chan_flush marker (fold (compressToken marker) ys (y, 1, [])))"

section \<open>Reading\<close>

text \<open>The state of one input channel: the current token, how often it is still due, the unread data.\<close>

fun rle_read :: "'c::len word \<Rightarrow> 'c chan \<Rightarrow> 'c chan option" where
  "rle_read marker (token, left, ins) =
     (if left = 0 then
        (case ins of
           [] \<Rightarrow> None
         | t # ts \<Rightarrow>
             if t = marker then
               (case ts of s # n # rest \<Rightarrow> Some (s, n - 1, rest) | _ \<Rightarrow> None)
             else Some (t, 1 - 1, ts))
      else Some (token, left - 1, ins))"

fun rle_decode :: "'c::len word \<Rightarrow> nat \<Rightarrow> 'c chan \<Rightarrow> ('c word list \<times> 'c chan) option" where
  "rle_decode marker 0 c = Some ([], c)"
| "rle_decode marker (Suc n) c =
     (case rle_read marker c of
        None \<Rightarrow> None
      | Some c' \<Rightarrow> map_option (\<lambda>(ts, c''). (fst c' # ts, c'')) (rle_decode marker n c'))"

section \<open>The round trip of one stream\<close>

lemma rle_write_append: "rle_write m t n out = out @ rle_write m t n []"
  by (simp add: rle_write_def)

lemma rle_write_append2: "rle_write m l k (out @ out') = out @ rle_write m l k out'"
  by (simp add: rle_write_def)

lemma fold_compressToken_out:
  "fold (compressToken m) xs (l, k, out) =
     (case fold (compressToken m) xs (l, k, []) of (l', k', out') \<Rightarrow> (l', k', out @ out'))"
proof (induction xs arbitrary: l k out)
  case (Cons x xs)
  show ?case
  proof (cases "x = l \<and> k \<noteq> -1")
    case True
    then show ?thesis using Cons.IH [of l "k + 1" out] by simp
  next
    case False
    show ?thesis
      using False Cons.IH [of x 1 "rle_write m l k out"] Cons.IH [of x 1 "rle_write m l k []"]
      by (auto simp: rle_write_append [of m l k out] split: prod.splits)
  qed
qed simp

lemma rle_decode_add:
  "rle_decode m (j + k) c =
     (case rle_decode m j c of None \<Rightarrow> None
      | Some (ts, c') \<Rightarrow> map_option (\<lambda>(us, c''). (ts @ us, c'')) (rle_decode m k c'))"
  by (induction j arbitrary: c) (auto split: option.splits simp: option.map_comp option.map_ident comp_def case_prod_unfold)

lemma rle_decode_run: "rle_decode m (unat left) (t, left, ins) = Some (replicate (unat left) t, (t, 0, ins))"
proof (induction "unat left" arbitrary: left)
  case 0
  then show ?case by (metis rle_decode.simps(1) replicate_0 unat_eq_zero)
next
  case (Suc n)
  then have "left \<noteq> 0" by auto
  then have n: "n = unat (left - 1)" using Suc(2) by (metis Suc_pred diff_Suc_1 unat_minus_one)
  from Suc.hyps(1) [OF n] \<open>left \<noteq> 0\<close> show ?case
    unfolding Suc(2) [symmetric] by (simp add: n [symmetric])
qed

lemma unat_two:
  assumes "(2 :: 'c::len word) \<noteq> 0"
  shows "unat (2 :: 'c word) = 2"
proof (cases "LENGTH('c) = 1")
  case True
  then have "unat (2 :: 'c word) = 0" by (simp add: unat_numeral)
  with assms show ?thesis by (simp add: unat_eq_zero)
next
  case False
  then have "2 \<le> LENGTH('c)" using len_gt_0 [where 'a = 'c] by linarith
  then have "(2::nat) ^ 2 \<le> 2 ^ LENGTH('c)" by (intro power_increasing) auto
  then show ?thesis by (simp add: unat_numeral take_bit_eq_mod)
qed

lemma rle_decode_write:
  assumes "0 < n"
  shows "rle_decode m (unat n) (t0, 0, rle_write m t n [] @ rest) = Some (replicate (unat n) t, (t, 0, rest))"
proof (cases "t = m \<or> (n \<noteq> 1 \<and> n \<noteq> 2)")
  case True
  then have w: "rle_write m t n [] = [m, t, n]" using assms by (auto simp: rle_write_def)
  have "n \<noteq> 0" using assms by auto
  then have n: "unat n = Suc (unat (n - 1))" by (simp add: unat_minus_one unat_gt_0)
  have "rle_decode m (Suc (unat (n - 1))) (t0, 0, [m, t, n] @ rest) =
      Some (replicate (Suc (unat (n - 1))) t, (t, 0, rest))"
    by (simp add: rle_decode_run)
  then show ?thesis unfolding w n [symmetric] .
next
  case False
  then consider "n = 1" "t \<noteq> m" | "n = 2" "n \<noteq> 1" "t \<noteq> m" by blast
  then show ?thesis
  proof cases
    case 1
    then show ?thesis by (simp add: rle_write_def)
  next
    case 2
    then have "unat n = 2" using assms unat_two by auto
    with 2 show ?thesis by (simp add: rle_write_def numeral_2_eq_2)
  qed
qed

lemma chan_flush_fold:
  assumes "0 < k"
  shows "\<exists>t. rle_decode m (unat k + length xs)
      (t0, 0, chan_flush m (fold (compressToken m) xs (l, k, [])) @ rest) =
    Some (replicate (unat k) l @ xs, (t, 0, rest))"
  using assms
proof (induction xs arbitrary: l k t0)
  case Nil
  then show ?case using rle_decode_write [OF Nil, of m t0 l rest] by auto
next
  case (Cons x xs)
  show ?case
  proof (cases "x = l \<and> k \<noteq> -1")
    case True
    then have "unat (k + 1) = Suc (unat k)" by (simp add: unat_inc)
    moreover from this have "0 < k + 1" by (simp add: word_pos_unat)
    ultimately show ?thesis using Cons.IH [of "k + 1" t0 l] True
      by (simp add: replicate_app_Cons_same)
  next
    case False
    let ?r = "chan_flush m (fold (compressToken m) xs (x, 1, [])) @ rest"
    have out: "chan_flush m (fold (compressToken m) (x # xs) (l, k, [])) @ rest = rle_write m l k [] @ ?r"
      using False fold_compressToken_out [of m xs x 1 "rle_write m l k []"]
      by (auto split: prod.splits simp: rle_write_append2)
    from Cons.IH [of 1 l x] obtain t where
      t: "rle_decode m (Suc (length xs)) (l, 0, ?r) = Some (x # xs, (t, 0, rest))"
      by (auto simp del: rle_decode.simps)
    have "rle_decode m (unat k + Suc (length xs)) (t0, 0, rle_write m l k [] @ ?r) =
        Some (replicate (unat k) l @ x # xs, (t, 0, rest))"
      using rle_decode_write [OF Cons.prems, of m t0 l ?r] t
      by (simp add: rle_decode_add del: rle_decode.simps add_Suc_right)
    then show ?thesis unfolding out by (metis length_Cons)
  qed
qed

lemma rle_stream_roundtrip:
  "\<exists>t. rle_decode m (length xs) (0, 0, rle_stream m xs @ rest) = Some (xs, (t, 0, rest))"
proof (cases xs)
  case (Cons y ys)
  then show ?thesis using chan_flush_fold [of 1 m ys 0 y rest] by (simp add: rle_stream_def)
qed (simp add: rle_stream_def)

section \<open>The size of the output\<close>

text \<open>
  The pending run is accounted for separately: \<open>N\<close> tokens were consumed, \<open>k\<close> of them are
  pending. A marker that stands alone costs three tokens; the token before it pays for it.
\<close>

definition size_inv :: "'c::len word \<Rightarrow> nat \<Rightarrow> 'c chan \<Rightarrow> bool" where
  "size_inv m N c = (case c of (l, k, out) \<Rightarrow>
     0 < k \<and> unat k \<le> N \<and> length out \<le> 2 * (N - unat k) + (if l = m then 0 else 1))"

lemma length_rle_write:
  assumes "0 < k"
  shows "length (rle_write m t k out) \<le> length out + (if t = m then 3 else unat k)"
proof -
  consider "k = 1" | "k = 2" | "3 \<le> unat k" "k \<noteq> 1" "k \<noteq> 2"
  proof -
    have "unat k \<noteq> 0" using assms by (simp add: word_pos_unat)
    moreover have "k = 1" if "unat k = 1" using that by (metis unat_1 word_unat_eq_iff)
    moreover have "k = 2" if "unat k = 2" using arg_cong [OF that, of "of_nat :: nat \<Rightarrow> 'a word"] by simp
    ultimately show ?thesis using that by (metis One_nat_def Suc_1 le_less_Suc_eq not_less_eq_eq numeral_3_eq_3 less_one not_less)
  qed
  then show ?thesis
    using assms by cases (auto simp: rle_write_def unat_two)
qed

lemma size_inv_step:
  assumes "2 \<le> LENGTH('c)" "size_inv m N c"
  shows "size_inv m (Suc N) (compressToken m x (c :: 'c::len chan))"
proof (cases c)
  case (fields l k out)
  have inv: "0 < k" "unat k \<le> N" "length out \<le> 2 * (N - unat k) + (if l = m then 0 else 1)"
    using assms(2) by (simp_all add: fields size_inv_def)
  have k1: "1 \<le> unat k" using inv(1) by (simp add: word_pos_unat)
  show ?thesis
  proof (cases "x = l \<and> k \<noteq> -1")
    case True
    then have "unat (k + 1) = Suc (unat k)" by (simp add: unat_inc)
    moreover from this have "0 < k + 1" by (simp add: word_pos_unat)
    ultimately show ?thesis using inv True by (simp add: fields size_inv_def)
  next
    case False
    have "length (rle_write m l k out) \<le> length out + (if l = m then 3 else unat k)"
      by (rule length_rle_write [OF inv(1)])
    moreover have "3 \<le> unat k" if "x = l"
    proof -
      have "unat k = 2 ^ LENGTH('c) - 1" using that False by (simp add: unsigned_minus_1_eq_mask mask_eq_exp_minus_1)
      moreover have "(2::nat) ^ 2 \<le> 2 ^ LENGTH('c)" using assms(1) by (intro power_increasing) auto
      ultimately show ?thesis by simp
    qed
    ultimately have "length (rle_write m l k out) \<le> 2 * N + (if x = m then 0 else 1)"
      using inv k1 by (auto split: if_splits)
    then show ?thesis using False by (auto simp: fields size_inv_def)
  qed
qed

lemma size_inv_fold:
  assumes "2 \<le> LENGTH('c)" "size_inv m N (c :: 'c::len chan)"
  shows "size_inv m (N + length xs) (fold (compressToken m) xs c)"
  using assms(2)
proof (induction xs arbitrary: N c)
  case (Cons x xs)
  from Cons.IH [OF size_inv_step [OF assms(1) Cons.prems]] show ?case by simp
qed simp

lemma length_rle_stream:
  assumes "2 \<le> LENGTH('c)"
  shows "length (rle_stream m (xs :: 'c::len word list)) \<le> 2 * length xs + 1"
proof (cases xs)
  case (Cons y ys)
  obtain l k out where c: "fold (compressToken m) ys (y, 1, []) = (l, k, out)" by (cases "fold (compressToken m) ys (y, 1, [])")
  have "size_inv m (length xs) (l, k, out)"
    using size_inv_fold [OF assms, of m 1 "(y, 1, [])" ys] by (simp add: c Cons size_inv_def)
  moreover from this have "1 \<le> unat k" by (simp add: size_inv_def word_pos_unat)
  ultimately show ?thesis
    using length_rle_write [of k m l out] by (auto simp: rle_stream_def Cons c size_inv_def split: if_splits)
qed (simp add: rle_stream_def)

section \<open>The worst case\<close>

text \<open>
  Only a stream in which markers and other tokens alternate, with a marker at both ends, takes
  more than twice the room of its tokens.
\<close>

fun alternates :: "'c::len word \<Rightarrow> bool \<Rightarrow> 'c word list \<Rightarrow> bool" where
  "alternates m want [] = (\<not> want)"
| "alternates m want (x # xs) = ((x = m) = want \<and> alternates m (\<not> want) xs)"

definition full_marker :: "'c::len word \<Rightarrow> nat \<Rightarrow> 'c chan \<Rightarrow> bool" where
  "full_marker m N c = (case c of (l, k, out) \<Rightarrow> l = m \<and> k = 1 \<and> length out + 2 = 2 * N)"

definition full_other :: "'c::len word \<Rightarrow> nat \<Rightarrow> 'c chan \<Rightarrow> bool" where
  "full_other m N c = (case c of (l, k, out) \<Rightarrow> l \<noteq> m \<and> k = 1 \<and> length out + 1 = 2 * N)"

lemma length_rle_write_other: "k = 1 \<Longrightarrow> t \<noteq> m \<Longrightarrow> length (rle_write m t k out) = length out + 1"
  by (simp add: rle_write_def)

lemma length_rle_write_marker: "length (rle_write m m k out) = length out + 3"
  by (simp add: rle_write_def)

lemma length_rle_write_full:
  assumes "size_inv m N (l, k, out)"
  shows "l \<noteq> m \<Longrightarrow> length (rle_write m l k out) = 2 * N \<longleftrightarrow> k = 1 \<and> length out + 1 = 2 * N"
    "length (rle_write m l k out) = 2 * N + 1 \<longleftrightarrow> l = m \<and> k = 1 \<and> length out + 2 = 2 * N"
proof -
  have inv: "0 < k" "unat k \<le> N" "length out \<le> 2 * (N - unat k) + (if l = m then 0 else 1)"
    using assms by (simp_all add: size_inv_def)
  have k1: "1 \<le> unat k" using inv(1) by (simp add: word_pos_unat)
  have k2: "2 \<le> unat k" if "k \<noteq> 1" using that k1 by (metis One_nat_def Suc_1 Suc_leI le_neq_implies_less unat_1 word_unat_eq_iff)
  show "length (rle_write m l k out) = 2 * N \<longleftrightarrow> k = 1 \<and> length out + 1 = 2 * N" if "l \<noteq> m"
  proof (cases "k = 1")
    case True
    then show ?thesis using that by (simp add: length_rle_write_other)
  next
    case False
    then have "length (rle_write m l k out) < 2 * N" using k2 length_rle_write [OF inv(1), of m l out] inv that by simp
    then show ?thesis using False by simp
  qed
  show "length (rle_write m l k out) = 2 * N + 1 \<longleftrightarrow> l = m \<and> k = 1 \<and> length out + 2 = 2 * N"
  proof (cases "l = m")
    case True
    then show ?thesis using k2 inv by (cases "k = 1") (auto simp: length_rle_write_marker)
  next
    case False
    then have "length (rle_write m l k out) < 2 * N + 1" using k1 length_rle_write [OF inv(1), of m l out] inv by simp
    then show ?thesis using False by simp
  qed
qed

lemma full_step:
  assumes "2 \<le> LENGTH('c)" "size_inv m N (c :: 'c::len chan)"
  shows "full_marker m (Suc N) (compressToken m x c) \<longleftrightarrow> x = m \<and> full_other m N c"
    "full_other m (Suc N) (compressToken m x c) \<longleftrightarrow> x \<noteq> m \<and> full_marker m N c"
proof -
  obtain l k out where c: "c = (l, k, out)" by (cases c)
  have inv: "0 < k" "unat k \<le> N" "length out \<le> 2 * (N - unat k) + (if l = m then 0 else 1)"
    using assms(2) by (simp_all add: c size_inv_def)
  have "(full_marker m (Suc N) (compressToken m x c) \<longleftrightarrow> x = m \<and> full_other m N c) \<and>
      (full_other m (Suc N) (compressToken m x c) \<longleftrightarrow> x \<noteq> m \<and> full_marker m N c)"
  proof (cases "x = l \<and> k \<noteq> -1")
    case True
    then have "unat (k + 1) = Suc (unat k)" by (simp add: unat_inc)
    then have "k + 1 \<noteq> 1" using inv(1) by auto
    then show ?thesis using True by (auto simp: c full_marker_def full_other_def)
  next
    case False
    have "length (rle_write m m k out) < 2 * N" if "x = m" "l = m"
    proof -
      have "unat k = 2 ^ LENGTH('c) - 1" using that False by (simp add: unsigned_minus_1_eq_mask mask_eq_exp_minus_1)
      moreover have "(2::nat) ^ 2 \<le> 2 ^ LENGTH('c)" using assms(1) by (intro power_increasing) auto
      ultimately show ?thesis using inv that by (simp add: length_rle_write_marker)
    qed
    then show ?thesis using False length_rle_write_full [OF assms(2) [unfolded c]]
      by (cases "l = m") (auto simp: c full_marker_def full_other_def)
  qed
  then show "full_marker m (Suc N) (compressToken m x c) \<longleftrightarrow> x = m \<and> full_other m N c"
    "full_other m (Suc N) (compressToken m x c) \<longleftrightarrow> x \<noteq> m \<and> full_marker m N c" by blast+
qed

lemma full_fold:
  assumes "2 \<le> LENGTH('c)" "size_inv m N (c :: 'c::len chan)"
  shows "full_marker m (N + length xs) (fold (compressToken m) xs c) \<longleftrightarrow>
    full_marker m N c \<and> alternates m False xs \<or> full_other m N c \<and> alternates m True xs"
  using assms(2)
proof (induction xs arbitrary: N c)
  case (Cons x xs)
  from Cons.IH [OF size_inv_step [OF assms(1) Cons.prems]] show ?case by (auto simp: full_step [OF assms(1) Cons.prems])
qed simp

lemma length_rle_stream_alternates:
  assumes "2 \<le> LENGTH('c)"
  shows "length (rle_stream m (xs :: 'c::len word list)) = 2 * length xs + 1 \<longleftrightarrow> alternates m True xs"
proof (cases xs)
  case (Cons y ys)
  have start: "size_inv m 1 (y, 1, [])" by (simp add: size_inv_def)
  obtain l k out where c: "fold (compressToken m) ys (y, 1, []) = (l, k, out)" by (cases "fold (compressToken m) ys (y, 1, [])")
  have "size_inv m (1 + length ys) (l, k, out)" using size_inv_fold [OF assms start, of ys] by (simp add: c)
  then have "length (rle_stream m xs) = 2 * length xs + 1 \<longleftrightarrow> full_marker m (1 + length ys) (l, k, out)"
    using length_rle_write_full(2) [of m "1 + length ys" l k out] by (simp add: rle_stream_def Cons c full_marker_def)
  also have "\<dots> \<longleftrightarrow> alternates m True xs"
    using full_fold [OF assms start, of ys] unfolding c by (auto simp: Cons full_marker_def full_other_def)
  finally show ?thesis .
qed (simp add: rle_stream_def)

end
