(* ===== verification/Float32.thy ===== *)
theory Float32
  imports Prelude Complex_Main
begin

text \<open>
  IEEE-754 binary32 rounding (round to nearest, ties to even) of non-negative rationals in
  the normal range, as the chunk arithmetic of the compressors uses it: every \<open>float\<close>
  operation of the source is the exact operation followed by \<open>fl32\<close>. The values that occur
  are zero or lie between \<open>2 ^ -32\<close> and \<open>2 ^ 66\<close>, so neither overflow nor subnormal
  numbers arise.
\<close>

section \<open>The binary exponent\<close>

fun bitlen :: "nat \<Rightarrow> nat" where
  "bitlen n = (if n = 0 then 0 else Suc (bitlen (n div 2)))"

declare bitlen.simps [simp del]

lemma bitlen_bounds: "0 < n \<Longrightarrow> 2 ^ (bitlen n - 1) \<le> n \<and> n < 2 ^ bitlen n"
proof (induction n rule: bitlen.induct)
  case (1 n)
  show ?case
  proof (cases "n div 2 = 0")
    case True
    with 1(2) have "n = 1" by linarith
    then show ?thesis by (simp add: bitlen.simps)
  next
    case False
    with 1 have IH: "2 ^ (bitlen (n div 2) - 1) \<le> n div 2" "n div 2 < 2 ^ bitlen (n div 2)" by auto
    obtain b where b: "bitlen (n div 2) = Suc b" using False by (metis bitlen.simps)
    with 1(2) have n: "bitlen n = Suc (Suc b)" by (simp add: bitlen.simps [of n])
    from IH b n show ?thesis by auto
  qed
qed

definition flog2 :: "rat \<Rightarrow> int" where
  "flog2 x = (case quotient_of x of (p, q) \<Rightarrow>
     let l = int (bitlen (nat p)) - int (bitlen (nat q))
     in if 2 powi l \<le> x then l else l - 1)"

definition round_half_even :: "rat \<Rightarrow> int" where
  "round_half_even y =
     (let f = \<lfloor>y\<rfloor>; r = y - of_int f
      in if r < 1 / 2 then f else if 1 / 2 < r then f + 1 else if even f then f else f + 1)"

definition fl32 :: "rat \<Rightarrow> rat" where
  "fl32 x = (if x = 0 then 0
     else let u = 2 powi (flog2 x - 23) in of_int (round_half_even (x / u)) * u)"

section \<open>Exactness\<close>

lemma flog2_bounds:
  assumes "0 < x"
  shows "2 powi flog2 x \<le> x \<and> x < 2 powi (flog2 x + 1)"
proof -
  obtain p q where pq: "quotient_of x = (p, q)" by (cases "quotient_of x")
  define l where "l = int (bitlen (nat p)) - int (bitlen (nat q))"
  from pq have q: "0 < q" and x: "x = of_int p / of_int q"
    using quotient_of_denom_pos quotient_of_div by blast+
  from q x assms have p: "0 < p" by (simp add: zero_less_divide_iff)
  have P: "2 ^ (bitlen (nat p) - 1) \<le> p" "p < 2 ^ bitlen (nat p)"
    using bitlen_bounds [of "nat p"] p by (auto simp: le_nat_iff nat_less_iff)
  have Q: "2 ^ (bitlen (nat q) - 1) \<le> q" "q < 2 ^ bitlen (nat q)"
    using bitlen_bounds [of "nat q"] q by (auto simp: le_nat_iff nat_less_iff)
  obtain a where a: "bitlen (nat p) = Suc a" using p by (metis bitlen.simps nat_0_iff not_le)
  obtain b where b: "bitlen (nat q) = Suc b" using q by (metis bitlen.simps nat_0_iff not_le)
  have l: "l = int a - int b" by (simp add: l_def a b)
  have pr: "2 ^ a \<le> rat_of_int p" "rat_of_int p < 2 * 2 ^ a"
    using P a by (metis (no_types, lifting) diff_Suc_1 of_int_le_iff of_int_numeral of_int_power,
        metis (no_types, lifting) of_int_less_iff of_int_numeral of_int_power power_Suc)
  have qr: "2 ^ b \<le> rat_of_int q" "rat_of_int q < 2 * 2 ^ b"
    using Q b by (metis (no_types, lifting) diff_Suc_1 of_int_le_iff of_int_numeral of_int_power,
        metis (no_types, lifting) of_int_less_iff of_int_numeral of_int_power power_Suc)
  have powl: "2 powi l = (2 ^ a / 2 ^ b :: rat)" by (simp add: l power_int_diff)
  have up: "x < 2 * 2 powi l"
  proof -
    have "rat_of_int p * 2 ^ b < (2 * 2 ^ a) * rat_of_int q"
      using pr qr p by (intro mult_less_le_imp_less) auto
    then show ?thesis using q by (simp add: x powl field_simps)
  qed
  have low: "2 powi l \<le> 2 * x"
  proof -
    have "2 ^ a * rat_of_int q \<le> rat_of_int p * (2 * 2 ^ b)"
      using pr qr q p by (intro mult_mono) auto
    then show ?thesis using q by (simp add: x powl field_simps)
  qed
  have s: "2 powi (l + 1) = (2 * 2 powi l :: rat)" "2 powi (l - 1) = (2 powi l / 2 :: rat)"
    by (simp_all add: power_int_add power_int_diff)
  have "flog2 x = (if 2 powi l \<le> x then l else l - 1)" by (simp add: flog2_def pq l_def Let_def)
  then show ?thesis using up low s by auto
qed

lemma flog2_lt:
  assumes "0 < x" "x < 2 powi e"
  shows "flog2 x < e"
proof (rule ccontr)
  assume "\<not> flog2 x < e"
  then have "(2 :: rat) powi e \<le> 2 powi flog2 x" by (intro power_int_increasing) auto
  with flog2_bounds [OF assms(1)] assms(2) show False by simp
qed

lemma round_half_even_of_int [simp]: "round_half_even (of_int z) = z"
  by (simp add: round_half_even_def)

lemma fl32_exact:
  assumes "m < 2 ^ 24"
  shows "fl32 (of_nat m * 2 powi e) = of_nat m * 2 powi e"
proof (cases "m = 0")
  case False
  let ?x = "of_nat m * 2 powi e :: rat"
  have pos: "0 < ?x" using False by simp
  have "rat_of_nat m < 2 ^ 24" using assms by (metis of_nat_less_iff of_nat_numeral of_nat_power)
  then have "?x < 2 ^ 24 * 2 powi e" by simp
  also have "\<dots> = 2 powi (e + 24)" by (simp add: power_int_add)
  finally have "flog2 ?x < e + 24" by (rule flog2_lt [OF pos])
  then have ex: "flog2 ?x - 23 \<le> e" by simp
  define u :: rat where "u = 2 powi (flog2 ?x - 23)"
  define k where "k = nat (e - (flog2 ?x - 23))"
  have "e = flog2 ?x - 23 + int k" using ex by (simp add: k_def)
  then have "2 powi e = u * 2 ^ k" by (metis power_int_add power_int_of_nat u_def zero_neq_numeral)
  moreover have u0: "u \<noteq> 0" by (simp add: u_def)
  ultimately have xu: "?x / u = of_int (int m * 2 ^ k)" by simp
  have "fl32 ?x = of_int (round_half_even (?x / u)) * u"
    using pos by (auto simp: fl32_def u_def Let_def)
  also have "\<dots> = ?x / u * u" unfolding xu round_half_even_of_int ..
  finally show ?thesis using u0 by simp
qed (simp add: fl32_def)

lemma fl32_of_nat:
  assumes "m \<le> 2 ^ 24"
  shows "fl32 (of_nat m) = of_nat m"
proof (cases "m = 2 ^ 24")
  case True
  then show ?thesis using fl32_exact [of 1 24] by simp
next
  case False
  then show ?thesis using assms fl32_exact [of m 0] by simp
qed

section \<open>Monotonicity and the rounding error\<close>

lemma round_half_even_floor: "\<lfloor>y\<rfloor> \<le> round_half_even y \<and> round_half_even y \<le> \<lfloor>y\<rfloor> + 1"
  by (simp add: round_half_even_def Let_def)

lemma round_half_even_error: "\<bar>of_int (round_half_even y) - y\<bar> \<le> 1 / 2"
  using of_int_floor_le [of y] floor_less_iff [of y "\<lfloor>y\<rfloor> + 1"]
  by (auto simp: round_half_even_def Let_def abs_le_iff)

lemma round_half_even_mono:
  assumes "x \<le> y"
  shows "round_half_even x \<le> round_half_even y"
proof (cases "\<lfloor>x\<rfloor> = \<lfloor>y\<rfloor>")
  case True
  with assms show ?thesis by (simp add: round_half_even_def Let_def)
next
  case False
  with assms floor_mono [OF assms] have "\<lfloor>x\<rfloor> + 1 \<le> \<lfloor>y\<rfloor>" by simp
  with round_half_even_floor [of x] round_half_even_floor [of y] show ?thesis by linarith
qed

lemma fl32_binade:
  assumes "0 < x"
  shows "2 powi flog2 x \<le> fl32 x \<and> fl32 x \<le> 2 powi (flog2 x + 1)"
proof -
  define u :: rat where "u = 2 powi (flog2 x - 23)"
  have u: "0 < u" "2 powi flog2 x = 2 ^ 23 * u" "2 powi (flog2 x + 1) = 2 ^ 24 * u"
    by (simp_all add: u_def power_int_diff power_int_add)
  have "of_int (2 ^ 23) \<le> x / u" "x / u \<le> of_int (2 ^ 24)"
    using flog2_bounds [OF assms] u by (simp_all add: field_simps)
  then have "2 ^ 23 \<le> round_half_even (x / u)" "round_half_even (x / u) \<le> 2 ^ 24"
    using round_half_even_mono round_half_even_of_int by metis+
  then have "of_int (2 ^ 23) \<le> rat_of_int (round_half_even (x / u))"
      "rat_of_int (round_half_even (x / u)) \<le> of_int (2 ^ 24)"
    by (simp_all only: of_int_le_iff)
  moreover have "fl32 x = of_int (round_half_even (x / u)) * u"
    using assms by (simp add: fl32_def u_def Let_def)
  ultimately show ?thesis using u by simp
qed

lemma fl32_nonneg: "0 \<le> x \<Longrightarrow> 0 \<le> fl32 x"
  using fl32_binade [of x] by (cases "x = 0") (auto simp: fl32_def intro: order_trans [rotated])

lemma fl32_mono:
  assumes "0 \<le> x" "x \<le> y"
  shows "fl32 x \<le> fl32 y"
proof (cases "x = 0")
  case True
  then show ?thesis using fl32_nonneg [of y] assms by (simp add: fl32_def [of 0])
next
  case False
  with assms have pos: "0 < x" "0 < y" by auto
  show ?thesis
  proof (cases "flog2 x < flog2 y")
    case True
    then have "(2 :: rat) powi (flog2 x + 1) \<le> 2 powi flog2 y" by (intro power_int_increasing) auto
    with fl32_binade [OF pos(1)] fl32_binade [OF pos(2)] show ?thesis by linarith
  next
    case False
    have "x < 2 powi (flog2 y + 1)" using flog2_bounds [OF pos(2)] assms(2) by simp
    then have "flog2 x < flog2 y + 1" by (rule flog2_lt [OF pos(1)])
    with False have e: "flog2 x = flog2 y" by simp
    have "x / 2 powi (flog2 y - 23) \<le> y / 2 powi (flog2 y - 23)"
      using assms(2) by (intro divide_right_mono) auto
    then show ?thesis
      using pos by (simp add: fl32_def Let_def e round_half_even_mono)
  qed
qed

lemma fl32_error:
  assumes "0 \<le> x"
  shows "\<bar>fl32 x - x\<bar> \<le> x / 2 ^ 24"
proof (cases "x = 0")
  case False
  with assms have pos: "0 < x" by simp
  define u :: rat where "u = 2 powi (flog2 x - 23)"
  have u: "0 < u" "2 powi flog2 x = 2 ^ 23 * u" by (simp_all add: u_def power_int_diff)
  have "fl32 x - x = (of_int (round_half_even (x / u)) - x / u) * u"
    using pos u(1) by (simp add: fl32_def u_def Let_def left_diff_distrib)
  then have "\<bar>fl32 x - x\<bar> = \<bar>of_int (round_half_even (x / u)) - x / u\<bar> * u"
    using u(1) by (simp add: abs_mult)
  also have "\<dots> \<le> 1 / 2 * u" using u(1) round_half_even_error by (intro mult_right_mono) auto
  also have "\<dots> \<le> x / 2 ^ 24" using flog2_bounds [OF pos] u by simp
  finally show ?thesis .
qed (simp add: fl32_def)

text \<open>Evaluation on a concrete value, from its binary exponent and its significand.\<close>

lemma floor_rat_numeral: "\<lfloor>numeral a / numeral b :: rat\<rfloor> = numeral a div numeral b"
  by (metis floor_divide_of_int_eq of_int_numeral)

lemmas fl32_arith = floor_rat_numeral round_half_even_def Let_def power_int_minus

lemma fl32_eval:
  assumes "2 powi l \<le> x" "x < 2 powi (l + 1)" "round_half_even (x / 2 powi (l - 23)) = k"
  shows "fl32 x = of_int k * 2 powi (l - 23)"
proof -
  have pos: "0 < x" using assms(1) by (rule less_le_trans [rotated]) simp
  have "flog2 x < l + 1" by (rule flog2_lt [OF pos assms(2)])
  moreover have "l \<le> flog2 x"
  proof (rule ccontr)
    assume "\<not> l \<le> flog2 x"
    then have "(2 :: rat) powi (flog2 x + 1) \<le> 2 powi l" by (intro power_int_increasing) auto
    with flog2_bounds [OF pos] assms(1) show False by simp
  qed
  ultimately have "flog2 x = l" by simp
  with pos show ?thesis by (simp add: fl32_def Let_def assms(3))
qed

end
