(* ===== verification/Rle_Engine.thy ===== *)
theory Rle_Engine
  imports Rle_Stream Float32
begin

text \<open>
  The chunked run-length engine shared by the pixel compressors
  (\<open>libs/co/compressor/compressorRLE.ipp\<close>): \<open>_setupResults\<close>, both \<open>_compress\<close> templates
  and \<open>_decompress\<close>. The template arguments become arguments of the definitions: the
  marker, the swizzle function (a pixel to its three or four components), the deswizzle
  function and the alpha policy. The argument \<open>omp\<close> stands for the build configuration:
  \<open>None\<close> without OpenMP, \<open>Some t\<close> for a build whose OpenMP runtime reports \<open>t\<close> threads.
  The chunks of one loop touch disjoint results, so the parallel loop is the sequential one.

  Memory is explicit: the input is the list of pixels the caller passes, and reading beyond
  it, or writing beyond the output buffer, is \<open>None\<close>.
\<close>

section \<open>Chunks\<close>

definition setupResults :: "nat option \<Rightarrow> nat \<Rightarrow> nat \<Rightarrow> nat" where
  "setupResults omp nChannels inSize =
     (case omp of
        None \<Rightarrow> nChannels
      | Some nThreads \<Rightarrow>
          let cpuChunks = (nChannels * nThreads * 4) mod 2 ^ 32;
              sizeChunks = inSize div 4096 * nChannels;
              minChunks = (if sizeChunks < nChannels then nChannels else sizeChunks) mod 2 ^ 32
          in if minChunks < cpuChunks then minChunks else cpuChunks)"

definition maxChunkSize :: "nat \<Rightarrow> nat \<Rightarrow> nat" where
  "maxChunkSize inSize nChunks = (inSize div nChunks + 1) * 2"

text \<open>
  The results are written into buffers of the reserved size, \<open>cs\<close> bytes per component; writing beyond
  it is \<open>None\<close>.
\<close>

definition reserved :: "nat option \<Rightarrow> nat \<Rightarrow> nat \<Rightarrow> nat \<Rightarrow> 'r list list \<Rightarrow> 'r list list option" where
  "reserved omp nChannels inSize cs results =
     (if \<forall>r \<in> set results. cs * length r \<le> maxChunkSize inSize (setupResults omp nChannels inSize) then Some results else None)"

definition chunk_width :: "nat \<Rightarrow> nat \<Rightarrow> rat" where
  "chunk_width nElems nChunks = fl32 (fl32 (of_nat nElems) / fl32 (of_nat nChunks))"

definition chunk_index :: "rat \<Rightarrow> nat \<Rightarrow> nat" where
  "chunk_index width i = nat \<lfloor>fl32 (fl32 (of_nat i) * width)\<rfloor>"

definition read_range :: "'a list \<Rightarrow> nat \<Rightarrow> nat \<Rightarrow> 'a list option" where
  "read_range xs a b = (if a \<le> b \<and> b \<le> length xs then Some (take (b - a) (drop a xs)) else None)"

definition write_range :: "'a list \<Rightarrow> nat \<Rightarrow> 'a list \<Rightarrow> 'a list option" where
  "write_range xs a vs =
     (if a + length vs \<le> length xs then Some (take a xs @ vs @ drop (a + length vs) xs) else None)"

text \<open>
  The loops over the chunks. Chunk \<open>i\<close> of the input reaches from \<open>bound i\<close> to
  \<open>bound (i + 1)\<close>; \<open>encode\<close> turns it into \<open>c\<close> results, which \<open>decode\<close> turns back.
\<close>

fun encode_chunks :: "('a list \<Rightarrow> 'r list) \<Rightarrow> (nat \<Rightarrow> nat) \<Rightarrow> 'a list \<Rightarrow> nat list \<Rightarrow> 'r list option" where
  "encode_chunks encode bound data [] = Some []"
| "encode_chunks encode bound data (i # is) =
     (case read_range data (bound i) (bound (i + 1)) of
        None \<Rightarrow> None
      | Some xs \<Rightarrow> map_option (\<lambda>rs. encode xs @ rs) (encode_chunks encode bound data is))"

fun decode_chunks ::
  "nat \<Rightarrow> (nat \<Rightarrow> 'r list \<Rightarrow> 'a list option) \<Rightarrow> (nat \<Rightarrow> nat) \<Rightarrow> 'r list \<Rightarrow> nat list \<Rightarrow> 'a list \<Rightarrow> 'a list option" where
  "decode_chunks c decode bound ins [] out = Some out"
| "decode_chunks c decode bound ins (i # is) out =
     (if bound (i + 1) < bound i then None
      else case decode (bound (i + 1) - bound i) (take c (drop (c * i) ins)) of
        None \<Rightarrow> None
      | Some xs \<Rightarrow>
          (case write_range out (bound i) xs of
             None \<Rightarrow> None
           | Some out' \<Rightarrow> decode_chunks c decode bound ins is out'))"

section \<open>One chunk\<close>

definition compress_pixel :: "'c::len word \<Rightarrow> ('p \<Rightarrow> 'c word list) \<Rightarrow> 'p \<Rightarrow> 'c chan list \<Rightarrow> 'c chan list" where
  "compress_pixel marker swizzle p chans = map2 (compressToken marker) (swizzle p) chans"

definition compress_chunk :: "'c::len word \<Rightarrow> ('p \<Rightarrow> 'c word list) \<Rightarrow> bool \<Rightarrow> 'p list \<Rightarrow> 'c word list list" where
  "compress_chunk marker swizzle alpha pixels =
     (case pixels of
        [] \<Rightarrow> [[], [], [], []]
      | p # ps \<Rightarrow>
          let chans = map (\<lambda>c. (c, 1, [])) (swizzle p);
              chans' = fold (compress_pixel marker swizzle) ps chans
          in map (chan_flush marker) (if alpha then chans' else chans' @ [(0, 1, [])]))"

fun decompress_chunk ::
  "'c::len word \<Rightarrow> ('c word list \<Rightarrow> 'p) \<Rightarrow> nat \<Rightarrow> 'c chan list \<Rightarrow> 'p list option" where
  "decompress_chunk marker deswizzle 0 chans = Some []"
| "decompress_chunk marker deswizzle (Suc n) chans =
     (case those (map (rle_read marker) chans) of
        None \<Rightarrow> None
      | Some chans' \<Rightarrow>
          map_option (\<lambda>ps. deswizzle (map fst chans') # ps) (decompress_chunk marker deswizzle n chans'))"

section \<open>The whole image\<close>

definition decompress_inputs ::
  "'c::len word \<Rightarrow> ('c word list \<Rightarrow> 'p) \<Rightarrow> bool \<Rightarrow> nat \<Rightarrow> 'c word list list \<Rightarrow> 'p list option" where
  "decompress_inputs marker deswizzle alpha n ins =
     decompress_chunk marker deswizzle n (map (\<lambda>s. (0, 0, s)) (if alpha then ins else take 3 ins))"

definition rle_compress ::
  "nat option \<Rightarrow> nat \<Rightarrow> 'c::len word \<Rightarrow> ('p \<Rightarrow> 'c word list) \<Rightarrow> bool \<Rightarrow> 'p list \<Rightarrow> 'c word list list option" where
  "rle_compress omp pixelSize marker swizzle alpha data =
     (let nPixels = length data;
          nChunks = setupResults omp 4 (nPixels * pixelSize);
          width = chunk_width (nPixels * 4) nChunks
      in encode_chunks (compress_chunk marker swizzle alpha) (chunk_index width) data [0..<nChunks div 4])"

definition rle_decompress ::
  "'c::len word \<Rightarrow> ('c word list \<Rightarrow> 'p) \<Rightarrow> bool \<Rightarrow> 'c word list list \<Rightarrow> 'p list \<Rightarrow> 'p list option" where
  "rle_decompress marker deswizzle alpha ins out =
     (let nPixels = length out;
          width = chunk_width (nPixels * 4) (length ins)
      in decode_chunks 4 (decompress_inputs marker deswizzle alpha) (chunk_index width) ins [0..<length ins div 4] out)"

section \<open>Chunked coding in general\<close>

definition slice :: "'a list \<Rightarrow> nat \<Rightarrow> nat \<Rightarrow> 'a list" where
  "slice xs a b = take (b - a) (drop a xs)"

lemma length_slice [simp]: "b \<le> length xs \<Longrightarrow> length (slice xs a b) = b - a"
  by (simp add: slice_def)

lemma take_slice: "a \<le> b \<Longrightarrow> take a xs @ slice xs a b = take b xs"
  by (metis le_add_diff_inverse slice_def take_add)

locale chunk_coder =
  fixes c :: nat and encode :: "'a list \<Rightarrow> 'r list" and decode :: "nat \<Rightarrow> 'r list \<Rightarrow> 'a list option"
    and norm :: "'a \<Rightarrow> 'a"
  assumes length_encode: "length (encode xs) = c"
    and decode_encode: "decode (length xs) (encode xs) = Some (map norm xs)"
begin

lemma encode_chunks_slices:
  assumes "\<And>i. i \<in> set is \<Longrightarrow> b i \<le> b (i + 1) \<and> b (i + 1) \<le> length data"
  shows "encode_chunks encode b data is = Some (concat (map (\<lambda>i. encode (slice data (b i) (b (i + 1)))) is))"
  using assms by (induction "is") (auto simp: read_range_def slice_def)

lemma decode_chunks_slices:
  assumes mono: "\<And>i. i < K \<Longrightarrow> b i \<le> b (i + 1)"
    and ends: "b K \<le> length data" and len: "length out = length data"
    and ins: "ins = concat (map (\<lambda>i. encode (slice data (b i) (b (i + 1)))) [0..<K])"
    and "i \<le> K"
  shows "decode_chunks c decode b ins [i..<K] (map norm (take (b i) data) @ drop (b i) out) =
    Some (map norm (take (b K) data) @ drop (b K) out)"
  using \<open>i \<le> K\<close>
proof (induction rule: inc_induct)
  case (step i)
  have le: "b i \<le> b (i + 1)" using mono step by simp
  have "b j \<le> length data" if "j \<le> K" for j
    using that by (induction rule: inc_induct) (use mono ends in \<open>fastforce+\<close>)
  then have b: "b (i + 1) \<le> length data" using step by simp
  have "take c (drop (c * i) ins) = encode (slice data (b i) (b (i + 1)))"
    unfolding ins using step by (subst take_drop_concat [where c = c]) (auto simp: length_encode)
  then have dec: "decode (b (i + 1) - b i) (take c (drop (c * i) ins)) = Some (map norm (slice data (b i) (b (i + 1))))"
    using decode_encode [of "slice data (b i) (b (i + 1))"] by (simp only: length_slice [OF b])
  have "write_range (map norm (take (b i) data) @ drop (b i) out) (b i) (map norm (slice data (b i) (b (i + 1)))) =
      Some (map norm (take (b (i + 1)) data) @ drop (b (i + 1)) out)"
    using le b len arg_cong [OF take_slice [OF le, of data], of "map norm"] by (simp add: write_range_def)
  with dec le step show ?case by (simp add: upt_conv_Cons)
qed simp

lemma chunks_result:
  assumes "sorted (map b [0..<Suc K])" "b 0 = 0" "b K \<le> length data" "length out = length data"
  shows "\<exists>rs. encode_chunks encode b data [0..<K] = Some rs \<and> length rs = c * K \<and>
    decode_chunks c decode b rs [0..<K] out = Some (map norm (take (b K) data) @ drop (b K) out)"
proof -
  have mono: "b i \<le> b j" if "i \<le> j" "j \<le> K" for i j
    using sorted_nth_mono [OF assms(1), of i j] that by (simp del: upt_Suc)
  define rs where "rs = concat (map (\<lambda>i. encode (slice data (b i) (b (i + 1)))) [0..<K])"
  have "encode_chunks encode b data [0..<K] = Some rs"
    unfolding rs_def
  proof (rule encode_chunks_slices)
    fix i assume "i \<in> set [0..<K]"
    then show "b i \<le> b (i + 1) \<and> b (i + 1) \<le> length data"
      using mono [of i "i + 1"] mono [of "i + 1" K] assms(3) by simp
  qed
  moreover have "length rs = c * K"
    by (simp add: rs_def length_concat comp_def length_encode sum_list_triv)
  moreover have "decode_chunks c decode b rs [0..<K] out = Some (map norm (take (b K) data) @ drop (b K) out)"
    using decode_chunks_slices [of K b data out rs 0] mono assms rs_def by simp
  ultimately show ?thesis by blast
qed

end

section \<open>The round trip of one chunk\<close>

lemma fold_compress_pixel:
  assumes "\<And>p. length (swz p) = length chans"
  shows "fold (compress_pixel m swz) ps chans =
    map (\<lambda>i. fold (compressToken m) (map (\<lambda>p. swz p ! i) ps) (chans ! i)) [0..<length chans]"
  using assms
proof (induction ps arbitrary: chans)
  case Nil
  then show ?case by (simp add: map_nth)
next
  case (Cons p ps)
  let ?c = "compress_pixel m swz p chans"
  have l: "length ?c = length chans" using Cons.prems by (simp add: compress_pixel_def)
  with Cons have "fold (compress_pixel m swz) ps ?c =
      map (\<lambda>i. fold (compressToken m) (map (\<lambda>p. swz p ! i) ps) (?c ! i)) [0..<length chans]"
    by simp
  moreover have "?c ! i = compressToken m (swz p ! i) (chans ! i)" if "i < length chans" for i
    using that Cons.prems by (simp add: compress_pixel_def)
  ultimately show ?case by simp
qed

text \<open>The streams of a chunk: channel \<open>i\<close> is the run-length coding of component \<open>i\<close>.\<close>

lemma compress_chunk_streams:
  assumes "\<And>p. length (swz p) = k" "ps \<noteq> []"
  shows "compress_chunk m swz alpha ps =
    map (\<lambda>i. rle_stream m (map (\<lambda>p. swz p ! i) ps)) [0..<k] @ (if alpha then [] else [rle_write m 0 1 []])"
proof -
  obtain q qs where q: "ps = q # qs" using assms(2) by (cases ps) auto
  have "map (chan_flush m) (fold (compress_pixel m swz) qs (map (\<lambda>c. (c, 1, [])) (swz q))) =
      map (\<lambda>i. rle_stream m (map (\<lambda>p. swz p ! i) ps)) [0..<k]"
    using assms(1) by (simp add: fold_compress_pixel q rle_stream_def)
  then show ?thesis by (simp add: compress_chunk_def q Let_def)
qed

lemma decompress_chunk_columns:
  assumes "\<And>i. i < length chans \<Longrightarrow> \<exists>c'. rle_decode m n (chans ! i) = Some (f i, c')"
  shows "decompress_chunk m des n chans =
    Some (map (\<lambda>j. des (map (\<lambda>i. f i ! j) [0..<length chans])) [0..<n])"
  using assms
proof (induction n arbitrary: chans f)
  case (Suc n)
  have "\<exists>c. rle_read m (chans ! i) = Some c \<and> f i = fst c # tl (f i) \<and> (\<exists>c'. rle_decode m n c = Some (tl (f i), c'))"
    if "i < length chans" for i
    using Suc.prems [OF that] by (auto split: option.splits dest: sym)
  then obtain g where g: "\<And>i. i < length chans \<Longrightarrow> rle_read m (chans ! i) = Some (g i)"
      "\<And>i. i < length chans \<Longrightarrow> f i = fst (g i) # tl (f i)"
      "\<And>i. i < length chans \<Longrightarrow> \<exists>c'. rle_decode m n (g i) = Some (tl (f i), c')"
    by metis
  have "map (rle_read m) chans = map Some (map g [0..<length chans])"
    using g(1) by (intro nth_equalityI) auto
  then have those: "those (map (rle_read m) chans) = Some (map g [0..<length chans])"
    by (metis those_map_Some)
  have "decompress_chunk m des n (map g [0..<length chans]) =
      Some (map (\<lambda>j. des (map (\<lambda>i. tl (f i) ! j) [0..<length chans])) [0..<n])"
    using Suc.IH [of "map g [0..<length chans]" "\<lambda>i. tl (f i)"] g(3) by simp
  moreover have h: "map (\<lambda>i. f i ! 0) [0..<length chans] = map (fst \<circ> g) [0..<length chans]"
    using g(2) by (auto intro!: map_cong) (metis nth_Cons_0)
  moreover have t: "map (\<lambda>i. f i ! Suc j) [0..<length chans] = map (\<lambda>i. tl (f i) ! j) [0..<length chans]" for j
    using g(2) by (auto intro!: map_cong) (metis nth_Cons_Suc)
  ultimately show ?case
    unfolding map_upt_Suc h t by (simp add: those)
qed simp

section \<open>The round trip of an image\<close>

text \<open>
  The float arithmetic splits an image of \<open>n\<close> pixels into chunks whose bounds never
  decrease; that the last bound is \<open>n\<close> is a property of the numbers only, and it can fail.
\<close>

definition chunk_bounds :: "nat option \<Rightarrow> nat \<Rightarrow> nat \<Rightarrow> nat list" where
  "chunk_bounds omp pixelSize n =
     (let nChunks = setupResults omp 4 (n * pixelSize); width = chunk_width (n * 4) nChunks
      in map (chunk_index width) [0..<Suc (nChunks div 4)])"

definition chunks_ok :: "nat option \<Rightarrow> nat \<Rightarrow> nat \<Rightarrow> bool" where
  "chunks_ok omp pixelSize n = (last (chunk_bounds omp pixelSize n) = n)"

lemma chunk_index_0 [simp]: "chunk_index w 0 = 0"
  by (simp add: chunk_index_def fl32_def)

lemma chunk_index_mono: "0 \<le> w \<Longrightarrow> i \<le> j \<Longrightarrow> chunk_index w i \<le> chunk_index w j"
  unfolding chunk_index_def by (intro nat_mono floor_mono fl32_mono mult_right_mono mult_nonneg_nonneg fl32_nonneg) auto

lemma chunk_index_small: "i \<le> 2 ^ 24 \<Longrightarrow> chunk_index w i = nat \<lfloor>fl32 (of_nat i * w)\<rfloor>"
  by (simp add: chunk_index_def fl32_of_nat)

lemma chunk_width_nonneg: "0 \<le> chunk_width n k"
  unfolding chunk_width_def by (intro fl32_nonneg divide_nonneg_nonneg) auto

lemma sorted_chunk_index: "0 \<le> w \<Longrightarrow> sorted (map (chunk_index w) [a..<b])"
  by (simp add: sorted_iff_nth_mono chunk_index_mono)

lemma setupResults_dvd: "4 dvd setupResults omp 4 s"
  by (auto simp: setupResults_def Let_def dvd_mod_iff split: option.splits)

locale pixel_codec =
  fixes marker :: "'c::len word" and swizzle :: "'p \<Rightarrow> 'c word list" and deswizzle :: "'c word list \<Rightarrow> 'p"
    and alpha :: bool and norm :: "'p \<Rightarrow> 'p"
  assumes components: "length (swizzle p) = (if alpha then 4 else 3)"
    and deswizzle_swizzle: "deswizzle (swizzle p) = norm p"
begin

lemma length_compress_chunk: "length (compress_chunk marker swizzle alpha ps) = 4"
proof (cases "ps = []")
  case False
  show ?thesis
    using compress_chunk_streams [OF components False, where m = marker and alpha = alpha] by simp
qed (simp add: compress_chunk_def)

lemma chunk_roundtrip:
  "decompress_chunk marker deswizzle (length ps)
     (map (\<lambda>s. (0, 0, s)) (take (if alpha then 4 else 3) (compress_chunk marker swizzle alpha ps))) =
   Some (map norm ps)"
proof (cases "ps = []")
  case False
  define k where "k = (if alpha then 4 else 3 :: nat)"
  let ?col = "\<lambda>i. map (\<lambda>p. swizzle p ! i) ps"
  let ?chans = "map (\<lambda>i. (0, 0, rle_stream marker (?col i))) [0..<k]"
  have "take k (compress_chunk marker swizzle alpha ps) = map (\<lambda>i. rle_stream marker (?col i)) [0..<k]"
    using compress_chunk_streams [OF components False, where m = marker and alpha = alpha] by (auto simp: k_def)
  then have chans: "map (\<lambda>s. (0, 0, s)) (take k (compress_chunk marker swizzle alpha ps)) = ?chans"
    by simp
  have "\<exists>c'. rle_decode marker (length ps) (?chans ! i) = Some (?col i, c')" if "i < length ?chans" for i
    using rle_stream_roundtrip [of marker "?col i" "[]"] that by auto
  then have "decompress_chunk marker deswizzle (length ps) ?chans =
      Some (map (\<lambda>j. deswizzle (map (\<lambda>i. ?col i ! j) [0..<k])) [0..<length ps])"
    using decompress_chunk_columns [of ?chans marker "length ps" ?col deswizzle] by simp
  moreover have "map (\<lambda>j. deswizzle (map (\<lambda>i. ?col i ! j) [0..<k])) [0..<length ps] = map norm ps"
  proof (rule nth_equalityI)
    fix j assume "j < length (map (\<lambda>j. deswizzle (map (\<lambda>i. ?col i ! j) [0..<k])) [0..<length ps])"
    then have j: "j < length ps" by simp
    then have "map (\<lambda>i. ?col i ! j) [0..<k] = swizzle (ps ! j)"
      using components [of "ps ! j"] by (intro nth_equalityI) (auto simp: k_def)
    with j show "map (\<lambda>j. deswizzle (map (\<lambda>i. ?col i ! j) [0..<k])) [0..<length ps] ! j = map norm ps ! j"
      by (simp add: deswizzle_swizzle)
  qed simp
  ultimately show ?thesis unfolding k_def [symmetric] chans by simp
qed simp

end

sublocale pixel_codec \<subseteq> chunk_coder 4 "compress_chunk marker swizzle alpha"
    "decompress_inputs marker deswizzle alpha" norm
proof
  show "decompress_inputs marker deswizzle alpha (length ps) (compress_chunk marker swizzle alpha ps) =
      Some (map norm ps)" for ps
    using chunk_roundtrip [of ps] length_compress_chunk [of ps] by (simp add: decompress_inputs_def split: if_splits)
qed (rule length_compress_chunk)

context pixel_codec
begin

lemma image_result:
  assumes "last (chunk_bounds omp pixelSize (length data)) \<le> length data" "length out = length data"
  shows "\<exists>results. rle_compress omp pixelSize marker swizzle alpha data = Some results \<and>
    rle_decompress marker deswizzle alpha results out =
      (let e = last (chunk_bounds omp pixelSize (length data)) in Some (map norm (take e data) @ drop e out))"
proof -
  define K where "K = setupResults omp 4 (length data * pixelSize) div 4"
  have n4: "setupResults omp 4 (length data * pixelSize) = 4 * K"
    using setupResults_dvd by (simp add: K_def)
  define w where "w = chunk_width (length data * 4) (4 * K)"
  have bounds: "chunk_bounds omp pixelSize (length data) = map (chunk_index w) [0..<Suc K]"
    by (simp add: chunk_bounds_def Let_def n4 w_def del: upt_Suc)
  then have e: "last (chunk_bounds omp pixelSize (length data)) = chunk_index w K" by simp
  obtain rs where rs: "encode_chunks (compress_chunk marker swizzle alpha) (chunk_index w) data [0..<K] = Some rs"
      "length rs = 4 * K"
      "decode_chunks 4 (decompress_inputs marker deswizzle alpha) (chunk_index w) rs [0..<K] out =
        Some (map norm (take (chunk_index w K) data) @ drop (chunk_index w K) out)"
    using chunks_result [of "chunk_index w" K data out] assms unfolding e
    by (auto simp: sorted_chunk_index chunk_width_nonneg w_def simp del: upt_Suc)
  then show ?thesis
    unfolding e Let_def using assms(2)
    by (intro exI [of _ rs]) (simp add: rle_compress_def rle_decompress_def Let_def n4 w_def)
qed

corollary image_roundtrip:
  assumes "chunks_ok omp pixelSize (length data)" "length out = length data"
  shows "\<exists>results. rle_compress omp pixelSize marker swizzle alpha data = Some results \<and>
    rle_decompress marker deswizzle alpha results out = Some (map norm data)"
  using image_result [of omp pixelSize data out] assms by (simp add: chunks_ok_def)

end

text \<open>
  The bounds are right for up to \<open>2 ^ 24\<close> pixels whenever the number of chunks is a power of
  two; in particular without OpenMP, where the single chunk is the whole image.
\<close>

lemma fl32_scaled:
  assumes "n \<le> 2 ^ 24"
  shows "fl32 (of_nat n * 2 powi e) = of_nat n * 2 powi e"
proof (cases "n = 2 ^ 24")
  case True
  have "(2 :: rat) powi (24 + e) = 2 ^ 24 * 2 powi e" by (simp add: power_int_add)
  with True show ?thesis using fl32_exact [of 1 "24 + e"] by simp
next
  case False
  with assms fl32_exact [of n e] show ?thesis by simp
qed

lemma chunks_ok_pow2:
  assumes "n \<le> 2 ^ 24" "setupResults omp 4 (n * pixelSize) = 4 * 2 ^ j"
  shows "chunks_ok omp pixelSize n"
proof -
  have n4: "fl32 (of_nat (n * 4)) = of_nat (n * 4)" using fl32_scaled [OF assms(1), of 2] by simp
  have k4: "fl32 (of_nat (4 * 2 ^ j)) = of_nat (4 * 2 ^ j)"
    using fl32_exact [of 1 "int (j + 2)"] by (simp add: power_int_add)
  have "chunk_width (n * 4) (4 * 2 ^ j) = fl32 (of_nat n * 2 powi (- int j))"
    unfolding chunk_width_def n4 k4 by (simp add: power_int_minus field_simps)
  then have w: "chunk_width (n * 4) (4 * 2 ^ j) = of_nat n * 2 powi (- int j)"
    using fl32_scaled [OF assms(1)] by simp
  have "of_nat (2 ^ j) * (of_nat n * 2 powi (- int j)) = rat_of_nat n"
    by (simp add: power_int_minus field_simps)
  moreover have "fl32 (of_nat (2 ^ j)) = of_nat (2 ^ j)" using fl32_exact [of 1 "int j"] by simp
  ultimately have "chunk_index (of_nat n * 2 powi (- int j)) (2 ^ j) = n"
    unfolding chunk_index_def using fl32_scaled [OF assms(1), of 0] by (simp only:) simp
  then show ?thesis by (simp add: chunks_ok_def chunk_bounds_def assms(2) Let_def w)
qed

lemma chunks_ok_single: "n \<le> 2 ^ 24 \<Longrightarrow> chunks_ok None pixelSize n"
  using chunks_ok_pow2 [of n None pixelSize 0] by (simp add: setupResults_def)

section \<open>The reserved buffers\<close>

lemma encode_chunks_from:
  assumes "encode_chunks encode b data is = Some rs" "r \<in> set rs"
  shows "\<exists>i \<in> set is. \<exists>xs. length xs = b (i + 1) - b i \<and> r \<in> set (encode xs)"
  using assms
proof (induction "is" arbitrary: rs)
  case (Cons i "is")
  then obtain xs ss where h: "read_range data (b i) (b (i + 1)) = Some xs" "encode_chunks encode b data is = Some ss" "rs = encode xs @ ss"
    by (auto split: option.splits)
  have "length xs = b (i + 1) - b i" using h(1) by (auto simp: read_range_def split: if_splits)
  then show ?case using Cons.IH [OF h(2)] Cons.prems(2) unfolding h(3) by auto
qed simp

lemma length_compress_chunk_le:
  assumes "2 \<le> LENGTH('c)" "\<And>p. length (swz p) = n" "s \<in> set (compress_chunk (m :: 'c::len word) swz alpha ps)"
  shows "length s \<le> 2 * length ps + 2"
proof (cases "ps = []")
  case False
  have "length (rle_stream m (map (\<lambda>p. swz p ! i) ps)) \<le> 2 * length ps + 1" for i
    using length_rle_stream [OF assms(1), of m "map (\<lambda>p. swz p ! i) ps"] by simp
  then have "length (rle_stream m (map (\<lambda>p. swz p ! i) ps)) \<le> 2 * length ps + 2" for i
    by (rule order_trans) simp
  moreover have "length (rle_write m 0 1 []) \<le> 2 * length ps + 2"
    using False by (cases ps) (auto simp: rle_write_def)
  ultimately show ?thesis
    using assms(3) compress_chunk_streams [OF assms(2) False, where m = m and alpha = alpha] by (auto split: if_splits)
qed (use assms(3) in \<open>simp add: compress_chunk_def\<close>)

lemma chunk_index_exact:
  assumes "n * 2 ^ j \<le> 2 ^ 24" "i \<le> 2 ^ j"
  shows "chunk_index (chunk_width (n * 2 ^ j * 4) (4 * 2 ^ j)) i = i * n"
proof -
  have i: "i * n \<le> 2 ^ 24" using order_trans [OF mult_le_mono2 [OF assms(2), of n] assms(1)] by (simp add: mult.commute)
  have n: "n \<le> 2 ^ 24" using order_trans [OF _ assms(1), of n] by simp
  have n4: "fl32 (of_nat (n * 2 ^ j * 4)) = of_nat (n * 2 ^ j * 4)" using fl32_scaled [OF assms(1), of 2] by simp
  have k4: "fl32 (of_nat (4 * 2 ^ j)) = of_nat (4 * 2 ^ j)" using fl32_exact [of 1 "int (j + 2)"] by (simp add: power_int_add)
  have "chunk_width (n * 2 ^ j * 4) (4 * 2 ^ j) = fl32 (of_nat n)"
    unfolding chunk_width_def n4 k4 by (simp add: field_simps)
  then have "chunk_width (n * 2 ^ j * 4) (4 * 2 ^ j) = of_nat n" using fl32_scaled [OF n, of 0] by simp
  then have c: "chunk_index (chunk_width (n * 2 ^ j * 4) (4 * 2 ^ j)) i = nat \<lfloor>fl32 (fl32 (of_nat i) * of_nat n)\<rfloor>"
    by (simp add: chunk_index_def)
  show ?thesis
  proof (cases "n = 0")
    case True
    then show ?thesis using c by (simp add: fl32_def [of 0])
  next
    case False
    then have "i \<le> n * 2 ^ j" using assms(2) by (cases n) auto
    then have "fl32 (of_nat i) = of_nat i" using assms(1) by (intro fl32_of_nat) (rule order_trans)
    then have "chunk_index (chunk_width (n * 2 ^ j * 4) (4 * 2 ^ j)) i = nat \<lfloor>rat_of_nat (i * n)\<rfloor>"
      using fl32_scaled [OF i, of 0] c by simp
    then show ?thesis by (simp del: of_nat_mult)
  qed
qed

text \<open>With chunks of equal size no result outgrows its buffer.\<close>

lemma rle_compress_reserved:
  assumes "2 \<le> LENGTH('c)" "\<And>p. length (swz p) = k" "rle_compress omp 4 (m :: 'c::len word) swz alpha data = Some rs"
    and "length data \<le> 2 ^ 24" "setupResults omp 4 (length data * 4) = 4 * 2 ^ j" "2 ^ j dvd length data"
  shows "reserved omp 4 (length data * 4) 1 rs = Some rs"
proof -
  obtain n where n: "length data = n * 2 ^ j" using assms(6) by (metis dvd_div_mult_self)
  let ?b = "chunk_index (chunk_width (length data * 4) (4 * 2 ^ j))"
  have e: "encode_chunks (compress_chunk m swz alpha) ?b data [0..<2 ^ j] = Some rs"
    using assms(3,5) by (simp add: rle_compress_def Let_def)
  have b: "?b i = i * n" if "i \<le> 2 ^ j" for i
    using chunk_index_exact [OF _ that, of n] assms(4) unfolding n by simp
  have "length r \<le> 2 * n + 2" if r: "r \<in> set rs" for r
  proof -
    obtain i xs where i: "i < 2 ^ j" "length xs = ?b (i + 1) - ?b i" "r \<in> set (compress_chunk m swz alpha xs)"
      using encode_chunks_from [OF e r] by auto
    then have "length xs = n" using b [of i] b [of "i + 1"] by simp
    then show ?thesis using length_compress_chunk_le [OF assms(1,2) i(3)] by simp
  qed
  moreover have "maxChunkSize (length data * 4) (4 * 2 ^ j) = 2 * n + 2" by (simp add: maxChunkSize_def n)
  ultimately show ?thesis by (simp add: reserved_def assms(5))
qed

context pixel_codec
begin

lemma image_reserved:
  assumes "2 \<le> LENGTH('c)" "length data \<le> 2 ^ 24" "setupResults omp 4 (length data * 4) = 4 * 2 ^ j" "2 ^ j dvd length data"
    and "length out = length data"
  shows "Option.bind (Option.bind (rle_compress omp 4 marker swizzle alpha data) (reserved omp 4 (length data * 4) 1))
      (\<lambda>r. rle_decompress marker deswizzle alpha r out) = Some (map norm data)"
  using image_roundtrip [OF chunks_ok_pow2 [OF assms(2,3)] assms(5)] rle_compress_reserved [OF assms(1) components _ assms(2-4)] by auto

end

end
