(* ===== verification/Compressors.thy ===== *)
theory Compressors
  imports Swizzle Rle_Engine
begin

text \<open>
  The pixel compression engines of \<open>libs/co/compressor/\<close>: \<open>CompressorRLE4B\<close>,
  \<open>CompressorDiffRLE4B\<close>, \<open>CompressorRLEYUV\<close>, \<open>CompressorDiffRLEYUV\<close>, \<open>CompressorRLE565\<close>,
  \<open>CompressorRLE10A2\<close>, \<open>CompressorRLE4HF\<close> and \<open>CompressorDiffRLE4HF\<close>, each an instance of
  the engine of theory \<open>Rle_Engine\<close> with the functions of theory \<open>Swizzle\<close>. Each engine
  interprets the locale \<open>pixel_codec\<close>, which yields its round trip.
\<close>

section \<open>Engines\<close>

fun comps4 :: "'c \<times> 'c \<times> 'c \<times> 'c \<Rightarrow> 'c list" where
  "comps4 (one, two, three, four) = [one, two, three, four]"

fun comps3 :: "'c \<times> 'c \<times> 'c \<Rightarrow> 'c list" where
  "comps3 (one, two, three) = [one, two, three]"

definition tuple4 :: "'c list \<Rightarrow> 'c \<times> 'c \<times> 'c \<times> 'c" where
  "tuple4 cs = (cs ! 0, cs ! 1, cs ! 2, cs ! 3)"

definition tuple3 :: "'c list \<Rightarrow> 'c \<times> 'c \<times> 'c" where
  "tuple3 cs = (cs ! 0, cs ! 1, cs ! 2)"

definition RLE4B_compress :: "nat option \<Rightarrow> bool \<Rightarrow> bool \<Rightarrow> u32 list \<Rightarrow> u8 list list option" where
  "RLE4B_compress omp useAlpha swizzle data =
     (if useAlpha then
        if swizzle then rle_compress omp 4 0x42 (comps4 \<circ> SwizzleUInt32_swizzle) True data
        else rle_compress omp 4 0x42 (comps4 \<circ> NoSwizzle_swizzle4) True data
      else
        if swizzle then rle_compress omp 4 0x42 (comps3 \<circ> SwizzleUInt24_swizzle) False data
        else rle_compress omp 4 0x42 (comps3 \<circ> NoSwizzle_swizzle3) False data)"

definition RLE4B_decompress :: "bool \<Rightarrow> u8 list list \<Rightarrow> u32 list \<Rightarrow> u32 list option" where
  "RLE4B_decompress useAlpha ins out =
     (if useAlpha then rle_decompress 0x42 (NoSwizzle_deswizzle4 \<circ> tuple4) True ins out
      else rle_decompress 0x42 (NoSwizzle_deswizzle3 \<circ> tuple3) False ins out)"

definition DiffRLE4B_decompress :: "bool \<Rightarrow> u8 list list \<Rightarrow> u32 list \<Rightarrow> u32 list option" where
  "DiffRLE4B_decompress useAlpha ins out =
     (if useAlpha then rle_decompress 0x42 (SwizzleUInt32_deswizzle \<circ> tuple4) True ins out
      else rle_decompress 0x42 (SwizzleUInt24_deswizzle \<circ> tuple3) False ins out)"

definition RLEYUV_compress :: "nat option \<Rightarrow> bool \<Rightarrow> bool \<Rightarrow> u32 list \<Rightarrow> u8 list list option" where
  "RLEYUV_compress omp useAlpha swizzle data =
     (if useAlpha then
        if swizzle then rle_compress omp 4 0x42 (comps4 \<circ> YUV_SwizzleUInt32_swizzle) True data
        else rle_compress omp 4 0x42 (comps4 \<circ> YUV_NoSwizzle_swizzle4) True data
      else
        if swizzle then rle_compress omp 4 0x42 (comps3 \<circ> YUV_SwizzleUInt24_swizzle) False data
        else rle_compress omp 4 0x42 (comps3 \<circ> YUV_NoSwizzle_swizzle3) False data)"

definition RLEYUV_decompress :: "bool \<Rightarrow> u8 list list \<Rightarrow> u32 list \<Rightarrow> u32 list option" where
  "RLEYUV_decompress useAlpha ins out =
     (if useAlpha then rle_decompress 0x42 (YUV_NoSwizzle_deswizzle4 \<circ> tuple4) True ins out
      else rle_decompress 0x42 (YUV_NoSwizzle_deswizzle3 \<circ> tuple3) False ins out)"

definition DiffRLEYUV_decompress :: "bool \<Rightarrow> u8 list list \<Rightarrow> u32 list \<Rightarrow> u32 list option" where
  "DiffRLEYUV_decompress useAlpha ins out =
     (if useAlpha then rle_decompress 0x42 (YUV_SwizzleUInt32_deswizzle \<circ> tuple4) True ins out
      else rle_decompress 0x42 (YUV_SwizzleUInt24_deswizzle \<circ> tuple3) False ins out)"

definition RLE565_compress :: "nat option \<Rightarrow> bool \<Rightarrow> u32 list \<Rightarrow> u8 list list option" where
  "RLE565_compress omp useAlpha data =
     (if useAlpha then rle_compress omp 4 0x17 (comps4 \<circ> RGB565_swizzle4) True data
      else rle_compress omp 4 0x17 (comps3 \<circ> RGB565_swizzle3) False data)"

definition RLE565_decompress :: "bool \<Rightarrow> u8 list list \<Rightarrow> u32 list \<Rightarrow> u32 list option" where
  "RLE565_decompress useAlpha ins out =
     (if useAlpha then rle_decompress 0x17 (RGB565_deswizzle4 \<circ> tuple4) True ins out
      else rle_decompress 0x17 (RGB565_deswizzle3 \<circ> tuple3) False ins out)"

definition RLE10A2_compress :: "nat option \<Rightarrow> bool \<Rightarrow> u32 list \<Rightarrow> u8 list list option" where
  "RLE10A2_compress omp useAlpha data = rle_compress omp 4 0x42 (comps4 \<circ> RGB10A2_swizzle) True data"

definition RLE10A2_decompress :: "bool \<Rightarrow> u8 list list \<Rightarrow> u32 list \<Rightarrow> u32 list option" where
  "RLE10A2_decompress useAlpha ins out = rle_decompress 0x42 (RGB10A2_deswizzle \<circ> tuple4) True ins out"

definition RLE4HF_compress :: "nat option \<Rightarrow> bool \<Rightarrow> bool \<Rightarrow> u64 list \<Rightarrow> u16 list list option" where
  "RLE4HF_compress omp useAlpha swizzle data =
     (if swizzle then
        if useAlpha then rle_compress omp 8 0xffff (comps4 \<circ> HF_Swizzle_swizzle4) True data
        else rle_compress omp 8 0xffff (comps3 \<circ> HF_Swizzle_swizzle3) False data
      else
        if useAlpha then rle_compress omp 8 0xffff (comps4 \<circ> HF_NoSwizzle_swizzle4) True data
        else rle_compress omp 8 0xffff (comps3 \<circ> HF_NoSwizzle_swizzle3) False data)"

definition RLE4HF_decompress :: "bool \<Rightarrow> u16 list list \<Rightarrow> u64 list \<Rightarrow> u64 list option" where
  "RLE4HF_decompress useAlpha ins out =
     (if useAlpha then rle_decompress 0xffff (HF_NoSwizzle_deswizzle4 \<circ> tuple4) True ins out
      else rle_decompress 0xffff (HF_NoSwizzle_deswizzle3 \<circ> tuple3) False ins out)"

definition DiffRLE4HF_decompress :: "bool \<Rightarrow> u16 list list \<Rightarrow> u64 list \<Rightarrow> u64 list option" where
  "DiffRLE4HF_decompress useAlpha ins out =
     (if useAlpha then rle_decompress 0xffff (HF_Swizzle_deswizzle4 \<circ> tuple4) True ins out
      else rle_decompress 0xffff (HF_Swizzle_deswizzle3 \<circ> tuple3) False ins out)"

section \<open>The engines are codecs\<close>

lemma tuple4_comps4 [simp]: "tuple4 (comps4 x) = x \<and> length (comps4 x) = 4"
  by (cases x) (simp add: tuple4_def)

lemma tuple3_comps3 [simp]: "tuple3 (comps3 y) = y \<and> length (comps3 y) = 3"
  by (cases y) (simp add: tuple3_def)

interpretation c4B: pixel_codec "0x42" "comps4 \<circ> NoSwizzle_swizzle4" "NoSwizzle_deswizzle4 \<circ> tuple4" True id
  by unfold_locales (simp_all add: NoSwizzle4)

interpretation c4BX: pixel_codec "0x42" "comps3 \<circ> NoSwizzle_swizzle3" "NoSwizzle_deswizzle3 \<circ> tuple3" False "\<lambda>x. x AND 0xffffff"
  by unfold_locales (simp_all add: NoSwizzle3)

interpretation d4B: pixel_codec "0x42" "comps4 \<circ> SwizzleUInt32_swizzle" "SwizzleUInt32_deswizzle \<circ> tuple4" True id
  by unfold_locales (simp_all add: SwizzleUInt32)

interpretation d4BX: pixel_codec "0x42" "comps3 \<circ> SwizzleUInt24_swizzle" "SwizzleUInt24_deswizzle \<circ> tuple3" False "\<lambda>x. x AND 0xffffff"
  by unfold_locales (simp_all add: SwizzleUInt24)

interpretation c565: pixel_codec "0x17" "comps4 \<circ> RGB565_swizzle4" "RGB565_deswizzle4 \<circ> tuple4" True quantize565A
  by unfold_locales (simp_all add: RGB565_4)

interpretation c565X: pixel_codec "0x17" "comps3 \<circ> RGB565_swizzle3" "RGB565_deswizzle3 \<circ> tuple3" False quantize565
  by unfold_locales (simp_all add: RGB565_3)

interpretation c10A2: pixel_codec "0x42" "comps4 \<circ> RGB10A2_swizzle" "RGB10A2_deswizzle \<circ> tuple4" True id
  by unfold_locales (simp_all add: RGB10A2)

interpretation cHF: pixel_codec "0xffff" "comps4 \<circ> HF_NoSwizzle_swizzle4" "HF_NoSwizzle_deswizzle4 \<circ> tuple4" True id
  by unfold_locales (simp_all add: HF_NoSwizzle4)

interpretation cHFX: pixel_codec "0xffff" "comps3 \<circ> HF_NoSwizzle_swizzle3" "HF_NoSwizzle_deswizzle3 \<circ> tuple3" False "\<lambda>x. x AND 0xffffffffffff"
  by unfold_locales (simp_all add: HF_NoSwizzle3)

interpretation dHF: pixel_codec "0xffff" "comps4 \<circ> HF_Swizzle_swizzle4" "HF_Swizzle_deswizzle4 \<circ> tuple4" True id
  by unfold_locales (simp_all add: HF_Swizzle4)

interpretation dHFX: pixel_codec "0xffff" "comps3 \<circ> HF_Swizzle_swizzle3" "HF_Swizzle_deswizzle3 \<circ> tuple3" False "\<lambda>x. x AND 0xffffffffffff"
  by unfold_locales (simp_all add: HF_Swizzle3)

section \<open>Properties\<close>

text \<open>What is left of a pixel when its alpha byte is not transmitted.\<close>

definition seen :: "bool \<Rightarrow> u32 \<Rightarrow> u32" where
  "seen useAlpha p = (if useAlpha then p else p AND 0xffffff)"

definition seen16 :: "bool \<Rightarrow> u64 \<Rightarrow> u64" where
  "seen16 useAlpha p = (if useAlpha then p else p AND 0xffffffffffff)"

lemmas engine_defs = RLE4B_compress_def RLE4B_decompress_def DiffRLE4B_decompress_def
  RLEYUV_compress_def RLEYUV_decompress_def DiffRLEYUV_decompress_def YUV_same
  RLE10A2_compress_def RLE10A2_decompress_def RLE565_compress_def RLE565_decompress_def
  RLE4HF_compress_def RLE4HF_decompress_def DiffRLE4HF_decompress_def

lemma bind_SomeI: "\<exists>r. f = Some r \<and> g r = Some y \<Longrightarrow> Option.bind f g = Some y"
  by auto

text \<open>Whenever the chunk bounds computed in floating point are good, the engines for four-byte
  pixels give back every pixel; when the alpha channel is ignored its byte comes back as zero.\<close>

theorem RLE4B_lossless:
  assumes "chunks_ok omp 4 (length data)" "length out = length data"
  shows "Option.bind (RLE4B_compress omp useAlpha False data) (\<lambda>r. RLE4B_decompress useAlpha r out) =
      Some (map (seen useAlpha) data) \<and>
    Option.bind (RLE4B_compress omp useAlpha True data) (\<lambda>r. DiffRLE4B_decompress useAlpha r out) =
      Some (map (seen useAlpha) data) \<and>
    Option.bind (RLEYUV_compress omp useAlpha False data) (\<lambda>r. RLEYUV_decompress useAlpha r out) =
      Some (map (seen useAlpha) data) \<and>
    Option.bind (RLEYUV_compress omp useAlpha True data) (\<lambda>r. DiffRLEYUV_decompress useAlpha r out) =
      Some (map (seen useAlpha) data) \<and>
    Option.bind (RLE10A2_compress omp useAlpha data) (\<lambda>r. RLE10A2_decompress useAlpha r out) = Some data"
  using bind_SomeI [OF c4B.image_roundtrip [OF assms]] bind_SomeI [OF c4BX.image_roundtrip [OF assms]]
    bind_SomeI [OF d4B.image_roundtrip [OF assms]] bind_SomeI [OF d4BX.image_roundtrip [OF assms]]
    bind_SomeI [OF c10A2.image_roundtrip [OF assms]]
  by (cases useAlpha) (simp_all add: engine_defs seen_def [abs_def])

theorem RLE4B_lossless_witness:
  "Option.bind (RLE4B_compress None False True [0x42424242, 0x42424242, 0x80FF0042]) (\<lambda>r. DiffRLE4B_decompress False r [1, 2, 3]) =
     Some [0x424242, 0x424242, 0xFF0042]"
  using RLE4B_lossless [of None "[0x42424242, 0x42424242, 0x80FF0042]" "[1, 2, 3]" False]
  by (simp add: chunks_ok_single seen_def)

text \<open>C5. The engines for four-byte pixels (RGBA, YUV, with or without the bit swizzle, and
  RGB10A2) are lossless on images of up to \<open>2 ^ 24\<close> pixels that are split into chunks of equal size, whose number
  is a power of two (always so without OpenMP, where there is one chunk): compression writes no result beyond
  the buffer reserved for it, and decompression into a buffer of the same size gives back every
  pixel; when the alpha channel is ignored its byte comes back as zero. With other numbers of chunks the last pixels
  can be lost (\<open>RLE4B_drops_last_pixel\<close>).\<close>

theorem RLE4B_roundtrip:
  assumes "length data \<le> 2 ^ 24" "setupResults omp 4 (length data * 4) = 4 * 2 ^ j" "2 ^ j dvd length data" "length out = length data"
  shows "Option.bind (Option.bind (RLE4B_compress omp useAlpha False data) (reserved omp 4 (length data * 4) 1))
      (\<lambda>r. RLE4B_decompress useAlpha r out) = Some (map (seen useAlpha) data) \<and>
    Option.bind (Option.bind (RLE4B_compress omp useAlpha True data) (reserved omp 4 (length data * 4) 1))
      (\<lambda>r. DiffRLE4B_decompress useAlpha r out) = Some (map (seen useAlpha) data) \<and>
    Option.bind (Option.bind (RLEYUV_compress omp useAlpha False data) (reserved omp 4 (length data * 4) 1))
      (\<lambda>r. RLEYUV_decompress useAlpha r out) = Some (map (seen useAlpha) data) \<and>
    Option.bind (Option.bind (RLEYUV_compress omp useAlpha True data) (reserved omp 4 (length data * 4) 1))
      (\<lambda>r. DiffRLEYUV_decompress useAlpha r out) = Some (map (seen useAlpha) data) \<and>
    Option.bind (Option.bind (RLE10A2_compress omp useAlpha data) (reserved omp 4 (length data * 4) 1))
      (\<lambda>r. RLE10A2_decompress useAlpha r out) = Some data"
  using c4B.image_reserved [OF _ assms] c4BX.image_reserved [OF _ assms] d4B.image_reserved [OF _ assms]
    d4BX.image_reserved [OF _ assms] c10A2.image_reserved [OF _ assms]
  by (cases useAlpha) (simp_all add: engine_defs seen_def [abs_def])

theorem RLE4B_roundtrip_witness:
  "Option.bind (Option.bind (RLE4B_compress None False True [0x42424242, 0x42424242, 0x80FF0042]) (reserved None 4 12 1))
     (\<lambda>r. DiffRLE4B_decompress False r [1, 2, 3]) = Some [0x424242, 0x424242, 0xFF0042]"
  using RLE4B_roundtrip [of "[0x42424242, 0x42424242, 0x80FF0042]" None 0 "[1, 2, 3]" False]
  by (simp add: setupResults_def seen_def)

text \<open>The half-float engines return every eight-byte pixel, with the fourth component
  zeroed when alpha is ignored.\<close>

theorem RLE4HF_roundtrip:
  assumes "chunks_ok omp 8 (length data)" "length out = length data"
  shows "Option.bind (RLE4HF_compress omp useAlpha False data) (\<lambda>r. RLE4HF_decompress useAlpha r out) =
      Some (map (seen16 useAlpha) data) \<and>
    Option.bind (RLE4HF_compress omp useAlpha True data) (\<lambda>r. DiffRLE4HF_decompress useAlpha r out) =
      Some (map (seen16 useAlpha) data)"
  using bind_SomeI [OF cHF.image_roundtrip [OF assms]] bind_SomeI [OF cHFX.image_roundtrip [OF assms]]
    bind_SomeI [OF dHF.image_roundtrip [OF assms]] bind_SomeI [OF dHFX.image_roundtrip [OF assms]]
  by (cases useAlpha) (simp_all add: engine_defs seen16_def [abs_def])

theorem RLE4HF_roundtrip_witness:
  "Option.bind (RLE4HF_compress None True True [0xFFFFFFFF00010002, 7]) (\<lambda>r. DiffRLE4HF_decompress True r [0, 0]) =
     Some [0xFFFFFFFF00010002, 7]"
  using RLE4HF_roundtrip [of None "[0xFFFFFFFF00010002, 7]" "[0, 0]" True]
  by (simp add: chunks_ok_single seen16_def)

text \<open>The 565 engine loses exactly the low bits of each component: decompression gives the
  pixel with its colours reduced to five, six and five bits (five each and one bit of alpha
  when alpha is used) and the dropped bits replaced by a constant, and a second pass through
  the engine changes nothing more.\<close>

lemma quantize565_idem: "quantize565A (quantize565A p) = quantize565A p" "quantize565 (quantize565 p) = quantize565 p"
  unfolding quantize565A_def quantize565_def
  by (rule bit_word_eqI, auto simp: bit_simps)+

theorem RLE565_quantizes:
  assumes "chunks_ok omp 4 (length data)" "length out = length data"
  shows "Option.bind (RLE565_compress omp useAlpha data) (\<lambda>r. RLE565_decompress useAlpha r out) =
      Some (map (if useAlpha then quantize565A else quantize565) data) \<and>
    (let q = map (if useAlpha then quantize565A else quantize565) data in
      Option.bind (RLE565_compress omp useAlpha q) (\<lambda>r. RLE565_decompress useAlpha r out) = Some q)"
proof -
  have "chunks_ok omp 4 (length (map f data))" "length out = length (map f data)" for f :: "u32 \<Rightarrow> u32"
    using assms by simp_all
  note again = bind_SomeI [OF c565.image_roundtrip [OF this]] bind_SomeI [OF c565X.image_roundtrip [OF this]]
  show ?thesis
    using bind_SomeI [OF c565.image_roundtrip [OF assms]] bind_SomeI [OF c565X.image_roundtrip [OF assms]]
      again(1) [of quantize565A] again(2) [of quantize565]
    by (cases useAlpha) (simp_all add: engine_defs quantize565_idem comp_def Let_def)
qed

theorem RLE565_quantizes_witness:
  "Option.bind (RLE565_compress None False [0xFFABCDEF]) (\<lambda>r. RLE565_decompress False r [0]) = Some [0xAACEEA]"
  using RLE565_quantizes [of None "[0xFFABCDEF]" "[0]" False] by (simp add: chunks_ok_single quantize565_def)

section \<open>Floating-point chunk bounds and buffer sizes\<close>

lemma chunk_index_eval:
  assumes "2 powi l \<le> of_nat i * w" "of_nat i * w < 2 powi (l + 1)"
    and "round_half_even (of_nat i * w / 2 powi (l - 23)) = k" "\<lfloor>of_int k * 2 powi (l - 23) :: rat\<rfloor> = int n"
    and "i \<le> 2 ^ 24"
  shows "chunk_index w i = n"
  using fl32_eval [OF assms(1-3)] assms(4) by (simp add: chunk_index_small [OF assms(5)])

lemma chunk_width_7173: "chunk_width 28692 28 = 8394459 / 8192"
proof -
  have "fl32 (of_nat 28692) = of_nat 28692" by (rule fl32_of_nat) simp
  moreover have "fl32 (of_nat 28) = of_nat 28" by (rule fl32_of_nat) simp
  moreover have "fl32 (7173 / 7) = of_int 8394459 * 2 powi (10 - 23)"
    by (rule fl32_eval) (simp_all add: fl32_arith)
  ultimately show ?thesis by (simp add: chunk_width_def power_int_minus)
qed

lemma chunk_index_7173:
  "chunk_index (8394459 / 8192) (Suc 0) = 1024"
  "chunk_index (8394459 / 8192) 2 = 2049"
  "chunk_index (8394459 / 8192) 3 = 3074"
  "chunk_index (8394459 / 8192) 4 = 4098"
  "chunk_index (8394459 / 8192) 5 = 5123"
  "chunk_index (8394459 / 8192) 6 = 6148"
  "chunk_index (8394459 / 8192) 7 = 7172"
  subgoal by (rule chunk_index_eval [where l = 10 and k = 8394459]) (simp_all add: fl32_arith)
  subgoal by (rule chunk_index_eval [where l = 11 and k = 8394459]) (simp_all add: fl32_arith)
  subgoal by (rule chunk_index_eval [where l = 11 and k = 12591688]) (simp_all add: fl32_arith)
  subgoal by (rule chunk_index_eval [where l = 12 and k = 8394459]) (simp_all add: fl32_arith)
  subgoal by (rule chunk_index_eval [where l = 12 and k = 10493074]) (simp_all add: fl32_arith)
  subgoal by (rule chunk_index_eval [where l = 12 and k = 12591688]) (simp_all add: fl32_arith)
  subgoal by (rule chunk_index_eval [where l = 12 and k = 14690303]) (simp_all add: fl32_arith)
  done

lemma chunk_bounds_7173:
  assumes "2 \<le> t" "t < 2 ^ 28"
  shows "chunk_bounds (Some t) 4 7173 = [0, 1024, 2049, 3074, 4098, 5123, 6148, 7172]"
proof -
  have "setupResults (Some t) 4 28692 = 28" using assms by (simp add: setupResults_def Let_def)
  moreover have "[0..<7] = [0, 1, 2, 3, 4, 5, 6 :: nat]" by code_simp
  ultimately show ?thesis
    by (simp add: chunk_bounds_def chunk_width_7173 chunk_index_7173 Let_def)
qed

text \<open>In a build with OpenMP and at least two threads, compressing an image of 7173
  four-byte pixels drops the last one: seven chunks are made, the rounding of the chunk width
  puts the last bound at 7172, and after decompression the last pixel of the output buffer
  still has the content it had before.\<close>

theorem RLE4B_drops_last_pixel:
  assumes "2 \<le> t" "t < 2 ^ 28" "length data = 7173" "length out = 7173"
  shows "Option.bind (RLE4B_compress (Some t) True False data) (\<lambda>r. RLE4B_decompress True r out) =
    Some (take 7172 data @ [out ! 7172])"
proof -
  have "drop 7172 out = [out ! 7172]"
    using assms(4) Cons_nth_drop_Suc [of 7172 out] by simp
  then show ?thesis
    using bind_SomeI [OF c4B.image_result [of "Some t" 4 data out, unfolded Let_def]]
      chunk_bounds_7173 [OF assms(1,2)] assms(3,4)
    by (simp add: engine_defs)
qed

theorem RLE4B_drops_last_pixel_witness:
  "\<exists>data out. length data = 7173 \<and> length out = 7173 \<and>
     Option.bind (RLE4B_compress (Some 2) True False data) (\<lambda>r. RLE4B_decompress True r out) \<noteq> Some data"
proof (intro exI conjI)
  let ?data = "replicate 7173 9 :: u32 list" and ?out = "replicate 7173 0 :: u32 list"
  show len: "length ?data = 7173" "length ?out = 7173" by (rule length_replicate)+
  have "?out ! 7172 = 0" by (rule nth_replicate) simp
  then have "Option.bind (RLE4B_compress (Some 2) True False ?data) (\<lambda>r. RLE4B_decompress True r ?out) =
      Some (take 7172 ?data @ [0])"
    using RLE4B_drops_last_pixel [OF _ _ len, of 2] by simp
  moreover have "take 7172 ?data @ [0] \<noteq> ?data"
  proof
    assume "take 7172 ?data @ [0] = ?data"
    then have "last (take 7172 ?data @ [0]) = last ?data" by (rule arg_cong)
    moreover have "last ?data = 9" by (simp only: last_replicate)
    ultimately have "(0 :: u32) = 9" unfolding last_snoc by (rule trans)
    then show False by simp
  qed
  ultimately show "Option.bind (RLE4B_compress (Some 2) True False ?data) (\<lambda>r. RLE4B_decompress True r ?out) \<noteq> Some ?data"
    by (simp only: option.inject not_False_eq_True)
qed

text \<open>Without OpenMP the buffers that \<open>_setupResults\<close> reserves are large enough: for
  components of one or two bytes no channel of the image is longer than the reserved size.\<close>

lemma length_rle_write_one: "length (rle_write (m :: 'c::len word) 0 1 []) \<le> 3"
  by (simp add: rle_write_def)

theorem single_chunk_fits:
  fixes swz :: "'p \<Rightarrow> 'c::len word list"
  assumes "LENGTH('c) = 8 * cs" "cs \<in> {1, 2}" "\<And>p. length (swz p) = (if alpha then 4 else 3)" "data \<noteq> []"
    and "s \<in> set (compress_chunk m swz alpha data)"
  shows "cs * length s \<le> maxChunkSize (length data * (4 * cs)) (setupResults None 4 (length data * (4 * cs)))"
proof -
  have "length s \<le> 2 * length data + 1"
  proof -
    have "length (rle_stream m (map (\<lambda>p. swz p ! i) data)) \<le> 2 * length data + 1" for i
      using length_rle_stream [of m "map (\<lambda>p. swz p ! i) data"] assms(1,2) by auto
    moreover have "3 \<le> 2 * length data + 1" using assms(4) by (cases data) auto
    ultimately show ?thesis
      using assms(5) compress_chunk_streams [OF assms(3,4), where m = m and alpha = alpha]
        order_trans [OF length_rle_write_one [of m]]
      by (auto split: if_splits)
  qed
  then have "cs * length s \<le> cs * (2 * length data + 1)" by (rule mult_le_mono2)
  also have "\<dots> \<le> 2 * (length data * cs + 1)" using assms(2) by auto
  finally show ?thesis by (simp add: maxChunkSize_def setupResults_def algebra_simps)
qed

theorem single_chunk_fits_witness:
  "[0x42, 0x42, 1] \<in> set (compress_chunk (0x42 :: u8) (comps4 \<circ> NoSwizzle_swizzle4) True [0x42424242]) \<and>
   1 * length [0x42, 0x42, 1 :: u8] \<le> maxChunkSize (1 * (4 * 1)) (setupResults None 4 (1 * (4 * 1)))"
proof -
  have mem: "[0x42, 0x42, 1] \<in> set (compress_chunk (0x42 :: u8) (comps4 \<circ> NoSwizzle_swizzle4) True [0x42424242])"
    by (simp add: compress_chunk_def NoSwizzle_swizzle4_def rle_write_def Let_def)
  with single_chunk_fits [of 1 "comps4 \<circ> NoSwizzle_swizzle4" True "[0x42424242]" "[0x42, 0x42, 1]" "0x42 :: u8"]
  show ?thesis by simp
qed

end
