(* ===== verification/Byte_Compressors.thy ===== *)
theory Byte_Compressors
  imports Rle_Engine
begin

text \<open>
  The two compressors that work on untyped memory: \<open>CompressorRLEB\<close>, which reads its input
  as tokens of eight, four, two or one bytes depending on the length, and
  \<open>CompressorRLE4BU\<close>, which reads words of eight bytes and starts every result with the
  number of words. Memory is a list of bytes; a token is read and written in the
  little-endian order of the x86 machines the library targets.
\<close>

section \<open>Tokens in memory\<close>

fun le_join :: "u8 list \<Rightarrow> 'c::len word" where
  "le_join [] = 0"
| "le_join (b # bs) = ucast b OR push_bit 8 (le_join bs)"

fun le_split :: "nat \<Rightarrow> 'c::len word \<Rightarrow> u8 list" where
  "le_split 0 w = []"
| "le_split (Suc n) w = ucast w # le_split n (drop_bit 8 w)"

fun tokens_of :: "nat \<Rightarrow> u8 list \<Rightarrow> 'c::len word list" where
  "tokens_of k bs = (if k = 0 \<or> length bs < k then [] else le_join (take k bs) # tokens_of k (drop k bs))"

definition bytes_of :: "nat \<Rightarrow> 'c::len word list \<Rightarrow> u8 list" where
  "bytes_of k ws = concat (map (le_split k) ws)"

declare tokens_of.simps [simp del]

section \<open>CompressorRLEB\<close>

definition rleb_bound :: "nat \<Rightarrow> nat \<Rightarrow> nat \<Rightarrow> nat" where
  "rleb_bound nChunks n i = (if i = nChunks then n else chunk_index (chunk_width n nChunks) i)"

definition rleb_compressChunk :: "'c::len word \<Rightarrow> 'c word list \<Rightarrow> 'c word list" where
  "rleb_compressChunk marker xs = rle_stream marker xs"

definition rleb_compress :: "nat option \<Rightarrow> 'c::len word \<Rightarrow> nat \<Rightarrow> 'c word list \<Rightarrow> 'c word list list option" where
  "rleb_compress omp marker k data =
     (let n = length data; nChunks = setupResults omp 1 (n * k)
      in encode_chunks (\<lambda>xs. [rleb_compressChunk marker xs]) (rleb_bound nChunks n) data [0..<nChunks])"

definition rleb_decompressChunk :: "'c::len word \<Rightarrow> nat \<Rightarrow> 'c word list \<Rightarrow> 'c word list option" where
  "rleb_decompressChunk marker n ins = map_option fst (rle_decode marker n (0, 0, ins))"

definition rleb_decompress :: "'c::len word \<Rightarrow> 'c word list list \<Rightarrow> 'c word list \<Rightarrow> 'c word list option" where
  "rleb_decompress marker ins out =
     (let n = length out; nInputs = length ins
      in decode_chunks 1 (\<lambda>m rs. rleb_decompressChunk marker m (hd rs)) (rleb_bound nInputs n) ins [0..<nInputs] out)"

definition rleb_compress_bytes :: "nat option \<Rightarrow> 'c::len word \<Rightarrow> nat \<Rightarrow> u8 list \<Rightarrow> u8 list list option" where
  "rleb_compress_bytes omp marker k bytes =
     map_option (map (bytes_of k)) (rleb_compress omp marker k (tokens_of k bytes))"

definition rleb_decompress_bytes :: "'c::len word \<Rightarrow> nat \<Rightarrow> u8 list list \<Rightarrow> u8 list \<Rightarrow> u8 list option" where
  "rleb_decompress_bytes marker k ins out =
     map_option (bytes_of k) (rleb_decompress marker (map (tokens_of k) ins) (tokens_of k out))"

definition RLEB_compress :: "nat option \<Rightarrow> u8 list \<Rightarrow> u8 list list option" where
  "RLEB_compress omp bytes =
     (let n = length bytes in
      if n AND 0x7 = 0 then rleb_compress_bytes omp (0x42 :: u64) 8 bytes
      else if n AND 0x3 = 0 then rleb_compress_bytes omp (0x42 :: u32) 4 bytes
      else if n AND 0x1 = 0 then rleb_compress_bytes omp (0x42 :: u16) 2 bytes
      else rleb_compress_bytes omp (0x42 :: u8) 1 bytes)"

definition RLEB_decompress :: "u8 list list \<Rightarrow> u8 list \<Rightarrow> u8 list option" where
  "RLEB_decompress ins out =
     (let n = length out in
      if n AND 0x7 = 0 then rleb_decompress_bytes (0x42 :: u64) 8 ins out
      else if n AND 0x3 = 0 then rleb_decompress_bytes (0x42 :: u32) 4 ins out
      else if n AND 0x1 = 0 then rleb_decompress_bytes (0x42 :: u16) 2 ins out
      else rleb_decompress_bytes (0x42 :: u8) 1 ins out)"

section \<open>Tokens and bytes correspond\<close>

lemma length_le_split [simp]: "length (le_split k w) = k"
  by (induction k arbitrary: w) auto

lemma drop_8_ucast [simp]: "drop_bit 8 (ucast (b :: u8) OR push_bit 8 w) = w AND mask (LENGTH('c) - 8)"
  if "8 \<le> LENGTH('c)" for w :: "'c::len word"
  using that by (intro bit_word_eqI) (auto simp: bit_simps dest: bit_imp_le_length)

lemma ucast_low [simp]: "ucast (ucast b OR push_bit 8 w :: 'c::len word) = (b :: u8)" if "8 \<le> LENGTH('c)"
  using that by (intro bit_word_eqI) (auto simp: bit_simps)

lemma le_join_bound: "8 * length bs \<le> j \<Longrightarrow> \<not> bit (le_join bs :: 'c::len word) j"
  by (induction bs arbitrary: j) (auto simp: bit_simps dest: bit_imp_le_length)

lemma le_split_join:
  "8 * length bs \<le> LENGTH('c) \<Longrightarrow> le_split (length bs) (le_join bs :: 'c::len word) = bs"
proof (induction bs)
  case (Cons b bs)
  have "j < LENGTH('c) - 8" if "bit (le_join bs :: 'c word) j" for j
    using le_join_bound [of bs j, where 'c = 'c] that Cons.prems by (cases "8 * length bs \<le> j") auto
  then have "(le_join bs :: 'c word) AND mask (LENGTH('c) - 8) = le_join bs"
    by (intro bit_word_eqI) (auto simp: bit_simps)
  moreover have "8 \<le> LENGTH('c)" using Cons.prems by simp
  ultimately show ?case
    unfolding length_Cons le_split.simps le_join.simps using Cons by (simp only: drop_8_ucast ucast_low) simp
qed simp

lemma le_join_split:
  "LENGTH('c) \<le> 8 * k \<Longrightarrow> le_join (le_split k (w :: 'c::len word)) = w"
proof -
  have "le_join (le_split k (w :: 'c word)) = w AND mask (8 * k)" for k
  proof (induction k arbitrary: w)
    case (Suc k)
    show ?case unfolding le_split.simps le_join.simps Suc
      by (rule bit_word_eqI) (auto simp: bit_simps)
  qed simp
  then show "LENGTH('c) \<le> 8 * k \<Longrightarrow> ?thesis"
    by (intro bit_word_eqI) (auto simp: bit_simps)
qed

lemma tokens_bytes_of:
  assumes "LENGTH('c) = 8 * k"
  shows "tokens_of k (bytes_of k (ws :: 'c::len word list)) = ws"
proof (induction ws)
  case Nil
  then show ?case by (cases k) (simp_all add: bytes_of_def tokens_of.simps)
next
  case (Cons w ws)
  have "0 < k" using assms by (metis gr0I len_not_eq_0 mult_0_right)
  with Cons assms show ?case
    unfolding tokens_of.simps [of k "bytes_of k (w # ws)"] by (simp add: bytes_of_def le_join_split)
qed

lemma bytes_tokens_of:
  "LENGTH('c) = 8 * k \<Longrightarrow> k dvd length bs \<Longrightarrow> bytes_of k (tokens_of k bs :: 'c::len word list) = bs"
proof (induction k bs rule: tokens_of.induct)
  case (1 k bs)
  have k: "k \<noteq> 0" using 1(2) by (metis len_not_eq_0 mult_0_right)
  show ?case
  proof (cases "length bs < k")
    case True
    with 1(3) k have "bs = []" by (metis dvd_imp_le le_antisym length_0_conv less_imp_le_nat less_nat_zero_code not_gr_zero not_less)
    then show ?thesis using k by (simp add: tokens_of.simps bytes_of_def)
  next
    case False
    then have "bytes_of k (tokens_of k (drop k bs) :: 'c word list) = drop k bs"
      using 1 k by (intro 1(1)) (auto simp: dvd_minus_self)
    moreover have "le_split k (le_join (take k bs) :: 'c word) = take k bs"
      using le_split_join [of "take k bs", where 'c = 'c] 1(2) False by simp
    ultimately show ?thesis
      using False k unfolding tokens_of.simps [of k bs] by (simp add: bytes_of_def)
  qed
qed

lemma length_tokens_of:
  "k \<noteq> 0 \<Longrightarrow> length (tokens_of k bs :: 'c::len word list) = length bs div k"
proof (induction k bs rule: tokens_of.induct)
  case (1 k bs)
  then show ?case unfolding tokens_of.simps [of k bs] by (auto simp: le_div_geq)
qed

section \<open>Correctness of CompressorRLEB\<close>

interpretation rleb: chunk_coder 1 "\<lambda>xs. [rleb_compressChunk m xs]" "\<lambda>n rs. rleb_decompressChunk m n (hd rs)" id
  for m :: "'c::len word"
proof
  show "rleb_decompressChunk m (length xs) (hd [rleb_compressChunk m xs]) = Some (map id xs)" for xs
    using rle_stream_roundtrip [of m xs "[]"]
    by (auto simp: rleb_decompressChunk_def rleb_compressChunk_def)
qed simp

text \<open>
  The last bound is the exact length, so only the bound before it matters: it must not
  exceed the length. Up to \<open>2 ^ 24\<close> tokens this follows from the rounding error of the
  width, which is smaller than the one chunk that is left.
\<close>

lemma rleb_last_bound:
  assumes "n \<le> 2 ^ 24" "0 < K" "K \<le> 2 ^ 24" "i < K"
  shows "chunk_index (chunk_width n K) i \<le> n"
proof -
  have w: "chunk_width n K = fl32 (of_nat n / of_nat K)"
    using assms by (simp add: chunk_width_def fl32_of_nat)
  define x :: rat where "x = of_nat n / of_nat K"
  have x: "0 \<le> x" by (simp add: x_def)
  have "fl32 x \<le> x + x / 2 ^ 24" using fl32_error [OF x] abs_ge_self [of "fl32 x - x"] by linarith
  then have "of_nat i * fl32 x \<le> of_nat (K - 1) * (x + x / 2 ^ 24)"
    using assms x fl32_nonneg [OF x] by (intro mult_mono) auto
  also have "\<dots> \<le> of_nat K * x"
  proof -
    have "rat_of_nat (K - 1) * (2 ^ 24 + 1) \<le> of_nat K * 2 ^ 24"
      using assms by (simp add: of_nat_diff algebra_simps)
    then have "rat_of_nat (K - 1) * (2 ^ 24 + 1) * x \<le> of_nat K * 2 ^ 24 * x" using x by (rule mult_right_mono)
    then show ?thesis by (simp add: field_simps)
  qed
  also have "\<dots> = of_nat n" using assms by (simp add: x_def)
  finally have "fl32 (of_nat i * fl32 x) \<le> fl32 (of_nat n)"
    using x fl32_nonneg [OF x] by (intro fl32_mono) auto
  then have "fl32 (of_nat i * fl32 x) \<le> of_nat n" using fl32_of_nat [OF assms(1)] by simp
  moreover have "i \<le> 2 ^ 24" using assms(3,4) by simp
  ultimately show ?thesis unfolding chunk_index_small [OF \<open>i \<le> 2 ^ 24\<close>] w x_def by (simp add: nat_le_iff floor_le_iff)
qed

lemma sorted_rleb_bounds:
  assumes "n \<le> 2 ^ 24 \<or> K = 1" "0 < K" "K \<le> 2 ^ 24"
  shows "sorted (map (rleb_bound K n) [0..<Suc K])"
proof -
  have "map (rleb_bound K n) [0..<Suc K] = map (chunk_index (chunk_width n K)) [0..<K] @ [n]"
    by (simp add: rleb_bound_def)
  moreover have "chunk_index (chunk_width n K) i \<le> n" if "i < K" for i
    using assms that rleb_last_bound [of n K i] by auto
  moreover have "sorted (map (chunk_index (chunk_width n K)) [0..<K])"
    by (rule sorted_chunk_index [OF chunk_width_nonneg])
  ultimately show ?thesis by (simp only: sorted_append) auto
qed

definition rleb_sizes_ok :: "nat option \<Rightarrow> nat \<Rightarrow> bool" where
  "rleb_sizes_ok omp n = (case omp of None \<Rightarrow> True | Some t \<Rightarrow> 0 < t \<and> t < 2 ^ 30 \<and> n \<le> 2 ^ 24)"

lemma setupResults_one:
  assumes "rleb_sizes_ok omp (n * k)" "0 < k"
  shows "0 < setupResults omp 1 (n * k) \<and> setupResults omp 1 (n * k) \<le> 2 ^ 24 \<and>
    (n \<le> 2 ^ 24 \<or> setupResults omp 1 (n * k) = 1)"
proof (cases omp)
  case (Some t)
  with assms have t: "0 < t" "t < 2 ^ 30" "n * k \<le> 2 ^ 24" by (simp_all add: rleb_sizes_ok_def)
  moreover have "n \<le> 2 ^ 24" using assms(2) t(3) by (metis le_trans mult_le_mono2 mult.right_neutral Suc_leI One_nat_def)
  moreover have "(n * k) div 4096 \<le> 2 ^ 24" using t(3) by (rule order_trans [OF div_le_dividend])
  ultimately show ?thesis using Some by (simp add: setupResults_def Let_def)
qed (simp add: setupResults_def)

lemma rleb_roundtrip:
  assumes "rleb_sizes_ok omp (length data * k)" "0 < k" "length out = length data"
  shows "\<exists>r. rleb_compress omp m k data = Some r \<and> rleb_decompress m r out = Some data"
proof -
  define K where "K = setupResults omp 1 (length data * k)"
  have K: "0 < K" "K \<le> 2 ^ 24" "length data \<le> 2 ^ 24 \<or> K = 1"
    using setupResults_one [OF assms(1,2)] by (simp_all add: K_def)
  have "rleb_bound K (length data) 0 = 0" "rleb_bound K (length data) K = length data"
    using K by (simp_all add: rleb_bound_def)
  with rleb.chunks_result [of "rleb_bound K (length data)" K data out m] sorted_rleb_bounds [OF K(3,1,2)] assms(3)
  obtain rs where "encode_chunks (\<lambda>xs. [rleb_compressChunk m xs]) (rleb_bound K (length data)) data [0..<K] = Some rs"
      "length rs = 1 * K"
      "decode_chunks 1 (\<lambda>n rs. rleb_decompressChunk m n (hd rs)) (rleb_bound K (length data)) rs [0..<K] out = Some data"
    by (auto simp del: upt_Suc)
  then show ?thesis
    unfolding rleb_compress_def rleb_decompress_def Let_def K_def [symmetric] assms(3) by auto
qed

lemma rleb_bytes_roundtrip:
  assumes "rleb_sizes_ok omp (length bytes)" "LENGTH('c) = 8 * k" "k dvd length bytes" "length out = length bytes"
  shows "Option.bind (rleb_compress_bytes omp (m :: 'c::len word) k bytes) (\<lambda>r. rleb_decompress_bytes m k r out) = Some bytes"
proof -
  have k: "0 < k" using assms(2) by (metis gr0I len_not_eq_0 mult_0_right)
  let ?data = "tokens_of k bytes :: 'c word list" and ?out = "tokens_of k out :: 'c word list"
  have len: "length ?out = length ?data" "length ?data * k = length bytes"
    using k assms(3,4) by (simp_all add: length_tokens_of)
  obtain r where r: "rleb_compress omp m k ?data = Some r" "rleb_decompress m r ?out = Some ?data"
    using rleb_roundtrip [of omp ?data k ?out m] assms(1) len k by auto
  have "map (tokens_of k) (map (bytes_of k) r) = r"
    by (simp add: comp_def tokens_bytes_of [OF assms(2)])
  then show ?thesis
    using r bytes_tokens_of [OF assms(2,3)] by (simp add: rleb_compress_bytes_def rleb_decompress_bytes_def)
qed

lemma and_mask_dvd: "n AND 7 = 0 \<longleftrightarrow> 8 dvd n" "n AND 3 = 0 \<longleftrightarrow> 4 dvd n" "n AND 1 = 0 \<longleftrightarrow> 2 dvd (n :: nat)"
  using take_bit_eq_mask [of 3 n] take_bit_eq_mask [of 2 n] take_bit_eq_mask [of 1 n]
  by (simp_all add: mask_eq_exp_minus_1 take_bit_eq_mod dvd_eq_mod_eq_0)

lemma RLEB_inverse:
  assumes "rleb_sizes_ok omp (length bytes)" "length out = length bytes"
  shows "Option.bind (RLEB_compress omp bytes) (\<lambda>r. RLEB_decompress r out) = Some bytes"
  using rleb_bytes_roundtrip [OF assms(1) _ _ assms(2), of 8 "0x42 :: u64"]
    rleb_bytes_roundtrip [OF assms(1) _ _ assms(2), of 4 "0x42 :: u32"]
    rleb_bytes_roundtrip [OF assms(1) _ _ assms(2), of 2 "0x42 :: u16"]
    rleb_bytes_roundtrip [OF assms(1) _ _ assms(2), of 1 "0x42 :: u8"]
  by (simp add: RLEB_compress_def RLEB_decompress_def Let_def and_mask_dvd assms(2) del: One_nat_def and_one_eq)

section \<open>The reserved buffer\<close>

lemma rleb_compress_single: "rleb_compress None m k data = Some [rle_stream m data]"
  by (simp add: rleb_compress_def setupResults_def Let_def read_range_def rleb_bound_def rleb_compressChunk_def)

lemma length_token_bytes: "length (bytes_of k ws) = k * length ws"
  by (simp add: bytes_of_def length_concat comp_def sum_list_triv)

text \<open>Inputs for which the reserved buffer is too small: wide tokens that alternate with the marker.\<close>

definition rleb_overflow :: "u8 list \<Rightarrow> bool" where
  "rleb_overflow bytes =
     (let n = length bytes in
      if n AND 0x7 = 0 then alternates (0x42 :: u64) True (tokens_of 8 bytes)
      else if n AND 0x3 = 0 then alternates (0x42 :: u32) True (tokens_of 4 bytes)
      else False)"

lemma rleb_bytes_reserved:
  assumes "LENGTH('c) = 8 * k" "k dvd length bytes"
  shows "Option.bind (rleb_compress_bytes None (m :: 'c::len word) k bytes) (reserved None 1 (length bytes) 1) =
    (if 2 < k \<and> alternates m True (tokens_of k bytes) then None else rleb_compress_bytes None m k bytes)"
proof -
  have k: "0 < k" using assms(1) by (metis gr0I len_not_eq_0 mult_0_right)
  let ?data = "tokens_of k bytes :: 'c word list"
  define n where "n = length ?data"
  define l where "l = length (rle_stream m ?data)"
  have n: "length bytes = k * n" using k assms(2) by (simp add: n_def length_tokens_of)
  have l: "l \<le> 2 * n + 1" "l = 2 * n + 1 \<longleftrightarrow> alternates m True ?data"
    using length_rle_stream [of m ?data] length_rle_stream_alternates [of m ?data] assms(1) k by (simp_all add: l_def n_def)
  have "k * l \<le> 2 * (k * n) + 2 \<longleftrightarrow> \<not> (2 < k \<and> l = 2 * n + 1)"
  proof (cases "l = 2 * n + 1")
    case True
    then show ?thesis by (auto simp: algebra_simps)
  next
    case False
    then have "l \<le> 2 * n" using l(1) by simp
    from mult_le_mono2 [OF this, of k] have "k * l \<le> 2 * (k * n)" by (metis mult.left_commute)
    then show ?thesis using False by linarith
  qed
  moreover have "rleb_compress_bytes None m k bytes = Some [bytes_of k (rle_stream m ?data)]"
    by (simp add: rleb_compress_bytes_def rleb_compress_single)
  ultimately show ?thesis
    using l(2) by (auto simp: reserved_def maxChunkSize_def setupResults_def length_token_bytes n l_def [symmetric])
qed

lemma RLEB_reserved:
  "Option.bind (RLEB_compress None bytes) (reserved None 1 (length bytes) 1) =
    (if rleb_overflow bytes then None else RLEB_compress None bytes)"
  using rleb_bytes_reserved [of 8 bytes "0x42 :: u64"] rleb_bytes_reserved [of 4 bytes "0x42 :: u32"]
    rleb_bytes_reserved [of 2 bytes "0x42 :: u16"] rleb_bytes_reserved [of 1 bytes "0x42 :: u8"]
  by (simp add: RLEB_compress_def rleb_overflow_def Let_def and_mask_dvd del: One_nat_def and_one_eq)

text \<open>C31. \<open>CompressorRLEB\<close> without OpenMP gives back every byte string exactly when its result fits in the reserved
  buffer, and the only byte strings for which the code writes past that buffer are those whose tokens have four
  or eight bytes and alternate with the marker, beginning and ending with it. In a build with OpenMP, inputs of up to \<open>2 ^ 24\<close> bytes are
  compressed without reading outside the input, and when the results fit they give back the input.\<close>

theorem RLEB_roundtrip:
  assumes "rleb_sizes_ok omp (length bytes)" "length out = length bytes"
  shows "Option.bind (Option.bind (RLEB_compress None bytes) (reserved None 1 (length bytes) 1)) (\<lambda>r. RLEB_decompress r out) =
      (if rleb_overflow bytes then None else Some bytes) \<and>
    (\<exists>r. RLEB_compress omp bytes = Some r \<and>
      (reserved omp 1 (length bytes) 1 r = Some r \<longrightarrow> RLEB_decompress r out = Some bytes))"
proof -
  have "Option.bind (RLEB_compress None bytes) (\<lambda>r. RLEB_decompress r out) = Some bytes"
    by (rule RLEB_inverse [OF _ assms(2)]) (simp add: rleb_sizes_ok_def)
  moreover have "\<exists>r. RLEB_compress omp bytes = Some r \<and> RLEB_decompress r out = Some bytes"
    using RLEB_inverse [OF assms] by (auto simp: bind_eq_Some_conv)
  ultimately show ?thesis unfolding RLEB_reserved by auto
qed

lemma rleb_overflow_demo: "\<not> rleb_overflow [0x42, 0, 0x42, 0, 7, 7]" "rleb_overflow [0x42, 0, 0, 0]"
  by code_simp+

theorem RLEB_roundtrip_witness:
  "Option.bind (Option.bind (RLEB_compress None [0x42, 0, 0x42, 0, 7, 7]) (reserved None 1 6 1))
     (\<lambda>r. RLEB_decompress r [0, 0, 0, 0, 0, 0]) = Some [0x42, 0, 0x42, 0, 7, 7] \<and>
   Option.bind (Option.bind (RLEB_compress None [0x42, 0, 0, 0]) (reserved None 1 4 1)) (\<lambda>r. RLEB_decompress r [0, 0, 0, 0]) = None"
proof -
  let ?good = "[0x42, 0, 0x42, 0, 7, 7] :: u8 list" and ?bad = "[0x42, 0, 0, 0] :: u8 list"
  have ok: "rleb_sizes_ok None n" for n by (simp add: rleb_sizes_ok_def)
  have l: "length [0, 0, 0, 0, 0, 0 :: u8] = length ?good" "length [0, 0, 0, 0 :: u8] = length ?bad" "length ?good = 6" "length ?bad = 4"
    by simp_all
  show ?thesis
    using conjunct1 [OF RLEB_roundtrip [OF ok l(1)]] conjunct1 [OF RLEB_roundtrip [OF ok l(2)]]
    unfolding l(3,4) by (simp only: rleb_overflow_demo if_True if_False simp_thms)
qed

end
