(* ===== verification/Rle4bu.thy ===== *)
theory Rle4bu
  imports Byte_Compressors
begin

text \<open>
  \<open>CompressorRLE4BU\<close> (\<open>libs/co/compressor/compressorRLE4BU.cpp\<close>): run-length coding of the
  image read as words of eight bytes. Every result starts with its number of words, from
  which decompression computes where the chunk goes. The input is the list of words that
  cover the pixels; for an odd number of pixels the last word reaches four bytes beyond them.
\<close>

section \<open>CompressorRLE4BU\<close>

definition bu_marker :: u64 where
  "bu_marker = 0xE3A49A3D0254B9C1"

definition bu_write :: "u64 \<Rightarrow> u64 \<Rightarrow> u64 list \<Rightarrow> u64 list" where
  "bu_write lastSymbol nSame out =
     (if lastSymbol = bu_marker then out @ [bu_marker, lastSymbol, nSame]
      else if nSame = 0 then out
      else if nSame = 3 then out @ [lastSymbol, lastSymbol, lastSymbol]
      else if nSame = 2 then out @ [lastSymbol, lastSymbol]
      else if nSame = 1 then out @ [lastSymbol]
      else out @ [bu_marker, lastSymbol, nSame])"

fun bu_step :: "u64 \<Rightarrow> u64 \<times> u64 \<times> u64 list \<Rightarrow> u64 \<times> u64 \<times> u64 list" where
  "bu_step symbol (lastSymbol, nSame, out) =
     (if symbol = lastSymbol then (lastSymbol, nSame + 1, out)
      else (symbol, 1, bu_write lastSymbol nSame out))"

fun bu_finish :: "u64 \<times> u64 \<times> u64 list \<Rightarrow> u64 list" where
  "bu_finish (lastSymbol, nSame, out) = bu_write lastSymbol nSame out"

definition bu_compress :: "u64 list \<Rightarrow> nat \<Rightarrow> nat \<Rightarrow> u64 list option" where
  "bu_compress data startIndex endIndex =
     (if startIndex \<le> endIndex \<and> endIndex \<le> length data \<and> startIndex < length data
      then Some (bu_finish (fold bu_step (slice data (startIndex + 1) endIndex)
             (data ! startIndex, 1, [of_nat (endIndex - startIndex)])))
      else None)"

definition bu_elems :: "nat \<Rightarrow> nat" where
  "bu_elems nPixels = (let size = nPixels * 4 in if size mod 8 \<noteq> 0 then size div 8 + 1 else size div 8)"

definition bu_index :: "nat option \<Rightarrow> nat \<Rightarrow> nat \<Rightarrow> nat" where
  "bu_index omp nPixels i = chunk_index (chunk_width (bu_elems nPixels) (setupResults omp 1 (nPixels * 4))) i"

definition RLE4BU_compress :: "nat option \<Rightarrow> nat \<Rightarrow> u64 list \<Rightarrow> u64 list list option" where
  "RLE4BU_compress omp nPixels data =
     those (map (\<lambda>i. bu_compress data (bu_index omp nPixels i) (bu_index omp nPixels (i + 1)))
       [0..<setupResults omp 1 (nPixels * 4)])"

text \<open>The inner loop counts with 32 bits: it does not end for a run of \<open>2 ^ 32\<close> words or more.\<close>

fun bu_expand :: "nat \<Rightarrow> u64 list \<Rightarrow> u64 list option" where
  "bu_expand left ins =
     (if left = 0 then Some []
      else case ins of
        [] \<Rightarrow> None
      | token # ts \<Rightarrow>
          if token = bu_marker then
            (case ts of
               symbol # nSame # rest \<Rightarrow>
                 if unat nSame < 2 ^ 32
                 then map_option (\<lambda>xs. replicate (unat nSame) symbol @ xs) (bu_expand (left - unat nSame) rest)
                 else None
             | _ \<Rightarrow> None)
          else map_option (\<lambda>xs. token # xs) (bu_expand (left - 1) ts))"

declare bu_expand.simps [simp del]

fun bu_decode :: "u64 list list \<Rightarrow> nat \<Rightarrow> u64 list \<Rightarrow> u64 list option" where
  "bu_decode [] pos out = Some out"
| "bu_decode (r # rs) pos out =
     (case r of
        [] \<Rightarrow> None
      | nWords # body \<Rightarrow>
          (case bu_expand (unat nWords) body of
             None \<Rightarrow> None
           | Some xs \<Rightarrow> Option.bind (write_range out pos xs) (bu_decode rs (pos + unat nWords))))"

definition RLE4BU_decompress :: "u64 list list \<Rightarrow> nat \<Rightarrow> u64 list \<Rightarrow> u64 list option" where
  "RLE4BU_decompress ins nPixels out = (if nPixels = 0 then Some out else bu_decode ins 0 out)"

section \<open>Correctness of CompressorRLE4BU\<close>

lemma bu_write_append: "bu_write l k (out @ out') = out @ bu_write l k out'"
  by (simp add: bu_write_def)

lemma bu_fold_append:
  "bu_finish (fold bu_step xs (l, k, out @ out')) = out @ bu_finish (fold bu_step xs (l, k, out'))"
  by (induction xs arbitrary: l k out') (simp_all add: bu_write_append)

lemma bu_expand_literal: "l \<noteq> bu_marker \<Longrightarrow> bu_expand (Suc n) (l # ts) = map_option ((#) l) (bu_expand n ts)"
  by (simp add: bu_expand.simps [of "Suc n"])

lemma bu_expand_write:
  assumes "0 < unat k" "unat k < 2 ^ 32"
  shows "bu_expand (unat k + left) (bu_write l k [] @ rest) = map_option (\<lambda>xs. replicate (unat k) l @ xs) (bu_expand left rest)"
proof (cases "l = bu_marker \<or> (k \<noteq> 1 \<and> k \<noteq> 2 \<and> k \<noteq> 3)")
  case True
  moreover have "k \<noteq> 0" using assms by auto
  ultimately have "bu_write l k [] = [bu_marker, l, k]" by (auto simp: bu_write_def)
  with assms show ?thesis by (simp add: bu_expand.simps [of "unat k + left"])
next
  case False
  then have l: "l \<noteq> bu_marker" and k: "k = 1 \<or> k = 2 \<or> k = 3" by auto
  define j where "j = unat k"
  from k have "(j = 1 \<and> bu_write l k [] = [l]) \<or> (j = 2 \<and> bu_write l k [] = [l, l]) \<or>
      (j = 3 \<and> bu_write l k [] = [l, l, l])"
    using l by (auto simp: j_def bu_write_def)
  then show ?thesis
    unfolding j_def [symmetric] using l
    by (auto simp: bu_expand_literal option.map_comp comp_def numeral_2_eq_2 numeral_3_eq_3)
qed

lemma bu_stream_roundtrip:
  assumes "0 < unat k" "unat k + length xs < 2 ^ 32"
  shows "bu_expand (unat k + length xs) (bu_finish (fold bu_step xs (l, k, []))) = Some (replicate (unat k) l @ xs)"
  using assms
proof (induction xs arbitrary: l k)
  case Nil
  then show ?case using bu_expand_write [of k 0 l "[]"] by (simp add: bu_expand.simps [of 0])
next
  case (Cons x xs)
  show ?case
  proof (cases "x = l")
    case True
    have "k \<noteq> -1" using Cons.prems by (auto simp: unsigned_minus_1_eq_mask mask_eq_exp_minus_1)
    then have "unat (k + 1) = Suc (unat k)" by (rule unat_inc)
    with True Cons.IH [of "k + 1" l] Cons.prems show ?thesis by (simp add: replicate_app_Cons_same)
  next
    case False
    have "bu_finish (fold bu_step (x # xs) (l, k, [])) = bu_write l k [] @ bu_finish (fold bu_step xs (x, 1, []))"
      using False bu_fold_append [of xs x 1 "bu_write l k []" "[]"] by simp
    with False Cons.IH [of 1 x] Cons.prems bu_expand_write [of k "Suc (length xs)" l] show ?thesis by simp
  qed
qed

lemma bu_chunk_roundtrip:
  assumes "a \<le> b" "b \<le> length data" "a < length data" "length data < 2 ^ 32"
  shows "\<exists>body. bu_compress data a b = Some (of_nat (b - a) # body) \<and> bu_expand (b - a) body = Some (slice data a b)"
proof -
  let ?body = "bu_finish (fold bu_step (slice data (a + 1) b) (data ! a, 1, []))"
  have "bu_compress data a b = Some (of_nat (b - a) # ?body)"
    using assms bu_fold_append [of _ _ 1 "[of_nat (b - a)]" "[]"] by (simp add: bu_compress_def)
  moreover have "bu_expand (b - a) ?body = Some (slice data a b)"
  proof (cases "a = b")
    case False
    then have "slice data a b = data ! a # slice data (a + 1) b"
      using assms by (simp add: slice_def Cons_nth_drop_Suc [symmetric] take_Cons') 
    moreover have "unat (1 :: u64) + length (slice data (a + 1) b) = b - a" using assms False by simp
    ultimately show ?thesis
      using bu_stream_roundtrip [of 1 "slice data (a + 1) b" "data ! a"] assms by simp
  qed (simp add: bu_expand.simps slice_def)
  ultimately show ?thesis by blast
qed

lemma bu_decode_chunks:
  assumes mono: "\<And>i. i < K \<Longrightarrow> b i \<le> b (i + 1)" and start: "\<And>i. i < K \<Longrightarrow> b i < length data"
    and ends: "b K \<le> length data" and len: "length out = length data" "length data < 2 ^ 32" and "i \<le> K"
  shows "\<exists>rs. those (map (\<lambda>i. bu_compress data (b i) (b (i + 1))) [i..<K]) = Some rs \<and>
    bu_decode rs (b i) (take (b i) data @ drop (b i) out) = Some (take (b K) data @ drop (b K) out)"
  using \<open>i \<le> K\<close>
proof (induction rule: inc_induct)
  case (step i)
  have le: "b i \<le> b (i + 1)" "b i < length data" using mono start step by simp_all
  have "b j \<le> length data" if "j \<le> K" for j
    using that by (induction rule: inc_induct) (use mono ends in \<open>fastforce+\<close>)
  then have b: "b (i + 1) \<le> length data" using step by simp
  obtain body where body: "bu_compress data (b i) (b (i + 1)) = Some (of_nat (b (i + 1) - b i) # body)"
      "bu_expand (b (i + 1) - b i) body = Some (slice data (b i) (b (i + 1)))"
    using bu_chunk_roundtrip [OF le(1) b le(2) len(2)] by blast
  have u: "unat (of_nat (b (i + 1) - b i) :: u64) = b (i + 1) - b i"
    using b len(2) by (simp add: unsigned_of_nat take_bit_nat_eq_self_iff)
  have w: "write_range (take (b i) data @ drop (b i) out) (b i) (slice data (b i) (b (i + 1))) =
      Some (take (b (i + 1)) data @ drop (b (i + 1)) out)"
    using le b len take_slice [OF le(1), of data] by (simp add: write_range_def)
  from step obtain rs where "those (map (\<lambda>i. bu_compress data (b i) (b (i + 1))) [Suc i..<K]) = Some rs"
      "bu_decode rs (b (Suc i)) (take (b (Suc i)) data @ drop (b (Suc i)) out) = Some (take (b K) data @ drop (b K) out)"
    by auto
  with body w u le(1) step show ?case
    by (intro exI [of _ "(of_nat (b (i + 1) - b i) # body) # rs"]) (simp add: upt_conv_Cons)
qed simp

definition bu_chunks_ok :: "nat option \<Rightarrow> nat \<Rightarrow> bool" where
  "bu_chunks_ok omp nPixels =
     (let K = setupResults omp 1 (nPixels * 4)
      in bu_index omp nPixels K = bu_elems nPixels \<and> (\<forall>i < K. bu_index omp nPixels i < bu_elems nPixels) \<and>
         bu_elems nPixels < 2 ^ 32)"

lemma bu_chunks_ok_single:
  assumes "0 < nPixels" "nPixels \<le> 2 ^ 24"
  shows "bu_chunks_ok None nPixels"
proof -
  have n: "0 < bu_elems nPixels" "bu_elems nPixels \<le> 2 ^ 24" using assms by (auto simp: bu_elems_def Let_def)
  then have "chunk_width (bu_elems nPixels) 1 = of_nat (bu_elems nPixels)"
    using fl32_of_nat [of 1] by (simp add: chunk_width_def fl32_of_nat)
  with n show ?thesis
    by (simp add: bu_chunks_ok_def bu_index_def setupResults_def chunk_index_small fl32_of_nat fl32_def [of 0])
qed

text \<open>\<open>CompressorRLE4BU\<close> is lossless: when the chunk bounds computed in floating point end
  at the last word, compression succeeds and decompression restores all words of the image.\<close>

theorem RLE4BU_roundtrip:
  assumes "0 < nPixels" "bu_chunks_ok omp nPixels" "length data = bu_elems nPixels" "length out = length data"
  shows "Option.bind (RLE4BU_compress omp nPixels data) (\<lambda>r. RLE4BU_decompress r nPixels out) = Some data"
proof -
  define K where "K = setupResults omp 1 (nPixels * 4)"
  have ok: "bu_index omp nPixels K = length data" "\<And>i. i < K \<Longrightarrow> bu_index omp nPixels i < length data"
      "length data < 2 ^ 32"
    using assms(2,3) by (simp_all add: bu_chunks_ok_def Let_def K_def)
  have mono: "bu_index omp nPixels i \<le> bu_index omp nPixels (i + 1)" for i
    unfolding bu_index_def by (intro chunk_index_mono chunk_width_nonneg) simp
  have "bu_index omp nPixels 0 = 0" by (simp add: bu_index_def)
  with bu_decode_chunks [of K "bu_index omp nPixels" data out 0] ok mono assms(4) show ?thesis
    unfolding RLE4BU_compress_def RLE4BU_decompress_def K_def [symmetric] using assms(1) by fastforce
qed

theorem RLE4BU_roundtrip_witness:
  "Option.bind (RLE4BU_compress None 5 [7, 7, 0xE3A49A3D0254B9C1]) (\<lambda>r. RLE4BU_decompress r 5 [0, 0, 0]) =
     Some [7, 7, 0xE3A49A3D0254B9C1]"
  using RLE4BU_roundtrip [of 5 None "[7, 7, 0xE3A49A3D0254B9C1]" "[0, 0, 0]"]
  by (simp add: bu_chunks_ok_single) (simp add: bu_elems_def)

section \<open>The reserved result size\<close>

text \<open>The size that \<open>_setupResults\<close> reserves is too small for the compressors with wide
  tokens: 24 bytes that read as marker, other word, marker produce 56 bytes with
  \<open>CompressorRLEB\<close> and 64 bytes with \<open>CompressorRLE4BU\<close>, while 50 are reserved.\<close>

theorem wide_tokens_overflow:
  "map_option (map length) (RLEB_compress None (bytes_of 8 [0x42 :: u64, 0, 0x42])) = Some [56] \<and>
   map_option (map (\<lambda>r. 8 * length r)) (RLE4BU_compress None 6 [0xE3A49A3D0254B9C1, 0, 0xE3A49A3D0254B9C1]) = Some [64] \<and>
   maxChunkSize 24 (setupResults None 1 24) = 50"
proof -
  have b: "rleb_bound (Suc 0) n 0 = 0" "rleb_bound (Suc 0) n (Suc 0) = n" for n by (simp_all add: rleb_bound_def)
  have l: "length (bytes_of 8 [0x42 :: u64, 0, 0x42]) = 24" by (simp add: bytes_of_def)
  have "rleb_compress None (0x42 :: u64) 8 [0x42, 0, 0x42] = Some [[0x42, 0x42, 1, 0, 0x42, 0x42, 1]]"
    by (simp add: rleb_compress_def setupResults_def b read_range_def rleb_compressChunk_def rle_stream_def rle_write_def)
  then have "map_option (map length) (RLEB_compress None (bytes_of 8 [0x42 :: u64, 0, 0x42])) = Some [56]"
    unfolding RLEB_compress_def l rleb_compress_bytes_def Let_def
    by (simp add: and_mask_dvd tokens_bytes_of) (simp add: bytes_of_def)
  moreover have "bu_index None 6 0 = 0" by (simp add: bu_index_def)
  moreover have "bu_index None 6 (Suc 0) = 3"
    using bu_chunks_ok_single [of 6] by (simp add: bu_chunks_ok_def setupResults_def bu_elems_def)
  ultimately show ?thesis
    by (simp add: RLE4BU_compress_def setupResults_def maxChunkSize_def bu_compress_def bu_write_def bu_marker_def slice_def)
qed

end
