(* ===== verification/Rsp.thy ===== *)
theory Rsp
  imports Float32
begin

text \<open>
  The reliable multicast protocol RSP (\<open>libs/co/rspConnection.cpp\<close>, \<open>rspConnection.h\<close>): the
  listening connection with its writer state, one child connection per known peer with its
  reader state, and the handlers of the protocol thread.

  Buffers are represented by the datagram they hold; a queue of empty buffers is its length.
  A null pointer in a queue is \<open>None\<close>. Sending appends to the list of sent packets. The
  settings of \<open>Global\<close> are the record \<open>RSPConfig\<close>. Not modelled: the sockets, the mutexes
  (every handler runs in the protocol thread), the statistics of \<open>EQ_INSTRUMENT_RSP\<close> and the
  waiting of \<open>_waitWritable\<close>, of which the change of the send rate is kept. Assertions are
  those of a release build: they have no effect.
\<close>

section \<open>Packets and state\<close>

record DatagramData =
  dg_writerID :: u16
  dg_sequence :: u16
  dg_payload :: "u8 list"

record Nack =
  nk_start :: u16
  nk_end :: u16

datatype Packet =
    DATA DatagramData
  | ACKREQ u16 u16
  | NACK u16 u16 "Nack list"
  | ACK u16 u16 u16
  | ID_HELLO u16
  | ID_DENY u16
  | ID_CONFIRM u16
  | ID_EXIT u16
  | COUNTNODE u16 u16

datatype State = STATE_CLOSED | STATE_CONNECTING | STATE_CONNECTED | STATE_LISTENING | STATE_CLOSING

record RSPConfig =
  cfg_numBuffers :: u16
  cfg_ackFreq :: int
  cfg_payloadSize :: nat
  cfg_bandwidth :: int
  cfg_minSendrateShift :: nat
  cfg_errorDownscale :: int
  cfg_errorMaxscale :: int
  cfg_errorUpscale :: int
  cfg_ackTimeout :: int

text \<open>A child connection: the reader side for one peer.\<close>

record Child =
  ch_id :: u16
  ch_state :: State
  ch_acked :: u16
  ch_sequence :: u16
  ch_threadBuffers :: nat
  ch_appBuffers :: "DatagramData option list"
  ch_recvBuffers :: "DatagramData option list"
  ch_readBuffer :: "DatagramData option"
  ch_readBufferPos :: nat
  ch_event :: bool

text \<open>The listening connection: the writer side and the protocol state.\<close>

record RSPConnection =
  rc_id :: u16
  rc_idAccepted :: bool
  rc_timeouts :: int
  rc_state :: State
  rc_children :: "Child list"
  rc_newChildren :: "u16 list"
  rc_removed :: "Child list"
  rc_sequence :: u16
  rc_threadBuffers :: "DatagramData list"
  rc_appBuffers :: "unit option list"
  rc_writeBuffers :: "DatagramData list"
  rc_repeatQueue :: "Nack list"
  rc_sendRate :: int
  rc_event :: bool
  rc_timer :: "int option"
  rc_wakeup :: bool
  rc_running :: bool
  rc_sent :: "Packet list"

definition EQ_RSP_MAX_NACKS :: nat where
  "EQ_RSP_MAX_NACKS = 300"

definition EQ_RSP_MAX_TIMEOUTS :: int where
  "EQ_RSP_MAX_TIMEOUTS = 2000"

definition send :: "Packet \<Rightarrow> RSPConnection \<Rightarrow> RSPConnection" where
  "send p c = c\<lparr>rc_sent := rc_sent c @ [p]\<rparr>"

definition setTimeout :: "int \<Rightarrow> RSPConnection \<Rightarrow> RSPConnection" where
  "setTimeout t c = c\<lparr>rc_timer := Some t\<rparr>"

section \<open>Connections\<close>

fun find_child :: "u16 \<Rightarrow> Child list \<Rightarrow> Child option" where
  "find_child i [] = None"
| "find_child i (c # cs) = (if ch_id c = i then Some c else find_child i cs)"

fun set_child :: "u16 \<Rightarrow> Child \<Rightarrow> Child list \<Rightarrow> Child list" where
  "set_child i d [] = []"
| "set_child i d (c # cs) = (if ch_id c = i then d # cs else c # set_child i d cs)"

definition findConnection :: "u16 \<Rightarrow> RSPConnection \<Rightarrow> Child option" where
  "findConnection i c = find_child i (rc_children c)"

definition sendSimpleDatagram :: "(u16 \<Rightarrow> Packet) \<Rightarrow> u16 \<Rightarrow> RSPConnection \<Rightarrow> RSPConnection" where
  "sendSimpleDatagram type i c = send (type i) c"

definition sendCountNode :: "RSPConnection \<Rightarrow> RSPConnection" where
  "sendCountNode c =
     (if findConnection (rc_id c) c = None then c
      else send (COUNTNODE (rc_id c) (of_nat (length (rc_children c)))) c)"

definition new_child :: "RSPConfig \<Rightarrow> u16 \<Rightarrow> Child" where
  "new_child cfg i = \<lparr>ch_id = i, ch_state = STATE_CONNECTED, ch_acked = -1, ch_sequence = 0,
     ch_threadBuffers = unat (cfg_numBuffers cfg), ch_appBuffers = [], ch_recvBuffers = [],
     ch_readBuffer = None, ch_readBufferPos = 0, ch_event = False\<rparr>"

definition addConnection :: "RSPConfig \<Rightarrow> u16 \<Rightarrow> RSPConnection \<Rightarrow> RSPConnection" where
  "addConnection cfg i c =
     (if findConnection i c \<noteq> None then c
      else
        let c1 = sendCountNode (c\<lparr>rc_children := rc_children c @ [new_child cfg i]\<rparr>)
        in c1\<lparr>rc_newChildren := rc_newChildren c1 @ [i], rc_event := True\<rparr>)"

fun erase_child :: "u16 \<Rightarrow> Child list \<Rightarrow> Child list" where
  "erase_child i [] = []"
| "erase_child i (c # cs) = (if ch_id c = i then cs else c # erase_child i cs)"

text \<open>
  A child that is removed stays with the application that holds a reference to it (field
  \<open>rc_removed\<close>); its queue is ended by a null pointer.
\<close>

definition end_child :: "Child \<Rightarrow> Child" where
  "end_child ch = ch\<lparr>ch_appBuffers := ch_appBuffers ch @ [None], ch_event := True\<rparr>"

definition removeConnection :: "u16 \<Rightarrow> RSPConnection \<Rightarrow> RSPConnection" where
  "removeConnection i c =
     (if i = rc_id c then c
      else sendCountNode
        (case findConnection i c of
           None \<Rightarrow> c
         | Some ch \<Rightarrow> c\<lparr>rc_children := erase_child i (rc_children c), rc_removed := rc_removed c @ [end_child ch]\<rparr>))"

definition checkNewID :: "u16 \<Rightarrow> RSPConnection \<Rightarrow> RSPConnection" where
  "checkNewID i c =
     (if i = rc_id c \<or> findConnection i c \<noteq> None then sendSimpleDatagram ID_DENY (rc_id c) c else c)"

definition acceptSync :: "RSPConnection \<Rightarrow> u16 option \<times> RSPConnection" where
  "acceptSync c =
     (if rc_state c \<noteq> STATE_LISTENING \<or> rc_newChildren c = [] then (None, c)
      else
        let c1 = c\<lparr>rc_newChildren := butlast (rc_newChildren c)\<rparr>
        in (Some (last (rc_newChildren c)), c1\<lparr>rc_event := rc_newChildren c1 \<noteq> []\<rparr>))"

section \<open>Reading\<close>

definition newDataBuffer :: "Child \<Rightarrow> Child option" where
  "newDataBuffer ch =
     (if 0 < ch_threadBuffers ch then Some (ch\<lparr>ch_threadBuffers := ch_threadBuffers ch - 1\<rparr>) else None)"

definition no_data_buffer :: "Child \<Rightarrow> Child" where
  "no_data_buffer ch = ch\<lparr>ch_event := ch_event ch \<or> ch_appBuffers ch \<noteq> []\<rparr>"

definition pushDataBuffer ::
  "RSPConfig \<Rightarrow> u16 \<Rightarrow> DatagramData \<Rightarrow> Child \<times> Packet list \<Rightarrow> Child \<times> Packet list" where
  "pushDataBuffer cfg parentID d = (\<lambda>(ch, sends).
     (ch\<lparr>ch_sequence := ch_sequence ch + 1, ch_appBuffers := ch_appBuffers ch @ [Some d]\<rparr>,
      if (uint (ch_sequence ch) + uint parentID) mod cfg_ackFreq cfg = 0
      then sends @ [ACK parentID (ch_id ch) (ch_sequence ch)] else sends))"

fun push_ready ::
  "RSPConfig \<Rightarrow> u16 \<Rightarrow> DatagramData option list \<Rightarrow> Child \<times> Packet list \<Rightarrow> Child \<times> Packet list" where
  "push_ready cfg parentID (Some d # rest) cs =
     push_ready cfg parentID rest (pushDataBuffer cfg parentID d (apfst (\<lambda>ch. ch\<lparr>ch_recvBuffers := rest\<rparr>) cs))"
| "push_ready cfg parentID _ cs = cs"

fun last_got :: "DatagramData option list \<Rightarrow> nat \<Rightarrow> DatagramData option" where
  "last_got recv 0 = None"
| "last_got recv (Suc n) = (case recv ! n of Some d \<Rightarrow> Some d | None \<Rightarrow> last_got recv n)"

definition early_nack :: "Child \<Rightarrow> u16 \<Rightarrow> nat \<Rightarrow> Nack option" where
  "early_nack ch sequence sz =
     (let recv = ch_recvBuffers ch;
          start = ch_sequence ch;
          nack = (if 2 < sz then
                    (if recv ! (sz - 2) \<noteq> None then None
                     else case last_got recv (sz - 1) of
                       Some d \<Rightarrow> Some (dg_sequence d + 1)
                     | None \<Rightarrow> Some start)
                  else Some start)
      in map_option (\<lambda>s. \<lparr>nk_start = s, nk_end = if sequence - 1 < s then -1 else sequence - 1\<rparr>) nack)"

definition handle_data_child ::
  "RSPConfig \<Rightarrow> u16 \<Rightarrow> DatagramData \<Rightarrow> Child \<Rightarrow> Child \<times> Packet list \<times> Nack option" where
  "handle_data_child cfg parentID d ch =
     (let sequence = dg_sequence d in
      if ch_sequence ch = sequence then
        (case newDataBuffer ch of
           None \<Rightarrow> (no_data_buffer ch, [], None)
         | Some ch1 \<Rightarrow>
             let (ch2, sends) = push_ready cfg parentID (ch_recvBuffers ch1)
                   (pushDataBuffer cfg parentID d (ch1, []));
                 ch3 = (case ch_recvBuffers ch2 of None # rest \<Rightarrow> ch2\<lparr>ch_recvBuffers := rest\<rparr> | _ \<Rightarrow> ch2)
             in (ch3\<lparr>ch_event := True\<rparr>, sends, None))
      else if sequence < ch_sequence ch \<or> ch_sequence ch - sequence \<le> cfg_numBuffers cfg then (ch, [], None)
      else
        let sz = unat (sequence - ch_sequence ch); i = sz - 1; recv = ch_recvBuffers ch in
        if sz \<le> length recv \<and> recv ! i \<noteq> None then (ch, [], None)
        else
          (case newDataBuffer ch of
             None \<Rightarrow> (no_data_buffer ch, [], None)
           | Some ch1 \<Rightarrow>
               let recv' = (if length recv < sz then recv @ replicate (sz - length recv) None else recv);
                   ch2 = ch1\<lparr>ch_recvBuffers := recv'[i := Some d]\<rparr>
               in (ch2, [], early_nack ch2 sequence sz)))"

section \<open>Repeating\<close>

text \<open>One request against one queued request: overlapping requests are merged into the old one.\<close>

fun merge_nack :: "Nack \<Rightarrow> Nack list \<Rightarrow> nat \<Rightarrow> Nack list \<times> nat \<times> bool" where
  "merge_nack nack [] lost = ([], lost, False)"
| "merge_nack nack (old # rest) lost =
     (if nk_start old \<le> nk_end nack \<and> nk_start nack \<le> nk_end old then
        let (old1, lost1, merged1) =
              (if nk_start nack < nk_start old
               then (old\<lparr>nk_start := nk_start nack\<rparr>, lost + unat (nk_start old) - unat (nk_start nack), True)
               else (old, lost, False));
            (old2, lost2, merged2) =
              (if nk_end old1 < nk_end nack
               then (old1\<lparr>nk_end := nk_end nack\<rparr>, lost1 + unat (nk_end nack) - unat (nk_end old1), True)
               else (old1, lost1, merged1))
        in if merged2 then (old2 # rest, lost2, True)
           else apfst ((#) old2) (merge_nack nack rest lost2)
      else apfst ((#) old) (merge_nack nack rest lost))"

definition add_nack :: "Nack \<Rightarrow> Nack list \<times> nat \<Rightarrow> Nack list \<times> nat" where
  "add_nack nack = (\<lambda>(q, lost).
     (case merge_nack nack q lost of
        (q', lost', True) \<Rightarrow> (q', lost')
      | (q', lost', False) \<Rightarrow> (q' @ [nack], lost' + unat (nk_end nack - nk_start nack) + 1)))"

definition slow_down :: "RSPConfig \<Rightarrow> nat \<Rightarrow> int \<Rightarrow> int" where
  "slow_down cfg lost rate =
     (if cfg_bandwidth cfg div 2 ^ cfg_minSendrateShift cfg < rate then
        let delta = fl32 (fl32 (fl32 (of_nat lost) * fl32 (1 / 1000)) * fl32 (of_int (cfg_errorDownscale cfg)));
            maxDelta = fl32 (fl32 (1 / 100) * fl32 (of_int (cfg_errorMaxscale cfg)));
            downScale = min delta maxDelta
        in rate - (1 + \<lfloor>fl32 (fl32 (of_int rate) * downScale)\<rfloor>)
      else rate)"

definition addRepeat :: "RSPConfig \<Rightarrow> Nack list \<Rightarrow> RSPConnection \<Rightarrow> RSPConnection" where
  "addRepeat cfg nacks c =
     (let (q, lost) = fold add_nack nacks (rc_repeatQueue c, 0)
      in c\<lparr>rc_repeatQueue := q, rc_sendRate := slow_down cfg lost (rc_sendRate c)\<rparr>)"

definition sendNack :: "RSPConfig \<Rightarrow> u16 \<Rightarrow> Nack list \<Rightarrow> RSPConnection \<Rightarrow> RSPConnection" where
  "sendNack cfg writerID nacks c =
     (if writerID = rc_id c then addRepeat cfg nacks c else send (NACK (rc_id c) writerID nacks) c)"

definition handleData :: "RSPConfig \<Rightarrow> DatagramData \<Rightarrow> RSPConnection \<Rightarrow> bool \<times> RSPConnection" where
  "handleData cfg d c =
     (case findConnection (dg_writerID d) c of
        None \<Rightarrow> (False, c)
      | Some ch \<Rightarrow>
          let (ch', sends, nack) = handle_data_child cfg (rc_id c) d ch;
              c1 = fold send sends (c\<lparr>rc_children := set_child (dg_writerID d) ch' (rc_children c)\<rparr>)
          in (True, case nack of None \<Rightarrow> c1 | Some n \<Rightarrow> sendNack cfg (dg_writerID d) [n] c1))"

definition waitWritable :: "RSPConfig \<Rightarrow> RSPConnection \<Rightarrow> RSPConnection" where
  "waitWritable cfg c =
     (if rc_sendRate c < cfg_bandwidth cfg
      then c\<lparr>rc_sendRate := rc_sendRate c +
             \<lfloor>fl32 (fl32 (fl32 (of_int (cfg_errorUpscale cfg)) * fl32 (of_int (cfg_bandwidth cfg))) * fl32 (1 / 1000))\<rfloor>\<rparr>
      else c)"

text \<open>Sending the packets that a request at the front of the queue asks for, one per call.\<close>

function repeat_loop :: "RSPConfig \<Rightarrow> Nack list \<Rightarrow> RSPConnection \<Rightarrow> RSPConnection option" where
  "repeat_loop cfg [] c = Some (c\<lparr>rc_repeatQueue := []\<rparr>)"
| "repeat_loop cfg (request # rest) c =
     (let distance = unat (rc_sequence c - nk_start request);
          q = (if nk_start request = nk_end request then rest
               else request\<lparr>nk_start := nk_start request + 1\<rparr> # rest)
      in if distance = 0 then None
         else if distance \<le> length (rc_writeBuffers c) then
           Some ((send (DATA (rc_writeBuffers c ! (length (rc_writeBuffers c) - distance))) (waitWritable cfg c))
             \<lparr>rc_repeatQueue := q\<rparr>)
         else repeat_loop cfg q c)"
  by pat_completeness auto

lemma nack_shrinks: "s \<noteq> e \<Longrightarrow> unat (e - (s + 1) :: u16) < unat (e - s)"
proof -
  assume "s \<noteq> e"
  then have "e - s \<noteq> 0" by auto
  then have "unat ((e - s) - 1) < unat (e - s)" by (simp add: unat_minus_one unat_gt_0)
  then show ?thesis by (simp add: algebra_simps)
qed

termination repeat_loop
  by (relation "measure (\<lambda>(cfg, q, c). sum_list (map (\<lambda>n. Suc (unat (nk_end n - nk_start n))) q))")
    (auto split: if_splits intro: nack_shrinks)

definition repeatData :: "RSPConfig \<Rightarrow> RSPConnection \<Rightarrow> RSPConnection option" where
  "repeatData cfg c = repeat_loop cfg (rc_repeatQueue c) (c\<lparr>rc_timeouts := 0\<rparr>)"

section \<open>Writing\<close>

text \<open>
  The datagrams that all peers have acknowledged are handed to the own child. When the child
  has no free buffer the protocol thread spins until the application has read one; the model
  returns \<open>None\<close> in that case.
\<close>

definition finishWriteQueue :: "u16 \<Rightarrow> RSPConnection \<Rightarrow> RSPConnection option" where
  "finishWriteQueue sequence c =
     (case findConnection (rc_id c) c of
        None \<Rightarrow> None
      | Some ch \<Rightarrow>
          let sz = unat (rc_sequence c - sequence - 1);
              n = length (rc_writeBuffers c) - sz;
              done = take n (rc_writeBuffers c)
          in if ch_threadBuffers ch < n then None
             else
               let seq = ch_sequence ch + of_nat n;
                   ch' = ch\<lparr>ch_threadBuffers := ch_threadBuffers ch - n,
                            ch_appBuffers := ch_appBuffers ch @ map Some done,
                            ch_sequence := seq, ch_acked := seq - 1, ch_event := ch_event ch \<or> 0 < n\<rparr>
               in Some (c\<lparr>rc_writeBuffers := drop n (rc_writeBuffers c),
                          rc_appBuffers := rc_appBuffers c @ replicate n (Some ()),
                          rc_children := set_child (rc_id c) ch' (rc_children c), rc_timeouts := 0\<rparr>))"

fun merge_writes :: "nat \<Rightarrow> DatagramData \<Rightarrow> DatagramData list \<Rightarrow> DatagramData \<times> DatagramData list \<times> nat" where
  "merge_writes payloadSize d [] = (d, [], 0)"
| "merge_writes payloadSize d (d2 # ds) =
     (if length (dg_payload d) < payloadSize \<and> length (dg_payload d) + length (dg_payload d2) \<le> payloadSize
      then (case merge_writes payloadSize (d\<lparr>dg_payload := dg_payload d @ dg_payload d2\<rparr>) ds of
              (d', rest, n) \<Rightarrow> (d', rest, Suc n))
      else (d, d2 # ds, 0))"

definition writeData :: "RSPConfig \<Rightarrow> RSPConnection \<Rightarrow> RSPConnection option" where
  "writeData cfg c =
     (case rc_threadBuffers c of
        [] \<Rightarrow> Some c
      | d # ds \<Rightarrow>
          let (d', rest, n) = merge_writes (cfg_payloadSize cfg) (d\<lparr>dg_sequence := rc_sequence c\<rparr>) ds;
              c1 = c\<lparr>rc_timeouts := 0, rc_sequence := rc_sequence c + 1, rc_threadBuffers := rest,
                     rc_appBuffers := rc_appBuffers c @ replicate n (Some ())\<rparr>;
              c2 = send (DATA d') (waitWritable cfg c1);
              c3 = c2\<lparr>rc_writeBuffers := rc_writeBuffers c2 @ [d']\<rparr>
          in if length (rc_children c3) = 1 then finishWriteQueue (rc_sequence c3 - 1) c3 else Some c3)"

definition sendAckRequest :: "RSPConnection \<Rightarrow> RSPConnection" where
  "sendAckRequest c = send (ACKREQ (rc_id c) (rc_sequence c - 1)) c"

text \<open>The argument \<open>elapsed\<close> is the reading of the clock.\<close>

definition processOutgoing :: "RSPConfig \<Rightarrow> int \<Rightarrow> RSPConnection \<Rightarrow> RSPConnection option" where
  "processOutgoing cfg elapsed c =
     map_option (\<lambda>c1.
       if rc_threadBuffers c1 \<noteq> [] \<or> rc_repeatQueue c1 \<noteq> [] then setTimeout 0 c1
       else if rc_writeBuffers c1 = [] then c1\<lparr>rc_timeouts := 0, rc_timer := None\<rparr>
       else
         let left = cfg_ackTimeout cfg - elapsed in
         if 0 < left then setTimeout left c1
         else setTimeout (cfg_ackTimeout cfg) (sendAckRequest (c1\<lparr>rc_timeouts := rc_timeouts c1 + 1\<rparr>)))
     (if rc_repeatQueue c \<noteq> [] then repeatData cfg c else writeData cfg c)"

definition handleAck :: "RSPConfig \<Rightarrow> u16 \<Rightarrow> u16 \<Rightarrow> u16 \<Rightarrow> RSPConnection \<Rightarrow> (bool \<times> RSPConnection) option" where
  "handleAck cfg readerID writerID sequence c =
     (if writerID \<noteq> rc_id c then Some (True, c)
      else case findConnection readerID c of
        None \<Rightarrow> Some (False, c)
      | Some ch \<Rightarrow>
          if sequence \<le> ch_acked ch \<and> unat (ch_acked ch) - unat sequence \<le> unat (cfg_numBuffers cfg)
          then Some (True, c)
          else
            let c1 = c\<lparr>rc_children := set_child readerID (ch\<lparr>ch_acked := sequence\<rparr>) (rc_children c),
                       rc_timeouts := 0\<rparr>;
                acked = fold (\<lambda>child acked.
                          if ch_id child = rc_id c then acked
                          else if cfg_numBuffers cfg < ch_acked child - acked then ch_acked child else acked)
                        (rc_children c1) sequence
            in case findConnection (rc_id c1) c1 of
                 None \<Rightarrow> None
               | Some selfChild \<Rightarrow>
                   if acked - ch_acked selfChild \<le> cfg_numBuffers cfg
                   then map_option (Pair True) (finishWriteQueue acked c1)
                   else Some (True, c1))"

definition handleNack :: "RSPConfig \<Rightarrow> u16 \<Rightarrow> u16 \<Rightarrow> Nack list \<Rightarrow> RSPConnection \<Rightarrow> bool \<times> RSPConnection" where
  "handleNack cfg readerID writerID nacks c =
     (if rc_id c \<noteq> writerID then (True, c)
      else if findConnection readerID c = None then (False, c)
      else (True, addRepeat cfg nacks (c\<lparr>rc_timeouts := 0\<rparr>)))"

section \<open>Acknowledge requests\<close>

definition close_gap :: "u16 \<Rightarrow> u16 \<Rightarrow> Nack list" where
  "close_gap s e = (if e < s then [\<lparr>nk_start = s, nk_end = -1\<rparr>, \<lparr>nk_start = 0, nk_end = e\<rparr>]
     else [\<lparr>nk_start = s, nk_end = e\<rparr>])"

text \<open>
  The scan over the out-of-order buffers alternates between gaps and runs of received
  buffers. It gives the closed requests, the start of the last gap, and whether the end of
  the buffers was reached.
\<close>

fun ack_scan :: "u16 \<Rightarrow> bool \<Rightarrow> u16 \<Rightarrow> nat \<Rightarrow> DatagramData option list \<Rightarrow> Nack list \<Rightarrow> Nack list \<times> u16 \<times> bool" where
  "ack_scan seq gap start j [] acc = (acc, start, True)"
| "ack_scan seq True start j (x # xs) acc =
     (if EQ_RSP_MAX_NACKS - 2 \<le> length acc then (acc, start, False)
      else case x of
        Some _ \<Rightarrow> ack_scan seq False start (Suc j) xs (acc @ close_gap start (seq + of_nat j))
      | None \<Rightarrow> ack_scan seq True start (Suc j) xs acc)"
| "ack_scan seq False start j (x # xs) acc =
     (case x of
        Some _ \<Rightarrow> ack_scan seq False start (Suc j) xs acc
      | None \<Rightarrow> ack_scan seq True (seq + of_nat j + 1) (Suc j) xs acc)"

definition ack_request_nacks :: "RSPConfig \<Rightarrow> Child \<Rightarrow> u16 \<Rightarrow> Nack list" where
  "ack_request_nacks cfg ch reqID =
     (case ack_scan (ch_sequence ch) True (ch_sequence ch) 0 (ch_recvBuffers ch) [] of
        (acc, start, atEnd) \<Rightarrow>
          let nacks =
            (if \<not> atEnd \<or> acc = [] then acc @ [\<lparr>nk_start = start, nk_end = reqID\<rparr>]
             else if reqID - nk_end (last acc) < cfg_numBuffers cfg
             then acc @ [\<lparr>nk_start = nk_end (last acc) + 1, nk_end = reqID\<rparr>]
             else acc)
          in butlast nacks @ close_gap (nk_start (last nacks)) (nk_end (last nacks)))"

definition handleAckRequest :: "RSPConfig \<Rightarrow> u16 \<Rightarrow> u16 \<Rightarrow> RSPConnection \<Rightarrow> bool \<times> RSPConnection" where
  "handleAckRequest cfg writerID reqID c =
     (case findConnection writerID c of
        None \<Rightarrow> (False, c)
      | Some ch \<Rightarrow>
          let gotID = ch_sequence ch - 1; distance = reqID - gotID in
          if reqID = gotID \<or>
             (reqID < gotID \<and> unat gotID - unat reqID \<le> unat (cfg_numBuffers cfg)) \<or>
             (gotID < reqID \<and> cfg_numBuffers cfg < distance)
          then (True, send (ACK (rc_id c) (ch_id ch) gotID) c)
          else (True, sendNack cfg (ch_id ch) (ack_request_nacks cfg ch reqID) c))"

section \<open>Identifiers and timeouts\<close>

definition handleAcceptIDTimeout :: "RSPConfig \<Rightarrow> RSPConnection \<Rightarrow> RSPConnection" where
  "handleAcceptIDTimeout cfg c =
     (let c1 = c\<lparr>rc_timeouts := rc_timeouts c + 1\<rparr> in
      setTimeout 10
        (if rc_timeouts c1 < 20 then sendSimpleDatagram ID_HELLO (rc_id c1) c1
         else sendCountNode
           ((addConnection cfg (rc_id c1) (sendSimpleDatagram ID_CONFIRM (rc_id c1) c1))
              \<lparr>rc_idAccepted := True, rc_timeouts := 0\<rparr>)))"

definition handleInitTimeout :: "RSPConnection \<Rightarrow> RSPConnection" where
  "handleInitTimeout c =
     (let c1 = c\<lparr>rc_timeouts := rc_timeouts c + 1\<rparr> in
      setTimeout 10
        (if rc_timeouts c1 < 20 then sendCountNode c1
         else c1\<lparr>rc_state := STATE_LISTENING, rc_timeouts := 0, rc_running := False\<rparr>))"

definition stop_child :: "Child \<Rightarrow> Child" where
  "stop_child ch = ch\<lparr>ch_state := STATE_CLOSING, ch_appBuffers := ch_appBuffers ch @ [None]\<rparr>"

definition handleConnectedTimeout :: "RSPConfig \<Rightarrow> int \<Rightarrow> RSPConnection \<Rightarrow> RSPConnection option" where
  "handleConnectedTimeout cfg elapsed c =
     (if rc_state c \<noteq> STATE_LISTENING then Some (c\<lparr>rc_running := False\<rparr>)
      else map_option (\<lambda>c1.
        if EQ_RSP_MAX_TIMEOUTS \<le> rc_timeouts c1 then
          (sendSimpleDatagram ID_EXIT (rc_id c1) c1)
            \<lparr>rc_appBuffers := None # rc_appBuffers c1, rc_children := map stop_child (rc_children c1),
             rc_running := False\<rparr>
        else c1) (processOutgoing cfg elapsed c))"

definition handleTimeout :: "RSPConfig \<Rightarrow> int \<Rightarrow> bool \<Rightarrow> RSPConnection \<Rightarrow> RSPConnection option" where
  "handleTimeout cfg elapsed aborted c =
     (if aborted then Some c
      else if rc_state c = STATE_LISTENING then handleConnectedTimeout cfg elapsed c
      else if rc_idAccepted c then Some (handleInitTimeout c)
      else Some (handleAcceptIDTimeout cfg c))"

definition handleCountNode :: "RSPConfig \<Rightarrow> u16 \<Rightarrow> RSPConnection \<Rightarrow> RSPConnection" where
  "handleCountNode cfg clientID c = addConnection cfg clientID c"

text \<open>The argument \<open>newID\<close> is the random number that \<open>_buildNewID\<close> draws.\<close>

definition handleAcceptIDData :: "u16 \<Rightarrow> Packet \<Rightarrow> RSPConnection \<Rightarrow> RSPConnection" where
  "handleAcceptIDData newID p c =
     (case p of
        ID_HELLO i \<Rightarrow> checkNewID i c
      | ID_DENY i \<Rightarrow>
          if i = rc_id c then sendSimpleDatagram ID_HELLO newID (c\<lparr>rc_timeouts := 0, rc_id := newID\<rparr>) else c
      | ID_EXIT i \<Rightarrow> removeConnection i c
      | _ \<Rightarrow> c)"

definition handleInitData :: "RSPConfig \<Rightarrow> Packet \<Rightarrow> RSPConnection \<Rightarrow> RSPConnection" where
  "handleInitData cfg p c =
     (case p of
        ID_HELLO i \<Rightarrow> checkNewID i (c\<lparr>rc_timeouts := 0\<rparr>)
      | ID_CONFIRM i \<Rightarrow> addConnection cfg i (c\<lparr>rc_timeouts := 0\<rparr>)
      | COUNTNODE i n \<Rightarrow> handleCountNode cfg i c
      | ID_EXIT i \<Rightarrow> removeConnection i c
      | _ \<Rightarrow> c)"

definition handleConnectedData :: "RSPConfig \<Rightarrow> Packet \<Rightarrow> RSPConnection \<Rightarrow> RSPConnection option" where
  "handleConnectedData cfg p c =
     (case p of
        DATA d \<Rightarrow> Some (snd (handleData cfg d c))
      | ACK r w s \<Rightarrow> map_option snd (handleAck cfg r w s c)
      | NACK r w ns \<Rightarrow> Some (snd (handleNack cfg r w ns c))
      | ACKREQ w s \<Rightarrow> Some (snd (handleAckRequest cfg w s c))
      | ID_HELLO i \<Rightarrow> Some (checkNewID i c)
      | ID_CONFIRM i \<Rightarrow> Some (addConnection cfg i c)
      | ID_EXIT i \<Rightarrow> Some (removeConnection i c)
      | COUNTNODE i n \<Rightarrow> Some (handleCountNode cfg i c)
      | ID_DENY i \<Rightarrow> Some c)"

definition handlePacket :: "RSPConfig \<Rightarrow> int \<Rightarrow> u16 \<Rightarrow> Packet \<Rightarrow> RSPConnection \<Rightarrow> RSPConnection option" where
  "handlePacket cfg elapsed newID p c =
     (if rc_state c = STATE_LISTENING then
        Option.bind (handleConnectedData cfg p c) (\<lambda>c1.
          if rc_state c1 = STATE_LISTENING then processOutgoing cfg elapsed c1
          else Some (c1\<lparr>rc_running := False\<rparr>))
      else if rc_idAccepted c then Some (handleInitData cfg p c)
      else Some (handleAcceptIDData newID p c))"

section \<open>The application side\<close>

text \<open>Closing waits until nothing is left to write; \<open>None\<close> stands for the wait.\<close>

definition isWriting :: "RSPConnection \<Rightarrow> bool" where
  "isWriting c = (rc_threadBuffers c \<noteq> [] \<or> rc_writeBuffers c \<noteq> [])"

definition close_listener :: "RSPConnection \<Rightarrow> RSPConnection option" where
  "close_listener c =
     (if isWriting c then None
      else if rc_state c = STATE_CLOSED then Some c
      else
        let c1 = sendSimpleDatagram ID_EXIT (rc_id c) c in
        Some (c1\<lparr>rc_running := False, rc_removed := rc_removed c1 @ map end_child (rc_children c1),
          rc_children := [], rc_newChildren := [], rc_threadBuffers := [],
          rc_appBuffers := rc_appBuffers c1 @ [None], rc_state := STATE_CLOSED, rc_event := True\<rparr>))"

definition close_child :: "Child \<Rightarrow> Child" where
  "close_child ch =
     (if ch_state ch = STATE_CLOSED then ch
      else ch\<lparr>ch_threadBuffers := 0, ch_appBuffers := ch_appBuffers ch @ [None],
              ch_state := STATE_CLOSED, ch_event := True\<rparr>)"

text \<open>Reading waits for a buffer when none is ready; \<open>None\<close> stands for the wait.\<close>

function read_loop :: "nat \<Rightarrow> u8 list \<Rightarrow> Child \<Rightarrow> (bool \<times> u8 list \<times> Child) option" where
  "read_loop bytesLeft got ch =
     (if bytesLeft = 0 then Some (True, got, ch)
      else
        case (case ch_readBuffer ch of
                Some d \<Rightarrow> Some (Some d, ch)
              | None \<Rightarrow> (case ch_appBuffers ch of
                           [] \<Rightarrow> None
                         | b # bs \<Rightarrow> Some (b, ch\<lparr>ch_readBuffer := b, ch_appBuffers := bs\<rparr>))) of
          None \<Rightarrow> None
        | Some (None, ch1) \<Rightarrow> Some (False, got, close_child ch1)
        | Some (Some d, ch1) \<Rightarrow>
            let dataLeft = length (dg_payload d) - ch_readBufferPos ch1;
                sz = min bytesLeft dataLeft;
                got' = got @ take sz (drop (ch_readBufferPos ch1) (dg_payload d));
                pos = ch_readBufferPos ch1 + sz
            in if length (dg_payload d) \<le> pos
               then read_loop (bytesLeft - sz) got'
                      (ch1\<lparr>ch_threadBuffers := ch_threadBuffers ch1 + 1, ch_readBuffer := None, ch_readBufferPos := 0\<rparr>)
               else read_loop (bytesLeft - sz) got' (ch1\<lparr>ch_readBufferPos := pos\<rparr>))"
  by pat_completeness auto

termination read_loop
  by (relation "measure (\<lambda>(n, got, ch). n + 2 * length (ch_appBuffers ch) + (if ch_readBuffer ch = None then 0 else 1))")
    (auto split: option.splits list.splits)

declare read_loop.simps [simp del]

definition readSync :: "nat \<Rightarrow> Child \<Rightarrow> (int \<times> u8 list \<times> Child) option" where
  "readSync bytes ch =
     (if ch_state ch \<noteq> STATE_CONNECTED then Some (-1, [], ch)
      else map_option (\<lambda>(complete, got, ch1).
        if complete then (int bytes, got, ch1\<lparr>ch_event := ch_readBuffer ch1 \<noteq> None \<or> ch_appBuffers ch1 \<noteq> []\<rparr>)
        else (if got = [] then -1 else int (length got), got, ch1)) (read_loop bytes [] ch))"

text \<open>The sequence number of a queued datagram is whatever the buffer held; \<open>_writeData\<close> sets it.\<close>

fun write_loop :: "RSPConfig \<Rightarrow> nat \<Rightarrow> u8 list \<Rightarrow> RSPConnection \<Rightarrow> (bool \<times> RSPConnection) option" where
  "write_loop cfg 0 rest c = Some (True, c)"
| "write_loop cfg (Suc n) rest c =
     (case rc_appBuffers c of
        [] \<Rightarrow> None
      | None # bs \<Rightarrow> Some (False, c\<lparr>rc_appBuffers := bs\<rparr>)
      | Some _ # bs \<Rightarrow>
          write_loop cfg n (drop (cfg_payloadSize cfg) rest)
            (c\<lparr>rc_appBuffers := bs,
               rc_threadBuffers := rc_threadBuffers c @
                 [\<lparr>dg_writerID = rc_id c, dg_sequence = 0, dg_payload = take (cfg_payloadSize cfg) rest\<rparr>]\<rparr>))"

definition rsp_write :: "RSPConfig \<Rightarrow> u8 list \<Rightarrow> RSPConnection \<Rightarrow> (int \<times> RSPConnection) option" where
  "rsp_write cfg data c =
     (let bytes = length data;
          n = bytes div cfg_payloadSize cfg;
          nDatagrams = (if n * cfg_payloadSize cfg \<noteq> bytes then n + 1 else n)
      in if rc_state c = STATE_CLOSED then Some (-1, c)
         else case write_loop cfg nDatagrams data c of
           None \<Rightarrow> None
         | Some (True, c1) \<Rightarrow> Some (int bytes, c1\<lparr>rc_wakeup := True\<rparr>)
         | Some (False, c1) \<Rightarrow> map_option (Pair (-1)) (close_listener c1))"

end
