(* ===== verification/Rsp_Reader.thy ===== *)
theory Rsp_Reader
  imports Rsp
begin

text \<open>
  The reader side of RSP. The datagrams of a writer form a numbered stream; datagram \<open>n\<close>
  carries the sixteen-bit sequence number \<open>of_nat n\<close>. Packets may be lost, repeated and
  reordered, as long as the one that arrives is at most \<open>numBuffers\<close> away from the one that is
  expected. The theory shows that the application reads exactly the stream.
\<close>

section \<open>Sequence numbers\<close>

lemma unat_diff_u16:
  assumes "m \<le> n" "n - m < 2 ^ 16"
  shows "unat (of_nat n - of_nat m :: u16) = n - m"
proof -
  have "(of_nat n - of_nat m :: u16) = of_nat (n - m)" using assms(1) by (simp add: of_nat_diff)
  then show ?thesis using assms(2) by (simp add: unsigned_of_nat take_bit_nat_eq_self_iff)
qed

lemma unat_diff_u16_neg:
  assumes "m < n" "n - m < 2 ^ 16"
  shows "unat (of_nat m - of_nat n :: u16) = 2 ^ 16 - (n - m)"
proof -
  have "unat (of_nat (m + 2 ^ 16) - of_nat n :: u16) = m + 2 ^ 16 - n"
    by (rule unat_diff_u16) (use assms in auto)
  moreover have "of_nat (m + 2 ^ 16) = (of_nat m :: u16)" by simp
  ultimately show ?thesis using assms by (simp only:)
qed

lemma of_nat_u16_eq_iff:
  assumes "m \<le> n" "n - m < 2 ^ 16"
  shows "(of_nat m :: u16) = of_nat n \<longleftrightarrow> m = n"
  using unat_diff_u16 [OF assms] assms(1) by auto

section \<open>Delivering the ready buffers\<close>

definition ready :: "'a option list \<Rightarrow> nat" where
  "ready rs = length (takeWhile (\<lambda>x. x \<noteq> None) rs)"

lemma ready_simps [simp]: "ready [] = 0" "ready (None # rs) = 0" "ready (Some d # rs) = Suc (ready rs)"
  by (simp_all add: ready_def)

lemma ready_le: "ready rs \<le> length rs"
  by (simp add: ready_def length_takeWhile_le)

lemma take_ready: "i < ready rs \<Longrightarrow> rs ! i \<noteq> None"
  by (metis (mono_tags, lifting) nth_mem ready_def set_takeWhileD takeWhile_nth)

lemma drop_ready: "drop (ready rs) rs = [] \<or> hd (drop (ready rs) rs) = None"
proof (induction rs)
  case (Cons x rs)
  then show ?case by (cases x) auto
qed simp

lemma drop_Suc_tl: "drop (Suc k) xs = tl (drop k xs)"
  by (simp add: drop_Suc tl_drop)

lemma push_ready_fst:
  "ch_recvBuffers ch = rs \<Longrightarrow> fst (push_ready cfg pid rs (ch, sends)) =
     ch\<lparr>ch_sequence := ch_sequence ch + of_nat (ready rs), ch_appBuffers := ch_appBuffers ch @ take (ready rs) rs,
        ch_recvBuffers := drop (ready rs) rs\<rparr>"
proof (induction rs arbitrary: ch sends)
  case (Cons x rs)
  show ?case
  proof (cases x)
    case (Some d)
    let ?ch = "ch\<lparr>ch_recvBuffers := rs, ch_sequence := ch_sequence ch + 1, ch_appBuffers := ch_appBuffers ch @ [Some d]\<rparr>"
    have "ch_recvBuffers ?ch = rs" by simp
    note IH = Cons.IH [OF this]
    show ?thesis using Some by (simp add: pushDataBuffer_def IH add.assoc)
  qed (use Cons in simp)
qed simp

lemma handle_in_order:
  assumes "ch_sequence ch = dg_sequence d" "0 < ch_threadBuffers ch"
  shows "fst (handle_data_child cfg pid d ch) =
    (let k = ready (ch_recvBuffers ch) in
     ch\<lparr>ch_threadBuffers := ch_threadBuffers ch - 1, ch_sequence := ch_sequence ch + 1 + of_nat k,
        ch_appBuffers := ch_appBuffers ch @ Some d # take k (ch_recvBuffers ch),
        ch_recvBuffers := drop (Suc k) (ch_recvBuffers ch), ch_event := True\<rparr>)"
proof -
  let ?rs = "ch_recvBuffers ch" and ?k = "ready (ch_recvBuffers ch)"
  define ch1 where "ch1 = ch\<lparr>ch_threadBuffers := ch_threadBuffers ch - 1, ch_sequence := ch_sequence ch + 1,
    ch_appBuffers := ch_appBuffers ch @ [Some d]\<rparr>"
  obtain sends where p: "pushDataBuffer cfg pid d (ch\<lparr>ch_threadBuffers := ch_threadBuffers ch - 1\<rparr>, []) = (ch1, sends)"
    by (simp add: pushDataBuffer_def ch1_def)
  have "ch_recvBuffers ch1 = ?rs" by (simp add: ch1_def)
  note f = push_ready_fst [OF this, of cfg pid sends]
  obtain ch2 sends2 where q: "push_ready cfg pid ?rs (ch1, sends) = (ch2, sends2)" by fastforce
  with f have ch2: "ch2 = ch1\<lparr>ch_sequence := ch_sequence ch1 + of_nat ?k, ch_appBuffers := ch_appBuffers ch1 @ take ?k ?rs,
    ch_recvBuffers := drop ?k ?rs\<rparr>" by simp
  have tl: "(case ch_recvBuffers ch2 of None # rest \<Rightarrow> ch2\<lparr>ch_recvBuffers := rest\<rparr> | _ \<Rightarrow> ch2) = ch2\<lparr>ch_recvBuffers := drop (Suc ?k) ?rs\<rparr>"
    using drop_ready [of ?rs] drop_Suc_tl [of ?k ?rs] by (cases "drop ?k ?rs") (auto simp: ch2)
  have "fst (handle_data_child cfg pid d ch) = ch2\<lparr>ch_recvBuffers := drop (Suc ?k) ?rs, ch_event := True\<rparr>"
    using assms p q tl by (simp add: handle_data_child_def newDataBuffer_def Let_def)
  then show ?thesis by (simp add: ch2 ch1_def add.assoc Let_def)
qed

lemma handle_cases:
  obtains (in_order) "ch_sequence ch = dg_sequence d" "0 < ch_threadBuffers ch"
  | (stored) i where "ch_sequence ch \<noteq> dg_sequence d" "0 < ch_threadBuffers ch"
      "i = unat (dg_sequence d - ch_sequence ch) - 1" "\<not> (i < length (ch_recvBuffers ch) \<and> ch_recvBuffers ch ! i \<noteq> None)"
      "cfg_numBuffers cfg < ch_sequence ch - dg_sequence d"
      "fst (handle_data_child cfg pid d ch) = ch\<lparr>ch_threadBuffers := ch_threadBuffers ch - 1,
         ch_recvBuffers := (ch_recvBuffers ch @ replicate (Suc i - length (ch_recvBuffers ch)) None)[i := Some d]\<rparr>"
  | (ignored) "fst (handle_data_child cfg pid d ch) = ch" "ch_sequence ch \<noteq> dg_sequence d"
  | (full) "ch_threadBuffers ch = 0" "fst (handle_data_child cfg pid d ch) = no_data_buffer ch"
proof -
  have sz: "Suc (unat (dg_sequence d - ch_sequence ch) - 1) = unat (dg_sequence d - ch_sequence ch)"
    if "ch_sequence ch \<noteq> dg_sequence d"
  proof -
    have "dg_sequence d - ch_sequence ch \<noteq> 0" using that by auto
    then show ?thesis by (simp add: unat_gt_0)
  qed
  show ?thesis
  proof (cases "ch_threadBuffers ch = 0")
    case True
    then have "fst (handle_data_child cfg pid d ch) = ch \<and> ch_sequence ch \<noteq> dg_sequence d \<or>
        fst (handle_data_child cfg pid d ch) = no_data_buffer ch"
      by (simp add: handle_data_child_def newDataBuffer_def Let_def)
    with True show ?thesis using ignored full by blast
  next
    case False
    show ?thesis
    proof (cases "ch_sequence ch = dg_sequence d")
      case True
      with False show ?thesis using in_order by simp
    next
      case ne: False
      let ?i = "unat (dg_sequence d - ch_sequence ch) - 1" and ?rs = "ch_recvBuffers ch"
      show ?thesis
      proof (cases "dg_sequence d < ch_sequence ch \<or> ch_sequence ch - dg_sequence d \<le> cfg_numBuffers cfg \<or>
          ?i < length ?rs \<and> ?rs ! ?i \<noteq> None")
        case True
        with ne False sz [OF ne] have "fst (handle_data_child cfg pid d ch) = ch"
          by (auto simp: handle_data_child_def Let_def Suc_le_eq [symmetric])
        with ne show ?thesis using ignored by blast
      next
        case stored': False
        have "(if length ?rs < unat (dg_sequence d - ch_sequence ch)
            then ?rs @ replicate (unat (dg_sequence d - ch_sequence ch) - length ?rs) None else ?rs) =
            ?rs @ replicate (Suc ?i - length ?rs) None"
          using sz [OF ne] by simp
        with stored' ne False sz [OF ne]
        have "fst (handle_data_child cfg pid d ch) = ch\<lparr>ch_threadBuffers := ch_threadBuffers ch - 1,
            ch_recvBuffers := (?rs @ replicate (Suc ?i - length ?rs) None)[?i := Some d]\<rparr>"
          by (auto simp: handle_data_child_def newDataBuffer_def Let_def Suc_le_eq [symmetric])
        with stored' ne False show ?thesis using stored [of ?i] by (simp add: not_le)
      qed
    qed
  qed
qed

section \<open>The invariant of a reader\<close>

definition reader_inv :: "(nat \<Rightarrow> DatagramData) \<Rightarrow> nat \<Rightarrow> nat \<Rightarrow> Child \<Rightarrow> bool" where
  "reader_inv stream nb e ch =
     (ch_sequence ch = of_nat e \<and> length (ch_recvBuffers ch) \<le> nb \<and>
      (\<forall>i < length (ch_recvBuffers ch).
         ch_recvBuffers ch ! i = None \<or> ch_recvBuffers ch ! i = Some (stream (e + 1 + i))))"

definition held :: "'a option list \<Rightarrow> nat" where
  "held xs = length (filter (\<lambda>x. x \<noteq> None) xs)"

text \<open>All buffers of a child: free, out of order, ready, and the one being read.\<close>

definition child_buffers :: "Child \<Rightarrow> nat" where
  "child_buffers ch = ch_threadBuffers ch + held (ch_recvBuffers ch) + held (ch_appBuffers ch) +
     (if ch_readBuffer ch = None then 0 else 1)"

lemma held_simps [simp]: "held [] = 0" "held (x # xs) = (if x = None then 0 else 1) + held xs"
    "held (xs @ ys) = held xs + held ys" "held (replicate n None) = 0"
  by (simp_all add: held_def)

lemma held_split: "held (take k xs) + held (drop k xs) = held xs"
  by (metis append_take_drop_id held_simps(3))

lemma held_ready: "held (take (ready rs) rs) + held (drop (Suc (ready rs)) rs) = held rs"
proof -
  have "held (drop (ready rs) rs) = held (drop (Suc (ready rs)) rs)"
    using drop_ready [of rs] drop_Suc_tl [of "ready rs" rs] by (cases "drop (ready rs) rs") auto
  with held_split [of "ready rs" rs] show ?thesis by simp
qed

lemma held_update: "i < length xs \<Longrightarrow> xs ! i = None \<Longrightarrow> held (xs[i := Some d]) = Suc (held xs)"
proof (induction xs arbitrary: i)
  case (Cons x xs)
  then show ?case by (cases i) auto
qed simp

lemma take_ready_stream:
  assumes "\<And>i. i < length rs \<Longrightarrow> rs ! i = None \<or> rs ! i = Some (stream (e + 1 + i))"
  shows "take (ready rs) rs = map (Some \<circ> stream) [e + 1..<e + 1 + ready rs]"
proof (rule nth_equalityI)
  show "length (take (ready rs) rs) = length (map (Some \<circ> stream) [e + 1..<e + 1 + ready rs])"
    using ready_le [of rs] by simp
  fix i assume "i < length (take (ready rs) rs)"
  then have "i < ready rs" "i < length rs" by auto
  with assms [of i] take_ready [of i rs]
  show "take (ready rs) rs ! i = map (Some \<circ> stream) [e + 1..<e + 1 + ready rs] ! i"
    by (simp del: upt_Suc)
qed

lemma handle_data_inv:
  assumes seq: "\<And>n. dg_sequence (stream n) = of_nat n" and nb: "2 * unat (cfg_numBuffers cfg) < 2 ^ 16"
    and inv: "reader_inv stream (unat (cfg_numBuffers cfg)) e ch"
    and window: "e \<le> n + unat (cfg_numBuffers cfg)" "n \<le> e + unat (cfg_numBuffers cfg)"
    and ch': "ch' = fst (handle_data_child cfg pid (stream n) ch)"
  shows "\<exists>k. reader_inv stream (unat (cfg_numBuffers cfg)) (e + k) ch' \<and>
    ch_appBuffers ch' = ch_appBuffers ch @ map (Some \<circ> stream) [e..<e + k] \<and>
    child_buffers ch' = child_buffers ch \<and> ch_readBuffer ch' = ch_readBuffer ch \<and>
    ch_readBufferPos ch' = ch_readBufferPos ch \<and> ch_state ch' = ch_state ch \<and>
    (n = e \<and> 0 < ch_threadBuffers ch \<longrightarrow> k = Suc (ready (ch_recvBuffers ch)))"
proof -
  let ?nb = "unat (cfg_numBuffers cfg)" and ?rs = "ch_recvBuffers ch"
  have e: "ch_sequence ch = of_nat e" and len: "length ?rs \<le> ?nb"
    and rs: "\<And>i. i < length ?rs \<Longrightarrow> ?rs ! i = None \<or> ?rs ! i = Some (stream (e + 1 + i))"
    using inv by (auto simp: reader_inv_def)
  have d: "e - n < 2 ^ 16" "n - e < 2 ^ 16" using window nb by linarith+
  have same: "ch_sequence ch = dg_sequence (stream n) \<longleftrightarrow> n = e"
    using of_nat_u16_eq_iff [of e n] of_nat_u16_eq_iff [of n e] d by (cases "e \<le> n") (auto simp: e seq)
  show ?thesis
  proof (cases rule: handle_cases [where ch = ch and d = "stream n" and cfg = cfg and pid = pid])
    case in_order
    let ?k = "ready ?rs"
    have n: "n = e" using in_order same by simp
    have h: "ch' = ch\<lparr>ch_threadBuffers := ch_threadBuffers ch - 1, ch_sequence := ch_sequence ch + 1 + of_nat ?k,
        ch_appBuffers := ch_appBuffers ch @ Some (stream n) # take ?k ?rs,
        ch_recvBuffers := drop (Suc ?k) ?rs, ch_event := True\<rparr>"
      using handle_in_order [OF in_order, of cfg pid] ch' by (simp add: Let_def)
    have "map (Some \<circ> stream) [e..<e + Suc ?k] = Some (stream e) # take ?k ?rs"
      using take_ready_stream [of ?rs stream e] rs by (simp add: upt_conv_Cons del: upt_Suc)
    moreover have "reader_inv stream ?nb (e + Suc ?k) ch'"
    proof -
      have "drop (Suc ?k) ?rs ! i = None \<or> drop (Suc ?k) ?rs ! i = Some (stream (e + Suc ?k + 1 + i))"
        if "i < length ?rs - Suc ?k" for i
        using rs [of "Suc ?k + i"] that by (simp add: add_ac)
      then show ?thesis using len by (auto simp: reader_inv_def h e)
    qed
    moreover have "child_buffers ch' = child_buffers ch"
      using in_order held_ready [of ?rs] by (simp add: child_buffers_def h)
    ultimately show ?thesis using n by (intro exI [of _ "Suc ?k"]) (simp add: h)
  next
    case (stored i)
    have "n \<noteq> e" using stored(1) same by simp
    have "e < n"
    proof (rule ccontr)
      assume "\<not> e < n"
      then have "unat (ch_sequence ch - dg_sequence (stream n)) = e - n"
        using unat_diff_u16 [of n e] d by (simp add: e seq)
      with stored(5) window show False by (simp add: word_less_nat_alt)
    qed
    then have i: "i = n - e - 1" using stored(3) unat_diff_u16 [of e n] d by (simp add: e seq)
    have "reader_inv stream ?nb e ch'"
      unfolding ch' stored(6) reader_inv_def
      using len rs i \<open>e < n\<close> window by (auto simp: e nth_list_update nth_append)
    moreover have "child_buffers ch' = child_buffers ch"
    proof -
      let ?xs = "?rs @ replicate (Suc i - length ?rs) None"
      have "?xs ! i = None" "i < length ?xs" using stored(4) by (auto simp: nth_append)
      then have "held (?xs[i := Some (stream n)]) = Suc (held ?rs)" by (simp add: held_update)
      then show ?thesis using stored(2) by (simp add: child_buffers_def ch' stored(6))
    qed
    ultimately show ?thesis using \<open>n \<noteq> e\<close> by (intro exI [of _ 0]) (simp add: ch' stored(6))
  next
    case ignored
    then show ?thesis using inv same ch' by (intro exI [of _ 0]) simp
  next
    case full
    then show ?thesis using inv ch'
      by (intro exI [of _ 0]) (simp add: no_data_buffer_def reader_inv_def child_buffers_def)
  qed
qed

section \<open>Reading\<close>

fun payloads :: "DatagramData option list \<Rightarrow> u8 list" where
  "payloads [] = []"
| "payloads (None # xs) = []"
| "payloads (Some d # xs) = dg_payload d @ payloads xs"

text \<open>The bytes an application can read without waiting.\<close>

definition unread :: "Child \<Rightarrow> u8 list" where
  "unread ch = (case ch_readBuffer ch of None \<Rightarrow> [] | Some d \<Rightarrow> drop (ch_readBufferPos ch) (dg_payload d)) @
     payloads (ch_appBuffers ch)"

definition read_ok :: "Child \<Rightarrow> bool" where
  "read_ok ch = (None \<notin> set (ch_appBuffers ch) \<and>
     (case ch_readBuffer ch of None \<Rightarrow> ch_readBufferPos ch = 0 | Some d \<Rightarrow> ch_readBufferPos ch < length (dg_payload d)))"

lemma payloads_append: "None \<notin> set xs \<Longrightarrow> payloads (xs @ ys) = payloads xs @ payloads ys"
  by (induction xs rule: payloads.induct) auto

lemma payloads_map_Some: "payloads (map (Some \<circ> f) ns) = concat (map (dg_payload \<circ> f) ns)"
  by (induction ns) auto

text \<open>What one pass over a buffer leaves to do.\<close>

lemma read_loop_step:
  assumes "0 < n" "ch_readBuffer ch = Some d" "ch_readBufferPos ch < length (dg_payload d)"
  shows "read_loop n got ch =
    (if length (dg_payload d) - ch_readBufferPos ch \<le> n
     then read_loop (n - (length (dg_payload d) - ch_readBufferPos ch)) (got @ drop (ch_readBufferPos ch) (dg_payload d))
       (ch\<lparr>ch_threadBuffers := ch_threadBuffers ch + 1, ch_readBuffer := None, ch_readBufferPos := 0\<rparr>)
     else Some (True, got @ take n (drop (ch_readBufferPos ch) (dg_payload d)),
       ch\<lparr>ch_readBufferPos := ch_readBufferPos ch + n\<rparr>))"
  using assms by (subst read_loop.simps) (auto simp: Let_def min_def read_loop.simps [of 0])

lemma read_loop_pop:
  assumes "0 < n" "ch_readBuffer ch = None" "ch_appBuffers ch = Some d # bs"
  shows "read_loop n got ch = read_loop n got (ch\<lparr>ch_readBuffer := Some d, ch_appBuffers := bs\<rparr>)"
  using assms by (subst (1 2) read_loop.simps) (simp add: Let_def)

definition same_reader :: "Child \<Rightarrow> Child \<Rightarrow> bool" where
  "same_reader ch ch' = (ch_sequence ch' = ch_sequence ch \<and> ch_recvBuffers ch' = ch_recvBuffers ch \<and>
     ch_state ch' = ch_state ch \<and> child_buffers ch' = child_buffers ch)"

lemma read_loop_ok:
  assumes "read_ok ch" "n \<le> length (unread ch)" "\<And>d. Some d \<in> set (ch_appBuffers ch) \<Longrightarrow> dg_payload d \<noteq> []"
  shows "\<exists>ch'. read_loop n got ch = Some (True, got @ take n (unread ch), ch') \<and> read_ok ch' \<and>
    unread ch' = drop n (unread ch) \<and> set (ch_appBuffers ch') \<subseteq> set (ch_appBuffers ch) \<and> same_reader ch ch'"
  using assms
proof (induction "n + 2 * length (ch_appBuffers ch) + (if ch_readBuffer ch = None then 0 else 1)"
    arbitrary: n got ch rule: less_induct)
  case less
  show ?case
  proof (cases "n = 0")
    case True
    then show ?thesis using less.prems by (simp add: read_loop.simps same_reader_def)
  next
    case n: False
    show ?thesis
    proof (cases "ch_readBuffer ch")
      case None
      then obtain d bs where bs: "ch_appBuffers ch = Some d # bs"
        using less.prems n
        by (cases "ch_appBuffers ch"; cases "hd (ch_appBuffers ch)") (auto simp: unread_def read_ok_def)
      let ?ch = "ch\<lparr>ch_readBuffer := Some d, ch_appBuffers := bs\<rparr>"
      have U: "unread ?ch = unread ch" "read_ok ?ch"
        using None bs less.prems by (auto simp: unread_def read_ok_def)
      have S: "same_reader ch x" if "same_reader ?ch x" for x
      proof -
        have "child_buffers ?ch = child_buffers ch" using None bs by (simp add: child_buffers_def)
        then show ?thesis using that by (simp add: same_reader_def)
      qed
      have "\<exists>ch'. read_loop n got ?ch = Some (True, got @ take n (unread ?ch), ch') \<and> read_ok ch' \<and>
          unread ch' = drop n (unread ?ch) \<and> set (ch_appBuffers ch') \<subseteq> set (ch_appBuffers ?ch) \<and> same_reader ?ch ch'"
        by (rule less.hyps) (use less.prems None bs U in \<open>auto simp: U\<close>)
      then show ?thesis using n bs None S read_loop_pop [of n ch d bs got] unfolding U(1) by fastforce
    next
      case (Some d)
      let ?rest = "drop (ch_readBufferPos ch) (dg_payload d)"
      have pos: "ch_readBufferPos ch < length (dg_payload d)" using less.prems(1) Some by (simp add: read_ok_def)
      have u: "unread ch = ?rest @ payloads (ch_appBuffers ch)" using Some by (simp add: unread_def)
      show ?thesis
      proof (cases "length ?rest \<le> n")
        case True
        let ?ch = "ch\<lparr>ch_threadBuffers := ch_threadBuffers ch + 1, ch_readBuffer := None, ch_readBufferPos := 0\<rparr>"
        have U: "unread ?ch = payloads (ch_appBuffers ch)" "read_ok ?ch"
          using less.prems(1) by (simp_all add: unread_def read_ok_def)
        have S: "same_reader ch x" if "same_reader ?ch x" for x
        proof -
          have "child_buffers ?ch = child_buffers ch" using Some by (simp add: child_buffers_def)
          then show ?thesis using that by (simp add: same_reader_def)
        qed
        have "\<exists>ch'. read_loop (n - length ?rest) (got @ ?rest) ?ch =
            Some (True, (got @ ?rest) @ take (n - length ?rest) (unread ?ch), ch') \<and> read_ok ch' \<and>
            unread ch' = drop (n - length ?rest) (unread ?ch) \<and>
            set (ch_appBuffers ch') \<subseteq> set (ch_appBuffers ?ch) \<and> same_reader ?ch ch'"
          by (rule less.hyps) (use less.prems True Some pos u U in auto)
        moreover have "read_loop n got ch = read_loop (n - length ?rest) (got @ ?rest) ?ch"
          using read_loop_step [of n ch d got] n Some pos True by simp
        ultimately show ?thesis using True S unfolding U(1) u by fastforce
      next
        case False
        let ?ch = "ch\<lparr>ch_readBufferPos := ch_readBufferPos ch + n\<rparr>"
        have "read_loop n got ch = Some (True, got @ take n ?rest, ?ch)"
          using read_loop_step [of n ch d got] n Some pos False by simp
        moreover have "unread ?ch = drop n (unread ch)" using Some False u by (simp add: unread_def add.commute)
        moreover have "read_ok ?ch" using less.prems(1) Some False by (simp add: read_ok_def)
        ultimately show ?thesis using False by (simp add: u same_reader_def child_buffers_def)
      qed
    qed
  qed
qed

lemma read_loop_blocks:
  assumes "read_ok ch" "length (unread ch) < n" "\<And>d. Some d \<in> set (ch_appBuffers ch) \<Longrightarrow> dg_payload d \<noteq> []"
  shows "read_loop n got ch = None"
  using assms
proof (induction "n + 2 * length (ch_appBuffers ch) + (if ch_readBuffer ch = None then 0 else 1)"
    arbitrary: n got ch rule: less_induct)
  case less
  have n: "0 < n" using less.prems(2) by simp
  show ?case
  proof (cases "ch_readBuffer ch")
    case None
    show ?thesis
    proof (cases "ch_appBuffers ch")
      case Nil
      then show ?thesis using None n by (simp add: read_loop.simps)
    next
      case (Cons b bs)
      then obtain d where b: "b = Some d" using less.prems(1) by (cases b) (auto simp: read_ok_def)
      have "read_loop n got (ch\<lparr>ch_readBuffer := Some d, ch_appBuffers := bs\<rparr>) = None"
        by (rule less.hyps) (use less.prems None Cons b in \<open>auto simp: unread_def read_ok_def\<close>)
      then show ?thesis using read_loop_pop [OF n None] Cons b by simp
    qed
  next
    case (Some d)
    let ?rest = "drop (ch_readBufferPos ch) (dg_payload d)"
    have pos: "ch_readBufferPos ch < length (dg_payload d)" using less.prems(1) Some by (simp add: read_ok_def)
    have "read_loop (n - length ?rest) (got @ ?rest)
        (ch\<lparr>ch_threadBuffers := ch_threadBuffers ch + 1, ch_readBuffer := None, ch_readBufferPos := 0\<rparr>) = None"
      by (rule less.hyps) (use less.prems Some pos in \<open>auto simp: unread_def read_ok_def\<close>)
    then show ?thesis using read_loop_step [OF n Some pos, of got] less.prems(2) Some by (simp add: unread_def)
  qed
qed

section \<open>Runs of a reader\<close>

text \<open>
  The states a reader reaches: \<open>e\<close> datagrams were delivered to the application, which has read
  the bytes \<open>out\<close>. Each step is a datagram of the window, in any order and any number of
  times, or a read of the application that returns.
\<close>

inductive reader_run :: "RSPConfig \<Rightarrow> u16 \<Rightarrow> (nat \<Rightarrow> DatagramData) \<Rightarrow> nat \<Rightarrow> Child \<Rightarrow> u8 list \<Rightarrow> bool"
  for cfg pid stream where
  start: "reader_run cfg pid stream 0 (new_child cfg i) []"
| deliver: "reader_run cfg pid stream e ch out \<Longrightarrow> e \<le> n + unat (cfg_numBuffers cfg) \<Longrightarrow>
    n \<le> e + unat (cfg_numBuffers cfg) \<Longrightarrow> ch' = fst (handle_data_child cfg pid (stream n) ch) \<Longrightarrow>
    e' = e + (length (ch_appBuffers ch') - length (ch_appBuffers ch)) \<Longrightarrow> reader_run cfg pid stream e' ch' out"
| read: "reader_run cfg pid stream e ch out \<Longrightarrow> readSync n ch = Some (r, bytes, ch') \<Longrightarrow>
    reader_run cfg pid stream e ch' (out @ bytes)"

definition run_inv :: "RSPConfig \<Rightarrow> (nat \<Rightarrow> DatagramData) \<Rightarrow> nat \<Rightarrow> Child \<Rightarrow> u8 list \<Rightarrow> bool" where
  "run_inv cfg stream e ch out =
     (reader_inv stream (unat (cfg_numBuffers cfg)) e ch \<and> read_ok ch \<and> ch_state ch = STATE_CONNECTED \<and>
      (\<forall>d. Some d \<in> set (ch_appBuffers ch) \<longrightarrow> dg_payload d \<noteq> []) \<and>
      child_buffers ch = unat (cfg_numBuffers cfg) \<and>
      out @ unread ch = concat (map (dg_payload \<circ> stream) [0..<e]))"

lemma run_inv_deliver:
  assumes "\<And>n. dg_sequence (stream n) = of_nat n" "\<And>n. dg_payload (stream n) \<noteq> []"
    and "2 * unat (cfg_numBuffers cfg) < 2 ^ 16" "run_inv cfg stream e ch out"
    and "e \<le> n + unat (cfg_numBuffers cfg)" "n \<le> e + unat (cfg_numBuffers cfg)"
    and "ch' = fst (handle_data_child cfg pid (stream n) ch)"
  shows "run_inv cfg stream (e + (length (ch_appBuffers ch') - length (ch_appBuffers ch))) ch' out"
proof -
  have inv: "reader_inv stream (unat (cfg_numBuffers cfg)) e ch" using assms(4) by (simp add: run_inv_def)
  from handle_data_inv [OF assms(1,3) inv assms(5-7)] obtain k where k:
    "reader_inv stream (unat (cfg_numBuffers cfg)) (e + k) ch'"
    "ch_appBuffers ch' = ch_appBuffers ch @ map (Some \<circ> stream) [e..<e + k]"
    "child_buffers ch' = child_buffers ch" "ch_readBuffer ch' = ch_readBuffer ch"
    "ch_readBufferPos ch' = ch_readBufferPos ch" "ch_state ch' = ch_state ch" by blast
  have n: "None \<notin> set (ch_appBuffers ch)" using assms(4) by (simp add: run_inv_def read_ok_def)
  have "unread ch' = unread ch @ concat (map (dg_payload \<circ> stream) [e..<e + k])"
    using n by (simp add: unread_def k(2,4,5) payloads_append payloads_map_Some split: option.split)
  moreover have "[0..<e + k] = [0..<e] @ [e..<e + k]" by (rule upt_add_eq_append) simp
  ultimately have "out @ unread ch' = concat (map (dg_payload \<circ> stream) [0..<e + k])"
    using assms(4) by (simp add: run_inv_def)
  then show ?thesis
    using k assms(2,4) by (auto simp: run_inv_def read_ok_def split: option.splits)
qed

lemma run_inv_read:
  assumes "run_inv cfg stream e ch out" "readSync n ch = Some (r, bytes, ch')"
  shows "run_inv cfg stream e ch' (out @ bytes)"
proof -
  have ok: "read_ok ch" "ch_state ch = STATE_CONNECTED" "\<And>d. Some d \<in> set (ch_appBuffers ch) \<Longrightarrow> dg_payload d \<noteq> []"
    using assms(1) by (auto simp: run_inv_def)
  have n: "n \<le> length (unread ch)"
  proof (rule ccontr)
    assume "\<not> n \<le> length (unread ch)"
    then have "read_loop n [] ch = None" using ok by (intro read_loop_blocks) auto
    with assms(2) ok(2) show False by (simp add: readSync_def)
  qed
  obtain ch1 where ch1: "read_loop n [] ch = Some (True, take n (unread ch), ch1)" "read_ok ch1"
      "unread ch1 = drop n (unread ch)" "set (ch_appBuffers ch1) \<subseteq> set (ch_appBuffers ch)" "same_reader ch ch1"
    using read_loop_ok [OF ok(1) n ok(3), of "[]"] by auto
  have c: "ch' = ch1\<lparr>ch_event := ch_readBuffer ch1 \<noteq> None \<or> ch_appBuffers ch1 \<noteq> []\<rparr>" "bytes = take n (unread ch)"
    using assms(2) ok(2) ch1(1) by (auto simp: readSync_def)
  have "unread ch' = unread ch1" "read_ok ch' = read_ok ch1" "child_buffers ch' = child_buffers ch1"
    by (simp_all add: c unread_def read_ok_def child_buffers_def split: option.split)
  then show ?thesis
    using assms(1) ch1 c by (auto simp: run_inv_def same_reader_def reader_inv_def)
qed

lemma run_inv_run:
  assumes "\<And>n. dg_sequence (stream n) = of_nat n" "\<And>n. dg_payload (stream n) \<noteq> []"
    and "2 * unat (cfg_numBuffers cfg) < 2 ^ 16" "reader_run cfg pid stream e ch out"
  shows "run_inv cfg stream e ch out"
  using assms(4)
proof induction
  case (start i)
  then show ?case
    by (simp add: run_inv_def new_child_def reader_inv_def read_ok_def unread_def child_buffers_def)
next
  case (deliver e ch out n ch' e')
  then show ?case using run_inv_deliver [OF assms(1-3)] by blast
next
  case (read e ch out n r bytes ch')
  then show ?case using run_inv_read by blast
qed

text \<open>C14. RSP delivers in order and exactly once: whatever packets of the window arrive, in
  whatever order and however often, the bytes the application has read, followed by those it
  can read next, are the payloads of the first \<open>e\<close> datagrams of the writer in order, where \<open>e\<close>
  is the next expected sequence number; and no buffer of the reader is ever lost.\<close>

theorem reader_in_order:
  assumes "\<And>n. dg_sequence (stream n) = of_nat n" "\<And>n. dg_payload (stream n) \<noteq> []"
    and "2 * unat (cfg_numBuffers cfg) < 2 ^ 16" "reader_run cfg pid stream e ch out"
  shows "out @ unread ch = concat (map (dg_payload \<circ> stream) [0..<e]) \<and> ch_sequence ch = of_nat e \<and>
    child_buffers ch = unat (cfg_numBuffers cfg)"
  using run_inv_run [OF assms] by (simp add: run_inv_def reader_inv_def)

definition demo_cfg :: RSPConfig where
  "demo_cfg = \<lparr>cfg_numBuffers = 4, cfg_ackFreq = 2, cfg_payloadSize = 3, cfg_bandwidth = 1000,
     cfg_minSendrateShift = 3, cfg_errorDownscale = 5, cfg_errorMaxscale = 20, cfg_errorUpscale = 20, cfg_ackTimeout = 100\<rparr>"

definition demo_stream :: "nat \<Rightarrow> DatagramData" where
  "demo_stream n = \<lparr>dg_writerID = 7, dg_sequence = of_nat n, dg_payload = [of_nat n, 0]\<rparr>"

lemma demo_run:
  "reader_run demo_cfg 1 demo_stream 2
     \<lparr>ch_id = 7, ch_state = STATE_CONNECTED, ch_acked = -1, ch_sequence = 2, ch_threadBuffers = 3,
      ch_appBuffers = [], ch_recvBuffers = [], ch_readBuffer = Some (demo_stream 1), ch_readBufferPos = 1,
      ch_event = True\<rparr> [0, 0, 1]"
proof -
  let ?c1 = "\<lparr>ch_id = 7, ch_state = STATE_CONNECTED, ch_acked = -1, ch_sequence = 0, ch_threadBuffers = 3,
      ch_appBuffers = [], ch_recvBuffers = [Some (demo_stream 1)], ch_readBuffer = None, ch_readBufferPos = 0,
      ch_event = False\<rparr>"
  let ?c2 = "\<lparr>ch_id = 7, ch_state = STATE_CONNECTED, ch_acked = -1, ch_sequence = 2, ch_threadBuffers = 2,
      ch_appBuffers = [Some (demo_stream 0), Some (demo_stream 1)], ch_recvBuffers = [], ch_readBuffer = None,
      ch_readBufferPos = 0, ch_event = True\<rparr>"
  have m1: "\<not> (-1 :: u16) \<le> 4" by (simp add: word_le_nat_alt unsigned_minus_1_eq_mask mask_eq_exp_minus_1)
  have r0: "reader_run demo_cfg 1 demo_stream 0 (new_child demo_cfg 7) []" by (rule reader_run.start)
  have r1: "reader_run demo_cfg 1 demo_stream 0 ?c1 []"
    by (rule reader_run.deliver [OF r0, where n = 1])
      (simp_all add: demo_cfg_def new_child_def handle_data_child_def demo_stream_def newDataBuffer_def Let_def m1)
  have r2: "reader_run demo_cfg 1 demo_stream 2 ?c2 []"
    by (rule reader_run.deliver [OF r1, where n = 0])
      (simp_all add: demo_cfg_def handle_data_child_def demo_stream_def newDataBuffer_def pushDataBuffer_def Let_def)
  have "readSync 3 ?c2 = Some (3, [0, 0, 1],
      \<lparr>ch_id = 7, ch_state = STATE_CONNECTED, ch_acked = -1, ch_sequence = 2, ch_threadBuffers = 3,
      ch_appBuffers = [], ch_recvBuffers = [], ch_readBuffer = Some (demo_stream 1), ch_readBufferPos = 1,
      ch_event = True\<rparr>)"
    by (simp add: readSync_def read_loop.simps demo_stream_def Let_def)
  from reader_run.read [OF r2 this] show ?thesis by simp
qed

theorem reader_in_order_witness:
  "\<exists>e ch out. reader_run demo_cfg 1 demo_stream e ch out \<and> out = [0, 0, 1] \<and> unread ch = [0] \<and>
     out @ unread ch = concat (map (dg_payload \<circ> demo_stream) [0..<e])"
proof -
  have "2 * unat (cfg_numBuffers demo_cfg) < 2 ^ 16" by (simp add: demo_cfg_def)
  with reader_in_order [OF _ _ this demo_run] demo_run show ?thesis
    by (intro exI conjI) (auto simp: demo_stream_def unread_def)
qed

end
