(* ===== verification/Rsp_Nack.thy ===== *)
theory Rsp_Nack
  imports Rsp_Reader
begin

text \<open>
  The requests for missing datagrams. An acknowledge request makes a reader list every
  datagram it has not received; the list must name all of them, each range must be
  well-formed although sequence numbers wrap around, and the list must fit into a packet.
\<close>

section \<open>Ranges of sequence numbers\<close>

definition covers :: "Nack list \<Rightarrow> nat \<Rightarrow> bool" where
  "covers ns n = (\<exists>k \<in> set ns. nk_start k \<le> of_nat n \<and> of_nat n \<le> nk_end k)"

definition nacks_wf :: "Nack list \<Rightarrow> bool" where
  "nacks_wf ns = (\<forall>k \<in> set ns. nk_start k \<le> nk_end k)"

lemma covers_append [simp]: "covers (xs @ ys) n \<longleftrightarrow> covers xs n \<or> covers ys n"
  by (auto simp: covers_def)

lemma nacks_wf_append [simp]: "nacks_wf (xs @ ys) \<longleftrightarrow> nacks_wf xs \<and> nacks_wf ys"
  by (auto simp: nacks_wf_def)

lemma unat_of_nat_u16: "unat (of_nat n :: u16) = n mod 65536"
  by (simp add: unsigned_of_nat take_bit_eq_mod)

lemma u16_le_max: "(x :: u16) \<le> -1"
  by (rule word_n1_ge)

lemma mod_between:
  assumes "a \<le> n" "n \<le> b" "b - a < (65536 :: nat)"
  shows "if b mod 65536 < a mod 65536 then a mod 65536 \<le> n mod 65536 \<or> n mod 65536 \<le> b mod 65536
    else a mod 65536 \<le> n mod 65536 \<and> n mod 65536 \<le> b mod 65536"
proof -
  have d: "a = 65536 * (a div 65536) + a mod 65536" "n = 65536 * (n div 65536) + n mod 65536"
      "b = 65536 * (b div 65536) + b mod 65536" by simp_all
  have m: "a mod 65536 < 65536" "n mod 65536 < 65536" "b mod 65536 < 65536" by simp_all
  have "a div 65536 \<le> n div 65536" "n div 65536 \<le> b div 65536" using assms by (auto intro: div_le_mono)
  moreover have "b div 65536 < a div 65536 + 2" using d m assms by linarith
  ultimately consider "b div 65536 = a div 65536" "n div 65536 = a div 65536"
    | "b div 65536 = a div 65536 + 1" "n div 65536 = a div 65536"
    | "b div 65536 = a div 65536 + 1" "n div 65536 = b div 65536" by linarith
  then show ?thesis
  proof cases
    case 1
    with d assms have "a mod 65536 \<le> n mod 65536" "n mod 65536 \<le> b mod 65536" by linarith+
    then show ?thesis by auto
  next
    case 2
    with d assms have "b mod 65536 < a mod 65536" "a mod 65536 \<le> n mod 65536" by linarith+
    then show ?thesis by auto
  next
    case 3
    with d assms have "b mod 65536 < a mod 65536" "n mod 65536 \<le> b mod 65536" by linarith+
    then show ?thesis by auto
  qed
qed

lemma close_gap_covers:
  assumes "a \<le> n" "n \<le> b" "b - a < 65536"
  shows "covers (close_gap (of_nat a) (of_nat b)) n"
  using mod_between [OF assms] u16_le_max [of "of_nat n"]
  by (auto simp: covers_def close_gap_def word_less_nat_alt word_le_nat_alt unat_of_nat_u16 split: if_splits)

lemma close_gap_wf: "nacks_wf (close_gap s e)"
  by (auto simp: nacks_wf_def close_gap_def)

lemma close_gap_last: "nk_end (last (close_gap s e)) = e" "close_gap s e \<noteq> []"
  by (auto simp: close_gap_def)

lemma close_gap_length:
  assumes "a \<le> b"
  shows "length (close_gap (of_nat a) (of_nat b)) \<le> 1 + (b div 65536 - a div 65536)"
proof (cases "b mod 65536 < a mod 65536")
  case True
  have "a div 65536 \<noteq> b div 65536"
  proof
    assume "a div 65536 = b div 65536"
    moreover have "a = 65536 * (a div 65536) + a mod 65536" "b = 65536 * (b div 65536) + b mod 65536" by simp_all
    ultimately show False using assms True by linarith
  qed
  then have "a div 65536 < b div 65536" using div_le_mono [OF assms, of 65536] by simp
  then have "1 \<le> b div 65536 - a div 65536" by linarith
  then show ?thesis by (simp add: close_gap_def)
next
  case False
  then show ?thesis by (simp add: close_gap_def word_less_nat_alt unat_of_nat_u16)
qed

section \<open>The scan\<close>

definition missing :: "nat \<Rightarrow> 'a option list \<Rightarrow> nat \<Rightarrow> bool" where
  "missing e recv n = (\<not> (e < n \<and> n - e - 1 < length recv \<and> recv ! (n - e - 1) \<noteq> None))"

definition scan_inv :: "nat \<Rightarrow> DatagramData option list \<Rightarrow> bool \<Rightarrow> u16 \<Rightarrow> nat \<Rightarrow> Nack list \<Rightarrow> bool" where
  "scan_inv e recv gap start j acc =
     (nacks_wf acc \<and>
      (if gap then
         \<exists>g \<le> j. start = of_nat (e + g) \<and> (\<forall>n. e \<le> n \<longrightarrow> n < e + g \<longrightarrow> missing e recv n \<longrightarrow> covers acc n) \<and>
           length acc \<le> 298 + ((e + g) div 65536 - e div 65536)
       else
         acc \<noteq> [] \<and> (\<exists>m < j. nk_end (last acc) = of_nat (e + m) \<and>
           (\<forall>n. e \<le> n \<longrightarrow> n \<le> e + m \<longrightarrow> missing e recv n \<longrightarrow> covers acc n) \<and>
           (\<forall>n. e + m < n \<longrightarrow> n \<le> e + j \<longrightarrow> \<not> missing e recv n) \<and>
           length acc \<le> 298 + ((e + m) div 65536 - e div 65536))))"

lemma scan_inv_close:
  assumes "scan_inv e recv True start j acc" "length acc < 298" "recv ! j = Some d" "j < length recv" "length recv < 65536"
  shows "scan_inv e recv False start (Suc j) (acc @ close_gap start (of_nat e + of_nat j))"
proof -
  obtain g where g: "g \<le> j" "start = of_nat (e + g)" "nacks_wf acc"
      "\<And>n. e \<le> n \<Longrightarrow> n < e + g \<Longrightarrow> missing e recv n \<Longrightarrow> covers acc n"
    using assms(1) by (auto simp: scan_inv_def)
  let ?c = "close_gap (of_nat (e + g)) (of_nat (e + j))"
  have c: "covers ?c n" if "e + g \<le> n" "n \<le> e + j" for n
    using close_gap_covers [of "e + g" n "e + j"] that assms(4,5) by simp
  have "length ?c \<le> 1 + ((e + j) div 65536 - (e + g) div 65536)"
    using g(1) by (intro close_gap_length) simp
  moreover have "e div 65536 \<le> (e + g) div 65536" "(e + g) div 65536 \<le> (e + j) div 65536"
    using g(1) by (auto intro: div_le_mono)
  ultimately have l: "length (acc @ ?c) \<le> 298 + ((e + j) div 65536 - e div 65536)"
    using assms(2) unfolding length_append by linarith
  have "covers (acc @ ?c) n" if "e \<le> n" "n \<le> e + j" "missing e recv n" for n
    using g(4) [of n] c [of n] that by (cases "n < e + g") auto
  moreover have "\<not> missing e recv n" if "e + j < n" "n \<le> e + Suc j" for n
  proof -
    have "n = e + j + 1" using that by simp
    then show ?thesis using assms(3,4) by (simp add: missing_def)
  qed
  moreover have "nacks_wf (acc @ ?c)" using g(3) close_gap_wf by simp
  moreover have "nk_end (last (acc @ ?c)) = of_nat (e + j)" using close_gap_last by simp
  ultimately show ?thesis
    using l close_gap_last(2) [of "of_nat (e + g)" "of_nat (e + j)"]
    unfolding scan_inv_def g(2) by (auto intro!: exI [of _ j])
qed

lemma scan_inv_hole:
  assumes "scan_inv e recv False start j acc"
  shows "scan_inv e recv True (of_nat e + of_nat j + 1) (Suc j) acc"
proof -
  obtain m where m: "m < j" "nacks_wf acc"
      "\<And>n. e \<le> n \<Longrightarrow> n \<le> e + m \<Longrightarrow> missing e recv n \<Longrightarrow> covers acc n"
      "\<And>n. e + m < n \<Longrightarrow> n \<le> e + j \<Longrightarrow> \<not> missing e recv n"
      "length acc \<le> 298 + ((e + m) div 65536 - e div 65536)"
    using assms by (auto simp: scan_inv_def)
  have "covers acc n" if "e \<le> n" "n < e + Suc j" "missing e recv n" for n
    using m(3) [of n] m(4) [of n] that by (cases "n \<le> e + m") auto
  moreover have "(e + m) div 65536 \<le> (e + Suc j) div 65536" using m(1) by (intro div_le_mono) simp
  ultimately show ?thesis
    using m(2,5) by (auto simp: scan_inv_def intro!: exI [of _ "Suc j"])
qed

lemma scan_inv_skip:
  assumes "scan_inv e recv False start j acc" "recv ! j = Some d" "j < length recv"
  shows "scan_inv e recv False start (Suc j) acc"
proof -
  obtain m where m: "m < j" "nacks_wf acc" "acc \<noteq> []" "nk_end (last acc) = of_nat (e + m)"
      "\<And>n. e \<le> n \<Longrightarrow> n \<le> e + m \<Longrightarrow> missing e recv n \<Longrightarrow> covers acc n"
      "\<And>n. e + m < n \<Longrightarrow> n \<le> e + j \<Longrightarrow> \<not> missing e recv n"
      "length acc \<le> 298 + ((e + m) div 65536 - e div 65536)"
    using assms(1) by (auto simp: scan_inv_def)
  have "\<not> missing e recv n" if "e + m < n" "n \<le> e + Suc j" for n
    using m(6) [of n] assms(2,3) that by (cases "n = e + Suc j") (auto simp: missing_def)
  with m show ?thesis by (auto simp: scan_inv_def intro!: exI [of _ m])
qed

lemma ack_scan_inv:
  assumes "recv \<noteq> []" "last recv \<noteq> None" "length recv < 65536"
    and "scan_inv e recv gap start j acc" "drop j recv = rs" "rs = [] \<Longrightarrow> \<not> gap" "j \<le> length recv"
    and "ack_scan (of_nat e) gap start j rs acc = (acc', start', atEnd)"
  shows "if atEnd then scan_inv e recv False start' (length recv) acc'
    else \<exists>j' < length recv. scan_inv e recv True start' j' acc'"
  using assms(4-)
proof (induction rs arbitrary: gap start j acc)
  case Nil
  then show ?case by (cases gap) auto
next
  case (Cons x rs)
  have j: "j < length recv" "recv ! j = x" "drop (Suc j) recv = rs"
    using Cons.prems(2) by (auto simp: drop_Suc_tl nth_via_drop intro: ccontr)
  have ne: "rs \<noteq> []" if "x = None"
  proof
    assume "rs = []"
    then have "last recv = x" using Cons.prems(2) by (metis append_take_drop_id last_appendR last_ConsL list.discI)
    with that assms(2) show False by simp
  qed
  show ?case
  proof (cases gap)
    case True
    show ?thesis
    proof (cases "298 \<le> length acc")
      case long: True
      then show ?thesis using Cons.prems True j by (auto simp: EQ_RSP_MAX_NACKS_def)
    next
      case short: False
      show ?thesis
      proof (cases x)
        case None
        have "scan_inv e recv True start (Suc j) acc"
          using Cons.prems(1) True by (auto simp: scan_inv_def intro: le_SucI)
        then show ?thesis using Cons.IH [of True start "Suc j" acc] Cons.prems True short None ne j
          by (auto simp: EQ_RSP_MAX_NACKS_def)
      next
        case (Some d)
        have "scan_inv e recv False start (Suc j) (acc @ close_gap start (of_nat e + of_nat j))"
          using Cons.prems(1) True short Some j assms(3) by (intro scan_inv_close) auto
        then show ?thesis
          using Cons.IH [of False start "Suc j"] Cons.prems True short Some j by (auto simp: EQ_RSP_MAX_NACKS_def)
      qed
    qed
  next
    case False
    show ?thesis
    proof (cases x)
      case None
      then show ?thesis
        using Cons.IH [OF scan_inv_hole [of e recv start j acc]] Cons.prems False ne j by auto
    next
      case (Some d)
      then show ?thesis
        using Cons.IH [OF scan_inv_skip [of e recv start j acc d]] Cons.prems False j by auto
    qed
  qed
qed

section \<open>The answer to an acknowledge request\<close>

lemma nacks_finish:
  assumes "nacks_wf acc" "a \<le> q" "q - a < 65536"
    and "\<And>n. e \<le> n \<Longrightarrow> n < a \<Longrightarrow> missing e recv n \<Longrightarrow> covers acc n"
    and "length acc \<le> 298 + (a div 65536 - e div 65536)" "e \<le> a" "q - e < 65536"
    and ns: "ns = acc @ close_gap (of_nat a) (of_nat q)"
  shows "nacks_wf ns \<and> (\<forall>n. e \<le> n \<longrightarrow> n \<le> q \<longrightarrow> missing e recv n \<longrightarrow> covers ns n) \<and> length ns \<le> EQ_RSP_MAX_NACKS"
proof (intro conjI allI impI)
  show "nacks_wf ns" using assms(1) close_gap_wf by (simp add: ns)
  show "covers ns n" if "e \<le> n" "n \<le> q" "missing e recv n" for n
    using assms(3,4) that close_gap_covers [of a n q] by (cases "n < a") (auto simp: ns)
  have "length (close_gap (of_nat a) (of_nat q)) \<le> 1 + (q div 65536 - a div 65536)"
    using assms(2) by (rule close_gap_length)
  moreover have "e div 65536 \<le> a div 65536" "a div 65536 \<le> q div 65536" using assms(2,6) by (auto intro: div_le_mono)
  moreover have "q div 65536 \<le> e div 65536 + 1"
  proof -
    have "q \<le> e + 65536" using assms(7) by linarith
    then have "q div 65536 \<le> (e + 65536) div 65536" by (rule div_le_mono)
    then show ?thesis by simp
  qed
  ultimately show "length ns \<le> EQ_RSP_MAX_NACKS" 
    using assms(5) unfolding ns EQ_RSP_MAX_NACKS_def length_append by linarith
qed



end
