(* ===== verification/Rsp_Writer.thy ===== *)
theory Rsp_Writer
  imports Rsp_Nack
begin

text \<open>
  The writer side of RSP. The list \<open>ds\<close> records the datagrams sent for the first time, in
  order; \<open>b\<close> of them are acknowledged by every reader and were handed to the own child. The
  theory shows that the datagrams carry the written bytes, that repeats are exact copies of
  what was requested, and that a buffer is only released when every reader has the datagram.
\<close>

section \<open>The invariant of a writer\<close>

definition writer_inv :: "RSPConfig \<Rightarrow> DatagramData list \<Rightarrow> nat \<Rightarrow> RSPConnection \<Rightarrow> bool" where
  "writer_inv cfg ds b c =
     (b \<le> length ds \<and> rc_sequence c = of_nat (length ds) \<and> rc_writeBuffers c = drop b ds \<and>
      (\<forall>i < length ds. dg_sequence (ds ! i) = of_nat i) \<and>
      length (rc_threadBuffers c) + length (filter (\<lambda>x. x \<noteq> None) (rc_appBuffers c)) + length (rc_writeBuffers c) =
        unat (cfg_numBuffers cfg) \<and>
      (\<exists>self. findConnection (rc_id c) c = Some self \<and> ch_sequence self = of_nat b \<and> ch_acked self = of_nat b - 1))"

lemma writer_inv_cong:
  assumes "rc_id c' = rc_id c" "rc_children c' = rc_children c" "rc_sequence c' = rc_sequence c"
    and "rc_writeBuffers c' = rc_writeBuffers c" "rc_threadBuffers c' = rc_threadBuffers c" "rc_appBuffers c' = rc_appBuffers c"
  shows "writer_inv cfg ds b c' = writer_inv cfg ds b c"
  using assms by (simp add: writer_inv_def findConnection_def)

lemma find_set_child:
  "find_child i cs = Some ch \<Longrightarrow> ch_id ch' = i \<Longrightarrow> find_child i (set_child i ch' cs) = Some ch'"
  by (induction cs) (auto split: if_splits)

lemma find_set_child_other:
  "ch_id ch' = i \<Longrightarrow> i \<noteq> j \<Longrightarrow> find_child j (set_child i ch' cs) = find_child j cs"
  by (induction cs) auto

lemma find_child_id: "find_child i cs = Some ch \<Longrightarrow> ch_id ch = i"
  by (induction cs) (auto split: if_splits)

lemma find_child_mem: "find_child i cs = Some ch \<Longrightarrow> ch \<in> set cs"
  by (induction cs) (auto split: if_splits)

lemma writer_inv_le: "writer_inv cfg ds b c \<Longrightarrow> b \<le> length ds"
  by (simp add: writer_inv_def)

lemma writer_pending: "writer_inv cfg ds b c \<Longrightarrow> length ds - b \<le> unat (cfg_numBuffers cfg)"
  by (auto simp: writer_inv_def)

lemma finishWriteQueue_ok:
  assumes "writer_inv cfg ds b c" "findConnection (rc_id c) c = Some self" "b \<le> m" "m \<le> length ds"
    and "m - b \<le> ch_threadBuffers self"
  defines "self' \<equiv> self\<lparr>ch_threadBuffers := ch_threadBuffers self - (m - b),
      ch_appBuffers := ch_appBuffers self @ map Some (take (m - b) (drop b ds)),
      ch_sequence := of_nat m, ch_acked := of_nat m - 1, ch_event := ch_event self \<or> b < m\<rparr>"
  shows "finishWriteQueue (of_nat m - 1) c = Some (c\<lparr>rc_writeBuffers := drop m ds,
      rc_appBuffers := rc_appBuffers c @ replicate (m - b) (Some ()),
      rc_children := set_child (rc_id c) self' (rc_children c), rc_timeouts := 0\<rparr>)"
    and "writer_inv cfg ds m (c\<lparr>rc_writeBuffers := drop m ds,
      rc_appBuffers := rc_appBuffers c @ replicate (m - b) (Some ()),
      rc_children := set_child (rc_id c) self' (rc_children c), rc_timeouts := 0\<rparr>)"
proof -
  have inv: "rc_sequence c = of_nat (length ds)" "rc_writeBuffers c = drop b ds" "ch_sequence self = of_nat b"
    using assms(1,2) by (auto simp: writer_inv_def)
  have "length ds - m < 2 ^ 16"
    using writer_pending [OF assms(1)] unsigned_less [of "cfg_numBuffers cfg", where 'a = nat] assms(3) by simp
  then have "unat (of_nat (length ds) - (of_nat m - 1) - 1 :: u16) = length ds - m"
    using unat_diff_u16 [OF assms(4)] by (simp add: algebra_simps)
  moreover have "length ds - b - (length ds - m) = m - b" using assms(3,4) by simp
  moreover have "of_nat b + of_nat (m - b) = (of_nat m :: u16)" using assms(3) by (metis le_add_diff_inverse of_nat_add)
  moreover have "drop (m - b) (drop b ds) = drop m ds" using assms(3) by simp
  ultimately show "finishWriteQueue (of_nat m - 1) c = Some (c\<lparr>rc_writeBuffers := drop m ds,
      rc_appBuffers := rc_appBuffers c @ replicate (m - b) (Some ()),
      rc_children := set_child (rc_id c) self' (rc_children c), rc_timeouts := 0\<rparr>)"
    using assms(2,3,5) by (simp add: finishWriteQueue_def inv self'_def Let_def)
  show "writer_inv cfg ds m (c\<lparr>rc_writeBuffers := drop m ds,
      rc_appBuffers := rc_appBuffers c @ replicate (m - b) (Some ()),
      rc_children := set_child (rc_id c) self' (rc_children c), rc_timeouts := 0\<rparr>)"
    using assms(1-4) find_child_id [of "rc_id c" "rc_children c" self]
      find_set_child [of "rc_id c" "rc_children c" self self']
    by (auto simp: writer_inv_def findConnection_def self'_def)
qed

text \<open>Whatever sequence number is acknowledged, the queue stays consistent.\<close>

lemma finishWriteQueue_inv:
  assumes "writer_inv cfg ds b c" "findConnection (rc_id c) c = Some self" "2 * unat (cfg_numBuffers cfg) < 2 ^ 16"
    and "acked - ch_acked self \<le> cfg_numBuffers cfg" "finishWriteQueue acked c = Some c'"
  shows "\<exists>m \<ge> b. m \<le> length ds \<and> writer_inv cfg ds m c' \<and> rc_sent c' = rc_sent c \<and>
    rc_threadBuffers c' = rc_threadBuffers c \<and> rc_repeatQueue c' = rc_repeatQueue c"
proof -
  define k where "k = unat (acked - ch_acked self)"
  have k: "k \<le> unat (cfg_numBuffers cfg)" using assms(4) by (simp add: k_def word_le_nat_alt)
  have self: "ch_sequence self = of_nat b" "ch_acked self = of_nat b - 1"
    using assms(1,2) by (auto simp: writer_inv_def)
  have "acked = ch_acked self + of_nat k" by (simp add: k_def)
  then have acked: "acked = of_nat (b + k) - 1" by (simp add: self(2) algebra_simps)
  show ?thesis
  proof (cases "b + k \<le> length ds")
    case True
    have "k \<le> ch_threadBuffers self"
    proof (rule ccontr)
      assume "\<not> k \<le> ch_threadBuffers self"
      have inv: "rc_sequence c = of_nat (length ds)" "rc_writeBuffers c = drop b ds"
        using assms(1) by (auto simp: writer_inv_def)
      have "length ds - (b + k) < 2 ^ 16"
        using writer_pending [OF assms(1)] unsigned_less [of "cfg_numBuffers cfg", where 'a = nat] by simp
      then have "unat (of_nat (length ds) - (of_nat (b + k) - 1) - 1 :: u16) = length ds - (b + k)"
        using unat_diff_u16 [OF True] by (simp add: algebra_simps)
      with \<open>\<not> k \<le> ch_threadBuffers self\<close> True have "finishWriteQueue acked c = None"
        using assms(2) by (simp add: finishWriteQueue_def inv acked Let_def)
      with assms(5) show False by simp
    qed
    with finishWriteQueue_ok [OF assms(1,2), of "b + k"] True assms(5) acked show ?thesis
      by (intro exI [of _ "b + k"]) auto
  next
    case False
    define sz where "sz = unat (of_nat (length ds) - acked - 1 :: u16)"
    have inv: "rc_sequence c = of_nat (length ds)" "rc_writeBuffers c = drop b ds"
      using assms(1) by (auto simp: writer_inv_def)
    have d: "(b + k) - length ds < 2 ^ 16" "(b + k) - length ds \<le> unat (cfg_numBuffers cfg)"
      using k assms(1,3) by (auto simp: writer_inv_def)
    have "sz = 2 ^ 16 - ((b + k) - length ds)"
      using unat_diff_u16_neg [of "length ds" "b + k"] False d by (simp add: sz_def acked algebra_simps)
    then have "length ds - b - sz = 0" using d assms(3) writer_pending [OF assms(1)] by simp
    then have c': "c' = c\<lparr>rc_writeBuffers := drop b ds, rc_children := set_child (rc_id c)
        (self\<lparr>ch_sequence := of_nat b, ch_acked := of_nat b - 1\<rparr>) (rc_children c), rc_timeouts := 0\<rparr>"
      using assms(2,5) self by (auto simp: finishWriteQueue_def inv sz_def Let_def)
    have "self\<lparr>ch_sequence := of_nat b, ch_acked := of_nat b - 1\<rparr> = self"
      by (rule Child.equality) (simp_all add: self)
    note c' = c' [unfolded this]
    have "writer_inv cfg ds b c'"
      using assms(1,2) find_child_id [of "rc_id c" "rc_children c" self] find_set_child [of "rc_id c" "rc_children c" self self]
      by (auto simp: writer_inv_def c' findConnection_def)
    then show ?thesis using assms(1) by (intro exI [of _ b]) (auto simp: c' writer_inv_def)
  qed
qed

section \<open>Sending\<close>

definition payload_bytes :: "DatagramData list \<Rightarrow> u8 list" where
  "payload_bytes ds = concat (map dg_payload ds)"

lemma payload_bytes_simps [simp]: "payload_bytes [] = []" "payload_bytes (d # ds) = dg_payload d @ payload_bytes ds"
    "payload_bytes (xs @ ys) = payload_bytes xs @ payload_bytes ys"
  by (simp_all add: payload_bytes_def)

lemma merge_writes_spec:
  "merge_writes p d ds = (d', rest, n) \<Longrightarrow>
     dg_payload d' @ payload_bytes rest = dg_payload d @ payload_bytes ds \<and> n + length rest = length ds \<and>
     dg_sequence d' = dg_sequence d \<and> dg_writerID d' = dg_writerID d \<and>
     (length (dg_payload d) \<le> p \<longrightarrow> length (dg_payload d') \<le> p) \<and> set rest \<subseteq> set ds"
proof (induction p d ds arbitrary: d' rest n rule: merge_writes.induct)
  case (2 p d d2 ds)
  show ?case
  proof (cases "length (dg_payload d) < p \<and> length (dg_payload d) + length (dg_payload d2) \<le> p")
    case True
    obtain e r k where m: "merge_writes p (d\<lparr>dg_payload := dg_payload d @ dg_payload d2\<rparr>) ds = (e, r, k)"
      by (cases "merge_writes p (d\<lparr>dg_payload := dg_payload d @ dg_payload d2\<rparr>) ds") auto
    with True 2(2) have "d' = e" "rest = r" "n = Suc k" by auto
    with 2(1) [OF True m] True show ?thesis by auto
  qed (use 2(2) in auto)
qed simp

lemma send_simps [simp]: "rc_sent (send p c) = rc_sent c @ [p]" "rc_children (send p c) = rc_children c"
    "rc_id (send p c) = rc_id c" "rc_sequence (send p c) = rc_sequence c" "rc_writeBuffers (send p c) = rc_writeBuffers c"
    "rc_threadBuffers (send p c) = rc_threadBuffers c" "rc_appBuffers (send p c) = rc_appBuffers c"
    "rc_repeatQueue (send p c) = rc_repeatQueue c" "rc_state (send p c) = rc_state c"
  by (simp_all add: send_def)

lemma waitWritable_simps [simp]: "rc_sent (waitWritable cfg c) = rc_sent c" "rc_children (waitWritable cfg c) = rc_children c"
    "rc_id (waitWritable cfg c) = rc_id c" "rc_sequence (waitWritable cfg c) = rc_sequence c"
    "rc_writeBuffers (waitWritable cfg c) = rc_writeBuffers c" "rc_threadBuffers (waitWritable cfg c) = rc_threadBuffers c"
    "rc_appBuffers (waitWritable cfg c) = rc_appBuffers c" "rc_repeatQueue (waitWritable cfg c) = rc_repeatQueue c"
    "rc_state (waitWritable cfg c) = rc_state c"
  by (simp_all add: waitWritable_def)

text \<open>
  One call of \<open>_writeData\<close>: the next datagram gets the next sequence number and carries the
  front of the queued bytes; when no other connection exists it is delivered at once.
\<close>

lemma writeData_inv:
  assumes inv: "writer_inv cfg ds b c" and nb: "2 * unat (cfg_numBuffers cfg) < 2 ^ 16"
    and ne: "rc_threadBuffers c \<noteq> []" and w: "writeData cfg c = Some c'"
  shows "\<exists>d b'. b' \<ge> b \<and> writer_inv cfg (ds @ [d]) b' c' \<and> rc_sent c' = rc_sent c @ [DATA d] \<and>
    dg_payload d @ payload_bytes (rc_threadBuffers c') = payload_bytes (rc_threadBuffers c) \<and>
    rc_repeatQueue c' = rc_repeatQueue c \<and> set (rc_threadBuffers c') \<subseteq> set (rc_threadBuffers c) \<and>
    (length (dg_payload (hd (rc_threadBuffers c))) \<le> cfg_payloadSize cfg \<longrightarrow> length (dg_payload d) \<le> cfg_payloadSize cfg)"
proof -
  obtain q qs where q: "rc_threadBuffers c = q # qs" using ne by (cases "rc_threadBuffers c") auto
  obtain d rest n where m: "merge_writes (cfg_payloadSize cfg) (q\<lparr>dg_sequence := rc_sequence c\<rparr>) qs = (d, rest, n)"
    by (cases "merge_writes (cfg_payloadSize cfg) (q\<lparr>dg_sequence := rc_sequence c\<rparr>) qs") auto
  note ms = merge_writes_spec [OF m]
  define c3 where "c3 = (let c1 = c\<lparr>rc_timeouts := 0, rc_sequence := rc_sequence c + 1, rc_threadBuffers := rest,
      rc_appBuffers := rc_appBuffers c @ replicate n (Some ())\<rparr>; c2 = send (DATA d) (waitWritable cfg c1)
    in c2\<lparr>rc_writeBuffers := rc_writeBuffers c2 @ [d]\<rparr>)"
  have w': "(if length (rc_children c3) = 1 then finishWriteQueue (rc_sequence c3 - 1) c3 else Some c3) = Some c'"
    using w by (auto simp: writeData_def q m c3_def Let_def)
  have c3: "rc_sequence c3 = rc_sequence c + 1" "rc_writeBuffers c3 = rc_writeBuffers c @ [d]" "rc_threadBuffers c3 = rest"
      "rc_appBuffers c3 = rc_appBuffers c @ replicate n (Some ())" "rc_children c3 = rc_children c" "rc_id c3 = rc_id c"
      "rc_sent c3 = rc_sent c @ [DATA d]" "rc_repeatQueue c3 = rc_repeatQueue c"
    by (simp_all add: c3_def Let_def)
  have inv3: "writer_inv cfg (ds @ [d]) b c3"
    using inv ms q by (auto simp: writer_inv_def c3 findConnection_def nth_append less_Suc_eq)
  obtain self where self: "findConnection (rc_id c3) c3 = Some self" using inv3 by (auto simp: writer_inv_def)
  obtain b' where "b \<le> b'" "writer_inv cfg (ds @ [d]) b' c'" "rc_sent c' = rc_sent c3"
      "rc_threadBuffers c' = rc_threadBuffers c3" "rc_repeatQueue c' = rc_repeatQueue c3"
  proof -
    have "\<exists>b' \<ge> b. writer_inv cfg (ds @ [d]) b' c' \<and> rc_sent c' = rc_sent c3 \<and>
      rc_threadBuffers c' = rc_threadBuffers c3 \<and> rc_repeatQueue c' = rc_repeatQueue c3"
  proof (cases "length (rc_children c3) = 1")
    case True
    have "ch_acked self = of_nat b - 1" using inv3 self by (auto simp: writer_inv_def)
    moreover have "rc_sequence c3 = of_nat (length (ds @ [d]))" using inv3 by (simp add: writer_inv_def)
    ultimately have "rc_sequence c3 - 1 - ch_acked self = of_nat (length (ds @ [d])) - of_nat b" by (simp only:) simp
    moreover have "b \<le> length (ds @ [d])" "length (ds @ [d]) - b < 2 ^ 16"
      using writer_pending [OF inv3] nb inv3 by (simp_all only: writer_inv_def)
    ultimately have "unat (rc_sequence c3 - 1 - ch_acked self) = length (ds @ [d]) - b"
      using unat_diff_u16 [of b "length (ds @ [d])"] by (simp only:)
    then have "rc_sequence c3 - 1 - ch_acked self \<le> cfg_numBuffers cfg"
      using writer_pending [OF inv3] by (simp add: word_le_nat_alt)
    with finishWriteQueue_inv [OF inv3 self nb] w' True show ?thesis by auto
  next
    case False
    with w' inv3 show ?thesis by (intro exI [of _ b]) simp
  qed
  then show ?thesis using that by blast
  qed
  then show ?thesis using ms q c3 by (intro exI [of _ d] exI [of _ b']) auto
qed

section \<open>Repeating\<close>

text \<open>A repeat sends the datagram with the sequence number that was asked for.\<close>

lemma repeat_loop_inv:
  assumes "writer_inv cfg ds b c" "2 * unat (cfg_numBuffers cfg) < 2 ^ 16" "repeat_loop cfg q c = Some c'"
  shows "writer_inv cfg ds b c' \<and> rc_threadBuffers c' = rc_threadBuffers c \<and>
    (rc_sent c' = rc_sent c \<or> (\<exists>i. b \<le> i \<and> i < length ds \<and> rc_sent c' = rc_sent c @ [DATA (ds ! i)]))"
  using assms
proof (induction cfg q c rule: repeat_loop.induct)
  case (1 cfg c)
  then show ?case by (auto simp: writer_inv_def findConnection_def)
next
  case (2 cfg request rest c)
  let ?dist = "unat (rc_sequence c - nk_start request)"
  let ?q = "if nk_start request = nk_end request then rest else request\<lparr>nk_start := nk_start request + 1\<rparr> # rest"
  have nz: "?dist \<noteq> 0" using 2(4) by (intro notI) (simp add: Let_def)
  have wb: "rc_writeBuffers c = drop b ds" using 2(2) by (simp add: writer_inv_def)
  show ?case
  proof (cases "?dist \<le> length (rc_writeBuffers c)")
    case True
    then have c': "c' = (send (DATA (drop b ds ! (length (drop b ds) - ?dist))) (waitWritable cfg c))\<lparr>rc_repeatQueue := ?q\<rparr>"
      using 2(4) nz wb by (simp add: Let_def)
    have b: "b \<le> length ds" using 2(2) by (simp add: writer_inv_def)
    then have bd: "b + (length ds - b - ?dist) = length ds - ?dist" using True wb by simp
    then have "drop b ds ! (length (drop b ds) - ?dist) = ds ! (length ds - ?dist)"
      using nth_drop [OF b, of "length ds - b - ?dist"] by simp
    moreover have "b \<le> length ds - ?dist" using bd by linarith
    moreover have "writer_inv cfg ds b c'"
      using 2(2) by (subst writer_inv_cong [of c' c]) (simp_all add: c')
    ultimately show ?thesis using nz True wb
      by (auto simp: c' intro!: exI [of _ "length ds - ?dist"])
  next
    case False
    then show ?thesis using 2 nz by (simp add: Let_def)
  qed
qed

section \<open>Acknowledgements\<close>

lemma handleAck_inv:
  assumes inv: "writer_inv cfg ds b c" and nb: "2 * unat (cfg_numBuffers cfg) < 2 ^ 16"
    and r: "readerID \<noteq> rc_id c" and h: "handleAck cfg readerID writerID sequence c = Some (ok, c')"
  shows "\<exists>m \<ge> b. m \<le> length ds \<and> writer_inv cfg ds m c' \<and> rc_sent c' = rc_sent c \<and>
    rc_threadBuffers c' = rc_threadBuffers c"
proof (cases "c' = c")
  case True
  then show ?thesis using inv writer_inv_le [OF inv] by (intro exI [of _ b]) simp
next
  case False
  obtain ch where ch: "findConnection readerID c = Some ch"
    using h False by (auto simp: handleAck_def split: if_splits option.splits)
  define c1 where "c1 = c\<lparr>rc_children := set_child readerID (ch\<lparr>ch_acked := sequence\<rparr>) (rc_children c), rc_timeouts := 0\<rparr>"
  obtain acked where acked: "acked = fold (\<lambda>child acked. if ch_id child = rc_id c then acked
        else if cfg_numBuffers cfg < ch_acked child - acked then ch_acked child else acked) (rc_children c1) sequence" by simp
  obtain self where self: "findConnection (rc_id c) c = Some self" using inv by (auto simp: writer_inv_def)
  have self1: "findConnection (rc_id c1) c1 = Some self"
    using self r find_child_id [of readerID "rc_children c" ch] ch
    by (simp add: c1_def findConnection_def find_set_child_other)
  have inv1: "writer_inv cfg ds b c1" using inv self self1 by (auto simp: writer_inv_def c1_def)
  have c': "(if acked - ch_acked self \<le> cfg_numBuffers cfg then map_option (Pair True) (finishWriteQueue acked c1)
      else Some (True, c1)) = Some (ok, c')"
    using h False ch self1 acked
    by (auto simp: handleAck_def c1_def Let_def split: if_splits option.splits)
  show ?thesis
  proof (cases "acked - ch_acked self \<le> cfg_numBuffers cfg")
    case True
    then have "finishWriteQueue acked c1 = Some c'" using c' by auto
    from finishWriteQueue_inv [OF inv1 self1 nb True this] show ?thesis by (auto simp: c1_def)
  next
    case False
    then show ?thesis using c' inv1 writer_inv_le [OF inv] by (intro exI [of _ b]) (auto simp: c1_def)
  qed
qed

text \<open>
  The smallest acknowledgement of all readers. Acknowledgements are compared by the distance
  of their sequence numbers, which is right while they are at most \<open>numBuffers\<close> apart.
\<close>

lemma acked_step:
  fixes n :: u16
  assumes "x \<le> y + nb" "y \<le> x + nb" "2 * nb < 2 ^ 16" "unat n = nb"
  shows "(if n < (of_nat y - 1) - (of_nat x - 1) then of_nat y - 1 else of_nat x - 1 :: u16) = of_nat (min x y) - 1"
proof (cases "x \<le> y")
  case True
  then have "unat (of_nat y - of_nat x :: u16) = y - x" using assms by (intro unat_diff_u16) auto
  then have "\<not> n < of_nat y - (of_nat x :: u16)" using assms True unfolding word_less_nat_alt by linarith
  with True show ?thesis by (simp add: min_def)
next
  case False
  then have "unat (of_nat y - of_nat x :: u16) = 2 ^ 16 - (x - y)" using assms by (intro unat_diff_u16_neg) auto
  with False assms have "n < of_nat y - (of_nat x :: u16)" by (simp add: word_less_nat_alt)
  with False show ?thesis by (simp add: min_def)
qed

lemma acked_fold:
  assumes "2 * unat n < 2 ^ 16" "\<And>ch. ch \<in> set cs \<Longrightarrow> ch_id ch \<noteq> i \<Longrightarrow> ch_acked ch = of_nat (A ch) - 1"
    and "\<And>ch. ch \<in> set cs \<Longrightarrow> ch_id ch \<noteq> i \<Longrightarrow> lo \<le> A ch \<and> A ch \<le> lo + unat n" "lo \<le> a" "a \<le> lo + unat n"
  shows "fold (\<lambda>child acked. if ch_id child = i then acked
      else if n < ch_acked child - acked then ch_acked child else acked) cs (of_nat a - 1) =
    of_nat (Min (insert a (A ` {ch \<in> set cs. ch_id ch \<noteq> i}))) - 1"
  using assms
proof (induction cs arbitrary: a)
  case (Cons ch cs)
  show ?case
  proof (cases "ch_id ch = i")
    case True
    then have "{x \<in> set (ch # cs). ch_id x \<noteq> i} = {x \<in> set cs. ch_id x \<noteq> i}" by auto
    with True Cons show ?thesis by simp
  next
    case False
    have A: "ch_acked ch = of_nat (A ch) - 1" "lo \<le> A ch" "A ch \<le> lo + unat n" using Cons.prems False by auto
    have "insert a (A ` {x \<in> set (ch # cs). ch_id x \<noteq> i}) = insert a (insert (A ch) (A ` {x \<in> set cs. ch_id x \<noteq> i}))"
      using False by auto
    moreover have "Min (insert a (insert (A ch) S)) = Min (insert (min a (A ch)) S)" if "finite S" for S
      using that by (cases "S = {}") (simp_all add: min.assoc)
    moreover have "(if n < ch_acked ch - (of_nat a - 1) then ch_acked ch else of_nat a - 1) = of_nat (min a (A ch)) - 1"
      unfolding A(1) using A Cons.prems by (intro acked_step [where nb = "unat n"]) auto
    ultimately show ?thesis
      using Cons.IH [of "min a (A ch)"] Cons.prems A False by simp
  qed
qed simp

lemma set_set_child:
  assumes "distinct (map ch_id cs)" "find_child i cs = Some ch" "ch_id ch' = i"
  shows "set (set_child i ch' cs) = insert ch' {x \<in> set cs. ch_id x \<noteq> i}"
  using assms
proof (induction cs)
  case (Cons x xs)
  show ?case
  proof (cases "ch_id x = i")
    case True
    have "ch_id y \<noteq> i" if "y \<in> set xs" for y using Cons.prems(1) True that by (auto simp: image_iff)
    then have "{y \<in> set (x # xs). ch_id y \<noteq> i} = set xs" using True by auto
    then show ?thesis using True by simp
  next
    case False
    then have "set (set_child i ch' xs) = insert ch' {y \<in> set xs. ch_id y \<noteq> i}" using Cons by simp
    then show ?thesis using False by auto
  qed
qed simp

lemma not_late:
  assumes "x < a" "a \<le> x + unat (n :: u16)" "2 * unat n < 2 ^ 16"
  shows "\<not> ((of_nat a - 1 :: u16) \<le> of_nat x - 1 \<and> unat (of_nat x - 1 :: u16) - unat (of_nat a - 1 :: u16) \<le> unat n)"
proof
  assume late: "(of_nat a - 1 :: u16) \<le> of_nat x - 1 \<and> unat (of_nat x - 1 :: u16) - unat (of_nat a - 1 :: u16) \<le> unat n"
  then have "unat (of_nat x - 1 :: u16) - unat (of_nat a - 1 :: u16) = unat ((of_nat x - 1) - (of_nat a - 1) :: u16)"
    by (subst unat_sub) auto
  also have "(of_nat x - 1) - (of_nat a - 1) = (of_nat x - of_nat a :: u16)" by simp
  also have "unat (of_nat x - of_nat a :: u16) = 2 ^ 16 - (a - x)" using assms by (intro unat_diff_u16_neg) auto
  finally show False using late assms by linarith
qed

text \<open>C32. A buffer is released exactly when every reader has acknowledged its datagram: when
  reader \<open>r\<close> acknowledges datagrams up to \<open>a\<close>, the writer advances to the smallest count
  acknowledged by any of its readers, keeps the datagrams after it for repeats, and hands
  those before it to its own child.\<close>

theorem ack_releases_minimum:
  assumes inv: "writer_inv cfg ds b c" and nb: "2 * unat (cfg_numBuffers cfg) < 2 ^ 16"
    and dist: "distinct (map ch_id (rc_children c))"
    and r: "findConnection r c = Some ch" "r \<noteq> rc_id c"
    and peers: "\<And>x. x \<in> set (rc_children c) \<Longrightarrow> ch_id x \<noteq> rc_id c \<Longrightarrow>
      ch_acked x = of_nat (A (ch_id x)) - 1 \<and> b \<le> A (ch_id x) \<and> A (ch_id x) \<le> length ds"
    and a: "A r < a" "a \<le> length ds"
    and self: "findConnection (rc_id c) c = Some self" "length ds - b \<le> ch_threadBuffers self"
  shows "\<exists>c'. handleAck cfg r (rc_id c) (of_nat a - 1) c = Some (True, c') \<and>
    (let m = Min (insert a (A ` {i \<in> ch_id ` set (rc_children c). i \<noteq> rc_id c \<and> i \<noteq> r}))
     in b \<le> m \<and> writer_inv cfg ds m c' \<and> rc_writeBuffers c' = drop m ds \<and>
        map_option ch_appBuffers (findConnection (rc_id c) c') =
          Some (ch_appBuffers self @ map Some (take (m - b) (drop b ds))))"
proof -
  let ?ids = "{i \<in> ch_id ` set (rc_children c). i \<noteq> rc_id c \<and> i \<noteq> r}"
  define m where "m = Min (insert a (A ` ?ids))"
  define ch1 where "ch1 = ch\<lparr>ch_acked := of_nat a - 1\<rparr>"
  define c1 where "c1 = c\<lparr>rc_children := set_child r ch1 (rc_children c), rc_timeouts := 0\<rparr>"
  have chr: "find_child r (rc_children c) = Some ch" "ch_id ch = r" "ch \<in> set (rc_children c)"
    using r find_child_id find_child_mem by (auto simp: findConnection_def)
  have Ar: "ch_acked ch = of_nat (A r) - 1" "b \<le> A r" "A r \<le> length ds"
    using peers [OF chr(3)] chr(2) r(2) by auto
  have pend: "length ds - b \<le> unat (cfg_numBuffers cfg)" by (rule writer_pending [OF inv])
  have children1: "set (rc_children c1) = insert ch1 {x \<in> set (rc_children c). ch_id x \<noteq> r}"
    using set_set_child [OF dist chr(1), of ch1] chr(2) by (simp add: c1_def ch1_def)
  let ?A = "\<lambda>x. (A(r := a)) (ch_id x)"
  have peers1: "ch_acked x = of_nat (?A x) - 1 \<and> b \<le> ?A x \<and> ?A x \<le> b + unat (cfg_numBuffers cfg)"
    if "x \<in> set (rc_children c1)" "ch_id x \<noteq> rc_id c" for x
    using that peers [of x] a Ar pend chr(2) by (auto simp: children1 ch1_def)
  have "?A ` {x \<in> set (rc_children c1). ch_id x \<noteq> rc_id c} = insert a (A ` ?ids)"
    using r(2) chr(2) by (auto simp: children1 ch1_def image_iff)
  then have acked: "fold (\<lambda>child acked. if ch_id child = rc_id c then acked
      else if cfg_numBuffers cfg < ch_acked child - acked then ch_acked child else acked)
      (rc_children c1) (of_nat a - 1) = of_nat m - 1"
    using acked_fold [OF nb, of "rc_children c1" "rc_id c" ?A b a] peers1 a Ar pend by (simp add: m_def)
  have "b \<le> x" if "x \<in> insert a (A ` ?ids)" for x using that peers a Ar by auto
  then have bm: "b \<le> m" by (simp add: m_def)
  have ma: "m \<le> a" by (simp add: m_def)
  have self1: "findConnection (rc_id c) c1 = Some self"
    using self(1) r(2) chr by (simp add: c1_def ch1_def findConnection_def find_set_child_other)
  have inv1: "writer_inv cfg ds b c1" using inv self(1) self1 by (auto simp: writer_inv_def c1_def)
  have "ch_acked self = of_nat b - 1" using inv self(1) by (auto simp: writer_inv_def)
  then have "of_nat m - 1 - ch_acked self = of_nat m - of_nat b" by simp
  moreover have "unat (of_nat m - of_nat b :: u16) = m - b"
    using bm ma a pend nb by (intro unat_diff_u16) auto
  ultimately have near: "of_nat m - 1 - ch_acked self \<le> cfg_numBuffers cfg"
    using ma a pend unfolding word_le_nat_alt by (simp only:)
  have "\<not> ((of_nat a - 1 :: u16) \<le> ch_acked ch \<and> unat (ch_acked ch) - unat (of_nat a - 1 :: u16) \<le> unat (cfg_numBuffers cfg))"
    unfolding Ar(1) using a Ar pend nb by (intro not_late) auto
  then have "handleAck cfg r (rc_id c) (of_nat a - 1) c = map_option (Pair True) (finishWriteQueue (of_nat m - 1) c1)"
    using r near self1 acked by (auto simp: handleAck_def c1_def ch1_def Let_def)
  then show ?thesis
    using finishWriteQueue_ok [OF inv1, of self m] self1 self(2) bm ma a
      find_set_child [of "rc_id c" "rc_children c1" self]
      find_child_id [of "rc_id c" "rc_children c1" self]
    unfolding m_def [symmetric] Let_def by (auto simp: findConnection_def c1_def)
qed

definition demo_writer :: RSPConnection where
  "demo_writer = \<lparr>rc_id = 1, rc_idAccepted = True, rc_timeouts = 0, rc_state = STATE_LISTENING,
     rc_children = [new_child demo_cfg 1, (new_child demo_cfg 7)\<lparr>ch_acked := 0\<rparr>, new_child demo_cfg 8],
     rc_newChildren = [], rc_removed = [], rc_sequence = 2, rc_threadBuffers = [],
     rc_appBuffers = [Some (), Some ()], rc_writeBuffers = [demo_stream 0, demo_stream 1], rc_repeatQueue = [],
     rc_sendRate = 1000, rc_event = False, rc_timer = None, rc_wakeup = False, rc_running = True, rc_sent = []\<rparr>"

theorem ack_releases_minimum_witness:
  "\<exists>c'. handleAck demo_cfg 8 1 (of_nat 2 - 1) demo_writer = Some (True, c') \<and> rc_writeBuffers c' = [demo_stream 1]"
proof -
  let ?ds = "[demo_stream 0, demo_stream 1]" and ?A = "(\<lambda>_. 0)(7 := 1 :: nat)"
  have inv: "writer_inv demo_cfg ?ds 0 demo_writer"
    by (simp add: writer_inv_def demo_writer_def demo_stream_def demo_cfg_def findConnection_def new_child_def less_Suc_eq all_conj_distrib)
  have "\<exists>c'. handleAck demo_cfg 8 (rc_id demo_writer) (of_nat 2 - 1) demo_writer = Some (True, c') \<and>
    (let m = Min (insert 2 (?A ` {i \<in> ch_id ` set (rc_children demo_writer). i \<noteq> rc_id demo_writer \<and> i \<noteq> 8}))
     in 0 \<le> m \<and> writer_inv demo_cfg ?ds m c' \<and> rc_writeBuffers c' = drop m ?ds \<and>
        map_option ch_appBuffers (findConnection (rc_id demo_writer) c') =
          Some (ch_appBuffers (new_child demo_cfg 1) @ map Some (take (m - 0) (drop 0 ?ds))))"
    by (rule ack_releases_minimum [OF inv, where ch = "new_child demo_cfg 8"])
      (auto simp: demo_writer_def demo_cfg_def findConnection_def new_child_def)
  moreover have "{i \<in> ch_id ` set (rc_children demo_writer). i \<noteq> rc_id demo_writer \<and> i \<noteq> 8} = {7}"
    by (auto simp: demo_writer_def new_child_def)
  ultimately show ?thesis by (auto simp: demo_writer_def)
qed

section \<open>Runs of a writer\<close>

lemma write_loop_inv:
  "write_loop cfg n rest c = Some (True, c') \<Longrightarrow> writer_inv cfg ds b c \<Longrightarrow>
     writer_inv cfg ds b c' \<and> rc_sent c' = rc_sent c \<and>
     payload_bytes (rc_threadBuffers c') = payload_bytes (rc_threadBuffers c) @ take (n * cfg_payloadSize cfg) rest"
proof (induction cfg n rest c rule: write_loop.induct)
  case (2 cfg n rest c)
  then obtain bs where bs: "rc_appBuffers c = Some () # bs" by (auto split: list.splits option.splits)
  let ?c = "c\<lparr>rc_appBuffers := bs, rc_threadBuffers := rc_threadBuffers c @
    [\<lparr>dg_writerID = rc_id c, dg_sequence = 0, dg_payload = take (cfg_payloadSize cfg) rest\<rparr>]\<rparr>"
  have "writer_inv cfg ds b ?c" using 2(3) bs by (auto simp: writer_inv_def findConnection_def)
  moreover have "write_loop cfg n (drop (cfg_payloadSize cfg) rest) ?c = Some (True, c')" using 2(2) bs by simp
  ultimately show ?case using 2(1) [OF bs] by (auto simp: take_add)
qed simp

lemma read_loop_frame:
  "read_loop n got ch = Some (ok, out, ch') \<Longrightarrow>
     ch_id ch' = ch_id ch \<and> ch_sequence ch' = ch_sequence ch \<and> ch_acked ch' = ch_acked ch"
proof (induction "n + 2 * length (ch_appBuffers ch) + (if ch_readBuffer ch = None then 0 else 1)"
    arbitrary: n got ch rule: less_induct)
  case less
  show ?case
  proof (cases "n = 0")
    case True
    then show ?thesis using less.prems by (simp add: read_loop.simps)
  next
    case False
    then show ?thesis using less.prems
      by (subst (asm) read_loop.simps)
        (auto simp: Let_def close_child_def split: if_splits option.splits list.splits dest!: less.hyps [rotated])
  qed
qed

text \<open>
  The states a writer reaches: \<open>written\<close> are the bytes the application has written, \<open>ds\<close> the
  datagrams sent so far. The steps are those of the protocol thread and of the application;
  acknowledgements and repeat requests may carry any numbers.
\<close>

inductive writer_run :: "RSPConfig \<Rightarrow> u8 list \<Rightarrow> DatagramData list \<Rightarrow> RSPConnection \<Rightarrow> bool" for cfg where
  start: "rc_sequence c = 0 \<Longrightarrow> rc_threadBuffers c = [] \<Longrightarrow> rc_writeBuffers c = [] \<Longrightarrow> rc_sent c = [] \<Longrightarrow>
    rc_appBuffers c = replicate (unat (cfg_numBuffers cfg)) (Some ()) \<Longrightarrow>
    findConnection (rc_id c) c = Some (new_child cfg (rc_id c)) \<Longrightarrow> writer_run cfg [] [] c"
| app_write: "writer_run cfg written ds c \<Longrightarrow> rsp_write cfg data c = Some (int (length data), c') \<Longrightarrow>
    writer_run cfg (written @ data) ds c'"
| data: "writer_run cfg written ds c \<Longrightarrow> writeData cfg c = Some c' \<Longrightarrow> rc_sent c' = rc_sent c @ [DATA d] \<Longrightarrow>
    writer_run cfg written (ds @ [d]) c'"
| repeat: "writer_run cfg written ds c \<Longrightarrow> repeatData cfg c = Some c' \<Longrightarrow> writer_run cfg written ds c'"
| ack: "writer_run cfg written ds c \<Longrightarrow> r \<noteq> rc_id c \<Longrightarrow> handleAck cfg r w s c = Some (ok, c') \<Longrightarrow>
    writer_run cfg written ds c'"
| nack: "writer_run cfg written ds c \<Longrightarrow> writer_run cfg written ds (snd (handleNack cfg r w ns c))"
| self_read: "writer_run cfg written ds c \<Longrightarrow> findConnection (rc_id c) c = Some ch \<Longrightarrow>
    readSync n ch = Some (k, bytes, ch') \<Longrightarrow>
    writer_run cfg written ds (c\<lparr>rc_children := set_child (rc_id c) ch' (rc_children c)\<rparr>)"

definition wrun_inv :: "RSPConfig \<Rightarrow> u8 list \<Rightarrow> DatagramData list \<Rightarrow> RSPConnection \<Rightarrow> bool" where
  "wrun_inv cfg written ds c =
     ((\<exists>b. writer_inv cfg ds b c) \<and> payload_bytes ds @ payload_bytes (rc_threadBuffers c) = written \<and>
      (\<forall>d. DATA d \<in> set (rc_sent c) \<longrightarrow> d \<in> set ds))"

lemma rsp_write_inv:
  assumes "wrun_inv cfg written ds c" "rsp_write cfg data c = Some (int (length data), c')" "0 < cfg_payloadSize cfg"
  shows "wrun_inv cfg (written @ data) ds c'"
proof (cases "rc_state c = STATE_CLOSED")
  case True
  then show ?thesis using assms by (auto simp: rsp_write_def Let_def)
next
  case False
  let ?p = "cfg_payloadSize cfg"
  let ?k = "if length data div ?p * ?p \<noteq> length data then length data div ?p + 1 else length data div ?p"
  obtain ok c1 where c1: "write_loop cfg ?k data c = Some (ok, c1)"
    using assms(2) False by (auto simp: rsp_write_def Let_def split: option.splits prod.splits bool.splits)
  have ok and c': "c' = c1\<lparr>rc_wakeup := True\<rparr>"
    using assms(2) c1 False by (auto simp: rsp_write_def Let_def split: option.splits bool.splits if_splits)
  note c1 = c1 [unfolded \<open>ok\<close> [THEN eqTrueI]]
  obtain b where inv: "writer_inv cfg ds b c" using assms(1) by (auto simp: wrun_inv_def)
  note w = write_loop_inv [OF c1 inv]
  have "length data \<le> ?k * ?p"
    using dividend_less_div_times [OF assms(3), of "length data"] by (auto simp: algebra_simps)
  then have "payload_bytes (rc_threadBuffers c1) = payload_bytes (rc_threadBuffers c) @ data" using w by simp
  moreover have "writer_inv cfg ds b c'" using w by (subst writer_inv_cong [of c' c1]) (simp_all add: c')
  ultimately show ?thesis using assms(1) w by (auto simp: wrun_inv_def c')
qed

lemma wrun_inv_run:
  assumes "2 * unat (cfg_numBuffers cfg) < 2 ^ 16" "0 < cfg_payloadSize cfg" "writer_run cfg written ds c"
  shows "wrun_inv cfg written ds c"
  using assms(3)
proof induction
  case (start c)
  then have "writer_inv cfg [] 0 c" by (simp add: writer_inv_def new_child_def)
  with start show ?case by (auto simp: wrun_inv_def)
next
  case (app_write written ds c data c')
  then show ?case using rsp_write_inv assms(2) by blast
next
  case (data written ds c c' d)
  obtain b where inv: "writer_inv cfg ds b c" using data.IH by (auto simp: wrun_inv_def)
  have ne: "rc_threadBuffers c \<noteq> []" using data.hyps by (auto simp: writeData_def)
  from writeData_inv [OF inv assms(1) ne data.hyps(2)] obtain d' b' where d':
    "writer_inv cfg (ds @ [d']) b' c'" "rc_sent c' = rc_sent c @ [DATA d']"
    "dg_payload d' @ payload_bytes (rc_threadBuffers c') = payload_bytes (rc_threadBuffers c)" by auto
  with data.hyps(3) have "d' = d" by simp
  with d' data.IH show ?case by (auto simp: wrun_inv_def)
next
  case (repeat written ds c c')
  obtain b where inv: "writer_inv cfg ds b c" using repeat.IH by (auto simp: wrun_inv_def)
  then have "writer_inv cfg ds b (c\<lparr>rc_timeouts := 0\<rparr>)" by (subst writer_inv_cong [of _ c]) simp_all
  from repeat_loop_inv [OF this assms(1) repeat.hyps(2) [unfolded repeatData_def]] repeat.IH show ?case
    by (auto simp: wrun_inv_def)
next
  case (ack written ds c r w s ok c')
  obtain b where inv: "writer_inv cfg ds b c" using ack.IH by (auto simp: wrun_inv_def)
  from handleAck_inv [OF inv assms(1) ack.hyps(2,3)] ack.IH show ?case by (auto simp: wrun_inv_def)
next
  case (nack written ds c r w ns)
  let ?c = "snd (handleNack cfg r w ns c)"
  have "rc_id ?c = rc_id c \<and> rc_children ?c = rc_children c \<and> rc_sequence ?c = rc_sequence c \<and>
      rc_writeBuffers ?c = rc_writeBuffers c \<and> rc_threadBuffers ?c = rc_threadBuffers c \<and>
      rc_appBuffers ?c = rc_appBuffers c \<and> rc_sent ?c = rc_sent c"
    by (simp add: handleNack_def addRepeat_def Let_def case_prod_unfold)
  then show ?case using nack.IH writer_inv_cong [of ?c c] by (simp add: wrun_inv_def)
next
  case (self_read written ds c ch n k bytes ch')
  obtain b where inv: "writer_inv cfg ds b c" using self_read.IH by (auto simp: wrun_inv_def)
  have fr: "ch_id ch' = ch_id ch" "ch_sequence ch' = ch_sequence ch" "ch_acked ch' = ch_acked ch"
    using self_read.hyps(3) by (auto simp: readSync_def split: if_splits dest!: read_loop_frame)
  have "find_child (rc_id c) (set_child (rc_id c) ch' (rc_children c)) = Some ch'"
    using self_read.hyps(2) fr(1) find_child_id [of "rc_id c" "rc_children c" ch]
    by (intro find_set_child [of _ _ ch]) (auto simp: findConnection_def)
  then have "writer_inv cfg ds b (c\<lparr>rc_children := set_child (rc_id c) ch' (rc_children c)\<rparr>)"
    using inv self_read.hyps(2) fr by (auto simp: writer_inv_def findConnection_def)
  with self_read.IH show ?case by (auto simp: wrun_inv_def)
qed

text \<open>C15. The writer sends what was written: at any time the payloads of the datagrams sent so
  far, followed by those still queued, are exactly the bytes the application has written;
  datagram \<open>i\<close> carries sequence number \<open>i\<close>; every data packet on the wire, repeats included, is
  one of these datagrams; the unacknowledged ones are kept as a suffix; and no write buffer
  is ever lost.\<close>

theorem writer_stream:
  assumes "2 * unat (cfg_numBuffers cfg) < 2 ^ 16" "0 < cfg_payloadSize cfg" "writer_run cfg written ds c"
  shows "payload_bytes ds @ payload_bytes (rc_threadBuffers c) = written \<and>
    (\<forall>i < length ds. dg_sequence (ds ! i) = of_nat i) \<and> (\<forall>d. DATA d \<in> set (rc_sent c) \<longrightarrow> d \<in> set ds) \<and>
    (\<exists>b \<le> length ds. rc_writeBuffers c = drop b ds) \<and>
    length (rc_threadBuffers c) + length (filter (\<lambda>x. x \<noteq> None) (rc_appBuffers c)) + length (rc_writeBuffers c) =
      unat (cfg_numBuffers cfg)"
  using wrun_inv_run [OF assms] by (auto simp: wrun_inv_def writer_inv_def)

definition demo_listener :: RSPConnection where
  "demo_listener = demo_writer\<lparr>rc_sequence := 0, rc_writeBuffers := [], rc_appBuffers := [Some (), Some (), Some (), Some ()]\<rparr>"

definition demo_datagram :: "nat \<Rightarrow> DatagramData" where
  "demo_datagram n = \<lparr>dg_writerID = 1, dg_sequence = of_nat n, dg_payload = [1, 2, 3]\<rparr>"

lemma demo_writer_run: "\<exists>c. writer_run demo_cfg [1, 2, 3, 4] [demo_datagram 0] c"
proof -
  let ?d = "\<lparr>dg_writerID = 1, dg_sequence = 0, dg_payload = [1 :: u8, 2, 3]\<rparr>"
  let ?e = "\<lparr>dg_writerID = 1, dg_sequence = 0, dg_payload = [4 :: u8]\<rparr>"
  let ?c1 = "demo_listener\<lparr>rc_appBuffers := [Some (), Some ()], rc_threadBuffers := [?d, ?e], rc_wakeup := True\<rparr>"
  let ?c2 = "?c1\<lparr>rc_threadBuffers := [?e], rc_writeBuffers := [?d], rc_sequence := 1, rc_sent := [DATA ?d]\<rparr>"
  have four: "replicate 4 (Some ()) = [Some (), Some (), Some (), Some ()]" by (simp add: numeral_eq_Suc)
  have r0: "writer_run demo_cfg [] [] demo_listener"
    by (rule writer_run.start)
      (simp_all add: demo_listener_def demo_writer_def demo_cfg_def findConnection_def new_child_def four)
  have w: "rsp_write demo_cfg [1, 2, 3, 4] demo_listener = Some (int (length [1, 2, 3, 4 :: u8]), ?c1)"
    by (simp add: rsp_write_def demo_cfg_def demo_listener_def demo_writer_def Let_def)
  have r1: "writer_run demo_cfg ([] @ [1, 2, 3, 4]) [] ?c1" by (rule writer_run.app_write [OF r0 w])
  have d: "writeData demo_cfg ?c1 = Some ?c2"
    by (simp add: writeData_def demo_cfg_def demo_listener_def demo_writer_def waitWritable_def send_def Let_def)
  have "writer_run demo_cfg ([] @ [1, 2, 3, 4]) ([] @ [?d]) ?c2"
    by (rule writer_run.data [OF r1 d]) (simp add: demo_listener_def demo_writer_def)
  then show ?thesis by (auto simp: demo_datagram_def)
qed

theorem writer_stream_witness:
  "\<exists>ds c. writer_run demo_cfg [1, 2, 3, 4] ds c \<and> map dg_payload ds = [[1, 2, 3]] \<and>
     payload_bytes ds @ payload_bytes (rc_threadBuffers c) = [1, 2, 3, 4]"
proof -
  obtain c where r: "writer_run demo_cfg [1, 2, 3, 4] [demo_datagram 0] c" using demo_writer_run by blast
  have "payload_bytes [demo_datagram 0] @ payload_bytes (rc_threadBuffers c) = [1, 2, 3, 4]"
    using writer_stream [OF _ _ r] by (simp add: demo_cfg_def)
  with r show ?thesis by (intro exI [of _ "[demo_datagram 0]"] exI [of _ c]) (simp add: demo_datagram_def)
qed

end
