(* ===== verification/Rsp_Group.thy ===== *)
theory Rsp_Group
  imports Rsp_Writer
begin

text \<open>
  The multicast group: membership and identifiers, the start of a connection, and the
  composition of the writer of one connection with the readers of the others.
\<close>

section \<open>Membership\<close>

definition ids :: "RSPConnection \<Rightarrow> u16 list" where
  "ids c = map ch_id (rc_children c)"

definition group_inv :: "RSPConnection \<Rightarrow> bool" where
  "group_inv c = (distinct (ids c) \<and> (rc_idAccepted c \<longrightarrow> rc_id c \<in> set (ids c)))"

lemma find_child_None: "find_child i cs = None \<longleftrightarrow> i \<notin> ch_id ` set cs"
  by (induction cs) auto

lemma ids_set_child: "ch_id ch = i \<Longrightarrow> map ch_id (set_child i ch cs) = map ch_id cs"
  by (induction cs) auto

lemma erase_child_ids: "set (map ch_id (erase_child i cs)) \<subseteq> set (map ch_id cs) \<and>
    (j \<noteq> i \<longrightarrow> j \<in> ch_id ` set cs \<longrightarrow> j \<in> ch_id ` set (erase_child i cs)) \<and>
    (distinct (map ch_id cs) \<longrightarrow> distinct (map ch_id (erase_child i cs)))"
  by (induction cs) auto

text \<open>All that matters for membership: identifier, acceptance and the list of identifiers.\<close>

definition same_group :: "RSPConnection \<Rightarrow> RSPConnection \<Rightarrow> bool" where
  "same_group c c' = (rc_id c' = rc_id c \<and> rc_idAccepted c' = rc_idAccepted c \<and> ids c' = ids c)"

lemma same_group_inv: "same_group c c' \<Longrightarrow> group_inv c \<Longrightarrow> group_inv c'"
  by (simp add: same_group_def group_inv_def)

lemma same_group_trans: "same_group a b \<Longrightarrow> same_group b c \<Longrightarrow> same_group a c"
  by (simp add: same_group_def)

lemma same_group_refl [simp]: "same_group c c"
  by (simp add: same_group_def)

lemma same_group_send [simp]: "same_group c (send p c)" "same_group c (sendSimpleDatagram t i c)" "same_group c (sendCountNode c)"
  by (auto simp: same_group_def ids_def send_def sendSimpleDatagram_def sendCountNode_def)

lemma same_group_fold_send [simp]: "same_group c (fold send ps c)"
  by (induction ps arbitrary: c) (auto intro: same_group_trans [OF same_group_send(1)])

lemma same_group_addRepeat [simp]: "same_group c (addRepeat cfg ns c)"
  by (simp add: same_group_def ids_def addRepeat_def Let_def case_prod_unfold)

lemma same_group_sendNack [simp]: "same_group c (sendNack cfg w ns c)"
  by (simp add: sendNack_def)

lemma same_group_checkNewID [simp]: "same_group c (checkNewID i c)"
  by (simp add: checkNewID_def)

lemma push_ready_id: "ch_id (fst (push_ready cfg pid rs cs)) = ch_id (fst cs)"
  by (induction cfg pid rs cs rule: push_ready.induct) (auto simp: pushDataBuffer_def case_prod_unfold)

lemma handle_data_child_id: "ch_id (fst (handle_data_child cfg pid d ch)) = ch_id ch"
  using push_ready_id [of cfg pid] 
  by (auto simp: handle_data_child_def newDataBuffer_def no_data_buffer_def pushDataBuffer_def Let_def case_prod_unfold
      split: list.split option.split)

lemma same_group_handleData: "same_group c (snd (handleData cfg d c))"
proof (cases "findConnection (dg_writerID d) c")
  case (Some ch)
  obtain ch' sends nack where h: "handle_data_child cfg (rc_id c) d ch = (ch', sends, nack)"
    by (cases "handle_data_child cfg (rc_id c) d ch") auto
  have "ch_id ch' = dg_writerID d"
    using handle_data_child_id [of cfg "rc_id c" d ch] h Some find_child_id by (auto simp: findConnection_def)
  then have "same_group c (c\<lparr>rc_children := set_child (dg_writerID d) ch' (rc_children c)\<rparr>)"
    by (simp add: same_group_def ids_def ids_set_child)
  then have "same_group c (fold send sends (c\<lparr>rc_children := set_child (dg_writerID d) ch' (rc_children c)\<rparr>))"
    by (rule same_group_trans) simp
  then show ?thesis using Some h
    by (auto simp: handleData_def Let_def split: option.split intro: same_group_trans [OF _ same_group_sendNack])
qed (simp add: handleData_def)

lemma same_group_finish: "finishWriteQueue s c = Some c' \<Longrightarrow> same_group c c'"
  using find_child_id [of "rc_id c" "rc_children c"]
  by (auto simp: finishWriteQueue_def same_group_def ids_def findConnection_def Let_def ids_set_child
      split: option.splits if_splits)

lemma same_group_update [simp]:
  "same_group c (c\<lparr>rc_timeouts := t\<rparr>)" "same_group c (c\<lparr>rc_timer := tm\<rparr>)" "same_group c (c\<lparr>rc_running := r\<rparr>)"
  "same_group c (c\<lparr>rc_repeatQueue := q\<rparr>)" "same_group c (waitWritable cfg c)" "same_group c (setTimeout n c)"
  "same_group c (sendAckRequest c)"
  by (simp_all add: same_group_def ids_def waitWritable_def setTimeout_def sendAckRequest_def send_def)

lemma same_group_handleAck:
  assumes "handleAck cfg r w s c = Some (ok, c')"
  shows "same_group c c'"
proof (cases "c' = c")
  case False
  then obtain ch where ch: "findConnection r c = Some ch"
    using assms by (auto simp: handleAck_def split: if_splits option.splits)
  define c1 where "c1 = c\<lparr>rc_children := set_child r (ch\<lparr>ch_acked := s\<rparr>) (rc_children c), rc_timeouts := 0\<rparr>"
  have "same_group c c1"
    using ch find_child_id [of r "rc_children c" ch] by (simp add: c1_def same_group_def ids_def findConnection_def ids_set_child)
  moreover have "c' = c1 \<or> (\<exists>a. finishWriteQueue a c1 = Some c')"
    using assms False ch by (auto simp: handleAck_def c1_def Let_def split: if_splits option.splits)
  ultimately show ?thesis using same_group_finish same_group_trans by blast
qed simp

lemma same_group_handleNack: "same_group c (snd (handleNack cfg r w ns c))"
  by (auto simp: handleNack_def intro: same_group_trans [OF same_group_update(1) same_group_addRepeat])

lemma same_group_handleAckRequest: "same_group c (snd (handleAckRequest cfg w s c))"
  by (auto simp: handleAckRequest_def Let_def split: option.split)

lemma same_group_writeData:
  assumes "writeData cfg c = Some c'"
  shows "same_group c c'"
proof (cases "rc_threadBuffers c")
  case Nil
  then show ?thesis using assms by (simp add: writeData_def)
next
  case (Cons q qs)
  obtain d rest n where m: "merge_writes (cfg_payloadSize cfg) (q\<lparr>dg_sequence := rc_sequence c\<rparr>) qs = (d, rest, n)"
    by (cases "merge_writes (cfg_payloadSize cfg) (q\<lparr>dg_sequence := rc_sequence c\<rparr>) qs") auto
  define c3 where "c3 = (let c1 = c\<lparr>rc_timeouts := 0, rc_sequence := rc_sequence c + 1, rc_threadBuffers := rest,
      rc_appBuffers := rc_appBuffers c @ replicate n (Some ())\<rparr>; c2 = send (DATA d) (waitWritable cfg c1)
    in c2\<lparr>rc_writeBuffers := rc_writeBuffers c2 @ [d]\<rparr>)"
  have "same_group c c3" by (simp add: c3_def same_group_def ids_def Let_def send_def waitWritable_def)
  moreover have "c' = c3 \<or> finishWriteQueue (rc_sequence c3 - 1) c3 = Some c'"
    using assms m Cons by (auto simp: writeData_def c3_def Let_def split: if_splits)
  ultimately show ?thesis using same_group_finish same_group_trans by blast
qed

lemma same_group_repeat: "repeat_loop cfg q c = Some c' \<Longrightarrow> same_group c c'"
proof (induction cfg q c rule: repeat_loop.induct)
  case (2 cfg request rest c)
  then show ?case
    by (auto simp: Let_def same_group_def ids_def waitWritable_def send_def split: if_splits)
qed auto

text \<open>What remains of \<open>processOutgoing\<close> once the data is sent only sets the timer.\<close>

definition outgoing_timer :: "RSPConfig \<Rightarrow> int \<Rightarrow> RSPConnection \<Rightarrow> RSPConnection" where
  "outgoing_timer cfg elapsed c1 =
     (if rc_threadBuffers c1 \<noteq> [] \<or> rc_repeatQueue c1 \<noteq> [] then setTimeout 0 c1
      else if rc_writeBuffers c1 = [] then c1\<lparr>rc_timeouts := 0, rc_timer := None\<rparr>
      else
        let left = cfg_ackTimeout cfg - elapsed in
        if 0 < left then setTimeout left c1
        else setTimeout (cfg_ackTimeout cfg) (sendAckRequest (c1\<lparr>rc_timeouts := rc_timeouts c1 + 1\<rparr>)))"

lemma processOutgoing_timer:
  "processOutgoing cfg elapsed c = map_option (outgoing_timer cfg elapsed)
     (if rc_repeatQueue c \<noteq> [] then repeatData cfg c else writeData cfg c)"
  unfolding processOutgoing_def outgoing_timer_def [abs_def] by (rule refl)

lemma same_group_timer: "same_group c (outgoing_timer cfg elapsed c)"
  by (simp add: outgoing_timer_def same_group_def ids_def setTimeout_def sendAckRequest_def send_def Let_def)

lemma same_group_processOutgoing:
  assumes "processOutgoing cfg elapsed c = Some c'"
  shows "same_group c c'"
proof -
  obtain c1 where c1: "(if rc_repeatQueue c \<noteq> [] then repeatData cfg c else writeData cfg c) = Some c1"
    and c': "c' = outgoing_timer cfg elapsed c1"
    using assms by (auto simp: processOutgoing_timer)
  have "same_group c c1"
  proof (cases "rc_repeatQueue c = []")
    case True
    then show ?thesis using c1 by (simp add: same_group_writeData)
  next
    case False
    then have "repeat_loop cfg (rc_repeatQueue c) (c\<lparr>rc_timeouts := 0\<rparr>) = Some c1"
      using c1 by (simp add: repeatData_def)
    from same_group_repeat [OF this] show ?thesis by (simp add: same_group_def ids_def)
  qed
  then show ?thesis unfolding c' by (rule same_group_trans [OF _ same_group_timer])
qed

lemma group_inv_addConnection: "group_inv c \<Longrightarrow> group_inv (addConnection cfg i c)"
proof (cases "findConnection i c")
  case None
  assume inv: "group_inv c"
  let ?c = "c\<lparr>rc_children := rc_children c @ [new_child cfg i]\<rparr>"
  have "group_inv ?c" using inv None by (auto simp: group_inv_def ids_def findConnection_def find_child_None new_child_def)
  moreover have "same_group ?c (addConnection cfg i c)"
    using None by (simp add: addConnection_def Let_def same_group_def ids_def sendCountNode_def send_def)
  ultimately show ?thesis by (rule same_group_inv [rotated])
qed (simp add: addConnection_def)

lemma own_id_addConnection: "rc_id (addConnection cfg (rc_id c) c) \<in> set (ids (addConnection cfg (rc_id c) c))"
  using find_child_None [of "rc_id c" "rc_children c"]
  by (auto simp: addConnection_def findConnection_def ids_def sendCountNode_def send_def new_child_def Let_def)

lemma group_inv_removeConnection:
  assumes "group_inv c"
  shows "group_inv (removeConnection i c)"
proof (cases "i = rc_id c \<or> findConnection i c = None")
  case True
  then show ?thesis using assms same_group_inv [OF same_group_send(3)] by (auto simp: removeConnection_def)
next
  case False
  then obtain ch where ch: "findConnection i c = Some ch" "i \<noteq> rc_id c" by auto
  let ?c = "c\<lparr>rc_children := erase_child i (rc_children c), rc_removed := rc_removed c @ [end_child ch]\<rparr>"
  have "group_inv ?c"
    using assms ch(2) erase_child_ids [of i "rc_children c" "rc_id c"] by (auto simp: group_inv_def ids_def)
  then show ?thesis using ch same_group_inv [OF same_group_send(3)] by (simp add: removeConnection_def)
qed

lemmas group_same = same_group_inv [OF same_group_checkNewID] same_group_inv [OF same_group_handleData]
  same_group_inv [OF same_group_handleNack] same_group_inv [OF same_group_handleAckRequest]
  group_inv_addConnection group_inv_removeConnection

lemma group_inv_data:
  "group_inv c \<Longrightarrow> handleConnectedData cfg p c = Some c' \<Longrightarrow> group_inv c'"
  by (cases p) (auto simp: handleConnectedData_def handleCountNode_def intro: group_same same_group_inv [OF same_group_handleAck])

lemma group_inv_timeouts [simp]: "group_inv (c\<lparr>rc_timeouts := t\<rparr>) = group_inv c"
  by (simp add: group_inv_def ids_def)

lemma group_inv_init:
  assumes "group_inv c"
  shows "group_inv (handleInitData cfg p c)"
proof (cases p)
  case (ID_HELLO i)
  then show ?thesis using assms group_same(1) [of "c\<lparr>rc_timeouts := 0\<rparr>" i] by (simp add: handleInitData_def)
next
  case (ID_CONFIRM i)
  then show ?thesis using assms group_inv_addConnection [of "c\<lparr>rc_timeouts := 0\<rparr>" cfg i] by (simp add: handleInitData_def)
next
  case (COUNTNODE i n)
  then show ?thesis using assms group_inv_addConnection by (simp add: handleInitData_def handleCountNode_def)
next
  case (ID_EXIT i)
  then show ?thesis using assms group_inv_removeConnection by (simp add: handleInitData_def)
qed (simp_all add: handleInitData_def assms)

lemma group_inv_accept:
  assumes "group_inv c" "\<not> rc_idAccepted c"
  shows "group_inv (handleAcceptIDData newID p c)"
proof (cases p)
  case (ID_HELLO i)
  then show ?thesis using assms group_same(1) [of c i] by (simp add: handleAcceptIDData_def)
next
  case (ID_DENY i)
  then show ?thesis using assms
    by (simp add: handleAcceptIDData_def sendSimpleDatagram_def send_def group_inv_def ids_def)
next
  case (ID_EXIT i)
  then show ?thesis using assms group_inv_removeConnection by (simp add: handleAcceptIDData_def)
qed (simp_all add: handleAcceptIDData_def assms)

lemma accept_timeout_inv:
  assumes "group_inv c"
  shows "group_inv (handleAcceptIDTimeout cfg c)"
proof (cases "rc_timeouts c + 1 < 20")
  case True
  then show ?thesis
    by (intro same_group_inv [OF _ assms])
      (simp add: handleAcceptIDTimeout_def Let_def same_group_def ids_def setTimeout_def sendSimpleDatagram_def send_def)
next
  case False
  let ?c1 = "sendSimpleDatagram ID_CONFIRM (rc_id c) (c\<lparr>rc_timeouts := rc_timeouts c + 1\<rparr>)"
  have i: "rc_id ?c1 = rc_id c" by (simp add: sendSimpleDatagram_def send_def)
  have "same_group c ?c1" by (simp add: same_group_def ids_def sendSimpleDatagram_def send_def)
  then have "group_inv (addConnection cfg (rc_id c) ?c1)" using assms by (rule group_inv_addConnection [OF same_group_inv])
  moreover have "rc_id (addConnection cfg (rc_id c) ?c1) \<in> set (ids (addConnection cfg (rc_id c) ?c1))"
    using own_id_addConnection [of cfg ?c1] i by simp
  ultimately have "group_inv ((addConnection cfg (rc_id c) ?c1)\<lparr>rc_idAccepted := True, rc_timeouts := 0\<rparr>)"
    by (simp add: group_inv_def ids_def)
  then show ?thesis
    using False same_group_inv [OF same_group_send(3)] same_group_inv [OF same_group_update(6)]
    by (simp add: handleAcceptIDTimeout_def Let_def)
qed

text \<open>C30. Membership stays consistent: whatever packet arrives and whichever timeout fires, a
  connection never knows two peers under the same identifier, and once its own identifier is
  accepted it is, and stays, one of the known ones.\<close>

theorem group_membership:
  assumes "group_inv c"
    and "handlePacket cfg elapsed newID p c = Some c' \<or> handleTimeout cfg elapsed aborted c = Some c'"
  shows "group_inv c'"
  using assms(2)
proof
  assume h: "handlePacket cfg elapsed newID p c = Some c'"
  show ?thesis
  proof (cases "rc_state c = STATE_LISTENING")
    case True
    then obtain c1 where c1: "handleConnectedData cfg p c = Some c1"
        "c' = c1\<lparr>rc_running := False\<rparr> \<or> processOutgoing cfg elapsed c1 = Some c'"
      using h by (auto simp: handlePacket_def split: Option.bind_splits if_splits)
    have "same_group c1 c'" using c1(2) same_group_processOutgoing by auto
    then show ?thesis using group_inv_data [OF assms(1) c1(1)] same_group_inv by blast
  next
    case False
    have "group_inv (handleInitData cfg p c)" by (rule group_inv_init [OF assms(1)])
    moreover have "group_inv (handleAcceptIDData newID p c)" if "\<not> rc_idAccepted c"
      by (rule group_inv_accept [OF assms(1) that])
    ultimately show ?thesis using h False by (auto simp: handlePacket_def split: if_splits)
  qed
next
  assume h: "handleTimeout cfg elapsed aborted c = Some c'"
  have "group_inv c'" if t: "handleConnectedTimeout cfg elapsed c = Some c'"
  proof (cases "rc_state c = STATE_LISTENING")
    case True
    then obtain c1 where c1: "processOutgoing cfg elapsed c = Some c1" "same_group c1 c'"
      using t by (auto simp: handleConnectedTimeout_def same_group_def ids_def stop_child_def sendSimpleDatagram_def send_def
          comp_def split: if_splits)
    show ?thesis
      by (rule same_group_inv [OF same_group_trans [OF same_group_processOutgoing [OF c1(1)] c1(2)] assms(1)])
  next
    case False
    then have "same_group c c'" using t by (auto simp: handleConnectedTimeout_def)
    then show ?thesis using assms(1) by (rule same_group_inv)
  qed
  moreover have "group_inv (handleInitTimeout c)"
    by (rule same_group_inv [OF _ assms(1)])
      (simp add: handleInitTimeout_def Let_def same_group_def ids_def setTimeout_def sendCountNode_def send_def)
  moreover have "group_inv (handleAcceptIDTimeout cfg c)"
    using accept_timeout_inv [OF assms(1)] .
  ultimately show ?thesis using h assms(1) by (auto simp: handleTimeout_def split: if_splits)
qed

theorem group_membership_witness:
  "group_inv demo_writer \<and> group_inv (addConnection demo_cfg 9 (removeConnection 7 demo_writer)) \<and>
   handlePacket demo_cfg 0 5 (ID_EXIT 7) demo_writer = Some (setTimeout 100 (removeConnection 7 demo_writer)) \<and>
   group_inv (setTimeout 100 (removeConnection 7 demo_writer))"
proof -
  have g: "group_inv demo_writer" by (simp add: group_inv_def ids_def demo_writer_def new_child_def)
  have h: "handlePacket demo_cfg 0 5 (ID_EXIT 7) demo_writer = Some (setTimeout 100 (removeConnection 7 demo_writer))"
    by (simp add: handlePacket_def handleConnectedData_def removeConnection_def demo_writer_def demo_cfg_def
        findConnection_def new_child_def sendCountNode_def send_def processOutgoing_def writeData_def Let_def setTimeout_def)
  from group_membership [OF g disjI1 [OF h]] show ?thesis
    using g h group_inv_addConnection group_inv_removeConnection by blast
qed

section \<open>Identifiers\<close>

text \<open>A connection asks to be denied under the wrong identifier. When a newcomer announces
  an identifier that a listening connection knows as that of another peer, the connection
  denies its own identifier instead; the newcomer, which compares the denied identifier with
  the one it announced, ignores the denial and keeps the identifier that is in use.\<close>

theorem deny_is_ignored:
  assumes "i \<noteq> rc_id c" "findConnection i c = Some ch" "rc_id newcomer = i"
  shows "rc_sent (checkNewID i c) = rc_sent c @ [ID_DENY (rc_id c)] \<and>
    handleAcceptIDData newID (ID_DENY (rc_id c)) newcomer = newcomer"
  using assms by (simp add: checkNewID_def handleAcceptIDData_def sendSimpleDatagram_def send_def)

theorem deny_is_ignored_witness:
  "rc_sent (checkNewID 7 demo_writer) = [ID_DENY 1] \<and>
   handleAcceptIDData 3 (ID_DENY 1) (demo_writer\<lparr>rc_id := 7, rc_children := []\<rparr>) = demo_writer\<lparr>rc_id := 7, rc_children := []\<rparr>"
  using deny_is_ignored [of 7 demo_writer "(new_child demo_cfg 7)\<lparr>ch_acked := 0\<rparr>" "demo_writer\<lparr>rc_id := 7, rc_children := []\<rparr>" 3]
  by (simp add: demo_writer_def findConnection_def new_child_def)

text \<open>A connection starts in bounded time: if no one denies its identifier, the fortieth
  timeout after the start leaves it listening, with its identifier accepted and a child for
  itself.\<close>

fun timeouts :: "RSPConfig \<Rightarrow> nat \<Rightarrow> RSPConnection \<Rightarrow> RSPConnection option" where
  "timeouts cfg 0 c = Some c"
| "timeouts cfg (Suc n) c = Option.bind (handleTimeout cfg 0 False c) (timeouts cfg n)"

lemma timeouts_add: "timeouts cfg (m + n) c = Option.bind (timeouts cfg m c) (timeouts cfg n)"
  by (induction m arbitrary: c) (auto split: Option.bind_splits)

lemma timeouts_Suc: "timeouts cfg n c = Some c' \<Longrightarrow> timeouts cfg (Suc n) c = handleTimeout cfg 0 False c'"
  using timeouts_add [of cfg n 1 c] by (cases "handleTimeout cfg 0 False c'") auto

lemma accept_phase:
  assumes "rc_state c \<noteq> STATE_LISTENING" "\<not> rc_idAccepted c" "rc_timeouts c = 0" "n < 20"
  shows "\<exists>c'. timeouts cfg n c = Some c' \<and> rc_state c' = rc_state c \<and> \<not> rc_idAccepted c' \<and>
    rc_timeouts c' = int n \<and> rc_id c' = rc_id c"
  using assms(4)
proof (induction n)
  case (Suc n)
  then obtain c' where c': "timeouts cfg n c = Some c'" "rc_state c' = rc_state c" "\<not> rc_idAccepted c'"
      "rc_timeouts c' = int n" "rc_id c' = rc_id c" by auto
  have "timeouts cfg (Suc n) c = handleTimeout cfg 0 False c'"
    using timeouts_Suc [OF c'(1)] .
  then show ?case using c' Suc.prems assms(1)
    by (simp add: handleTimeout_def handleAcceptIDTimeout_def setTimeout_def sendSimpleDatagram_def send_def)
qed (use assms in simp)

lemma init_phase:
  assumes "rc_state c \<noteq> STATE_LISTENING" "rc_idAccepted c" "rc_timeouts c = 0" "rc_id c \<in> set (ids c)" "n < 20"
  shows "\<exists>c'. timeouts cfg n c = Some c' \<and> rc_state c' = rc_state c \<and> rc_idAccepted c' \<and>
    rc_timeouts c' = int n \<and> rc_id c' \<in> set (ids c')"
  using assms(5)
proof (induction n)
  case (Suc n)
  then obtain c' where c': "timeouts cfg n c = Some c'" "rc_state c' = rc_state c" "rc_idAccepted c'"
      "rc_timeouts c' = int n" "rc_id c' \<in> set (ids c')" by auto
  have "timeouts cfg (Suc n) c = handleTimeout cfg 0 False c'"
    using timeouts_Suc [OF c'(1)] .
  then show ?case using c' Suc.prems assms(1)
    by (auto simp: handleTimeout_def handleInitTimeout_def setTimeout_def sendCountNode_def send_def ids_def Let_def)
qed (use assms in simp)

theorem listening_after_40_timeouts:
  assumes "rc_state c = STATE_CONNECTING" "\<not> rc_idAccepted c" "rc_timeouts c = 0"
  shows "\<exists>c'. timeouts cfg 40 c = Some c' \<and> rc_state c' = STATE_LISTENING \<and> rc_idAccepted c' \<and> rc_id c' \<in> set (ids c')"
proof -
  obtain c1 where c1: "timeouts cfg 19 c = Some c1" "rc_state c1 = STATE_CONNECTING" "\<not> rc_idAccepted c1"
      "rc_timeouts c1 = 19" using accept_phase [of c 19 cfg] assms by auto
  define c2 where "c2 = handleAcceptIDTimeout cfg c1"
  have c2: "rc_state c2 = STATE_CONNECTING" "rc_idAccepted c2" "rc_timeouts c2 = 0" "rc_id c2 \<in> set (ids c2)"
    using c1 own_id_addConnection [of cfg "sendSimpleDatagram ID_CONFIRM (rc_id c1) (c1\<lparr>rc_timeouts := 20\<rparr>)"]
    by (auto simp: c2_def handleAcceptIDTimeout_def Let_def setTimeout_def sendCountNode_def sendSimpleDatagram_def send_def
        addConnection_def ids_def)
  have t1: "timeouts cfg 20 c = Some c2"
    using timeouts_Suc [OF c1(1)] c1 by (simp add: handleTimeout_def c2_def)
  obtain c3 where c3: "timeouts cfg 19 c2 = Some c3" "rc_state c3 = STATE_CONNECTING" "rc_idAccepted c3"
      "rc_timeouts c3 = 19" "rc_id c3 \<in> set (ids c3)" using init_phase [of c2 19 cfg] c2 by auto
  have "timeouts cfg 20 c2 = Some (handleInitTimeout c3)"
    using timeouts_Suc [OF c3(1)] c3 by (simp add: handleTimeout_def)
  then have "timeouts cfg 40 c = Some (handleInitTimeout c3)"
    using timeouts_add [of cfg 20 20 c] t1 by simp
  with c3 show ?thesis by (auto simp: handleInitTimeout_def setTimeout_def ids_def)
qed

theorem listening_after_40_timeouts_witness:
  "\<exists>c'. timeouts demo_cfg 40 (demo_listener\<lparr>rc_state := STATE_CONNECTING, rc_idAccepted := False, rc_children := []\<rparr>) = Some c' \<and>
     rc_state c' = STATE_LISTENING"
  using listening_after_40_timeouts [of "demo_listener\<lparr>rc_state := STATE_CONNECTING, rc_idAccepted := False, rc_children := []\<rparr>" demo_cfg]
  by (auto simp: demo_listener_def demo_writer_def)

section \<open>Writers and readers together\<close>

text \<open>C1. End to end: let a reader receive, in any order and with losses and repeats, datagrams
  of a writer. Whatever its application has read is a prefix of what the application at the
  writer has written.\<close>

theorem read_is_prefix_of_written:
  assumes "2 * unat (cfg_numBuffers cfg) < 2 ^ 16" "0 < cfg_payloadSize cfg" "writer_run cfg written ds c"
    and "\<And>n. n < length ds \<Longrightarrow> stream n = ds ! n" "\<And>n. dg_sequence (stream n) = of_nat n"
    and "\<And>n. dg_payload (stream n) \<noteq> []" "reader_run cfg pid stream e ch out" "e \<le> length ds"
  shows "\<exists>rest. written = out @ rest"
proof -
  have w: "payload_bytes ds @ payload_bytes (rc_threadBuffers c) = written"
    using wrun_inv_run [OF assms(1-3)] by (simp add: wrun_inv_def)
  have "out @ unread ch = concat (map (dg_payload \<circ> stream) [0..<e])"
    using run_inv_run [OF assms(5,6,1,7)] by (simp add: run_inv_def)
  also have "map (dg_payload \<circ> stream) [0..<e] = map dg_payload (take e ds)"
    using assms(4,8) by (intro nth_equalityI) auto
  finally have "payload_bytes ds = out @ unread ch @ payload_bytes (drop e ds)"
    using payload_bytes_simps(3) [of "take e ds" "drop e ds"] by (simp add: payload_bytes_def)
  with w show ?thesis by auto
qed

theorem read_is_prefix_of_written_witness:
  "\<exists>written ds c e ch. writer_run demo_cfg written ds c \<and> reader_run demo_cfg 5 demo_datagram e ch [1, 2] \<and>
     (\<exists>rest. written = [1, 2] @ rest)"
proof -
  obtain c where w: "writer_run demo_cfg [1, 2, 3, 4] [demo_datagram 0] c" using demo_writer_run by blast
  let ?c1 = "\<lparr>ch_id = 1, ch_state = STATE_CONNECTED, ch_acked = -1, ch_sequence = 1, ch_threadBuffers = 3,
      ch_appBuffers = [Some (demo_datagram 0)], ch_recvBuffers = [], ch_readBuffer = None, ch_readBufferPos = 0,
      ch_event = True\<rparr>"
  let ?c2 = "?c1\<lparr>ch_appBuffers := [], ch_readBuffer := Some (demo_datagram 0), ch_readBufferPos := 2\<rparr>"
  have r0: "reader_run demo_cfg 5 demo_datagram 0 (new_child demo_cfg 1) []" by (rule reader_run.start)
  have r1: "reader_run demo_cfg 5 demo_datagram 1 ?c1 []"
    by (rule reader_run.deliver [OF r0, where n = 0])
      (simp_all add: demo_cfg_def new_child_def handle_data_child_def demo_datagram_def newDataBuffer_def pushDataBuffer_def Let_def)
  have "readSync 2 ?c1 = Some (2, [1, 2], ?c2)"
    by (simp add: readSync_def read_loop.simps demo_datagram_def Let_def)
  from reader_run.read [OF r1 this] have r2: "reader_run demo_cfg 5 demo_datagram 1 ?c2 ([] @ [1, 2])" .
  have "\<exists>rest. [1, 2, 3, 4] = ([] @ [1, 2 :: u8]) @ rest"
    by (rule read_is_prefix_of_written [OF _ _ w _ _ _ r2]) (simp_all add: demo_cfg_def demo_datagram_def)
  with w r2 show ?thesis by (metis append_Nil)
qed

end
