(* ===== verification/Data_Stream.thy ===== *)
theory Data_Stream
  imports Byte_Compressors
begin

text \<open>
  The binary streams of distributed objects: \<open>DataOStream\<close> with its subclass \<open>ObjectDataOStream\<close>
  (\<open>libs/co/dataOStream.cpp\<close>, \<open>dataOStream.ipp\<close>, \<open>objectDataOStream.cpp\<close>,
  \<open>objectInstanceDataOStream.cpp\<close>, \<open>objectDeltaDataOStream.cpp\<close>) and \<open>DataIStream\<close> with
  \<open>ObjectDataIStream\<close> (\<open>dataIStream.cpp\<close>, \<open>objectDataIStream.cpp\<close>).

  A buffer is the list of its bytes. The plugin that compresses is the record \<open>Compressor\<close>; the
  receiving side finds a plugin by its name. Sending appends the packet, with the nodes it goes
  to, to the list of sent packets; multicast is one such entry. The code is the one compiled
  with \<open>CO_AGGRESSIVE_CACHING\<close>, the default of the build.
\<close>

section \<open>Versions\<close>

definition VERSION_NONE :: u128 where "VERSION_NONE = 0"
definition VERSION_FIRST :: u128 where "VERSION_FIRST = 1"
definition VERSION_OLDEST :: u128 where "VERSION_OLDEST = 0xfffffffffffffffc"
definition VERSION_NEXT :: u128 where "VERSION_NEXT = 0xfffffffffffffffd"
definition VERSION_INVALID :: u128 where "VERSION_INVALID = 0xfffffffffffffffe"
definition VERSION_HEAD :: u128 where "VERSION_HEAD = 0xffffffffffffffff"

definition EQ_INSTANCE_NONE :: u32 where "EQ_INSTANCE_NONE = 0xfffffffd"
definition EQ_INSTANCE_INVALID :: u32 where "EQ_INSTANCE_INVALID = 0xfffffffe"
definition EQ_INSTANCE_ALL :: u32 where "EQ_INSTANCE_ALL = 0xffffffff"

lemmas version_defs = VERSION_NONE_def VERSION_FIRST_def VERSION_OLDEST_def VERSION_NEXT_def
  VERSION_INVALID_def VERSION_HEAD_def

section \<open>Packets and compressors\<close>

type_synonym NodeID = u128

datatype DataCommand =
    CMD_NODE_OBJECT_INSTANCE
  | CMD_NODE_OBJECT_INSTANCE_MAP
  | CMD_NODE_OBJECT_INSTANCE_COMMIT
  | CMD_NODE_OBJECT_INSTANCE_PUSH
  | CMD_OBJECT_INSTANCE
  | CMD_OBJECT_DELTA
  | CMD_OBJECT_SLAVE_DELTA

record ObjectDataPacket =
  op_command :: DataCommand
  op_version :: u128
  op_sequence :: u32
  op_dataSize :: nat
  op_compressorName :: u32
  op_chunks :: "u8 list list"
  op_last :: bool
  op_nodeID :: NodeID
  op_instanceID :: u32
  op_masterInstanceID :: u32

definition EQ_COMPRESSOR_NONE :: u32 where "EQ_COMPRESSOR_NONE = 1"

record Compressor =
  cmp_name :: u32
  cmp_compress :: "u8 list \<Rightarrow> u8 list list"

definition cmp_isValid :: "Compressor \<Rightarrow> bool" where
  "cmp_isValid cmp = (EQ_COMPRESSOR_NONE < cmp_name cmp)"

section \<open>Output streams\<close>

datatype CompressorState = STATE_UNCOMPRESSED | STATE_PARTIAL | STATE_COMPLETE | STATE_UNCOMPRESSIBLE

record ObjectDataOStream =
  os_compressorState :: CompressorState
  os_buffer :: "u8 list"
  os_bufferStart :: nat
  os_dataSize :: nat
  os_connections :: "NodeID list"
  os_results :: "u8 list list"
  os_enabled :: bool
  os_dataSent :: bool
  os_save :: bool
  os_version :: u128
  os_sequence :: u32
  os_command :: DataCommand
  os_nodeID :: NodeID
  os_instanceID :: u32
  os_masterInstanceID :: u32
  os_sent :: "(NodeID list \<times> ObjectDataPacket) list"

definition new_ostream :: "DataCommand \<Rightarrow> u32 \<Rightarrow> ObjectDataOStream" where
  "new_ostream command masterInstanceID = \<lparr>os_compressorState = STATE_UNCOMPRESSED, os_buffer = [], os_bufferStart = 0,
     os_dataSize = 0, os_connections = [], os_results = [], os_enabled = False, os_dataSent = False, os_save = False,
     os_version = VERSION_INVALID, os_sequence = 0, os_command = command, os_nodeID = 0,
     os_instanceID = EQ_INSTANCE_ALL, os_masterInstanceID = masterInstanceID, os_sent = []\<rparr>"

definition os_enable :: "ObjectDataOStream \<Rightarrow> ObjectDataOStream" where
  "os_enable os = os\<lparr>os_compressorState := STATE_UNCOMPRESSED, os_bufferStart := 0, os_dataSent := False,
     os_enabled := True, os_buffer := []\<rparr>"

definition os_enableSave :: "ObjectDataOStream \<Rightarrow> ObjectDataOStream" where
  "os_enableSave os = os\<lparr>os_save := True\<rparr>"

definition os_disableSave :: "ObjectDataOStream \<Rightarrow> ObjectDataOStream" where
  "os_disableSave os = os\<lparr>os_save := False\<rparr>"

definition os_compress :: "Compressor \<Rightarrow> u8 list \<Rightarrow> CompressorState \<Rightarrow> ObjectDataOStream \<Rightarrow> ObjectDataOStream" where
  "os_compress cmp src result os =
     (if os_compressorState os = result \<or> os_compressorState os = STATE_UNCOMPRESSIBLE then os
      else if \<not> cmp_isValid cmp \<or> src = [] then os\<lparr>os_compressorState := STATE_UNCOMPRESSED\<rparr>
      else
        let chunks = cmp_compress cmp src; os1 = os\<lparr>os_results := chunks\<rparr> in
        if length src \<le> sum_list (map length chunks) then os1\<lparr>os_compressorState := STATE_UNCOMPRESSIBLE\<rparr>
        else os1\<lparr>os_compressorState := result\<rparr>)"

definition os_sendPacket ::
  "Compressor \<Rightarrow> ObjectDataPacket \<Rightarrow> u8 list \<Rightarrow> bool \<Rightarrow> ObjectDataOStream \<Rightarrow> ObjectDataOStream" where
  "os_sendPacket cmp packet buffer isLast os =
     (if os_connections os = [] then os
      else
        let p1 = packet\<lparr>op_dataSize := length buffer, op_last := isLast\<rparr>;
            p2 = (if os_compressorState os = STATE_UNCOMPRESSED \<or> os_compressorState os = STATE_UNCOMPRESSIBLE
                  then p1\<lparr>op_compressorName := EQ_COMPRESSOR_NONE, op_chunks := [buffer]\<rparr>
                  else p1\<lparr>op_compressorName := cmp_name cmp, op_chunks := os_results os\<rparr>)
        in os\<lparr>os_sent := os_sent os @ [(os_connections os, p2)]\<rparr>)"

definition os_sendData :: "Compressor \<Rightarrow> u8 list \<Rightarrow> bool \<Rightarrow> ObjectDataOStream \<Rightarrow> ObjectDataOStream" where
  "os_sendData cmp buffer isLast os =
     (let packet = \<lparr>op_command = os_command os, op_version = os_version os, op_sequence = os_sequence os, op_dataSize = 0,
            op_compressorName = 0, op_chunks = [], op_last = False, op_nodeID = os_nodeID os,
            op_instanceID = os_instanceID os, op_masterInstanceID = os_masterInstanceID os\<rparr>;
          os1 = os_sendPacket cmp packet buffer isLast (os\<lparr>os_sequence := os_sequence os + 1\<rparr>)
      in if isLast then os1\<lparr>os_sequence := 0\<rparr> else os1)"

definition os_resetBuffer :: "ObjectDataOStream \<Rightarrow> ObjectDataOStream" where
  "os_resetBuffer os =
     (let os1 = os\<lparr>os_compressorState := STATE_UNCOMPRESSED\<rparr> in
      if os_save os then os1\<lparr>os_bufferStart := length (os_buffer os)\<rparr>
      else os1\<lparr>os_bufferStart := 0, os_buffer := []\<rparr>)"

definition os_flush :: "Compressor \<Rightarrow> ObjectDataOStream \<Rightarrow> ObjectDataOStream" where
  "os_flush cmp os =
     (let src = drop (os_bufferStart os) (os_buffer os);
          os1 = (if os_connections os = [] then os
                 else os_sendData cmp src False
                        (os_compress cmp src STATE_PARTIAL (os\<lparr>os_compressorState := STATE_UNCOMPRESSED\<rparr>)))
      in os_resetBuffer (os1\<lparr>os_dataSent := True\<rparr>))"

definition os_write :: "Compressor \<Rightarrow> nat \<Rightarrow> u8 list \<Rightarrow> ObjectDataOStream \<Rightarrow> ObjectDataOStream" where
  "os_write cmp objectBufferSize data os =
     (let os1 = (if objectBufferSize < length (os_buffer os) - os_bufferStart os then os_flush cmp os else os)
      in os1\<lparr>os_buffer := os_buffer os1 @ data\<rparr>)"

definition os_disable :: "Compressor \<Rightarrow> ObjectDataOStream \<Rightarrow> ObjectDataOStream" where
  "os_disable cmp os =
     (if \<not> os_enabled os then os
      else
        let os1 =
          (if os_dataSent os then
             let osd = os\<lparr>os_dataSize := length (os_buffer os)\<rparr>; src = drop (os_bufferStart osd) (os_buffer osd) in
             if os_connections osd = [] then osd
             else
               os_sendData cmp src True
                 (if src = [] \<and> os_bufferStart osd = os_dataSize osd \<and> os_compressorState osd = STATE_PARTIAL
                  then osd\<lparr>os_compressorState := STATE_COMPLETE\<rparr>
                  else os_compress cmp src STATE_PARTIAL (osd\<lparr>os_compressorState := STATE_UNCOMPRESSED\<rparr>))
           else if os_buffer os \<noteq> [] then
             let osd = os\<lparr>os_dataSize := length (os_buffer os), os_dataSent := True\<rparr> in
             if os_connections osd = [] then osd
             else os_sendData cmp (os_buffer osd) True
                    (os_compress cmp (os_buffer osd) STATE_COMPLETE (osd\<lparr>os_compressorState := STATE_UNCOMPRESSED\<rparr>))
           else os)
        in os1\<lparr>os_enabled := False, os_connections := []\<rparr>)"

definition os_resend :: "Compressor \<Rightarrow> ObjectDataOStream \<Rightarrow> ObjectDataOStream" where
  "os_resend cmp os =
     (let data = take (os_dataSize os) (os_buffer os)
      in os_sendData cmp data True (os_compress cmp data STATE_COMPLETE os))"

definition os_reset :: "ObjectDataOStream \<Rightarrow> ObjectDataOStream" where
  "os_reset os = (os_resetBuffer os)\<lparr>os_sequence := 0, os_version := VERSION_INVALID\<rparr>"

definition os_enableCommit :: "u128 \<Rightarrow> NodeID list \<Rightarrow> ObjectDataOStream \<Rightarrow> ObjectDataOStream" where
  "os_enableCommit version receivers os = os_enable (os\<lparr>os_version := version, os_connections := receivers\<rparr>)"

text \<open>The instance data stream adds the addressee of the packets.\<close>

definition ios_reset :: "ObjectDataOStream \<Rightarrow> ObjectDataOStream" where
  "ios_reset os = (os_reset os)\<lparr>os_nodeID := 0, os_instanceID := EQ_INSTANCE_NONE\<rparr>"

definition ios_target :: "DataCommand \<Rightarrow> NodeID \<Rightarrow> u32 \<Rightarrow> ObjectDataOStream \<Rightarrow> ObjectDataOStream" where
  "ios_target command nodeID instanceID os = os\<lparr>os_command := command, os_nodeID := nodeID, os_instanceID := instanceID\<rparr>"

definition ios_enableCommit :: "u128 \<Rightarrow> NodeID list \<Rightarrow> ObjectDataOStream \<Rightarrow> ObjectDataOStream" where
  "ios_enableCommit version receivers os =
     os_enableCommit version receivers (ios_target CMD_NODE_OBJECT_INSTANCE_COMMIT 0 EQ_INSTANCE_NONE os)"

definition ios_push :: "Compressor \<Rightarrow> NodeID list \<Rightarrow> ObjectDataOStream \<Rightarrow> ObjectDataOStream" where
  "ios_push cmp receivers os =
     (os_resend cmp (ios_target CMD_NODE_OBJECT_INSTANCE_PUSH 0 EQ_INSTANCE_NONE os\<lparr>os_connections := receivers\<rparr>))
       \<lparr>os_connections := []\<rparr>"

definition ios_sendInstanceData :: "Compressor \<Rightarrow> NodeID list \<Rightarrow> ObjectDataOStream \<Rightarrow> ObjectDataOStream" where
  "ios_sendInstanceData cmp receivers os =
     (os_resend cmp (ios_target CMD_NODE_OBJECT_INSTANCE 0 EQ_INSTANCE_NONE os\<lparr>os_connections := receivers\<rparr>))
       \<lparr>os_connections := []\<rparr>"

definition ios_sendMapData :: "Compressor \<Rightarrow> NodeID \<Rightarrow> u32 \<Rightarrow> ObjectDataOStream \<Rightarrow> ObjectDataOStream" where
  "ios_sendMapData cmp node instanceID os =
     (os_resend cmp (ios_target CMD_NODE_OBJECT_INSTANCE_MAP node instanceID os\<lparr>os_connections := [node]\<rparr>))
       \<lparr>os_connections := []\<rparr>"

definition ios_enableMap :: "u128 \<Rightarrow> NodeID \<Rightarrow> u32 \<Rightarrow> ObjectDataOStream \<Rightarrow> ObjectDataOStream" where
  "ios_enableMap version node instanceID os =
     os_enable (ios_target CMD_NODE_OBJECT_INSTANCE_MAP node instanceID os\<lparr>os_version := version, os_connections := [node]\<rparr>)"

section \<open>Input streams\<close>

record ObjectDataIStream =
  is_commands :: "ObjectDataPacket list"
  is_usedCommand :: "ObjectDataPacket option"
  is_version :: u128
  is_input :: "u8 list"
  is_inputSize :: nat
  is_position :: nat

definition new_istream :: ObjectDataIStream where
  "new_istream = \<lparr>is_commands = [], is_usedCommand = None, is_version = VERSION_INVALID, is_input = [],
     is_inputSize = 0, is_position = 0\<rparr>"

definition is_isReady :: "ObjectDataIStream \<Rightarrow> bool" where
  "is_isReady is = (is_version is \<noteq> VERSION_INVALID)"

definition is_getPendingVersion :: "ObjectDataIStream \<Rightarrow> u128" where
  "is_getPendingVersion is =
     (if is_commands is = [] then VERSION_INVALID else op_version (last (is_commands is)))"

definition is_addDataPacket :: "ObjectDataPacket \<Rightarrow> ObjectDataIStream \<Rightarrow> ObjectDataIStream" where
  "is_addDataPacket p is =
     (let is1 = is\<lparr>is_commands := is_commands is @ [p]\<rparr>
      in if op_last p then is1\<lparr>is_version := is_getPendingVersion is1\<rparr> else is1)"

definition is_hasInstanceData :: "ObjectDataIStream \<Rightarrow> bool" where
  "is_hasInstanceData is =
     (case is_usedCommand is of
        Some p \<Rightarrow> op_command p = CMD_OBJECT_INSTANCE
      | None \<Rightarrow> (case is_commands is of [] \<Rightarrow> False | p # _ \<Rightarrow> op_command p = CMD_OBJECT_INSTANCE))"

definition is_getDataSize :: "ObjectDataIStream \<Rightarrow> nat" where
  "is_getDataSize is = sum_list (map op_dataSize (is_commands is))"

definition is_getNextCommand :: "ObjectDataIStream \<Rightarrow> ObjectDataPacket option \<times> ObjectDataIStream" where
  "is_getNextCommand is =
     (case is_commands is of
        [] \<Rightarrow> (None, is\<lparr>is_usedCommand := None\<rparr>)
      | p # ps \<Rightarrow> (Some p, is\<lparr>is_usedCommand := Some p, is_commands := ps\<rparr>))"

function is_getNextBuffer :: "ObjectDataIStream \<Rightarrow> ObjectDataPacket option \<times> ObjectDataIStream" where
  "is_getNextBuffer is =
     (case is_getNextCommand is of
        (None, is1) \<Rightarrow> (None, is1)
      | (Some p, is1) \<Rightarrow> if op_dataSize p = 0 then is_getNextBuffer is1 else (Some p, is1))"
  by pat_completeness auto

termination is_getNextBuffer
  by (relation "measure (length \<circ> is_commands)") (auto simp: is_getNextCommand_def split: list.splits)

declare is_getNextBuffer.simps [simp del]

text \<open>The argument \<open>plugins\<close> decompresses with the plugin of the given name.\<close>

type_synonym Plugins = "u32 \<Rightarrow> u8 list list \<Rightarrow> nat \<Rightarrow> u8 list"

definition is_decompress :: "Plugins \<Rightarrow> ObjectDataPacket \<Rightarrow> u8 list" where
  "is_decompress plugins p =
     (if op_compressorName p = EQ_COMPRESSOR_NONE then concat (op_chunks p)
      else plugins (op_compressorName p) (op_chunks p) (op_dataSize p))"

lemma getNextBuffer_commands:
  "is_getNextBuffer is = (Some p, is1) \<Longrightarrow> length (is_commands is1) < length (is_commands is)"
proof (induction "is" rule: is_getNextBuffer.induct)
  case (1 s)
  then show ?case
    by (subst (asm) (2) is_getNextBuffer.simps)
      (fastforce simp: is_getNextCommand_def split: list.splits if_splits)
qed

function is_checkBuffer :: "Plugins \<Rightarrow> ObjectDataIStream \<Rightarrow> bool \<times> ObjectDataIStream" where
  "is_checkBuffer plugins is =
     (if is_position is < is_inputSize is then (True, is)
      else
        case is_getNextBuffer is of
          (None, is1) \<Rightarrow> (False, is1)
        | (Some p, is1) \<Rightarrow>
            is_checkBuffer plugins (is1\<lparr>is_input := is_decompress plugins p, is_inputSize := op_dataSize p, is_position := 0\<rparr>))"
  by pat_completeness auto

termination is_checkBuffer
  by (relation "measure (\<lambda>(plugins, is). length (is_commands is))") (auto dest: getNextBuffer_commands [OF sym])

declare is_checkBuffer.simps [simp del]

text \<open>A read that finds too little data leaves the destination as it is: \<open>None\<close>.\<close>

definition is_read :: "Plugins \<Rightarrow> nat \<Rightarrow> ObjectDataIStream \<Rightarrow> u8 list option \<times> ObjectDataIStream" where
  "is_read plugins bytes is =
     (case is_checkBuffer plugins is of
        (False, is1) \<Rightarrow> (None, is1)
      | (True, is1) \<Rightarrow>
          if is_inputSize is1 < is_position is1 + bytes then (None, is1)
          else (Some (take bytes (drop (is_position is1) (is_input is1))), is1\<lparr>is_position := is_position is1 + bytes\<rparr>))"

definition is_getRemainingBufferSize :: "Plugins \<Rightarrow> ObjectDataIStream \<Rightarrow> nat \<times> ObjectDataIStream" where
  "is_getRemainingBufferSize plugins is =
     (case is_checkBuffer plugins is of (ok, is1) \<Rightarrow> (if ok then is_inputSize is1 - is_position is1 else 0, is1))"

definition is_hasData :: "Plugins \<Rightarrow> ObjectDataIStream \<Rightarrow> bool" where
  "is_hasData plugins is = fst (is_checkBuffer plugins is)"

definition is_reset :: "ObjectDataIStream \<Rightarrow> ObjectDataIStream" where
  "is_reset is = new_istream"

section \<open>Values\<close>

text \<open>
  The operators \<open><<\<close> write a value in one or more calls of \<open>write\<close>; a value is represented by
  the list of these writes. Integers are written as they are in memory, least significant
  byte first.
\<close>

definition ser_word :: "nat \<Rightarrow> 'c::len word \<Rightarrow> u8 list list" where
  "ser_word k w = [le_split k w]"

definition ser_string :: "u8 list \<Rightarrow> u8 list list" where
  "ser_string str = ser_word 8 (of_nat (length str) :: u64) @ (if 0 < length str then [str] else [])"

definition ser_flat_vector :: "nat \<Rightarrow> 'c::len word list \<Rightarrow> u8 list list" where
  "ser_flat_vector k value =
     ser_word 8 (of_nat (length value) :: u64) @ (if 0 < length value then [bytes_of k value] else [])"

definition ser_vector :: "('a \<Rightarrow> u8 list list) \<Rightarrow> 'a list \<Rightarrow> u8 list list" where
  "ser_vector ser value = ser_word 8 (of_nat (length value) :: u64) @ concat (map ser value)"

type_synonym 'a is_reader = "ObjectDataIStream \<Rightarrow> 'a option \<times> ObjectDataIStream"

definition is_bind :: "'a is_reader \<Rightarrow> ('a \<Rightarrow> 'b is_reader) \<Rightarrow> 'b is_reader" where
  "is_bind r f is = (case r is of (None, is1) \<Rightarrow> (None, is1) | (Some x, is1) \<Rightarrow> f x is1)"

definition is_return :: "'a \<Rightarrow> 'a is_reader" where
  "is_return x is = (Some x, is)"

definition rd_word :: "Plugins \<Rightarrow> nat \<Rightarrow> 'c::len word is_reader" where
  "rd_word plugins k = is_bind (is_read plugins k) (\<lambda>bs. is_return (le_join bs))"

text \<open>A string is taken from the remaining buffer, which may start in the next packet.\<close>

definition rd_remaining :: "Plugins \<Rightarrow> nat \<Rightarrow> u8 list is_reader" where
  "rd_remaining plugins n is =
     (case is_checkBuffer plugins is of
        (False, is1) \<Rightarrow> (None, is1)
      | (True, is1) \<Rightarrow>
          if is_inputSize is1 < is_position is1 + n then (None, is1)
          else (Some (take n (drop (is_position is1) (is_input is1))), is1\<lparr>is_position := is_position is1 + n\<rparr>))"

definition rd_string :: "Plugins \<Rightarrow> u8 list is_reader" where
  "rd_string plugins = is_bind (rd_word plugins 8) (\<lambda>nElems :: u64.
     if nElems = 0 then is_return [] else rd_remaining plugins (unat nElems))"

definition rd_flat_vector :: "Plugins \<Rightarrow> nat \<Rightarrow> 'c::len word list is_reader" where
  "rd_flat_vector plugins k = is_bind (rd_word plugins 8) (\<lambda>nElems :: u64.
     if 0 < nElems then is_bind (is_read plugins (unat nElems * k)) (\<lambda>bs. is_return (tokens_of k bs)) else is_return [])"

fun rd_elements :: "'a is_reader \<Rightarrow> nat \<Rightarrow> 'a list is_reader" where
  "rd_elements rd 0 = is_return []"
| "rd_elements rd (Suc n) = is_bind rd (\<lambda>x. is_bind (rd_elements rd n) (\<lambda>xs. is_return (x # xs)))"

definition rd_vector :: "Plugins \<Rightarrow> 'a is_reader \<Rightarrow> 'a list is_reader" where
  "rd_vector plugins rd = is_bind (rd_word plugins 8) (\<lambda>nElems :: u64. rd_elements rd (unat nElems))"

record ObjectVersion =
  ov_identifier :: u128
  ov_version :: u128

definition ser_ObjectVersion :: "ObjectVersion \<Rightarrow> u8 list list" where
  "ser_ObjectVersion ov = [le_split 16 (ov_identifier ov) @ le_split 16 (ov_version ov)]"

definition rd_ObjectVersion :: "Plugins \<Rightarrow> ObjectVersion is_reader" where
  "rd_ObjectVersion plugins = is_bind (is_read plugins 32) (\<lambda>bs.
     is_return \<lparr>ov_identifier = le_join (take 16 bs), ov_version = le_join (drop 16 bs)\<rparr>)"

text \<open>
  Child objects are written one identifier and version at a time, but read back with the
  specialised operator for a vector of object versions, in a single read.
\<close>

definition ser_children :: "ObjectVersion list \<Rightarrow> u8 list list" where
  "ser_children children =
     ser_word 8 (of_nat (length children) :: u64) @ concat (map ser_ObjectVersion children)"

fun ovs_of :: "nat \<Rightarrow> u8 list \<Rightarrow> ObjectVersion list" where
  "ovs_of 0 bs = []"
| "ovs_of (Suc n) bs =
     \<lparr>ov_identifier = le_join (take 16 bs), ov_version = le_join (take 16 (drop 16 bs))\<rparr> # ovs_of n (drop 32 bs)"

definition rd_ObjectVersions :: "Plugins \<Rightarrow> ObjectVersion list is_reader" where
  "rd_ObjectVersions plugins = is_bind (rd_word plugins 8) (\<lambda>nElems :: u64.
     if 0 < nElems then is_bind (is_read plugins (unat nElems * 32)) (\<lambda>bs. is_return (ovs_of (unat nElems) bs))
     else is_return [])"

end
