(* ===== verification/Data_Roundtrip.thy ===== *)
theory Data_Roundtrip
  imports Data_Stream
begin

text \<open>
  What is written to an output stream is read from the input stream that its packets build: a
  write is never split, so reads that mirror the writes succeed and return the data.
\<close>

section \<open>Reading blocks\<close>

text \<open>
  A stream holds the groups \<open>gs\<close> of writes after the writes \<open>g\<close> of the current buffer: each
  packet carries the concatenation of one group.
\<close>

definition blocks :: "Plugins \<Rightarrow> u8 list list list \<Rightarrow> ObjectDataPacket list \<Rightarrow> bool" where
  "blocks plugins gs ps =
     (map (is_decompress plugins) ps = map concat gs \<and> map op_dataSize ps = map (length \<circ> concat) gs)"

definition is_holds :: "Plugins \<Rightarrow> u8 list list \<Rightarrow> u8 list list list \<Rightarrow> ObjectDataIStream \<Rightarrow> bool" where
  "is_holds plugins g gs is =
     (is_inputSize is = length (is_input is) \<and> is_position is \<le> is_inputSize is \<and>
      drop (is_position is) (is_input is) = concat g \<and> blocks plugins gs (is_commands is))"

lemma blocks_simps [simp]:
  "blocks plugins gs [] \<longleftrightarrow> gs = []" "blocks plugins [] ps \<longleftrightarrow> ps = []"
  "blocks plugins (g # gs) (p # ps) \<longleftrightarrow> is_decompress plugins p = concat g \<and> op_dataSize p = length (concat g) \<and> blocks plugins gs ps"
  by (auto simp: blocks_def)

lemma blocks_append: "blocks plugins gs ps \<Longrightarrow> blocks plugins hs qs \<Longrightarrow> blocks plugins (gs @ hs) (ps @ qs)"
  by (simp add: blocks_def)

lemma concat_Nil: "[] \<notin> set g \<Longrightarrow> concat g = [] \<longleftrightarrow> g = []"
  by (cases g) auto

lemma getNextBuffer_empty:
  "blocks plugins gs (is_commands is) \<Longrightarrow> concat gs = [] \<Longrightarrow> fst (is_getNextBuffer is) = None"
proof (induction gs arbitrary: "is")
  case Nil
  then show ?case by (simp add: is_getNextBuffer.simps is_getNextCommand_def)
next
  case (Cons g gs)
  then obtain p ps where ps: "is_commands is = p # ps" by (cases "is_commands is") auto
  with Cons show ?case
    by (subst is_getNextBuffer.simps) (simp add: is_getNextCommand_def)
qed

lemma getNextBuffer_block:
  assumes "blocks plugins gs (is_commands is)" "concat gs \<noteq> []" "[] \<notin> set (concat gs)"
  shows "\<exists>p is1 g gs1. is_getNextBuffer is = (Some p, is1) \<and> is_decompress plugins p = concat g \<and>
    op_dataSize p = length (concat g) \<and> g \<noteq> [] \<and> blocks plugins gs1 (is_commands is1) \<and> concat gs = g @ concat gs1"
  using assms
proof (induction gs arbitrary: "is")
  case (Cons g gs)
  then obtain p ps where ps: "is_commands is = p # ps" by (cases "is_commands is") auto
  show ?case
  proof (cases "g = []")
    case True
    let ?is = "is\<lparr>is_usedCommand := Some p, is_commands := ps\<rparr>"
    have "is_getNextBuffer is = is_getNextBuffer ?is"
      using Cons.prems(1) ps True by (subst is_getNextBuffer.simps) (simp add: is_getNextCommand_def)
    moreover have "blocks plugins gs (is_commands ?is)" using Cons.prems(1) ps by simp
    ultimately show ?thesis using Cons.IH [of ?is] Cons.prems(2,3) True by auto
  next
    case False
    then have "length (concat g) \<noteq> 0" using concat_Nil [of g] Cons.prems(3) by auto
    then have "is_getNextBuffer is = (Some p, is\<lparr>is_usedCommand := Some p, is_commands := ps\<rparr>)"
      using Cons.prems(1) ps by (subst is_getNextBuffer.simps) (auto simp: is_getNextCommand_def)
    then show ?thesis using Cons.prems(1) ps False by fastforce
  qed
qed simp

lemma is_read_mirror:
  assumes "is_holds plugins g gs is" "g @ concat gs = w # ws" "[] \<notin> set (w # ws)"
  shows "\<exists>is1 g1 gs1. is_read plugins (length w) is = (Some w, is1) \<and> is_holds plugins g1 gs1 is1 \<and> g1 @ concat gs1 = ws"
proof (cases g)
  case (Cons w' g1)
  then have w: "w' = w" using assms(2) by simp
  have d: "drop (is_position is) (is_input is) = w @ concat g1" using assms(1) Cons w by (simp add: is_holds_def)
  then have l: "length (is_input is) - is_position is = length w + length (concat g1)"
    by (metis length_append length_drop)
  have "w \<noteq> []" using assms(3) by auto
  then have "is_position is < is_inputSize is" using l assms(1) by (cases w) (auto simp: is_holds_def)
  then have c: "is_checkBuffer plugins is = (True, is)" by (simp add: is_checkBuffer.simps)
  have "is_position is + length w \<le> is_inputSize is" using l assms(1) by (auto simp: is_holds_def)
  then have "is_read plugins (length w) is = (Some w, is\<lparr>is_position := is_position is + length w\<rparr>)"
    by (simp add: is_read_def c d)
  moreover have "drop (is_position is + length w) (is_input is) = concat g1"
    using arg_cong [OF d, of "drop (length w)"] by (simp add: add.commute)
  ultimately show ?thesis using assms(1,2) Cons l by (fastforce simp: is_holds_def)
next
  case Nil
  then have e: "\<not> is_position is < is_inputSize is" and b: "blocks plugins gs (is_commands is)"
    using assms(1) by (auto simp: is_holds_def)
  have c: "concat gs = w # ws" using assms(2) Nil by simp
  have "concat gs \<noteq> []" "[] \<notin> set (concat gs)" unfolding c using assms(3) by simp_all
  from getNextBuffer_block [OF b this] obtain p is1 g gs1 where
    nb: "is_getNextBuffer is = (Some p, is1)" "is_decompress plugins p = concat g" "op_dataSize p = length (concat g)"
      "g \<noteq> []" "blocks plugins gs1 (is_commands is1)" "concat gs = g @ concat gs1" by blast
  let ?is = "is1\<lparr>is_input := is_decompress plugins p, is_inputSize := op_dataSize p, is_position := 0\<rparr>"
  from nb(4,6) assms(2) Nil obtain g1 where g1: "g = w # g1" "g1 @ concat gs1 = ws" by (cases g) auto
  have w: "w \<noteq> []" using assms(3) by auto
  have "is_checkBuffer plugins is = is_checkBuffer plugins ?is" using e nb(1) by (subst is_checkBuffer.simps) simp
  also have "\<dots> = (True, ?is)" using nb(3) g1(1) w by (subst is_checkBuffer.simps) simp
  finally have "is_read plugins (length w) is = (Some w, ?is\<lparr>is_position := length w\<rparr>)"
    using nb(2,3) g1(1) by (simp add: is_read_def)
  moreover have "is_holds plugins g1 gs1 (?is\<lparr>is_position := length w\<rparr>)"
    using nb(2,3,5) g1(1) by (simp add: is_holds_def)
  ultimately show ?thesis using g1(2) by blast
qed

text \<open>A sequence of reads of the given sizes.\<close>

fun is_reads :: "Plugins \<Rightarrow> nat list \<Rightarrow> ObjectDataIStream \<Rightarrow> u8 list list option \<times> ObjectDataIStream" where
  "is_reads plugins [] is = (Some [], is)"
| "is_reads plugins (n # ns) is =
     (case is_read plugins n is of
        (None, is1) \<Rightarrow> (None, is1)
      | (Some b, is1) \<Rightarrow> apfst (map_option ((#) b)) (is_reads plugins ns is1))"

lemma is_reads_mirror:
  assumes "is_holds plugins g gs is" "g @ concat gs = ws" "[] \<notin> set ws"
  shows "fst (is_reads plugins (map length ws) is) = Some ws \<and> \<not> is_hasData plugins (snd (is_reads plugins (map length ws) is))"
  using assms
proof (induction ws arbitrary: g gs "is")
  case Nil
  then have "\<not> is_position is < is_inputSize is" by (auto simp: is_holds_def)
  moreover have "fst (is_getNextBuffer is) = None" using Nil getNextBuffer_empty by (auto simp: is_holds_def)
  ultimately show ?case by (simp add: is_hasData_def is_checkBuffer.simps [of plugins "is"] case_prod_unfold)
next
  case (Cons w ws)
  from is_read_mirror [OF Cons.prems] obtain is1 g1 gs1 where
    r: "is_read plugins (length w) is = (Some w, is1)" "is_holds plugins g1 gs1 is1" "g1 @ concat gs1 = ws" by blast
  from Cons.IH [OF r(2,3)] Cons.prems(3) r(1) show ?case by simp
qed

section \<open>Writing blocks\<close>

text \<open>Packets are cut between writes, and only when more than \<open>n\<close> bytes are buffered.\<close>

definition grouped :: "nat \<Rightarrow> u8 list list \<Rightarrow> u8 list list list \<Rightarrow> u8 list list \<Rightarrow> bool" where
  "grouped n ws gs g =
     (concat gs @ g = ws \<and> (\<forall>h \<in> set gs. n < length (concat h)) \<and> (ws \<noteq> [] \<longrightarrow> g \<noteq> []) \<and>
      (gs = [] \<longrightarrow> length (concat (butlast ws)) \<le> n))"

locale lossless_plugin =
  fixes cmp :: Compressor and plugins :: Plugins
  assumes lossless: "plugins (cmp_name cmp) (cmp_compress cmp x) (length x) = x"
begin

definition well_compressed :: "u8 list \<Rightarrow> ObjectDataOStream \<Rightarrow> bool" where
  "well_compressed src os =
     (case os_compressorState os of
        STATE_UNCOMPRESSED \<Rightarrow> True
      | STATE_UNCOMPRESSIBLE \<Rightarrow> True
      | _ \<Rightarrow> cmp_isValid cmp \<and> os_results os = cmp_compress cmp src)"

lemma compress_well:
  assumes "os_compressorState os = STATE_UNCOMPRESSED \<or> (os_compressorState os \<noteq> result \<or> well_compressed src os)"
    and "result = STATE_PARTIAL \<or> result = STATE_COMPLETE"
  shows "well_compressed src (os_compress cmp src result os)"
  using assms by (auto simp: well_compressed_def os_compress_def Let_def split: CompressorState.split)

lemma sendData_block:
  assumes "well_compressed src os" "os_connections os = receivers" "receivers \<noteq> []" "concat ws = src"
  shows "\<exists>p. os_sendData cmp src isLast os = os\<lparr>os_sequence := if isLast then 0 else os_sequence os + 1,
      os_sent := os_sent os @ [(receivers, p)]\<rparr> \<and>
    blocks plugins [ws] [p] \<and> op_last p = isLast \<and> op_version p = os_version os \<and>
    op_sequence p = os_sequence os \<and> op_command p = os_command os"
proof (cases "os_compressorState os = STATE_UNCOMPRESSED \<or> os_compressorState os = STATE_UNCOMPRESSIBLE")
  let ?p = "\<lambda>name chunks. \<lparr>op_command = os_command os, op_version = os_version os, op_sequence = os_sequence os,
    op_dataSize = length src, op_compressorName = name, op_chunks = chunks, op_last = isLast, op_nodeID = os_nodeID os,
    op_instanceID = os_instanceID os, op_masterInstanceID = os_masterInstanceID os\<rparr>"
  case True
  then show ?thesis using assms(2-4)
    by (intro exI [of _ "?p EQ_COMPRESSOR_NONE [src]"])
      (cases isLast, simp_all add: os_sendData_def os_sendPacket_def is_decompress_def Let_def)
next
  let ?p = "\<lambda>name chunks. \<lparr>op_command = os_command os, op_version = os_version os, op_sequence = os_sequence os,
    op_dataSize = length src, op_compressorName = name, op_chunks = chunks, op_last = isLast, op_nodeID = os_nodeID os,
    op_instanceID = os_instanceID os, op_masterInstanceID = os_masterInstanceID os\<rparr>"
  case False
  then have "cmp_name cmp \<noteq> EQ_COMPRESSOR_NONE" "os_results os = cmp_compress cmp src"
    using assms(1) by (cases "os_compressorState os"; auto simp: well_compressed_def cmp_isValid_def)+
  then show ?thesis using False assms(2-4) lossless [of src]
    by (intro exI [of _ "?p (cmp_name cmp) (cmp_compress cmp src)"])
      (cases isLast, simp_all add: os_sendData_def os_sendPacket_def is_decompress_def Let_def)
qed

lemma compress_fields [simp]:
  "os_connections (os_compress c src r os) = os_connections os" "os_sent (os_compress c src r os) = os_sent os"
  "os_version (os_compress c src r os) = os_version os" "os_sequence (os_compress c src r os) = os_sequence os"
  "os_command (os_compress c src r os) = os_command os" "os_buffer (os_compress c src r os) = os_buffer os"
  "os_save (os_compress c src r os) = os_save os" "os_enabled (os_compress c src r os) = os_enabled os"
  "os_dataSent (os_compress c src r os) = os_dataSent os" "os_dataSize (os_compress c src r os) = os_dataSize os"
  by (simp_all add: os_compress_def Let_def)

text \<open>The state of a stream that has sent the groups \<open>gs\<close> and buffers the writes \<open>g\<close>.\<close>

definition writing ::
  "u128 \<Rightarrow> NodeID list \<Rightarrow> (NodeID list \<times> ObjectDataPacket) list \<Rightarrow> u8 list list list \<Rightarrow> u8 list list \<Rightarrow>
   ObjectDataOStream \<Rightarrow> bool" where
  "writing v receivers pre gs g os =
     (os_enabled os \<and> os_connections os = receivers \<and> os_version os = v \<and>
      os_compressorState os = STATE_UNCOMPRESSED \<and> os_dataSent os = (gs \<noteq> []) \<and>
      os_bufferStart os = (if os_save os then length (concat (concat gs)) else 0) \<and>
      os_buffer os = (if os_save os then concat (concat gs) else []) @ concat g \<and>
      (\<exists>ps. os_sent os = pre @ map (Pair receivers) ps \<and> os_sequence os = of_nat (length ps) \<and>
         (receivers \<noteq> [] \<longrightarrow> blocks plugins gs ps) \<and> (receivers = [] \<longrightarrow> ps = []) \<and>
         (\<forall>i < length ps. op_version (ps ! i) = v \<and> \<not> op_last (ps ! i) \<and> op_sequence (ps ! i) = of_nat i)))"

lemma drop_pending: "writing v receivers pre gs g os \<Longrightarrow> drop (os_bufferStart os) (os_buffer os) = concat g"
  by (simp add: writing_def)

lemma writing_enable: "os_sequence os = 0 \<Longrightarrow> writing v receivers (os_sent os) [] [] (os_enableCommit v receivers os)"
  by (simp add: writing_def os_enableCommit_def os_enable_def)

lemma writing_flush:
  assumes "writing v receivers pre gs g os"
  shows "writing v receivers pre (gs @ [g]) [] (os_flush cmp os)"
proof (cases "receivers = []")
  case True
  then show ?thesis using assms drop_pending [OF assms]
    by (auto simp: writing_def os_flush_def os_resetBuffer_def Let_def)
next
  case False
  let ?os = "os_compress cmp (concat g) STATE_PARTIAL (os\<lparr>os_compressorState := STATE_UNCOMPRESSED\<rparr>)"
  have w: "well_compressed (concat g) ?os" by (rule compress_well) auto
  obtain ps where ps: "os_sent os = pre @ map (Pair receivers) ps" "os_sequence os = of_nat (length ps)"
      "blocks plugins gs ps" "\<And>i. i < length ps \<Longrightarrow> op_version (ps ! i) = v \<and> \<not> op_last (ps ! i) \<and> op_sequence (ps ! i) = of_nat i"
    using assms False unfolding writing_def by blast
  from sendData_block [OF w _ False refl, of False] assms obtain p where
    p: "os_sendData cmp (concat g) False ?os = ?os\<lparr>os_sequence := os_sequence os + 1, os_sent := os_sent os @ [(receivers, p)]\<rparr>"
      "blocks plugins [g] [p]" "\<not> op_last p" "op_version p = v" "op_sequence p = os_sequence os"
    unfolding writing_def by auto
  have f: "os_flush cmp os = os_resetBuffer (?os\<lparr>os_sequence := os_sequence os + 1, os_sent := os_sent os @ [(receivers, p)], os_dataSent := True\<rparr>)"
    using assms False p(1) drop_pending [OF assms] by (simp add: os_flush_def writing_def)
  show ?thesis unfolding writing_def f
    using assms False ps p(2-5) blocks_append [OF ps(3) p(2)]
    by (auto simp: os_resetBuffer_def Let_def writing_def nth_append less_Suc_eq intro!: exI [of _ "ps @ [p]"])
qed

lemma writing_write:
  assumes "writing v receivers pre gs g os" "grouped n ws gs g"
  shows "\<exists>gs' g'. writing v receivers pre gs' g' (os_write cmp n w os) \<and> grouped n (ws @ [w]) gs' g'"
proof (cases "n < length (os_buffer os) - os_bufferStart os")
  case True
  then have "n < length (concat g)" using drop_pending [OF assms(1)] by (metis length_drop)
  moreover have "writing v receivers pre (gs @ [g]) ([] @ [w]) (os_write cmp n w os)"
    using writing_flush [OF assms(1)] True by (simp add: os_write_def writing_def Let_def)
  ultimately show ?thesis using assms(2)
    by (intro exI [of _ "gs @ [g]"] exI [of _ "[] @ [w]"]) (auto simp: grouped_def)
next
  case False
  then have "length (concat g) \<le> n" using drop_pending [OF assms(1)] by (metis length_drop not_le)
  moreover have "writing v receivers pre gs (g @ [w]) (os_write cmp n w os)"
    using assms(1) False by (simp add: os_write_def writing_def)
  ultimately show ?thesis using assms(2)
    by (intro exI [of _ gs] exI [of _ "g @ [w]"]) (auto simp: grouped_def)
qed

lemma writing_writes:
  assumes "writing v receivers pre gs g os" "grouped n ws gs g"
  shows "\<exists>gs' g'. writing v receivers pre gs' g' (fold (os_write cmp n) ws' os) \<and> grouped n (ws @ ws') gs' g'"
  using assms
proof (induction ws' arbitrary: os gs g ws)
  case (Cons w ws')
  from writing_write [OF Cons.prems, of w] obtain gs' g' where
    w: "writing v receivers pre gs' g' (os_write cmp n w os)" "grouped n (ws @ [w]) gs' g'" by blast
  from Cons.IH [OF w] show ?case by simp
qed auto

text \<open>The finished stream.\<close>

definition complete :: "u128 \<Rightarrow> u8 list list list \<Rightarrow> ObjectDataPacket list \<Rightarrow> bool" where
  "complete v gs ps =
     (ps \<noteq> [] \<and> blocks plugins gs ps \<and>
      (\<forall>i < length ps. op_version (ps ! i) = v \<and> op_last (ps ! i) = (i = length ps - 1) \<and> op_sequence (ps ! i) = of_nat i))"

lemma writing_finish:
  assumes w: "writing v receivers pre gs g os" and "receivers \<noteq> []"
    and s: "os_sendData cmp (concat g) True os1 = os1\<lparr>os_sequence := 0, os_sent := os_sent os @ [(receivers, p)]\<rparr>"
    and p: "blocks plugins [g] [p]" "op_last p" "op_version p = v" "op_sequence p = os_sequence os"
  shows "\<exists>ps. os_sent (os_sendData cmp (concat g) True os1) = pre @ map (Pair receivers) ps \<and> complete v (gs @ [g]) ps"
proof -
  obtain ps where ps: "os_sent os = pre @ map (Pair receivers) ps" "os_sequence os = of_nat (length ps)"
      "blocks plugins gs ps" "\<And>i. i < length ps \<Longrightarrow> op_version (ps ! i) = v \<and> \<not> op_last (ps ! i) \<and> op_sequence (ps ! i) = of_nat i"
    using w assms(2) unfolding writing_def by blast
  have "complete v (gs @ [g]) (ps @ [p])"
    using ps(2-4) p blocks_append [OF ps(3) p(1)] by (auto simp: complete_def nth_append less_Suc_eq)
  then show ?thesis using ps(1) s by (intro exI [of _ "ps @ [p]"]) simp
qed

lemma writing_disable:
  assumes w: "writing v receivers pre gs g os" and r: "receivers \<noteq> []" and ne: "gs \<noteq> [] \<or> concat g \<noteq> []"
  shows "\<exists>ps. os_sent (os_disable cmp os) = pre @ map (Pair receivers) ps \<and> complete v (gs @ [g]) ps"
proof (cases "gs = []")
  case True
  let ?osd = "os\<lparr>os_dataSize := length (os_buffer os), os_dataSent := True\<rparr>"
  let ?os1 = "os_compress cmp (concat g) STATE_COMPLETE (?osd\<lparr>os_compressorState := STATE_UNCOMPRESSED\<rparr>)"
  have b: "os_buffer os = concat g" "\<not> os_dataSent os" "os_enabled os" "os_connections os = receivers"
    using w True by (auto simp: writing_def)
  have "well_compressed (concat g) ?os1" by (rule compress_well) auto
  from sendData_block [OF this _ r refl, of True] w obtain p where
    p: "os_sendData cmp (concat g) True ?os1 = ?os1\<lparr>os_sequence := 0, os_sent := os_sent os @ [(receivers, p)]\<rparr>"
      "blocks plugins [g] [p]" "op_last p" "op_version p = v" "op_sequence p = os_sequence os"
    unfolding writing_def by auto
  have "os_sent (os_disable cmp os) = os_sent (os_sendData cmp (concat g) True ?os1)"
    using b r ne True by (simp add: os_disable_def Let_def)
  with writing_finish [OF w r p] show ?thesis by simp
next
  case False
  let ?osd = "os\<lparr>os_dataSize := length (os_buffer os)\<rparr>"
  let ?os1 = "os_compress cmp (concat g) STATE_PARTIAL (?osd\<lparr>os_compressorState := STATE_UNCOMPRESSED\<rparr>)"
  have "well_compressed (concat g) ?os1" by (rule compress_well) auto
  from sendData_block [OF this _ r refl, of True] w obtain p where
    p: "os_sendData cmp (concat g) True ?os1 = ?os1\<lparr>os_sequence := 0, os_sent := os_sent os @ [(receivers, p)]\<rparr>"
      "blocks plugins [g] [p]" "op_last p" "op_version p = v" "op_sequence p = os_sequence os"
    unfolding writing_def by auto
  have "os_sent (os_disable cmp os) = os_sent (os_sendData cmp (concat g) True ?os1)"
    using w r False drop_pending [OF w] by (simp add: os_disable_def Let_def writing_def)
  with writing_finish [OF w r p] show ?thesis by simp
qed

section \<open>Receiving\<close>

lemma add_packets:
  assumes "\<forall>p \<in> set ps. \<not> op_last p"
  shows "fold is_addDataPacket ps is = is\<lparr>is_commands := is_commands is @ ps\<rparr>"
  using assms by (induction ps arbitrary: "is") (auto simp: is_addDataPacket_def Let_def)

lemma receive_complete:
  assumes "complete v gs ps" "v \<noteq> VERSION_INVALID"
  shows "is_isReady (fold is_addDataPacket ps new_istream) \<and> is_version (fold is_addDataPacket ps new_istream) = v \<and>
    (\<forall>k < length ps. \<not> is_isReady (fold is_addDataPacket (take k ps) new_istream)) \<and>
    is_holds plugins [] gs (fold is_addDataPacket ps new_istream)"
proof -
  have n: "\<not> op_last p" if "p \<in> set (butlast ps)" for p
    using that assms(1) by (auto simp: complete_def in_set_conv_nth nth_butlast)
  have l: "op_last (last ps)" "op_version (last ps) = v" "ps \<noteq> []"
    using assms(1) by (auto simp: complete_def last_conv_nth)
  have f: "fold is_addDataPacket ps new_istream = new_istream\<lparr>is_commands := ps, is_version := v\<rparr>"
    using add_packets [of "butlast ps" new_istream] n l
      fold_append [of is_addDataPacket "butlast ps" "[last ps]"]
    by (simp add: is_addDataPacket_def is_getPendingVersion_def new_istream_def Let_def)
  have "\<not> is_isReady (fold is_addDataPacket (take k ps) new_istream)" if "k < length ps" for k
  proof -
    have "take k ps = take k (butlast ps)" using that by (simp add: take_butlast)
    then have "\<forall>p \<in> set (take k ps). \<not> op_last p" using n by (metis in_set_takeD)
    then show ?thesis using add_packets [of "take k ps" new_istream] by (simp add: is_isReady_def new_istream_def)
  qed
  moreover have "is_holds plugins [] gs (new_istream\<lparr>is_commands := ps, is_version := v\<rparr>)"
    using assms(1) by (simp add: is_holds_def complete_def new_istream_def)
  ultimately show ?thesis using f assms(2) by (simp add: is_isReady_def)
qed

text \<open>The saved data of a stream, and sending it again.\<close>

definition saved :: "u8 list \<Rightarrow> ObjectDataOStream \<Rightarrow> bool" where
  "saved data os =
     (take (os_dataSize os) (os_buffer os) = data \<and> os_sequence os = 0 \<and>
      (os_compressorState os = STATE_COMPLETE \<longrightarrow> well_compressed data os))"

lemma resend_complete:
  assumes "saved data os" "os_connections os = receivers" "receivers \<noteq> []" "concat ws = data"
  shows "\<exists>p. os_sent (os_resend cmp os) = os_sent os @ [(receivers, p)] \<and> complete (os_version os) [ws] [p] \<and>
    op_command p = os_command os \<and> saved data (os_resend cmp os)"
proof -
  let ?os = "os_compress cmp data STATE_COMPLETE os"
  have w: "well_compressed data ?os" using assms(1) by (intro compress_well) (auto simp: saved_def)
  from sendData_block [OF w _ assms(3,4), of True] assms(2) obtain p where
    p: "os_sendData cmp data True ?os = ?os\<lparr>os_sequence := 0, os_sent := os_sent os @ [(receivers, p)]\<rparr>"
      "blocks plugins [ws] [p]" "op_last p" "op_version p = os_version os" "op_sequence p = os_sequence os" "op_command p = os_command os"
    by auto
  have r: "os_resend cmp os = ?os\<lparr>os_sequence := 0, os_sent := os_sent os @ [(receivers, p)]\<rparr>"
    using assms(1) p(1) by (simp add: os_resend_def saved_def)
  have "saved data (os_resend cmp os)" using assms(1) w unfolding r by (auto simp: saved_def well_compressed_def)
  then show ?thesis using p assms(1) r by (intro exI [of _ p]) (simp add: complete_def saved_def)
qed

end

section \<open>Streams with the run-length plugin\<close>

definition EQ_COMPRESSOR_RLE_BYTE :: u32 where "EQ_COMPRESSOR_RLE_BYTE = 3"

definition rleb_compressor :: Compressor where
  "rleb_compressor = \<lparr>cmp_name = EQ_COMPRESSOR_RLE_BYTE,
     cmp_compress = (\<lambda>x. case RLEB_compress None x of Some r \<Rightarrow> r | None \<Rightarrow> [])\<rparr>"

definition rleb_plugins :: Plugins where
  "rleb_plugins name ins n = (case RLEB_decompress ins (replicate n 0) of Some d \<Rightarrow> d | None \<Rightarrow> [])"

interpretation rleb_stream: lossless_plugin rleb_compressor rleb_plugins
proof
  fix x :: "u8 list"
  have "Option.bind (RLEB_compress None x) (\<lambda>r. RLEB_decompress r (replicate (length x) 0)) = Some x"
    by (rule RLEB_inverse) (simp_all add: rleb_sizes_ok_def)
  then show "rleb_plugins (cmp_name rleb_compressor) (cmp_compress rleb_compressor x) (length x) = x"
    by (auto simp: rleb_plugins_def rleb_compressor_def split: Option.bind_splits)
qed

section \<open>The round trip\<close>

lemma committed_stream:
  assumes "lossless_plugin cmp plugins" "ws \<noteq> []" "[] \<notin> set ws" "receivers \<noteq> []" "v \<noteq> VERSION_INVALID" "os_sequence os = 0"
  obtains gs g ps where
    "os_sent (os_disable cmp (fold (os_write cmp n) ws (os_enableCommit v receivers os))) = os_sent os @ map (Pair receivers) ps"
    "grouped n ws gs g" "lossless_plugin.complete plugins v (gs @ [g]) ps"
    "is_holds plugins [] (gs @ [g]) (fold is_addDataPacket ps new_istream)"
proof -
  note w0 = lossless_plugin.writing_enable [OF assms(1,6)]
  have "grouped n [] [] []" by (simp add: grouped_def)
  from lossless_plugin.writing_writes [OF assms(1) w0 this, of v receivers ws] obtain gs g where
    w: "lossless_plugin.writing plugins v receivers (os_sent os) gs g (fold (os_write cmp n) ws (os_enableCommit v receivers os))"
      "grouped n ws gs g" by auto
  have "gs \<noteq> [] \<or> concat g \<noteq> []"
    using w(2) assms(2,3) by (cases g) (auto simp: grouped_def)
  from lossless_plugin.writing_disable [OF assms(1) w(1) assms(4) this] obtain ps where
    ps: "os_sent (os_disable cmp (fold (os_write cmp n) ws (os_enableCommit v receivers os))) = os_sent os @ map (Pair receivers) ps"
      "lossless_plugin.complete plugins v (gs @ [g]) ps" by blast
  from lossless_plugin.receive_complete [OF assms(1) ps(2) assms(5)] have "is_holds plugins [] (gs @ [g]) (fold is_addDataPacket ps new_istream)"
    by blast
  with that ps w(2) show ?thesis by blast
qed

text \<open>C6. A committed stream arrives: for every list of writes, however they are grouped into
  packets and compressed, the packets are numbered from zero, only the final one completes the
  stream at the receiver, and reads that mirror the writes return the written data and leave
  nothing behind. The compressor may be any plugin whose decompression inverts its compression.\<close>

theorem stream_roundtrip:
  assumes "lossless_plugin cmp plugins" "ws \<noteq> []" "[] \<notin> set ws" "receivers \<noteq> []" "v \<noteq> VERSION_INVALID" "os_sequence os = 0"
  shows "\<exists>ps. os_sent (os_disable cmp (fold (os_write cmp n) ws (os_enableCommit v receivers os))) = os_sent os @ map (Pair receivers) ps \<and>
    (\<forall>i < length ps. op_sequence (ps ! i) = of_nat i \<and> op_version (ps ! i) = v) \<and>
    (\<forall>k < length ps. \<not> is_isReady (fold is_addDataPacket (take k ps) new_istream)) \<and>
    (let is = fold is_addDataPacket ps new_istream; (got, is1) = is_reads plugins (map length ws) is
     in is_isReady is \<and> is_version is = v \<and> got = Some ws \<and> \<not> is_hasData plugins is1)"
proof -
  from committed_stream [OF assms] obtain gs g ps where
    ps: "os_sent (os_disable cmp (fold (os_write cmp n) ws (os_enableCommit v receivers os))) = os_sent os @ map (Pair receivers) ps"
      "grouped n ws gs g" "lossless_plugin.complete plugins v (gs @ [g]) ps"
      "is_holds plugins [] (gs @ [g]) (fold is_addDataPacket ps new_istream)" .
  note r = lossless_plugin.receive_complete [OF assms(1) ps(3) assms(5)]
  have "[] @ concat (gs @ [g]) = ws" using ps(2) by (simp add: grouped_def)
  note m = is_reads_mirror [OF ps(4) this assms(3)]
  from m r ps show ?thesis
    by (intro exI [of _ ps]) (auto simp: lossless_plugin.complete_def [OF assms(1)] Let_def case_prod_unfold)
qed

definition demo_writes :: "u8 list list" where
  "demo_writes = [[1, 2, 3], [7, 7, 7, 7], [9]]"

theorem stream_roundtrip_witness:
  "\<exists>ps. os_sent (os_disable rleb_compressor (fold (os_write rleb_compressor 2) demo_writes
      (os_enableCommit 5 [8] (new_ostream CMD_OBJECT_DELTA 0)))) = map (Pair [8]) ps \<and>
    fst (is_reads rleb_plugins (map length demo_writes) (fold is_addDataPacket ps new_istream)) = Some demo_writes"
proof -
  have "demo_writes \<noteq> []" "[] \<notin> set demo_writes" by (simp_all add: demo_writes_def)
  from stream_roundtrip [OF rleb_stream.lossless_plugin_axioms this, of "[8]" 5 "new_ostream CMD_OBJECT_DELTA 0" 2]
  show ?thesis by (auto simp: new_ostream_def VERSION_INVALID_def Let_def case_prod_unfold)
qed

end
