(* ===== verification/Object_Master.thy ===== *)
theory Object_Master
  imports Data_Roundtrip
begin

text \<open>
  The change managers of versioned master objects (\<open>libs/co/objectCM.cpp\<close>,
  \<open>versionedMasterCM.cpp\<close>, \<open>fullMasterCM.cpp\<close>, \<open>deltaMasterCM.cpp\<close>, \<open>unbufferedMasterCM.cpp\<close>): the
  versions a master retains, the slaves it knows, and what it sends to them.

  The object itself is application code. What its \<open>getInstanceData\<close> and \<open>pack\<close> write, and whether
  it is dirty, are arguments of the operations. Nodes are their identifiers. Packets are appended
  to \<open>mc_out\<close> in the order they are sent. An operation that waits for a slave returns \<open>None\<close>.
\<close>

section \<open>State\<close>

record InstanceData =
  id_os :: ObjectDataOStream
  id_commitCount :: u32

record SlaveData =
  sd_node :: NodeID
  sd_maxVersion :: u64
  sd_instanceID :: u32

record MapRequest =
  mr_requestedVersion :: u128
  mr_minCachedVersion :: u128
  mr_maxCachedVersion :: u128
  mr_maxVersion :: u64
  mr_instanceID :: u32
  mr_masterInstanceID :: u32
  mr_useCache :: bool

record MapReply =
  rp_node :: NodeID
  rp_version :: u128
  rp_result :: bool
  rp_releaseCache :: bool
  rp_useCache :: bool

datatype MasterPacket =
    OBJECT_DATA ObjectDataPacket
  | MAP_SUCCESS NodeID u32 u32
  | MAP_REPLY MapReply

record MasterCM =
  mc_version :: u128
  mc_maxVersion :: u64
  mc_slaves :: "NodeID list"
  mc_slaveData :: "SlaveData list"
  mc_instanceID :: u32
  mc_commitCount :: u32
  mc_nVersions :: u32
  mc_instanceDatas :: "InstanceData list"
  mc_instanceDataCache :: "InstanceData list"
  mc_deltaData :: ObjectDataOStream
  mc_out :: "(NodeID list \<times> MasterPacket) list"

definition new_master :: "u32 \<Rightarrow> MasterCM" where
  "new_master instanceID = \<lparr>mc_version = VERSION_NONE, mc_maxVersion = -1, mc_slaves = [], mc_slaveData = [],
     mc_instanceID = instanceID, mc_commitCount = 0, mc_nVersions = 0, mc_instanceDatas = [], mc_instanceDataCache = [],
     mc_deltaData = new_ostream CMD_OBJECT_DELTA instanceID, mc_out = []\<rparr>"

definition CO_COMMIT_NEXT :: u32 where "CO_COMMIT_NEXT = -1"

definition emit :: "NodeID list \<Rightarrow> MasterPacket \<Rightarrow> MasterCM \<Rightarrow> MasterCM" where
  "emit nodes p cm = cm\<lparr>mc_out := mc_out cm @ [(nodes, p)]\<rparr>"

text \<open>What a stream has sent goes to the output of the master.\<close>

definition emit_stream :: "ObjectDataOStream \<Rightarrow> MasterCM \<Rightarrow> MasterCM" where
  "emit_stream os cm = cm\<lparr>mc_out := mc_out cm @ map (apsnd OBJECT_DATA) (os_sent os)\<rparr>"

section \<open>Retained versions\<close>

definition newInstanceData :: "MasterCM \<Rightarrow> InstanceData \<times> MasterCM" where
  "newInstanceData cm =
     (let (os, cm1) =
        (if mc_instanceDataCache cm = [] then (new_ostream CMD_NODE_OBJECT_INSTANCE (mc_instanceID cm), cm)
         else (id_os (last (mc_instanceDataCache cm)), cm\<lparr>mc_instanceDataCache := butlast (mc_instanceDataCache cm)\<rparr>))
      in (\<lparr>id_os = os_enableSave (ios_reset os), id_commitCount = mc_commitCount cm\<rparr>, cm1))"

definition releaseInstanceData :: "InstanceData \<Rightarrow> MasterCM \<Rightarrow> MasterCM" where
  "releaseInstanceData data cm = cm\<lparr>mc_instanceDataCache := mc_instanceDataCache cm @ [data]\<rparr>"

definition addInstanceData :: "InstanceData \<Rightarrow> MasterCM \<Rightarrow> MasterCM" where
  "addInstanceData data cm = cm\<lparr>mc_instanceDatas := mc_instanceDatas cm @ [data]\<rparr>"

text \<open>One serialization into an instance data stream.\<close>

definition serialize_instance ::
  "Compressor \<Rightarrow> nat \<Rightarrow> u128 \<Rightarrow> NodeID list \<Rightarrow> u8 list list \<Rightarrow> InstanceData \<Rightarrow> InstanceData" where
  "serialize_instance cmp bufSize version nodes writes data =
     data\<lparr>id_os := os_disable cmp (fold (os_write cmp bufSize) writes (ios_enableCommit version nodes (id_os data)))\<rparr>"

definition keep_instance :: "InstanceData \<Rightarrow> InstanceData" where
  "keep_instance data = data\<lparr>id_os := (id_os data)\<lparr>os_sent := []\<rparr>\<rparr>"

definition fm_init :: "Compressor \<Rightarrow> nat \<Rightarrow> u8 list list \<Rightarrow> MasterCM \<Rightarrow> MasterCM" where
  "fm_init cmp bufSize inst cm =
     (let (data, cm1) = newInstanceData cm;
          data1 = serialize_instance cmp bufSize VERSION_FIRST (mc_slaves cm1) inst data;
          cm2 = addInstanceData (keep_instance data1) (emit_stream (id_os data1) cm1)
      in cm2\<lparr>mc_version := mc_version cm2 + 1, mc_commitCount := mc_commitCount cm2 + 1\<rparr>)"

fun drop_future :: "u32 \<Rightarrow> InstanceData list \<Rightarrow> InstanceData list \<times> InstanceData list" where
  "drop_future commitCount [] = ([], [])"
| "drop_future commitCount [d] = ([d], [])"
| "drop_future commitCount (d # ds) =
     (if id_commitCount (last (d # ds)) \<le> commitCount then (d # ds, [])
      else (case drop_future commitCount (butlast (d # ds)) of (kept, released) \<Rightarrow> (kept, last (d # ds) # released)))"

definition updateCommitCount :: "u32 \<Rightarrow> MasterCM \<Rightarrow> MasterCM" where
  "updateCommitCount incarnation cm =
     (if incarnation = CO_COMMIT_NEXT then cm\<lparr>mc_commitCount := mc_commitCount cm + 1\<rparr>
      else if mc_commitCount cm \<le> incarnation then cm\<lparr>mc_commitCount := incarnation\<rparr>
      else
        let (kept, released) = drop_future incarnation (mc_instanceDatas cm);
            cm1 = fold releaseInstanceData released (cm\<lparr>mc_commitCount := incarnation, mc_instanceDatas := kept\<rparr>);
            data = last kept
        in if incarnation < id_commitCount data
           then cm1\<lparr>mc_instanceDatas := butlast kept @ [data\<lparr>id_commitCount := 0\<rparr>], mc_version := os_version (id_os data)\<rparr>
           else cm1)"

fun drop_obsolete :: "u32 \<Rightarrow> u32 \<Rightarrow> InstanceData list \<Rightarrow> InstanceData list \<times> InstanceData list" where
  "drop_obsolete commitCount nVersions (d # e # ds) =
     (if nVersions < commitCount \<and> id_commitCount d < commitCount - nVersions
      then (case drop_obsolete commitCount nVersions (e # ds) of (kept, released) \<Rightarrow> (kept, d # released))
      else (d # e # ds, []))"
| "drop_obsolete commitCount nVersions ds = (ds, [])"

definition obsolete :: "MasterCM \<Rightarrow> MasterCM" where
  "obsolete cm =
     (let (kept, released) = drop_obsolete (mc_commitCount cm) (mc_nVersions cm) (mc_instanceDatas cm)
      in fold releaseInstanceData released (cm\<lparr>mc_instanceDatas := kept\<rparr>))"

definition setAutoObsolete :: "u32 \<Rightarrow> MasterCM \<Rightarrow> MasterCM" where
  "setAutoObsolete count cm = obsolete (cm\<lparr>mc_nVersions := count\<rparr>)"

section \<open>Committing\<close>

definition full_commit :: "Compressor \<Rightarrow> nat \<Rightarrow> u8 list list \<Rightarrow> MasterCM \<Rightarrow> MasterCM" where
  "full_commit cmp bufSize inst cm =
     (let (data, cm1) = newInstanceData cm;
          data1 = serialize_instance cmp bufSize (mc_version cm1 + 1) (mc_slaves cm1) inst data;
          cm2 = emit_stream (id_os data1) cm1
      in if os_dataSent (id_os data1)
         then addInstanceData (keep_instance data1) (cm2\<lparr>mc_version := mc_version cm2 + 1\<rparr>)
         else releaseInstanceData (keep_instance data1) cm2)"

definition delta_commit :: "Compressor \<Rightarrow> nat \<Rightarrow> u8 list list \<Rightarrow> u8 list list \<Rightarrow> MasterCM \<Rightarrow> MasterCM" where
  "delta_commit cmp bufSize inst delta cm =
     (let cm1 =
        (if mc_slaves cm \<noteq> [] then
           let os = os_disable cmp (fold (os_write cmp bufSize) delta
                      (os_enableCommit (mc_version cm + 1) (mc_slaves cm) (os_reset (mc_deltaData cm))))
           in (emit_stream os cm)\<lparr>mc_deltaData := os\<lparr>os_sent := []\<rparr>\<rparr>
         else cm)
      in if mc_slaves cm1 = [] \<or> os_dataSent (mc_deltaData cm1) then
           let (data, cm2) = newInstanceData cm1;
               data1 = serialize_instance cmp bufSize (mc_version cm2 + 1) [] inst data
           in if os_dataSent (mc_deltaData cm2) \<or> os_dataSent (id_os data1)
              then addInstanceData (keep_instance data1) (cm2\<lparr>mc_version := mc_version cm2 + 1\<rparr>)
              else releaseInstanceData (keep_instance data1) cm2
         else cm1)"

definition waitGE :: "MasterCM \<Rightarrow> bool" where
  "waitGE cm = (ucast (mc_version cm) + 1 \<le> mc_maxVersion cm)"

text \<open>The argument \<open>do_commit\<close> is the virtual \<open>_commit\<close>: \<open>full_commit\<close> or \<open>delta_commit\<close>.\<close>

definition fm_commit :: "(MasterCM \<Rightarrow> MasterCM) \<Rightarrow> bool \<Rightarrow> u32 \<Rightarrow> MasterCM \<Rightarrow> (u128 \<times> MasterCM) option" where
  "fm_commit do_commit isDirty incarnation cm =
     (if \<not> isDirty then
        let cm1 = obsolete (updateCommitCount incarnation cm) in Some (mc_version cm1, cm1)
      else if \<not> waitGE cm then None
      else
        let cm1 = obsolete (do_commit (updateCommitCount incarnation cm)) in Some (mc_version cm1, cm1))"

definition unbuffered_commit :: "Compressor \<Rightarrow> nat \<Rightarrow> bool \<Rightarrow> u8 list list \<Rightarrow> MasterCM \<Rightarrow> (u128 \<times> MasterCM) option" where
  "unbuffered_commit cmp bufSize isDirty delta cm =
     (if \<not> isDirty then Some (mc_version cm, cm)
      else if \<not> waitGE cm then None
      else if mc_slaves cm = [] then Some (mc_version cm, cm)
      else
        let os = os_disable cmp (fold (os_write cmp bufSize) delta
                   (os_enableCommit (mc_version cm + 1) (mc_slaves cm) (new_ostream CMD_OBJECT_DELTA (mc_instanceID cm))));
            cm1 = emit_stream os cm;
            cm2 = (if os_dataSent os then cm1\<lparr>mc_version := mc_version cm1 + 1\<rparr> else cm1)
        in Some (mc_version cm2, cm2))"

definition fm_push :: "Compressor \<Rightarrow> NodeID list \<Rightarrow> MasterCM \<Rightarrow> MasterCM" where
  "fm_push cmp nodes cm =
     (let data = last (mc_instanceDatas cm);
          data1 = data\<lparr>id_os := ios_push cmp nodes (id_os data)\<rparr>
      in (emit_stream (id_os data1) cm)\<lparr>mc_instanceDatas := butlast (mc_instanceDatas cm) @ [keep_instance data1]\<rparr>)"

definition fm_sendInstanceData :: "Compressor \<Rightarrow> NodeID list \<Rightarrow> MasterCM \<Rightarrow> MasterCM" where
  "fm_sendInstanceData cmp nodes cm =
     (if mc_slaves cm \<noteq> [] then cm
      else
        let data = last (mc_instanceDatas cm);
            data1 = data\<lparr>id_os := ios_sendInstanceData cmp nodes (id_os data)\<rparr>
        in (emit_stream (id_os data1) cm)\<lparr>mc_instanceDatas := butlast (mc_instanceDatas cm) @ [keep_instance data1]\<rparr>)"

section \<open>Slaves\<close>

definition usort :: "NodeID list \<Rightarrow> NodeID list" where
  "usort nodes = sort (remdups nodes)"

lemma usort_props [simp]: "distinct (usort ns)" "set (usort ns) = set ns"
  by (simp_all add: usort_def)

fun min_version :: "SlaveData list \<Rightarrow> u64 \<Rightarrow> u64" where
  "min_version [] maxVersion = maxVersion"
| "min_version (s # ss) maxVersion =
     min_version ss (if sd_maxVersion s \<noteq> -1 \<and> sd_maxVersion s < maxVersion then sd_maxVersion s else maxVersion)"

definition updateMaxVersion :: "MasterCM \<Rightarrow> MasterCM" where
  "updateMaxVersion cm = cm\<lparr>mc_maxVersion := min_version (mc_slaveData cm) (-1)\<rparr>"

definition sendEmptyVersion :: "NodeID \<Rightarrow> u32 \<Rightarrow> u128 \<Rightarrow> MasterCM \<Rightarrow> MasterCM" where
  "sendEmptyVersion node instanceID version cm =
     emit [node] (OBJECT_DATA \<lparr>op_command = CMD_OBJECT_INSTANCE, op_version = version, op_sequence = 0, op_dataSize = 0,
       op_compressorName = 0, op_chunks = [], op_last = True, op_nodeID = 0, op_instanceID = instanceID,
       op_masterInstanceID = mc_instanceID cm\<rparr>) cm"

text \<open>The instance data from \<open>start\<close> to \<open>end\<close>; the success packet goes before the first one.\<close>

fun send_range ::
  "Compressor \<Rightarrow> NodeID \<Rightarrow> u32 \<Rightarrow> u128 \<Rightarrow> u128 \<Rightarrow> MasterPacket \<Rightarrow> InstanceData list \<Rightarrow> bool \<times> (NodeID list \<times> MasterPacket) list
   \<Rightarrow> InstanceData list \<times> bool \<times> (NodeID list \<times> MasterPacket) list" where
  "send_range cmp node instanceID start end success [] (sent, out) = ([], sent, out)"
| "send_range cmp node instanceID start end success (d # ds) (sent, out) =
     (if os_version (id_os d) < start then
        apfst ((#) d) (send_range cmp node instanceID start end success ds (sent, out))
      else if end < os_version (id_os d) then (d # ds, sent, out)
      else
        let d1 = d\<lparr>id_os := ios_sendMapData cmp node instanceID (id_os d)\<rparr>;
            out1 = (if sent then out else out @ [([node], success)])
        in apfst ((#) (keep_instance d1))
             (send_range cmp node instanceID start end success ds (True, out1 @ map (apsnd OBJECT_DATA) (os_sent (id_os d1)))))"

definition map_start :: "u128 \<Rightarrow> u128 \<Rightarrow> u128" where
  "map_start version oldest = (if version = VERSION_OLDEST \<or> version < oldest then oldest else version)"

text \<open>The versions to send, less those that the slave has cached at either end.\<close>

definition map_range :: "bool \<Rightarrow> MapRequest \<Rightarrow> u128 \<Rightarrow> u128 \<Rightarrow> u128 \<times> u128" where
  "map_range useCache packet start version =
     (if useCache then
        if mr_minCachedVersion packet \<le> start \<and> start \<le> mr_maxCachedVersion packet
        then (mr_maxCachedVersion packet + 1, version)
        else if mr_maxCachedVersion packet = version
        then (start, max start (mr_minCachedVersion packet - 1))
        else (start, version)
      else (start, version))"

definition fm_initSlave :: "Compressor \<Rightarrow> NodeID \<Rightarrow> MapRequest \<Rightarrow> MasterPacket \<Rightarrow> MapReply \<Rightarrow> MasterCM \<Rightarrow> MasterCM" where
  "fm_initSlave cmp node packet success reply cm =
     (let oldest = os_version (id_os (hd (mc_instanceDatas cm)));
          start = map_start (mr_requestedVersion packet) oldest;
          reply1 = reply\<lparr>rp_version := start\<rparr>;
          (start1, end1) = map_range (rp_useCache reply) packet start (mc_version cm);
          (datas, sent, out) = send_range cmp node (mr_instanceID packet) start1 end1 success (mc_instanceDatas cm) (False, mc_out cm);
          cm1 = cm\<lparr>mc_instanceDatas := datas, mc_out := out\<rparr>
      in if sent then emit [node] (MAP_REPLY reply1) cm1
         else emit [node] (MAP_REPLY reply1) (emit [node] success cm1))"

text \<open>\<open>ObjectCM::_initSlave\<close>, used by managers that do not buffer.\<close>

definition cm_initSlave ::
  "Compressor \<Rightarrow> nat \<Rightarrow> u8 list list \<Rightarrow> NodeID \<Rightarrow> MapRequest \<Rightarrow> MasterPacket \<Rightarrow> MapReply \<Rightarrow> MasterCM \<Rightarrow> MasterCM" where
  "cm_initSlave cmp bufSize inst node packet success reply cm =
     (if rp_useCache reply \<and> mr_minCachedVersion packet \<le> rp_version reply \<and> rp_version reply \<le> mr_maxCachedVersion packet
      then emit [node] (MAP_REPLY reply) (emit [node] success cm)
      else
        let reply1 = reply\<lparr>rp_useCache := False\<rparr>;
            cm1 = emit [node] success cm;
            os = os_disable cmp (fold (os_write cmp bufSize) inst
                   (ios_enableMap (rp_version reply) node (mr_instanceID packet) (new_ostream CMD_NODE_OBJECT_INSTANCE (mc_instanceID cm))));
            cm2 = emit_stream os cm1;
            cm3 = (if os_dataSent os then cm2 else sendEmptyVersion node (mr_instanceID packet) (rp_version reply) cm2)
        in emit [node] (MAP_REPLY reply1) cm3)"

definition cm_addSlave ::
  "(NodeID \<Rightarrow> MapRequest \<Rightarrow> MasterPacket \<Rightarrow> MapReply \<Rightarrow> MasterCM \<Rightarrow> MasterCM) \<Rightarrow> NodeID \<Rightarrow> MapRequest \<Rightarrow> u128 \<Rightarrow> MasterCM \<Rightarrow> MasterCM" where
  "cm_addSlave initSlave node packet version cm =
     (let success = MAP_SUCCESS node (mr_instanceID packet) (mc_instanceID cm);
          reply = \<lparr>rp_node = node, rp_version = version, rp_result = True, rp_releaseCache = mr_useCache packet, rp_useCache = False\<rparr>
      in if mr_requestedVersion packet = VERSION_NONE then
           emit [node] (MAP_REPLY reply) (sendEmptyVersion node (mr_instanceID packet) version (emit [node] success cm))
         else
           initSlave node packet success
             (reply\<lparr>rp_useCache := mr_useCache packet \<and> mr_masterInstanceID packet = mc_instanceID cm\<rparr>) cm)"

definition addSlave ::
  "(NodeID \<Rightarrow> MapRequest \<Rightarrow> MasterPacket \<Rightarrow> MapReply \<Rightarrow> MasterCM \<Rightarrow> MasterCM) \<Rightarrow> NodeID \<Rightarrow> MapRequest \<Rightarrow> MasterCM \<Rightarrow> MasterCM" where
  "addSlave initSlave node packet cm =
     (let maxV = (if mr_maxVersion packet = 0 then -1
                  else if mr_maxVersion packet < -1 then mr_maxVersion packet + ucast (mc_version cm)
                  else mr_maxVersion packet);
          data = \<lparr>sd_node = node, sd_maxVersion = maxV, sd_instanceID = mr_instanceID packet\<rparr>;
          cm1 = updateMaxVersion (cm\<lparr>mc_slaveData := mc_slaveData cm @ [data]\<rparr>);
          cm2 = cm1\<lparr>mc_slaves := usort (mc_slaves cm1 @ [node])\<rparr>
      in cm_addSlave initSlave node packet (mc_version cm2) cm2)"

fun remove_slave_data :: "NodeID \<Rightarrow> u32 \<Rightarrow> SlaveData list \<Rightarrow> SlaveData list option" where
  "remove_slave_data node instanceID [] = None"
| "remove_slave_data node instanceID (s # ss) =
     (if sd_node s = node \<and> sd_instanceID s = instanceID then Some ss
      else map_option ((#) s) (remove_slave_data node instanceID ss))"

definition removeSlave :: "NodeID \<Rightarrow> u32 \<Rightarrow> MasterCM \<Rightarrow> MasterCM" where
  "removeSlave node instanceID cm =
     (case remove_slave_data node instanceID (mc_slaveData cm) of
        None \<Rightarrow> cm
      | Some ss \<Rightarrow> updateMaxVersion (cm\<lparr>mc_slaveData := ss, mc_slaves := usort (map sd_node ss)\<rparr>))"

definition removeSlaves :: "NodeID \<Rightarrow> MasterCM \<Rightarrow> MasterCM" where
  "removeSlaves node cm =
     (if node \<notin> set (mc_slaves cm) then cm
      else updateMaxVersion (cm\<lparr>mc_slaves := remove1 node (mc_slaves cm),
             mc_slaveData := filter (\<lambda>s. sd_node s \<noteq> node) (mc_slaveData cm)\<rparr>))"

fun set_max_version :: "NodeID \<Rightarrow> u32 \<Rightarrow> u64 \<Rightarrow> SlaveData list \<Rightarrow> SlaveData list option" where
  "set_max_version node slaveID version [] = None"
| "set_max_version node slaveID version (s # ss) =
     (if sd_node s = node \<and> sd_instanceID s = slaveID then Some (s\<lparr>sd_maxVersion := version\<rparr> # ss)
      else map_option ((#) s) (set_max_version node slaveID version ss))"

definition cmdMaxVersion :: "NodeID \<Rightarrow> u32 \<Rightarrow> u64 \<Rightarrow> MasterCM \<Rightarrow> MasterCM" where
  "cmdMaxVersion node slaveID version cm =
     (case set_max_version node slaveID version (mc_slaveData cm) of
        None \<Rightarrow> cm
      | Some ss \<Rightarrow> updateMaxVersion (cm\<lparr>mc_slaveData := ss\<rparr>))"

section \<open>The debug check\<close>

text \<open>\<open>_checkConsistency\<close>, which a debug build asserts: the walk from the newest instance data to the oldest.
  Its first assertion, that the object is attached, is about the object and left out.\<close>

fun consistent_from :: "u32 \<Rightarrow> u32 \<Rightarrow> u128 \<Rightarrow> InstanceData list \<Rightarrow> bool" where
  "consistent_from commitCount nVersions version [] = True"
| "consistent_from commitCount nVersions version (d # ds) =
     (os_version (id_os d) \<noteq> VERSION_NONE \<and> os_version (id_os d) = version \<and>
      (ds \<noteq> [] \<longrightarrow> commitCount \<le> id_commitCount d + nVersions) \<and>
      consistent_from commitCount nVersions (version - 1) ds)"

definition checkConsistency :: "MasterCM \<Rightarrow> bool" where
  "checkConsistency cm =
     (mc_instanceDatas cm \<noteq> [] \<and>
      (mc_version cm = VERSION_NONE \<or>
       consistent_from (mc_commitCount cm) (mc_nVersions cm) (mc_version cm) (rev (mc_instanceDatas cm))))"

end
