(* ===== verification/Master_Versions.thy ===== *)
theory Master_Versions
  imports Object_Master
begin

text \<open>
  The versions of a master object: the retained instance data is a gap-free range that ends at
  the head version, each entry holds what the object wrote for that version, and old entries
  are dropped exactly when the commit counter has passed them by the configured number.
\<close>

section \<open>Saved streams\<close>

context lossless_plugin
begin

lemma disable_empty:
  assumes "writing v receivers pre [] g os" "concat g = []"
  shows "os_disable cmp os = os\<lparr>os_enabled := False, os_connections := []\<rparr> \<and> os_sent os = pre \<and> \<not> os_dataSent os"
  using assms by (auto simp: writing_def os_disable_def)

lemma well_compressed_cong:
  "os_compressorState a = os_compressorState b \<Longrightarrow> os_results a = os_results b \<Longrightarrow> well_compressed src a = well_compressed src b"
  by (simp add: well_compressed_def split: CompressorState.split)

lemma sendData_saved:
  assumes "well_compressed src os" "os_connections os \<noteq> []"
  shows "os_buffer (os_sendData cmp src True os) = os_buffer os \<and> os_dataSize (os_sendData cmp src True os) = os_dataSize os \<and>
    os_compressorState (os_sendData cmp src True os) = os_compressorState os \<and> os_results (os_sendData cmp src True os) = os_results os \<and>
    os_sequence (os_sendData cmp src True os) = 0 \<and> os_version (os_sendData cmp src True os) = os_version os \<and>
    os_dataSent (os_sendData cmp src True os) = os_dataSent os"
  using sendData_block [OF assms(1) refl assms(2), of "[src]" True] by auto

lemma compress_partial: "os_compressorState (os_compress cmp src STATE_PARTIAL (os\<lparr>os_compressorState := STATE_UNCOMPRESSED\<rparr>)) \<noteq> STATE_COMPLETE"
  by (simp add: os_compress_def Let_def)

lemma disable_saved:
  assumes w: "writing v receivers pre gs g os" and s: "os_save os" and ne: "gs \<noteq> [] \<or> concat g \<noteq> []"
  shows "saved (concat (concat gs) @ concat g) (os_disable cmp os) \<and> os_version (os_disable cmp os) = v \<and> os_dataSent (os_disable cmp os)"
proof -
  have b: "os_buffer os = concat (concat gs) @ concat g" "os_enabled os" "os_version os = v"
    "os_compressorState os = STATE_UNCOMPRESSED" "os_dataSent os = (gs \<noteq> [])" "os_connections os = receivers"
    using w s by (auto simp: writing_def)
  note d = drop_pending [OF w]
  show ?thesis
  proof (cases "receivers = []")
    case True
    then have "os_sequence os = 0" using w by (auto simp: writing_def)
    then show ?thesis using b ne True by (auto simp: os_disable_def saved_def Let_def)
  next
    case r: False
    show ?thesis
    proof (cases "gs = []")
      case True
      let ?os1 = "os_compress cmp (concat g) STATE_COMPLETE (os\<lparr>os_dataSize := length (os_buffer os), os_dataSent := True, os_compressorState := STATE_UNCOMPRESSED\<rparr>)"
      have w1: "well_compressed (concat g) ?os1" by (rule compress_well) auto
      then have w2: "well_compressed (concat g) ((os_sendData cmp (concat g) True ?os1)\<lparr>os_enabled := False, os_connections := []\<rparr>)"
        using sendData_saved [OF w1] r b(6) by (subst well_compressed_cong [where b = ?os1]) simp_all
      have "os_disable cmp os = (os_sendData cmp (concat g) True ?os1)\<lparr>os_enabled := False, os_connections := []\<rparr>"
        using b r ne True by (simp add: os_disable_def Let_def)
      then show ?thesis using sendData_saved [OF w1] r b True w2 by (simp add: saved_def)
    next
      case False
      let ?os1 = "os_compress cmp (concat g) STATE_PARTIAL (os\<lparr>os_dataSize := length (os_buffer os), os_compressorState := STATE_UNCOMPRESSED\<rparr>)"
      have w1: "well_compressed (concat g) ?os1" by (rule compress_well) auto
      have "os_disable cmp os = (os_sendData cmp (concat g) True ?os1)\<lparr>os_enabled := False, os_connections := []\<rparr>"
        using b r False d by (simp add: os_disable_def Let_def)
      then show ?thesis
        using sendData_saved [OF w1] r b False compress_partial [of "concat g" "os\<lparr>os_dataSize := length (os_buffer os)\<rparr>"]
        by (simp add: saved_def)
    qed
  qed
qed

lemma saved_keep: "saved x (os\<lparr>os_sent := []\<rparr>) = saved x os"
  by (simp add: saved_def well_compressed_cong [of "os\<lparr>os_sent := []\<rparr>" os])

text \<open>One serialization: the stream is saved and complete, or nothing was written.\<close>

lemma os_save_enable: "os_save (ios_enableCommit v receivers os) = os_save os" "os_sent (ios_enableCommit v receivers os) = os_sent os"
  by (simp_all add: ios_enableCommit_def os_enableCommit_def os_enable_def ios_target_def)

lemma os_save_write: "os_save (os_write cmp n w os) = os_save os"
  by (simp add: os_write_def os_flush_def os_resetBuffer_def os_sendData_def os_sendPacket_def Let_def)

lemma os_save_writes: "os_save (fold (os_write cmp n) ws os) = os_save os"
  by (induction ws arbitrary: os) (simp_all add: os_save_write)

lemma writing_ios:
  assumes "os_sequence os = 0"
  obtains gs g where "writing v receivers (os_sent os) gs g (fold (os_write cmp n) ws (ios_enableCommit v receivers os))" "grouped n ws gs g"
proof -
  let ?os = "ios_target CMD_NODE_OBJECT_INSTANCE_COMMIT 0 EQ_INSTANCE_NONE os"
  have "writing v receivers (os_sent ?os) [] [] (os_enableCommit v receivers ?os)"
    by (rule writing_enable) (simp add: assms ios_target_def)
  moreover have "grouped n [] [] []" by (simp add: grouped_def)
  ultimately show ?thesis using writing_writes [of v receivers "os_sent ?os" "[]" "[]" _ n "[]" ws] that
    by (fastforce simp: ios_enableCommit_def ios_target_def)
qed

lemma serialize_instance_saved:
  assumes "os_save (id_os d)" "os_sequence (id_os d) = 0" "ws \<noteq> []" "[] \<notin> set ws"
  shows "saved (concat ws) (id_os (keep_instance (serialize_instance cmp n v nodes ws d))) \<and>
    os_version (id_os (keep_instance (serialize_instance cmp n v nodes ws d))) = v \<and>
    os_dataSent (id_os (serialize_instance cmp n v nodes ws d)) \<and>
    id_commitCount (keep_instance (serialize_instance cmp n v nodes ws d)) = id_commitCount d"
proof -
  from writing_ios [OF assms(2)] obtain gs g where
    w: "writing v nodes (os_sent (id_os d)) gs g (fold (os_write cmp n) ws (ios_enableCommit v nodes (id_os d)))" "grouped n ws gs g" .
  have "gs \<noteq> [] \<or> concat g \<noteq> []" using w(2) assms(3,4) by (cases g) (auto simp: grouped_def)
  from disable_saved [OF w(1) _ this] have
    "saved (concat (concat gs) @ concat g) (id_os (serialize_instance cmp n v nodes ws d)) \<and>
     os_version (id_os (serialize_instance cmp n v nodes ws d)) = v \<and> os_dataSent (id_os (serialize_instance cmp n v nodes ws d))"
    using assms(1) by (simp add: serialize_instance_def os_save_writes os_save_enable)
  moreover have "concat (concat gs) @ concat g = concat ws" using w(2) by (auto simp: grouped_def)
  ultimately show ?thesis by (simp add: keep_instance_def saved_keep) (simp add: serialize_instance_def)
qed

lemma serialize_instance_nothing:
  assumes "os_sequence (id_os d) = 0"
  shows "\<not> os_dataSent (id_os (serialize_instance cmp n v nodes [] d))"
proof -
  from writing_ios [OF assms, where ws = "[]"] obtain gs g where
    "writing v nodes (os_sent (id_os d)) gs g (fold (os_write cmp n) [] (ios_enableCommit v nodes (id_os d)))" "grouped n [] gs g" .
  then have "writing v nodes (os_sent (id_os d)) [] [] (fold (os_write cmp n) [] (ios_enableCommit v nodes (id_os d)))"
    by (cases gs) (auto simp: grouped_def)
  from disable_empty [OF this] show ?thesis by (auto simp: serialize_instance_def)
qed

end

section \<open>Obsoleting\<close>

lemma drop_obsolete_spec:
  assumes "ds \<noteq> []"
  shows "\<exists>k < length ds. drop_obsolete cC nV ds = (drop k ds, take k ds) \<and>
    (\<forall>d \<in> set (take k ds). unat (id_commitCount d) + unat nV < unat cC) \<and>
    (Suc k = length ds \<or> unat cC \<le> unat (id_commitCount (ds ! k)) + unat nV)"
  using assms
proof (induction cC nV ds rule: drop_obsolete.induct)
  case (1 cC nV d e ds)
  have iff: "nV < cC \<and> id_commitCount d < cC - nV \<longleftrightarrow> unat (id_commitCount d) + unat nV < unat cC"
    by (auto simp: word_less_nat_alt unat_sub_le less_imp_le)
  show ?case
  proof (cases "nV < cC \<and> id_commitCount d < cC - nV")
    case True
    from 1(1) [OF True] obtain k where "k < length (e # ds)" "drop_obsolete cC nV (e # ds) = (drop k (e # ds), take k (e # ds))"
      "\<forall>d \<in> set (take k (e # ds)). unat (id_commitCount d) + unat nV < unat cC"
      "Suc k = length (e # ds) \<or> unat cC \<le> unat (id_commitCount ((e # ds) ! k)) + unat nV" by auto
    with True iff show ?thesis by (intro exI [of _ "Suc k"]) auto
  next
    case False
    with iff show ?thesis by (intro exI [of _ 0]) auto
  qed
qed auto

lemma fold_release: "fold releaseInstanceData ds cm = cm\<lparr>mc_instanceDataCache := mc_instanceDataCache cm @ ds\<rparr>"
  by (induction ds arbitrary: cm) (auto simp: releaseInstanceData_def)

text \<open>Obsoletion is exact: of the instance data ordered by commit counter, those within
  \<open>_nVersions\<close> commits of the current one stay, and the head version always stays.\<close>

theorem obsolete_retains:
  assumes "mc_instanceDatas cm \<noteq> []" "sorted (map (unat \<circ> id_commitCount) (mc_instanceDatas cm))"
  shows "mc_instanceDatas (obsolete cm) =
    (let kept = filter (\<lambda>d. unat (mc_commitCount cm) \<le> unat (id_commitCount d) + unat (mc_nVersions cm)) (mc_instanceDatas cm)
     in if kept = [] then [last (mc_instanceDatas cm)] else kept)"
proof -
  let ?P = "\<lambda>d. unat (mc_commitCount cm) \<le> unat (id_commitCount d) + unat (mc_nVersions cm)" and ?ds = "mc_instanceDatas cm"
  from drop_obsolete_spec [OF assms(1)] obtain k where k: "k < length ?ds"
      "drop_obsolete (mc_commitCount cm) (mc_nVersions cm) ?ds = (drop k ?ds, take k ?ds)"
      "\<forall>d \<in> set (take k ?ds). \<not> ?P d" "Suc k = length ?ds \<or> ?P (?ds ! k)" by (fastforce simp: not_le)
  have o: "mc_instanceDatas (obsolete cm) = drop k ?ds" by (simp add: obsolete_def k(2) fold_release)
  have f: "filter ?P ?ds = filter ?P (drop k ?ds)"
    using k(3) filter_append [of ?P "take k ?ds" "drop k ?ds"] by (simp add: filter_empty_conv [THEN iffD2])
  have dk: "drop k ?ds = ?ds ! k # drop (Suc k) ?ds" using k(1) by (simp add: Cons_nth_drop_Suc)
  show ?thesis
  proof (cases "?P (?ds ! k)")
    case True
    have "unat (id_commitCount (?ds ! k)) \<le> unat (id_commitCount d)" if "d \<in> set (drop k ?ds)" for d
    proof -
      from that obtain j where "j < length ?ds - k" "d = ?ds ! (k + j)" by (auto simp: in_set_conv_nth)
      with assms(2) show ?thesis by (auto simp: sorted_iff_nth_mono)
    qed
    then have "\<forall>d \<in> set (drop k ?ds). ?P d" using True by (meson add_le_mono1 order_trans)
    then have "filter ?P (drop k ?ds) = drop k ?ds" by (rule filter_True)
    then show ?thesis using o f dk by simp
  next
    case False
    then have "drop k ?ds = [last ?ds]" using k(1,4) dk by (metis drop_all last_drop last_ConsL le_refl)
    then show ?thesis using o f False dk by simp
  qed
qed

theorem obsolete_retains_witness:
  "map id_commitCount (mc_instanceDatas (obsolete ((new_master 3)\<lparr>mc_commitCount := 9, mc_nVersions := 2,
     mc_instanceDatas := map (InstanceData.make (new_ostream CMD_NODE_OBJECT_INSTANCE 3)) [5, 6, 7, 9]\<rparr>))) = [7, 9]"
  using obsolete_retains [of "(new_master 3)\<lparr>mc_commitCount := 9, mc_nVersions := 2,
     mc_instanceDatas := map (InstanceData.make (new_ostream CMD_NODE_OBJECT_INSTANCE 3)) [5, 6, 7, 9]\<rparr>"]
  by (simp add: InstanceData.make_def new_master_def)

end
