(* ===== verification/Master_Run.thy ===== *)
theory Master_Run
  imports Master_Versions
begin

text \<open>
  Runs of a master object: from its registration, over commits with full or delta data, slaves
  that map and unmap, and changes of the retention. Every reachable master passes the debug
  check, and holds for every retained version what the object had written for it.
\<close>

section \<open>Runs\<close>

text \<open>The counter of commits: the next one, or one given by the application that does not decrease.\<close>

definition incarnation_ok :: "u32 \<Rightarrow> MasterCM \<Rightarrow> bool" where
  "incarnation_ok inc cm =
     (inc = CO_COMMIT_NEXT \<and> unat (mc_commitCount cm) + 1 < 2 ^ 31 \<or> mc_commitCount cm \<le> inc \<and> unat inc < 2 ^ 31)"

text \<open>The history \<open>H\<close> gives for each version what the object wrote when it was committed.\<close>

definition version_data :: "(nat \<Rightarrow> u8 list list) \<Rightarrow> u8 list list \<Rightarrow> MasterCM \<Rightarrow> MasterCM \<Rightarrow> nat \<Rightarrow> u8 list list" where
  "version_data H inst cm cm' = (if mc_version cm' = mc_version cm then H else H(unat (mc_version cm') := inst))"

inductive master_run :: "Compressor \<Rightarrow> nat \<Rightarrow> (nat \<Rightarrow> u8 list list) \<Rightarrow> MasterCM \<Rightarrow> bool" for cmp n where
  start: "inst \<noteq> [] \<Longrightarrow> [] \<notin> set inst \<Longrightarrow> master_run cmp n ((\<lambda>_. [])(1 := inst)) (fm_init cmp n inst (new_master i))"
| commit_full: "master_run cmp n H cm \<Longrightarrow> [] \<notin> set inst \<Longrightarrow> incarnation_ok inc cm \<Longrightarrow> Suc (unat (mc_version cm)) < 2 ^ 63 \<Longrightarrow>
    fm_commit (full_commit cmp n inst) dirty inc cm = Some (v, cm') \<Longrightarrow> master_run cmp n (version_data H inst cm cm') cm'"
| commit_delta: "master_run cmp n H cm \<Longrightarrow> inst \<noteq> [] \<Longrightarrow> [] \<notin> set inst \<Longrightarrow> incarnation_ok inc cm \<Longrightarrow> Suc (unat (mc_version cm)) < 2 ^ 63 \<Longrightarrow>
    fm_commit (delta_commit cmp n inst delta) dirty inc cm = Some (v, cm') \<Longrightarrow> master_run cmp n (version_data H inst cm cm') cm'"
| auto_obsolete: "master_run cmp n H cm \<Longrightarrow> unat count < 2 ^ 31 \<Longrightarrow> master_run cmp n H (setAutoObsolete count cm)"
| add_slave: "master_run cmp n H cm \<Longrightarrow> master_run cmp n H (addSlave (fm_initSlave cmp) node packet cm)"
| remove_slave: "master_run cmp n H cm \<Longrightarrow> master_run cmp n H (removeSlave node instanceID cm)"
| remove_slaves: "master_run cmp n H cm \<Longrightarrow> master_run cmp n H (removeSlaves node cm)"
| max_version: "master_run cmp n H cm \<Longrightarrow> master_run cmp n H (cmdMaxVersion node slaveID version cm)"

section \<open>Invariant\<close>

definition recent_ok :: "MasterCM \<Rightarrow> bool" where
  "recent_ok cm = (\<forall>d \<in> set (tl (mc_instanceDatas cm)).
     unat (mc_commitCount cm) \<le> unat (id_commitCount d) + unat (mc_nVersions cm))"

context lossless_plugin
begin

definition entry_ok :: "(nat \<Rightarrow> u8 list list) \<Rightarrow> nat \<Rightarrow> InstanceData \<Rightarrow> bool" where
  "entry_ok H v d = (os_version (id_os d) = of_nat v \<and> H v \<noteq> [] \<and> [] \<notin> set (H v) \<and>
     saved (concat (H v)) (id_os d) \<and> os_sent (id_os d) = [])"

definition range_ok :: "(nat \<Rightarrow> u8 list list) \<Rightarrow> MasterCM \<Rightarrow> bool" where
  "range_ok H cm =
     (mc_instanceDatas cm \<noteq> [] \<and> length (mc_instanceDatas cm) \<le> unat (mc_version cm) \<and> unat (mc_version cm) < 2 ^ 63 \<and>
      list_all2 (entry_ok H) [Suc (unat (mc_version cm)) - length (mc_instanceDatas cm)..<Suc (unat (mc_version cm))] (mc_instanceDatas cm) \<and>
      sorted (map (unat \<circ> id_commitCount) (mc_instanceDatas cm)) \<and>
      (\<forall>d \<in> set (mc_instanceDatas cm). id_commitCount d \<le> mc_commitCount cm) \<and>
      unat (mc_commitCount cm) < 2 ^ 31 \<and> unat (mc_nVersions cm) < 2 ^ 31 \<and>
      (\<forall>d \<in> set (mc_instanceDataCache cm). os_sent (id_os d) = []) \<and> os_sent (mc_deltaData cm) = [])"

lemma range_ok_cong:
  assumes "mc_instanceDatas cm' = mc_instanceDatas cm" "mc_version cm' = mc_version cm" "mc_commitCount cm' = mc_commitCount cm"
    "mc_nVersions cm' = mc_nVersions cm" "mc_instanceDataCache cm' = mc_instanceDataCache cm" "mc_deltaData cm' = mc_deltaData cm"
  shows "range_ok H cm' = range_ok H cm" "recent_ok cm' = recent_ok cm"
  using assms by (simp_all add: range_ok_def recent_ok_def)

lemma obsolete_ok:
  assumes "range_ok H cm"
  shows "range_ok H (obsolete cm) \<and> recent_ok (obsolete cm) \<and> mc_version (obsolete cm) = mc_version cm"
proof -
  let ?ds = "mc_instanceDatas cm" and ?V = "unat (mc_version cm)"
  have ne: "?ds \<noteq> []" using assms by (simp add: range_ok_def)
  from drop_obsolete_spec [OF ne] obtain k where k: "k < length ?ds"
      "drop_obsolete (mc_commitCount cm) (mc_nVersions cm) ?ds = (drop k ?ds, take k ?ds)"
      "Suc k = length ?ds \<or> unat (mc_commitCount cm) \<le> unat (id_commitCount (?ds ! k)) + unat (mc_nVersions cm)" by blast
  have o: "obsolete cm = cm\<lparr>mc_instanceDatas := drop k ?ds, mc_instanceDataCache := mc_instanceDataCache cm @ take k ?ds\<rparr>"
    by (simp add: obsolete_def k(2) fold_release)
  have srt: "sorted (map (unat \<circ> id_commitCount) ?ds)" and all: "list_all2 (entry_ok H) [Suc ?V - length ?ds..<Suc ?V] ?ds"
    and len: "length ?ds \<le> ?V" using assms by (simp_all add: range_ok_def)
  have "list_all2 (entry_ok H) (drop k [Suc ?V - length ?ds..<Suc ?V]) (drop k ?ds)" using all by (rule list_all2_dropI)
  moreover have "drop k [Suc ?V - length ?ds..<Suc ?V] = [Suc ?V - length (drop k ?ds)..<Suc ?V]"
    using k(1) len by (simp add: drop_upt)
  moreover have "os_sent (id_os d) = []" if "d \<in> set (take k ?ds)" for d
    using all that by (auto simp: list_all2_conv_all_nth entry_ok_def dest!: in_set_takeD) (auto simp: in_set_conv_nth)
  moreover have "sorted (map (unat \<circ> id_commitCount) (drop k ?ds))" using srt by (metis drop_map sorted_wrt_drop)
  ultimately have r: "range_ok H (obsolete cm)"
    using assms k(1) unfolding o range_ok_def by (auto dest: in_set_dropD)
  have "unat (mc_commitCount cm) \<le> unat (id_commitCount d) + unat (mc_nVersions cm)" if "d \<in> set (tl (drop k ?ds))" for d
  proof -
    from that obtain j where j: "j < length ?ds - Suc k" "d = ?ds ! (Suc k + j)" by (auto simp: in_set_conv_nth nth_tl)
    then have "unat (id_commitCount (?ds ! k)) \<le> unat (id_commitCount d)"
      using srt by (auto simp: sorted_iff_nth_mono)
    then show ?thesis using k(3) j(1) by linarith
  qed
  then show ?thesis using r unfolding o by (simp add: recent_ok_def)
qed

lemma updateCommitCount_ok:
  assumes "range_ok H cm" "incarnation_ok inc cm"
  shows "range_ok H (updateCommitCount inc cm) \<and> mc_version (updateCommitCount inc cm) = mc_version cm \<and>
    mc_slaves (updateCommitCount inc cm) = mc_slaves cm \<and> mc_deltaData (updateCommitCount inc cm) = mc_deltaData cm"
proof (cases "inc = CO_COMMIT_NEXT")
  case True
  then have "unat (mc_commitCount cm) + 1 < 2 ^ 31"
    using assms(2) by (auto simp: incarnation_ok_def CO_COMMIT_NEXT_def unsigned_minus_1_eq_mask mask_eq_exp_minus_1)
  moreover from this have "unat (mc_commitCount cm + 1) = Suc (unat (mc_commitCount cm))"
    by (intro unat_inc) (auto simp: unsigned_minus_1_eq_mask mask_eq_exp_minus_1)
  ultimately show ?thesis using assms(1) True by (auto simp: updateCommitCount_def range_ok_def word_le_nat_alt)
next
  case False
  then show ?thesis using assms by (auto simp: incarnation_ok_def updateCommitCount_def range_ok_def word_le_nat_alt)
qed

lemma newInstanceData_ok:
  assumes "range_ok H cm" "newInstanceData cm = (d, cm1)"
  shows "range_ok H cm1 \<and> os_save (id_os d) \<and> os_sequence (id_os d) = 0 \<and> os_sent (id_os d) = [] \<and> id_commitCount d = mc_commitCount cm \<and>
    mc_version cm1 = mc_version cm \<and> mc_slaves cm1 = mc_slaves cm \<and> mc_instanceDatas cm1 = mc_instanceDatas cm \<and>
    mc_commitCount cm1 = mc_commitCount cm \<and> mc_deltaData cm1 = mc_deltaData cm"
proof -
  have "os_sent (id_os (last (mc_instanceDataCache cm))) = []" if "mc_instanceDataCache cm \<noteq> []"
    using assms(1) that by (simp add: range_ok_def)
  moreover have "range_ok H (cm\<lparr>mc_instanceDataCache := butlast (mc_instanceDataCache cm)\<rparr>)"
    using assms(1) by (simp add: range_ok_def) (metis in_set_butlastD)
  ultimately show ?thesis using assms
    by (cases "mc_instanceDataCache cm = []")
      (auto simp: newInstanceData_def os_enableSave_def ios_reset_def os_reset_def os_resetBuffer_def new_ostream_def Let_def)
qed

lemma unat_version_inc: "unat v < 2 ^ 63 \<Longrightarrow> unat (v + 1 :: u128) = Suc (unat v)"
  by (intro unat_inc) (auto simp: unsigned_minus_1_eq_mask mask_eq_exp_minus_1)

lemma add_version_ok:
  assumes "range_ok H cm" "Suc (unat (mc_version cm)) < 2 ^ 63" "ws \<noteq> []" "[] \<notin> set ws"
    and "os_version (id_os d) = mc_version cm + 1" "saved (concat ws) (id_os d)" "os_sent (id_os d) = []" "id_commitCount d = mc_commitCount cm"
  shows "range_ok (H(unat (mc_version cm + 1) := ws)) (addInstanceData d (cm\<lparr>mc_version := mc_version cm + 1\<rparr>))"
proof -
  let ?V = "unat (mc_version cm)" and ?n = "length (mc_instanceDatas cm)" and ?H = "H(unat (mc_version cm + 1) := ws)"
  have v: "unat (mc_version cm + 1) = Suc ?V" using assms(2) by (intro unat_version_inc) simp
  have e: "(of_nat (Suc ?V) :: u128) = mc_version cm + 1" unfolding v [symmetric] by simp
  have len: "?n \<le> ?V" using assms(1) by (simp add: range_ok_def)
  have "list_all2 (entry_ok ?H) [Suc ?V - ?n..<Suc ?V] (mc_instanceDatas cm)"
  proof (rule list_all2_all_nthI)
    fix i
    assume i: "i < length [Suc ?V - ?n..<Suc ?V]"
    have "list_all2 (entry_ok H) [Suc ?V - ?n..<Suc ?V] (mc_instanceDatas cm)" using assms(1) by (simp add: range_ok_def)
    from list_all2_nthD [OF this i] have "entry_ok H ([Suc ?V - ?n..<Suc ?V] ! i) (mc_instanceDatas cm ! i)" .
    moreover have "[Suc ?V - ?n..<Suc ?V] ! i \<noteq> Suc ?V" using nth_mem [OF i] by (auto simp del: upt_Suc)
    ultimately show "entry_ok ?H ([Suc ?V - ?n..<Suc ?V] ! i) (mc_instanceDatas cm ! i)"
      unfolding entry_ok_def v by simp
  qed (use len in \<open>simp del: upt_Suc\<close>)
  moreover have "entry_ok ?H (Suc ?V) d"
    unfolding entry_ok_def fun_upd_apply e using assms(3-7) v by simp
  ultimately have "list_all2 (entry_ok ?H) ([Suc ?V - ?n..<Suc ?V] @ [Suc ?V]) (mc_instanceDatas cm @ [d])"
    by (intro list_all2_appendI) auto
  moreover have "[Suc ?V - ?n..<Suc ?V] @ [Suc ?V] = [Suc (Suc ?V) - length (mc_instanceDatas cm @ [d])..<Suc (Suc ?V)]"
    using len by simp
  ultimately show ?thesis
    using assms(1,2,8) v by (auto simp: range_ok_def addInstanceData_def sorted_append word_le_nat_alt)
qed

lemma range_ok_release:
  "range_ok H cm \<Longrightarrow> os_sent (id_os d) = [] \<Longrightarrow> range_ok H (releaseInstanceData d cm)"
  by (auto simp: range_ok_def releaseInstanceData_def)

lemma range_ok_emit [simp]: "range_ok H (emit_stream os cm) = range_ok H cm" "range_ok H (emit nodes p cm) = range_ok H cm"
  "recent_ok (emit_stream os cm) = recent_ok cm" "recent_ok (emit nodes p cm) = recent_ok cm"
  by (simp_all add: emit_stream_def emit_def range_ok_def recent_ok_def)

lemma emit_fields [simp]: "mc_version (emit_stream os cm) = mc_version cm" "mc_commitCount (emit_stream os cm) = mc_commitCount cm"
  "mc_slaves (emit_stream os cm) = mc_slaves cm" "mc_deltaData (emit_stream os cm) = mc_deltaData cm"
  "mc_instanceDatas (emit_stream os cm) = mc_instanceDatas cm"
  "mc_version (releaseInstanceData d cm) = mc_version cm" "mc_version (addInstanceData d cm) = mc_version cm"
  "os_sent (id_os (keep_instance d)) = []"
  by (simp_all add: emit_stream_def releaseInstanceData_def addInstanceData_def keep_instance_def)

lemma full_commit_ok:
  assumes "range_ok H cm" "Suc (unat (mc_version cm)) < 2 ^ 63" "[] \<notin> set inst"
  shows "range_ok (version_data H inst cm (full_commit cmp n inst cm)) (full_commit cmp n inst cm)"
proof -
  obtain d cm1 where d: "newInstanceData cm = (d, cm1)" by (cases "newInstanceData cm")
  note n = newInstanceData_ok [OF assms(1) d]
  let ?d = "serialize_instance cmp n (mc_version cm1 + 1) (mc_slaves cm1) inst d"
  show ?thesis
  proof (cases "inst = []")
    case True
    then have "\<not> os_dataSent (id_os ?d)" using serialize_instance_nothing n by simp
    then have "full_commit cmp n inst cm = releaseInstanceData (keep_instance ?d) (emit_stream (id_os ?d) cm1)"
      using d by (simp add: full_commit_def Let_def)
    then show ?thesis using n by (simp add: version_data_def range_ok_release)
  next
    case False
    note sv = serialize_instance_saved [of d inst n "mc_version cm1 + 1" "mc_slaves cm1"]
    have "full_commit cmp n inst cm = addInstanceData (keep_instance ?d)
        ((emit_stream (id_os ?d) cm1)\<lparr>mc_version := mc_version (emit_stream (id_os ?d) cm1) + 1\<rparr>)"
      using d sv n False assms(3) by (simp add: full_commit_def Let_def)
    moreover have "mc_version cm + 1 \<noteq> mc_version cm" by simp
    ultimately show ?thesis
      using add_version_ok [of H "emit_stream (id_os ?d) cm1" inst "keep_instance ?d"] n sv assms False
      by (simp add: version_data_def)
  qed
qed

lemma delta_commit_ok:
  assumes "range_ok H cm" "Suc (unat (mc_version cm)) < 2 ^ 63" "inst \<noteq> []" "[] \<notin> set inst"
  shows "range_ok (version_data H inst cm (delta_commit cmp n inst delta cm)) (delta_commit cmp n inst delta cm)"
proof -
  define cm1 where "cm1 = (if mc_slaves cm \<noteq> [] then
      let os = os_disable cmp (fold (os_write cmp n) delta (os_enableCommit (mc_version cm + 1) (mc_slaves cm) (os_reset (mc_deltaData cm))))
      in (emit_stream os cm)\<lparr>mc_deltaData := os\<lparr>os_sent := []\<rparr>\<rparr> else cm)"
  have c1: "range_ok H cm1" "mc_version cm1 = mc_version cm" using assms(1)
    by (auto simp: cm1_def Let_def emit_stream_def range_ok_def)
  obtain d cm2 where d: "newInstanceData cm1 = (d, cm2)" by (cases "newInstanceData cm1")
  note n = newInstanceData_ok [OF c1(1) d]
  let ?d = "serialize_instance cmp n (mc_version cm2 + 1) [] inst d"
  note sv = serialize_instance_saved [of d inst n "mc_version cm2 + 1" "[]"]
  have D: "delta_commit cmp n inst delta cm = (if mc_slaves cm1 = [] \<or> os_dataSent (mc_deltaData cm1)
      then addInstanceData (keep_instance ?d) (cm2\<lparr>mc_version := mc_version cm2 + 1\<rparr>) else cm1)"
    unfolding delta_commit_def cm1_def [symmetric] using d sv n assms(3,4) by (simp add: Let_def)
  have "mc_version cm + 1 \<noteq> mc_version cm" by simp
  moreover have "range_ok (H(unat (mc_version cm2 + 1) := inst)) (addInstanceData (keep_instance ?d) (cm2\<lparr>mc_version := mc_version cm2 + 1\<rparr>))"
    using n sv assms c1 by (intro add_version_ok) simp_all
  ultimately show ?thesis unfolding D using n c1 by (simp add: version_data_def)
qed

section \<open>Mapping slaves\<close>

lemma saved_target: "saved x (ios_target c nd i os\<lparr>os_connections := r\<rparr>) = saved x os"
  by (simp add: saved_def ios_target_def well_compressed_cong [of "os\<lparr>os_command := c, os_nodeID := nd, os_instanceID := i, os_connections := r\<rparr>" os])

lemma saved_connections: "saved x (os\<lparr>os_connections := r\<rparr>) = saved x os"
  by (simp add: saved_def well_compressed_cong [of "os\<lparr>os_connections := r\<rparr>" os])

lemma sendMapData_ok:
  assumes "entry_ok H v d"
  shows "\<exists>p. os_sent (ios_sendMapData cmp node instanceID (id_os d)) = [([node], p)] \<and> complete (of_nat v) [H v] [p] \<and>
    op_command p = CMD_NODE_OBJECT_INSTANCE_MAP \<and>
    entry_ok H v (keep_instance (d\<lparr>id_os := ios_sendMapData cmp node instanceID (id_os d)\<rparr>))"
proof -
  let ?os = "ios_target CMD_NODE_OBJECT_INSTANCE_MAP node instanceID (id_os d)\<lparr>os_connections := [node]\<rparr>"
  have s: "saved (concat (H v)) ?os" using assms by (simp add: entry_ok_def saved_target)
  have f: "os_version ?os = of_nat v" "os_sent ?os = []" "os_command ?os = CMD_NODE_OBJECT_INSTANCE_MAP"
    using assms by (simp_all add: entry_ok_def ios_target_def)
  from resend_complete [OF s, of "[node]" "H v"] f obtain p where
    p: "os_sent (os_resend cmp ?os) = [([node], p)]" "complete (of_nat v) [H v] [p]" "op_command p = CMD_NODE_OBJECT_INSTANCE_MAP"
      "saved (concat (H v)) (os_resend cmp ?os)" by (auto simp: ios_target_def)
  have "os_version (os_resend cmp ?os) = of_nat v"
    using f(1) by (simp add: os_resend_def os_sendData_def os_sendPacket_def Let_def)
  then have "entry_ok H v (keep_instance (d\<lparr>id_os := ios_sendMapData cmp node instanceID (id_os d)\<rparr>))"
    using assms p(4) by (simp add: entry_ok_def keep_instance_def ios_sendMapData_def saved_keep saved_connections)
  then show ?thesis using p by (simp add: ios_sendMapData_def)
qed

definition map_data :: "(nat \<Rightarrow> u8 list list) \<Rightarrow> nat \<Rightarrow> ObjectDataPacket \<Rightarrow> bool" where
  "map_data H v p = (complete (of_nat v) [H v] [p] \<and> op_command p = CMD_NODE_OBJECT_INSTANCE_MAP)"

lemma send_range_spec:
  assumes "list_all2 (entry_ok H) [a..<b] ds" "b \<le> 2 ^ 63"
    and "send_range cmp node instanceID start end success ds (sent, out) = (ds', sent', out')"
  shows "list_all2 (entry_ok H) [a..<b] ds' \<and> map id_commitCount ds' = map id_commitCount ds \<and>
    (let vs = filter (\<lambda>v. unat start \<le> v \<and> v \<le> unat end) [a..<b] in
     sent' = (sent \<or> vs \<noteq> []) \<and>
     (\<exists>ps. list_all2 (map_data H) vs ps \<and>
        out' = out @ (if sent \<or> vs = [] then [] else [([node], success)]) @ map (\<lambda>p. ([node], OBJECT_DATA p)) ps))"
  using assms
proof (induction ds arbitrary: a sent out ds' sent' out' rule: list.induct)
  case Nil
  then show ?case by (auto simp: Let_def)
next
  case (Cons d ds)
  have ab: "a < b" "[a..<b] = a # [Suc a..<b]" using Cons.prems(1) by (auto simp: list_all2_Cons2 upt_eq_Cons_conv upt_conv_Cons)
  have d: "entry_ok H a d" "list_all2 (entry_ok H) [Suc a..<b] ds" using Cons.prems(1) ab by auto
  have "unat (of_nat a :: u128) = a" using ab(1) Cons.prems(2) by (simp add: unsigned_of_nat take_bit_nat_eq_self)
  then have v: "unat (os_version (id_os d)) = a" using d(1) by (simp add: entry_ok_def)
  let ?P = "\<lambda>v. unat start \<le> v \<and> v \<le> unat end"
  consider (below) "a < unat start" | (above) "unat start \<le> a" "unat end < a" | (inside) "?P a" by linarith
  then show ?case
  proof cases
    case below
    obtain ds1 where r: "send_range cmp node instanceID start end success ds (sent, out) = (ds1, sent', out')" "ds' = d # ds1"
      using Cons.prems(3) below v by (cases "send_range cmp node instanceID start end success ds (sent, out)") (auto simp: word_less_nat_alt)
    from Cons.IH [OF d(2) Cons.prems(2) r(1)] show ?thesis using below d(1) r(2) unfolding ab(2) by (simp add: Let_def)
  next
    case above
    have f: "filter ?P [a..<b] = []" using above(2) by (auto simp: filter_empty_conv)
    have "ds' = d # ds" "sent' = sent" "out' = out" using Cons.prems(3) above v by (auto simp: word_less_nat_alt)
    then show ?thesis using Cons.prems(1) f by (auto simp: Let_def)
  next
    case inside
    from sendMapData_ok [OF d(1), of node instanceID] obtain p where
      p: "os_sent (ios_sendMapData cmp node instanceID (id_os d)) = [([node], p)]" "map_data H a p"
        "entry_ok H a (keep_instance (d\<lparr>id_os := ios_sendMapData cmp node instanceID (id_os d)\<rparr>))"
      by (auto simp: map_data_def)
    let ?out = "out @ (if sent then [] else [([node], success)]) @ [([node], OBJECT_DATA p)]"
    obtain ds1 where r: "send_range cmp node instanceID start end success ds (True, ?out) = (ds1, sent', out')"
        "ds' = keep_instance (d\<lparr>id_os := ios_sendMapData cmp node instanceID (id_os d)\<rparr>) # ds1"
      using Cons.prems(3) inside v p(1)
      by (cases "send_range cmp node instanceID start end success ds (True, ?out)") (auto simp: word_less_nat_alt Let_def split: if_splits)
    from Cons.IH [OF d(2) Cons.prems(2) r(1)] obtain ps where
      ps: "list_all2 (map_data H) (filter ?P [Suc a..<b]) ps" "out' = ?out @ map (\<lambda>p. ([node], OBJECT_DATA p)) ps" "sent'"
        "list_all2 (entry_ok H) [Suc a..<b] ds1" "map id_commitCount ds1 = map id_commitCount ds" by (auto simp: Let_def)
    have "id_commitCount (keep_instance (d\<lparr>id_os := x\<rparr>)) = id_commitCount d" for x by (simp add: keep_instance_def)
    then show ?thesis using ps p(2,3) r(2) inside unfolding ab(2) by (auto simp: Let_def intro!: exI [of _ "p # ps"])
  qed
qed

lemma range_ok_datas:
  assumes "range_ok H cm" "list_all2 (entry_ok H) [Suc (unat (mc_version cm)) - length (mc_instanceDatas cm)..<Suc (unat (mc_version cm))] ds"
    and "map id_commitCount ds = map id_commitCount (mc_instanceDatas cm)"
  shows "range_ok H (cm\<lparr>mc_instanceDatas := ds, mc_out := out\<rparr>)" "recent_ok cm \<Longrightarrow> recent_ok (cm\<lparr>mc_instanceDatas := ds, mc_out := out\<rparr>)"
proof -
  have len: "length ds = length (mc_instanceDatas cm)" using assms(3) by (metis length_map)
  have cc: "id_commitCount ` set ds = id_commitCount ` set (mc_instanceDatas cm)" using assms(3) by (metis list.set_map)
  have tl: "id_commitCount ` set (tl ds) = id_commitCount ` set (tl (mc_instanceDatas cm))" using assms(3) by (metis list.set_map map_tl)
  have srt: "map (unat \<circ> id_commitCount) ds = map (unat \<circ> id_commitCount) (mc_instanceDatas cm)"
    by (simp only: map_map [symmetric] assms(3))
  have "\<forall>c \<in> id_commitCount ` set ds. c \<le> mc_commitCount cm" unfolding cc using assms(1) by (auto simp: range_ok_def)
  then have "\<forall>d \<in> set ds. id_commitCount d \<le> mc_commitCount cm" by blast
  then show "range_ok H (cm\<lparr>mc_instanceDatas := ds, mc_out := out\<rparr>)"
    using assms(1,2) len srt unfolding range_ok_def by auto
  show "recent_ok cm \<Longrightarrow> recent_ok (cm\<lparr>mc_instanceDatas := ds, mc_out := out\<rparr>)"
  proof -
    assume "recent_ok cm"
    then have "\<forall>c \<in> id_commitCount ` set (tl ds). unat (mc_commitCount cm) \<le> unat c + unat (mc_nVersions cm)"
      unfolding tl by (auto simp: recent_ok_def)
    then show "recent_ok (cm\<lparr>mc_instanceDatas := ds, mc_out := out\<rparr>)" by (auto simp: recent_ok_def)
  qed
qed

definition master_ok :: "(nat \<Rightarrow> u8 list list) \<Rightarrow> MasterCM \<Rightarrow> bool" where
  "master_ok H cm = (range_ok H cm \<and> recent_ok cm)"

lemma master_ok_emit [simp]: "master_ok H (emit nodes p cm) = master_ok H cm"
  by (simp add: master_ok_def)

lemma master_ok_slaves [simp]:
  "master_ok H (cm\<lparr>mc_slaveData := sd\<rparr>) = master_ok H cm" "master_ok H (cm\<lparr>mc_slaves := sl\<rparr>) = master_ok H cm"
  "master_ok H (cm\<lparr>mc_maxVersion := mv\<rparr>) = master_ok H cm"
  by (simp_all add: master_ok_def range_ok_def recent_ok_def)

lemma initSlave_ok:
  assumes "master_ok H cm"
  shows "master_ok H (fm_initSlave cmp node packet success reply cm)"
proof -
  have "master_ok H (cm\<lparr>mc_instanceDatas := ds', mc_out := out\<rparr>)"
    if "send_range cmp node i st en success (mc_instanceDatas cm) (False, mc_out cm) = (ds', sent, out)" for i st en ds' sent out
  proof -
    have "list_all2 (entry_ok H) [Suc (unat (mc_version cm)) - length (mc_instanceDatas cm)..<Suc (unat (mc_version cm))] (mc_instanceDatas cm)"
      "Suc (unat (mc_version cm)) \<le> 2 ^ 63" using assms by (simp_all add: master_ok_def range_ok_def)
    from send_range_spec [OF this that] show ?thesis using assms range_ok_datas unfolding master_ok_def by blast
  qed
  then show ?thesis by (simp add: fm_initSlave_def Let_def split: prod.split)
qed

lemma fm_commit_ok:
  assumes "master_ok H cm" "incarnation_ok inc cm"
    and "\<And>cm. range_ok H cm \<Longrightarrow> Suc (unat (mc_version cm)) < 2 ^ 63 \<Longrightarrow> range_ok (version_data H inst cm (do_commit cm)) (do_commit cm)"
    and "Suc (unat (mc_version cm)) < 2 ^ 63" "fm_commit do_commit dirty inc cm = Some (v, cm')"
  shows "master_ok (version_data H inst cm cm') cm'"
proof -
  let ?u = "updateCommitCount inc cm"
  have u: "range_ok H ?u" "mc_version ?u = mc_version cm" using updateCommitCount_ok assms(1,2) by (auto simp: master_ok_def)
  show ?thesis
  proof (cases dirty)
    case False
    then have "cm' = obsolete ?u" using assms(5) by (simp add: fm_commit_def Let_def)
    then show ?thesis using obsolete_ok [OF u(1)] u(2) by (simp add: version_data_def master_ok_def)
  next
    case True
    then have c: "cm' = obsolete (do_commit ?u)" using assms(5) by (simp add: fm_commit_def Let_def split: if_splits)
    have "range_ok (version_data H inst ?u (do_commit ?u)) (do_commit ?u)" using assms(3,4) u by simp
    from obsolete_ok [OF this] c u(2) show ?thesis by (auto simp: version_data_def master_ok_def split: if_splits)
  qed
qed

lemma init_ok:
  assumes "inst \<noteq> []" "[] \<notin> set inst"
  shows "master_ok ((\<lambda>_. [])(1 := inst)) (fm_init cmp n inst (new_master i))"
proof -
  let ?d = "\<lparr>id_os = os_enableSave (ios_reset (new_ostream CMD_NODE_OBJECT_INSTANCE i)), id_commitCount = 0\<rparr>"
  let ?d1 = "serialize_instance cmp n VERSION_FIRST [] inst ?d"
  have n: "newInstanceData (new_master i) = (?d, new_master i)" by (simp add: newInstanceData_def new_master_def)
  have "os_save (id_os ?d)" "os_sequence (id_os ?d) = 0"
    by (simp_all add: os_enableSave_def ios_reset_def os_reset_def os_resetBuffer_def Let_def)
  from serialize_instance_saved [OF this assms, of n VERSION_FIRST "[]"] have
    "entry_ok ((\<lambda>_. [])(1 := inst)) 1 (keep_instance ?d1)" "id_commitCount (keep_instance ?d1) = 0"
    using assms by (simp_all add: entry_ok_def VERSION_FIRST_def)
  moreover have "fm_init cmp n inst (new_master i) =
      (emit_stream (id_os ?d1) (new_master i))\<lparr>mc_instanceDatas := [keep_instance ?d1], mc_version := 1, mc_commitCount := 1\<rparr>"
    unfolding fm_init_def n by (simp add: new_master_def addInstanceData_def emit_stream_def VERSION_NONE_def Let_def)
  ultimately show ?thesis
    by (simp add: master_ok_def range_ok_def recent_ok_def new_master_def emit_stream_def new_ostream_def)
qed

lemma run_ok:
  assumes "master_run cmp n H cm"
  shows "master_ok H cm"
  using assms
proof induction
  case (start inst i)
  then show ?case by (rule init_ok)
next
  case (commit_full H cm inst inc dirty v cm')
  from commit_full.IH commit_full.hyps(3) _ commit_full.hyps(4,5) show ?case
    by (rule fm_commit_ok) (use full_commit_ok commit_full.hyps(2) in blast)
next
  case (commit_delta H cm inst inc delta dirty v cm')
  from commit_delta.IH commit_delta.hyps(4) _ commit_delta.hyps(5,6) show ?case
    by (rule fm_commit_ok) (use delta_commit_ok commit_delta.hyps(2,3) in blast)
next
  case (auto_obsolete H cm count)
  then have "range_ok H (cm\<lparr>mc_nVersions := count\<rparr>)" by (simp add: master_ok_def range_ok_def)
  from obsolete_ok [OF this] show ?case by (simp add: setAutoObsolete_def master_ok_def)
next
  case (add_slave H cm node packet)
  then show ?case
    by (simp add: addSlave_def cm_addSlave_def updateMaxVersion_def sendEmptyVersion_def Let_def initSlave_ok)
next
  case (remove_slave H cm node instanceID)
  then show ?case by (simp add: removeSlave_def updateMaxVersion_def split: option.split)
next
  case (remove_slaves H cm node)
  then show ?case by (simp add: removeSlaves_def updateMaxVersion_def)
next
  case (max_version H cm node slaveID version)
  then show ?case by (simp add: cmdMaxVersion_def updateMaxVersion_def split: option.split)
qed

lemma consistent_from_ok:
  assumes "list_all2 (entry_ok H) [Suc V - length ds..<Suc V] ds" "length ds \<le> V" "V < 2 ^ 63"
    and "\<forall>d \<in> set (tl ds). unat cC \<le> unat (id_commitCount d) + unat nV" "\<forall>d \<in> set ds. id_commitCount d \<le> cC"
    and "unat cC < 2 ^ 31" "unat nV < 2 ^ 31"
  shows "consistent_from cC nV (of_nat V) (rev ds)"
  using assms
proof (induction ds arbitrary: V rule: rev_induct)
  case (snoc d ds)
  have V: "V = Suc (V - 1)" using snoc.prems(2) by simp
  have r: "[Suc V - length (ds @ [d])..<Suc V] = [V - length ds..<V] @ [V]" using snoc.prems(2) by simp
  have "list_all2 (entry_ok H) [V - length ds..<V] ds \<and> list_all2 (entry_ok H) [V] [d]"
    using snoc.prems(1,2) unfolding r by (subst (asm) list_all2_append) simp_all
  then have e: "list_all2 (entry_ok H) [V - length ds..<V] ds" "entry_ok H V d" by simp_all
  have "unat (of_nat V :: u128) = V" using snoc.prems(3) by (simp add: unsigned_of_nat take_bit_nat_eq_self)
  then have nz: "(of_nat V :: u128) \<noteq> 0" using V by (metis unat_0 nat.distinct(1))
  have pred: "(of_nat V :: u128) - 1 = of_nat (V - 1)" by (subst V) simp
  have "cC \<le> id_commitCount d + nV" if "ds \<noteq> []"
  proof -
    have "d \<in> set (tl (ds @ [d]))" using that by (cases ds) auto
    then have "unat cC \<le> unat (id_commitCount d) + unat nV" using snoc.prems(4) by blast
    moreover have "unat (id_commitCount d) < 2 ^ 31" using snoc.prems(5,6) by (auto simp: word_le_nat_alt)
    then have "unat (id_commitCount d + nV) = unat (id_commitCount d) + unat nV"
      using snoc.prems(7) by (simp add: unat_word_ariths)
    ultimately show ?thesis by (simp add: word_le_nat_alt)
  qed
  moreover have "consistent_from cC nV (of_nat (V - 1)) (rev ds)"
  proof (rule snoc.IH)
    show "list_all2 (entry_ok H) [Suc (V - 1) - length ds..<Suc (V - 1)] ds" using e(1) V by simp
    show "\<forall>d \<in> set (tl ds). unat cC \<le> unat (id_commitCount d) + unat nV" using snoc.prems(4) by (cases ds) auto
  qed (use snoc.prems in auto)
  ultimately show ?case using e(2) nz pred by (simp add: entry_ok_def VERSION_NONE_def)
qed simp

lemma run_consistent:
  assumes "master_run cmp n H cm"
  shows "checkConsistency cm"
proof -
  have ok: "range_ok H cm" "recent_ok cm" using run_ok [OF assms] by (simp_all add: master_ok_def)
  have "consistent_from (mc_commitCount cm) (mc_nVersions cm) (of_nat (unat (mc_version cm))) (rev (mc_instanceDatas cm))"
    by (rule consistent_from_ok [where H = H]) (use ok in \<open>simp_all add: range_ok_def recent_ok_def del: upt_Suc of_nat_unat\<close>)
  then show ?thesis using ok(1) by (simp add: checkConsistency_def range_ok_def)
qed

lemma run_range:
  assumes "master_run cmp n H cm"
  obtains a where "list_all2 (entry_ok H) [a..<Suc (unat (mc_version cm))] (mc_instanceDatas cm)" "0 < a" "a \<le> unat (mc_version cm)"
    "unat (os_version (id_os (hd (mc_instanceDatas cm)))) = a" "unat (mc_version cm) < 2 ^ 63"
proof -
  have ok: "range_ok H cm" using run_ok [OF assms] by (simp add: master_ok_def)
  let ?a = "Suc (unat (mc_version cm)) - length (mc_instanceDatas cm)"
  have l: "list_all2 (entry_ok H) [?a..<Suc (unat (mc_version cm))] (mc_instanceDatas cm)" "mc_instanceDatas cm \<noteq> []"
    "length (mc_instanceDatas cm) \<le> unat (mc_version cm)" "unat (mc_version cm) < 2 ^ 63" using ok by (simp_all add: range_ok_def del: upt_Suc)
  then have "0 < length (mc_instanceDatas cm)" by simp
  then have lt: "?a < Suc (unat (mc_version cm))" by linarith
  from l(2) obtain d ds where ds: "mc_instanceDatas cm = d # ds" by (cases "mc_instanceDatas cm") auto
  have "entry_ok H ?a d" using l(1) lt unfolding ds by (simp add: upt_conv_Cons del: upt_Suc)
  then have "os_version (id_os d) = of_nat ?a" by (simp add: entry_ok_def)
  moreover have "?a < 2 ^ 63" using lt l(4) by linarith
  ultimately have "unat (os_version (id_os d)) = ?a" by (simp add: unsigned_of_nat take_bit_nat_eq_self)
  with that [of ?a] l lt ds show ?thesis by simp
qed

lemma entries_ne: "list_all2 (entry_ok H) vs ds \<Longrightarrow> v \<in> set vs \<Longrightarrow> [] \<notin> set (H v)"
  by (induction rule: list_all2_induct) (auto simp: entry_ok_def)

lemma map_data_reads:
  assumes "map_data H v p" "[] \<notin> set (H v)" "v < 2 ^ 63"
  shows "op_version p = of_nat v" "fst (is_reads plugins (map length (H v)) (is_addDataPacket p new_istream)) = Some (H v)"
proof -
  have c: "complete (of_nat v) [H v] [p]" using assms(1) by (simp add: map_data_def)
  then show "op_version p = of_nat v" by (simp add: complete_def)
  have "unat (of_nat v :: u128) = v" using assms(3) by (simp add: unsigned_of_nat take_bit_nat_eq_self)
  then have "(of_nat v :: u128) \<noteq> VERSION_INVALID" using assms(3) by (auto simp: VERSION_INVALID_def)
  from receive_complete [OF c this] have "is_holds plugins [] [H v] (is_addDataPacket p new_istream)" by simp
  from is_reads_mirror [OF this _ assms(2)] show "fst (is_reads plugins (map length (H v)) (is_addDataPacket p new_istream)) = Some (H v)"
    by simp
qed

end

lemma map_range_covers:
  assumes "start \<le> version" "unat start \<le> v" "v \<le> unat version" "unat version < 2 ^ 63"
    and "map_range useCache packet start version = (start1, end1)"
  shows "unat start1 \<le> v \<and> v \<le> unat end1 \<or>
    useCache \<and> mr_minCachedVersion packet \<le> of_nat v \<and> of_nat v \<le> mr_maxCachedVersion packet"
proof -
  have uv: "unat (of_nat v :: u128) = v" using assms(3,4) by (simp add: unsigned_of_nat take_bit_nat_eq_self)
  let ?m = "mr_minCachedVersion packet" and ?M = "mr_maxCachedVersion packet"
  consider (head) "useCache" "?m \<le> start" "start \<le> ?M" | (tail) "useCache" "\<not> (?m \<le> start \<and> start \<le> ?M)" "?M = version"
    | (all) "start1 = start" "end1 = version" using assms(5) by (auto simp: map_range_def split: if_splits)
  then show ?thesis
  proof cases
    case head
    then have r: "start1 = ?M + 1" "end1 = version" using assms(5) by (auto simp: map_range_def)
    show ?thesis
    proof (cases "of_nat v \<le> ?M")
      case True
      have "?m \<le> of_nat v" using head(2) assms(2) uv by (simp add: word_le_nat_alt)
      then show ?thesis using True head(1) by blast
    next
      case False
      then have lt: "unat ?M < v" using uv by (simp add: word_le_nat_alt)
      then have "?M \<noteq> -1" using assms(3,4) by (auto simp: unsigned_minus_1_eq_mask mask_eq_exp_minus_1)
      then have "unat (?M + 1) = Suc (unat ?M)" by (rule unat_inc)
      then show ?thesis using r lt assms(3) by simp
    qed
  next
    case tail
    then have r: "start1 = start" "end1 = max start (?m - 1)" "start < ?m" using assms(1,5) by (auto simp: map_range_def)
    show ?thesis
    proof (cases "?m \<le> of_nat v")
      case True
      then show ?thesis using tail assms(3) uv by (simp add: word_le_nat_alt)
    next
      case False
      have "unat (?m - 1) = unat ?m - 1" using r(3) by (intro unat_minus_one) auto
      then have "v \<le> unat end1" using False uv r(2) by (auto simp: word_le_nat_alt max_def)
      then show ?thesis using r(1) assms(2) by simp
    qed
  qed (use assms(2,3) in simp)
qed

text \<open>C12. Every reachable master passes \<open>_checkConsistency\<close>: whatever commits, retention changes,
  mappings and unmappings happen, the retained instance data has no gaps, ends at the current
  version, and all of it but the oldest entry is within the retention range. The commit counter
  and the retention are below \<open>2 ^ 31\<close>, and incarnations given by the application do not
  decrease.\<close>

theorem master_consistent:
  assumes "lossless_plugin cmp plugins" "master_run cmp n H cm"
  shows "checkConsistency cm"
  by (rule lossless_plugin.run_consistent [OF assms])

definition demo_master :: MasterCM where
  "demo_master = fm_init rleb_compressor 100 [[1, 2]] (new_master 3)"

lemma demo_master_run: "master_run rleb_compressor 100 ((\<lambda>_. [])(1 := [[1, 2]])) demo_master"
  unfolding demo_master_def by (rule master_run.start) simp_all

theorem master_consistent_witness: "checkConsistency (removeSlaves 8 (setAutoObsolete 5 demo_master))"
  by (rule master_consistent [OF rleb_stream.lossless_plugin_axioms])
    (rule master_run.remove_slaves, rule master_run.auto_obsolete, rule demo_master_run, simp)

text \<open>C4. Mapping is complete: a node that maps an object at an existing version is told the
  version it starts at, the requested one or the oldest retained one. Every version from there
  to the current one is either sent, in order, or lies in the range the node has cached; and
  each packet sent reads back as what the object had written for that version.\<close>

theorem mapping_complete:
  assumes "lossless_plugin cmp plugins" "master_run cmp n H cm" "mr_requestedVersion packet \<noteq> VERSION_NONE"
    and "map_start (mr_requestedVersion packet) (os_version (id_os (hd (mc_instanceDatas cm)))) \<le> mc_version cm"
  shows "\<exists>ps reply. mc_out (addSlave (fm_initSlave cmp) node packet cm) =
      mc_out cm @ [([node], MAP_SUCCESS node (mr_instanceID packet) (mc_instanceID cm))] @
      map (\<lambda>p. ([node], OBJECT_DATA p)) ps @ [([node], MAP_REPLY reply)] \<and>
    rp_version reply = map_start (mr_requestedVersion packet) (os_version (id_os (hd (mc_instanceDatas cm)))) \<and>
    sorted (map (unat \<circ> op_version) ps) \<and>
    (\<forall>p \<in> set ps. let ws = H (unat (op_version p)) in
       fst (is_reads plugins (map length ws) (is_addDataPacket p new_istream)) = Some ws) \<and>
    (\<forall>v. unat (rp_version reply) \<le> v \<and> v \<le> unat (mc_version cm) \<longrightarrow>
       of_nat v \<in> op_version ` set ps \<or>
       (mr_useCache packet \<and> mr_minCachedVersion packet \<le> of_nat v \<and> of_nat v \<le> mr_maxCachedVersion packet))"
proof -
  let ?start = "map_start (mr_requestedVersion packet) (os_version (id_os (hd (mc_instanceDatas cm))))"
  let ?success = "MAP_SUCCESS node (mr_instanceID packet) (mc_instanceID cm)" and ?V = "unat (mc_version cm)"
  let ?use = "mr_useCache packet \<and> mr_masterInstanceID packet = mc_instanceID cm"
  from lossless_plugin.run_range [OF assms(1,2)] obtain a where a:
    "list_all2 (lossless_plugin.entry_ok cmp H) [a..<Suc ?V] (mc_instanceDatas cm)" "0 < a" "a \<le> ?V"
    "unat (os_version (id_os (hd (mc_instanceDatas cm)))) = a" "?V < 2 ^ 63" .
  obtain st en where r: "map_range ?use packet ?start (mc_version cm) = (st, en)" by (cases "map_range ?use packet ?start (mc_version cm)")
  obtain ds sent out where sr: "send_range cmp node (mr_instanceID packet) st en ?success (mc_instanceDatas cm) (False, mc_out cm) = (ds, sent, out)"
    by (cases "send_range cmp node (mr_instanceID packet) st en ?success (mc_instanceDatas cm) (False, mc_out cm)") auto
  define vs where "vs = filter (\<lambda>v. unat st \<le> v \<and> v \<le> unat en) [a..<Suc ?V]"
  have vs: "set vs = {v. unat st \<le> v \<and> v \<le> unat en \<and> a \<le> v \<and> v \<le> ?V}" "sorted vs"
    by (auto simp: vs_def sorted_wrt_filter simp del: upt_Suc)
  have "Suc ?V \<le> 2 ^ 63" using a(5) by simp
  from lossless_plugin.send_range_spec [OF assms(1) a(1) this sr] obtain ps where
    ps: "list_all2 (lossless_plugin.map_data plugins H) vs ps" "sent = (vs \<noteq> [])"
      "out = mc_out cm @ (if vs = [] then [] else [([node], ?success)]) @ map (\<lambda>p. ([node], OBJECT_DATA p)) ps"
    unfolding Let_def vs_def by auto
  have len: "length ps = length vs" using ps(1) by (metis list_all2_lengthD)
  have elem: "op_version (ps ! i) = of_nat (vs ! i)" "unat (op_version (ps ! i)) = vs ! i"
      "fst (is_reads plugins (map length (H (vs ! i))) (is_addDataPacket (ps ! i) new_istream)) = Some (H (vs ! i))"
    if "i < length ps" for i
  proof -
    have "i < length vs" using that len by (simp only:)
    then have "vs ! i \<in> set vs" by (rule nth_mem)
    then have v: "vs ! i \<in> set [a..<Suc ?V]" "vs ! i \<le> ?V" unfolding vs(1) by auto
    then have "[] \<notin> set (H (vs ! i))" by (intro lossless_plugin.entries_ne [OF assms(1) a(1)])
    moreover have lt: "vs ! i < 2 ^ 63" using v(2) a(5) by linarith
    moreover have "lossless_plugin.map_data plugins H (vs ! i) (ps ! i)" using \<open>i < length vs\<close> by (rule list_all2_nthD [OF ps(1)])
    ultimately show "op_version (ps ! i) = of_nat (vs ! i)"
      "fst (is_reads plugins (map length (H (vs ! i))) (is_addDataPacket (ps ! i) new_istream)) = Some (H (vs ! i))"
      using lossless_plugin.map_data_reads [OF assms(1)] by blast+
    then show "unat (op_version (ps ! i)) = vs ! i" using lt by (simp add: unsigned_of_nat take_bit_nat_eq_self)
  qed
  let ?reply = "\<lparr>rp_node = node, rp_version = ?start, rp_result = True, rp_releaseCache = mr_useCache packet, rp_useCache = ?use\<rparr>"
  have "mc_out (addSlave (fm_initSlave cmp) node packet cm) =
      mc_out cm @ [([node], ?success)] @ map (\<lambda>p. ([node], OBJECT_DATA p)) ps @ [([node], MAP_REPLY ?reply)]"
    using assms(3) r sr ps(2,3) len
    by (auto simp: addSlave_def cm_addSlave_def fm_initSlave_def updateMaxVersion_def emit_def Let_def)
  moreover have "map (unat \<circ> op_version) ps = vs" using len elem(2) by (intro nth_equalityI) auto
  then have "sorted (map (unat \<circ> op_version) ps)" using vs(2) by simp
  moreover have "\<forall>p \<in> set ps. let ws = H (unat (op_version p)) in
       fst (is_reads plugins (map length ws) (is_addDataPacket p new_istream)) = Some ws"
    using elem by (auto simp: in_set_conv_nth Let_def)
  moreover have "of_nat v \<in> op_version ` set ps \<or>
       (mr_useCache packet \<and> mr_minCachedVersion packet \<le> of_nat v \<and> of_nat v \<le> mr_maxCachedVersion packet)"
    if v: "unat ?start \<le> v" "v \<le> ?V" for v
  proof (cases "unat st \<le> v \<and> v \<le> unat en")
    case True
    have "a \<le> unat ?start" using a(4) by (auto simp: map_start_def word_less_nat_alt)
    then have "v \<in> set vs" unfolding vs(1) using True v by simp
    then obtain i where i: "i < length vs" "vs ! i = v" unfolding in_set_conv_nth by blast
    then have "i < length ps" by (simp only: len)
    with elem(1) [OF this] i(2) show ?thesis by (metis image_eqI nth_mem)
  next
    case False
    then show ?thesis using map_range_covers [OF assms(4) v a(5) r] by blast
  qed
  ultimately show ?thesis by (intro exI [of _ ps] exI [of _ ?reply]) simp
qed

theorem mapping_complete_witness:
  "\<exists>ps reply. mc_out (addSlave (fm_initSlave rleb_compressor) 8 \<lparr>mr_requestedVersion = VERSION_OLDEST, mr_minCachedVersion = 0,
       mr_maxCachedVersion = 0, mr_maxVersion = 0, mr_instanceID = 4, mr_masterInstanceID = 3, mr_useCache = False\<rparr> demo_master) =
     mc_out demo_master @ [([8], MAP_SUCCESS 8 4 (mc_instanceID demo_master))] @
     map (\<lambda>p. ([8], OBJECT_DATA p)) ps @ [([8], MAP_REPLY reply)] \<and> 1 \<in> op_version ` set ps"
proof -
  let ?packet = "\<lparr>mr_requestedVersion = VERSION_OLDEST, mr_minCachedVersion = 0, mr_maxCachedVersion = 0, mr_maxVersion = 0,
    mr_instanceID = 4, mr_masterInstanceID = 3, mr_useCache = False\<rparr>"
  from lossless_plugin.run_range [OF rleb_stream.lossless_plugin_axioms demo_master_run] obtain a where
    a: "0 < a" "a \<le> unat (mc_version demo_master)" "unat (os_version (id_os (hd (mc_instanceDatas demo_master)))) = a" .
  have v: "mc_version demo_master = 1"
    by (simp add: demo_master_def fm_init_def newInstanceData_def new_master_def addInstanceData_def emit_stream_def VERSION_NONE_def Let_def)
  then have o: "os_version (id_os (hd (mc_instanceDatas demo_master))) = 1" using a by (simp add: word_unat_eq_iff)
  then have "map_start (mr_requestedVersion ?packet) (os_version (id_os (hd (mc_instanceDatas demo_master)))) \<le> mc_version demo_master"
    using v by (simp add: map_start_def)
  from mapping_complete [OF rleb_stream.lossless_plugin_axioms demo_master_run _ this, of 8] obtain ps reply where
    "mc_out (addSlave (fm_initSlave rleb_compressor) 8 ?packet demo_master) = mc_out demo_master @
       [([8], MAP_SUCCESS 8 4 (mc_instanceID demo_master))] @ map (\<lambda>p. ([8], OBJECT_DATA p)) ps @ [([8], MAP_REPLY reply)]"
    "rp_version reply = 1" "\<And>v. unat (rp_version reply) \<le> v \<Longrightarrow> v \<le> unat (mc_version demo_master) \<Longrightarrow> of_nat v \<in> op_version ` set ps"
    by (auto simp: version_defs map_start_def o)
  with v show ?thesis by (metis (no_types, lifting) unat_1 of_nat_1 le_refl)
qed


end
