(* ===== verification/Master_Flow.thy ===== *)
theory Master_Flow
  imports Master_Run
begin

text \<open>
  The slaves of a master: the nodes that commits go to are those of the subscribed slaves, and a
  commit waits exactly while some slave has reached its limit of queued versions. Two ways in
  which the bookkeeping of versions goes wrong are shown as well.
\<close>

section \<open>Frame\<close>

lemma frame_updateCommitCount:
  "mc_slaveData (updateCommitCount inc cm) = mc_slaveData cm" "mc_slaves (updateCommitCount inc cm) = mc_slaves cm"
  "mc_maxVersion (updateCommitCount inc cm) = mc_maxVersion cm"
  by (simp_all add: updateCommitCount_def fold_release Let_def split: prod.split)

lemma frame_obsolete:
  "mc_slaveData (obsolete cm) = mc_slaveData cm" "mc_slaves (obsolete cm) = mc_slaves cm" "mc_maxVersion (obsolete cm) = mc_maxVersion cm"
  by (simp_all add: obsolete_def fold_release split: prod.split)

lemma frame_newInstanceData:
  "newInstanceData cm = (d, cm1) \<Longrightarrow> mc_slaveData cm1 = mc_slaveData cm \<and> mc_slaves cm1 = mc_slaves cm \<and> mc_maxVersion cm1 = mc_maxVersion cm"
  by (auto simp: newInstanceData_def Let_def split: if_splits)

lemmas frame_ops = addInstanceData_def releaseInstanceData_def emit_stream_def emit_def Let_def

lemma frame_full_commit:
  "mc_slaveData (full_commit cmp n inst cm) = mc_slaveData cm" "mc_slaves (full_commit cmp n inst cm) = mc_slaves cm"
  "mc_maxVersion (full_commit cmp n inst cm) = mc_maxVersion cm"
  by (auto simp: full_commit_def frame_ops split: prod.split dest: frame_newInstanceData)

lemma frame_delta_commit:
  "mc_slaveData (delta_commit cmp n inst delta cm) = mc_slaveData cm \<and> mc_slaves (delta_commit cmp n inst delta cm) = mc_slaves cm \<and>
   mc_maxVersion (delta_commit cmp n inst delta cm) = mc_maxVersion cm"
proof -
  define cm1 where "cm1 = (if mc_slaves cm \<noteq> [] then
      let os = os_disable cmp (fold (os_write cmp n) delta (os_enableCommit (mc_version cm + 1) (mc_slaves cm) (os_reset (mc_deltaData cm))))
      in (emit_stream os cm)\<lparr>mc_deltaData := os\<lparr>os_sent := []\<rparr>\<rparr> else cm)"
  have 1: "mc_slaveData cm1 = mc_slaveData cm" "mc_slaves cm1 = mc_slaves cm" "mc_maxVersion cm1 = mc_maxVersion cm"
    by (simp_all add: cm1_def Let_def emit_stream_def)
  obtain d cm2 where d: "newInstanceData cm1 = (d, cm2)" by (cases "newInstanceData cm1")
  show ?thesis unfolding delta_commit_def cm1_def [symmetric] using frame_newInstanceData [OF d] 1 d
    by (simp add: frame_ops)
qed

lemma frame_initSlave:
  "mc_slaveData (fm_initSlave cmp node packet success reply cm) = mc_slaveData cm"
  "mc_slaves (fm_initSlave cmp node packet success reply cm) = mc_slaves cm"
  "mc_maxVersion (fm_initSlave cmp node packet success reply cm) = mc_maxVersion cm"
  by (simp_all add: fm_initSlave_def frame_ops split: prod.split)

lemma frame_addSlave:
  "mc_slaveData (cm_addSlave (fm_initSlave cmp) node packet v cm) = mc_slaveData cm"
  "mc_slaves (cm_addSlave (fm_initSlave cmp) node packet v cm) = mc_slaves cm"
  "mc_maxVersion (cm_addSlave (fm_initSlave cmp) node packet v cm) = mc_maxVersion cm"
  by (simp_all add: cm_addSlave_def sendEmptyVersion_def frame_initSlave emit_def Let_def)

section \<open>Subscribed nodes\<close>

definition slaves_ok :: "MasterCM \<Rightarrow> bool" where
  "slaves_ok cm = (distinct (mc_slaves cm) \<and> set (mc_slaves cm) = sd_node ` set (mc_slaveData cm) \<and>
     mc_maxVersion cm = min_version (mc_slaveData cm) (-1))"

lemma set_max_version_nodes: "set_max_version nd i v ss = Some ss' \<Longrightarrow> map sd_node ss' = map sd_node ss"
  by (induction ss arbitrary: ss') (auto split: if_splits)

lemma slaves_ok_run:
  assumes "master_run cmp n H cm"
  shows "slaves_ok cm"
  using assms
proof induction
  case (start inst i)
  then show ?case
    by (simp add: slaves_ok_def fm_init_def newInstanceData_def new_master_def frame_ops)
next
  case (commit_full H cm inst inc dirty v cm')
  then show ?case
    by (auto simp: slaves_ok_def fm_commit_def frame_obsolete frame_updateCommitCount frame_full_commit Let_def split: if_splits)
next
  case (commit_delta H cm inst inc delta dirty v cm')
  then show ?case
    by (auto simp: slaves_ok_def fm_commit_def frame_obsolete frame_updateCommitCount frame_delta_commit Let_def split: if_splits)
next
  case (auto_obsolete H cm count)
  then show ?case by (simp add: slaves_ok_def setAutoObsolete_def frame_obsolete)
next
  case (add_slave H cm node packet)
  then show ?case
    by (simp add: slaves_ok_def addSlave_def frame_addSlave updateMaxVersion_def Let_def)
next
  case (remove_slave H cm node instanceID)
  then show ?case by (auto simp: slaves_ok_def removeSlave_def updateMaxVersion_def split: option.split)
next
  case (remove_slaves H cm node)
  then show ?case by (auto simp: slaves_ok_def removeSlaves_def updateMaxVersion_def distinct_remove1)
next
  case (max_version H cm node slaveID version)
  then show ?case
    by (auto simp: slaves_ok_def cmdMaxVersion_def updateMaxVersion_def split: option.split dest!: set_max_version_nodes)
      (metis image_set image_eqI)+
qed

text \<open>Commits go to the subscribed nodes: the list of nodes that a master sends to has no
  duplicates and holds exactly the nodes of the slaves that have mapped the object and not
  unmapped it, through every sequence of operations.\<close>

theorem slaves_subscribed:
  assumes "master_run cmp n H cm"
  shows "distinct (mc_slaves cm) \<and> set (mc_slaves cm) = sd_node ` set (mc_slaveData cm)"
  using slaves_ok_run [OF assms] by (simp add: slaves_ok_def)

theorem slaves_subscribed_witness:
  "distinct (mc_slaves (removeSlave 8 4 demo_master)) \<and>
   set (mc_slaves (removeSlave 8 4 demo_master)) = sd_node ` set (mc_slaveData (removeSlave 8 4 demo_master))"
  by (rule slaves_subscribed [OF master_run.remove_slave [OF demo_master_run]])

section \<open>Flow control\<close>

lemma min_version_le:
  "min_version ss m \<le> m \<and> (\<forall>s \<in> set ss. min_version ss m \<le> sd_maxVersion s \<or> sd_maxVersion s = -1)"
proof (induction ss arbitrary: m)
  case (Cons s ss)
  let ?m = "if sd_maxVersion s \<noteq> -1 \<and> sd_maxVersion s < m then sd_maxVersion s else m"
  have "?m \<le> m" "?m \<le> sd_maxVersion s \<or> sd_maxVersion s = -1" by auto
  then show ?case using Cons.IH [of ?m] by (auto intro: order_trans)
qed simp

lemma min_version_mem: "min_version ss m = m \<or> (\<exists>s \<in> set ss. min_version ss m = sd_maxVersion s)"
  by (induction ss arbitrary: m) (fastforce split: if_splits)+

text \<open>C17. A commit waits for the slowest slave: it is blocked if and only if the object is dirty and
  the next version is beyond what some slave has room for. Slaves without a limit never block.\<close>

theorem commit_blocks_iff:
  assumes "master_run cmp n H cm" "unat (mc_version cm) < 2 ^ 63"
  shows "fm_commit do_commit dirty inc cm = None \<longleftrightarrow>
    dirty \<and> (\<exists>s \<in> set (mc_slaveData cm). unat (sd_maxVersion s) < unat (mc_version cm) + 1)"
proof -
  have m: "mc_maxVersion cm = min_version (mc_slaveData cm) (-1)" using slaves_ok_run [OF assms(1)] by (simp add: slaves_ok_def)
  have u: "unat (ucast (mc_version cm) :: u64) = unat (mc_version cm)"
    using assms(2) by (simp add: unsigned_ucast_eq take_bit_nat_eq_self)
  have big: "unat (-1 :: u64) = 2 ^ 64 - 1" by (simp add: unsigned_minus_1_eq_mask mask_eq_exp_minus_1)
  have "unat (ucast (mc_version cm) :: u64) \<noteq> unat (-1 :: u64)" unfolding u big using assms(2) by simp
  then have "(ucast (mc_version cm) :: u64) \<noteq> -1" by metis
  then have u1: "unat (ucast (mc_version cm) + 1 :: u64) = unat (mc_version cm) + 1" using u by (simp add: unat_inc)
  have "\<not> waitGE cm \<longleftrightarrow> unat (min_version (mc_slaveData cm) (-1)) < unat (mc_version cm) + 1"
    by (simp add: waitGE_def m word_le_nat_alt u1 not_le)
  also have "\<dots> \<longleftrightarrow> (\<exists>s \<in> set (mc_slaveData cm). unat (sd_maxVersion s) < unat (mc_version cm) + 1)"
  proof
    assume lt: "unat (min_version (mc_slaveData cm) (-1)) < unat (mc_version cm) + 1"
    then have "min_version (mc_slaveData cm) (-1) \<noteq> -1" using big assms(2) by auto
    then show "\<exists>s \<in> set (mc_slaveData cm). unat (sd_maxVersion s) < unat (mc_version cm) + 1"
      using min_version_mem [of "mc_slaveData cm" "-1"] lt by auto
  next
    assume "\<exists>s \<in> set (mc_slaveData cm). unat (sd_maxVersion s) < unat (mc_version cm) + 1"
    then obtain s where s: "s \<in> set (mc_slaveData cm)" "unat (sd_maxVersion s) < unat (mc_version cm) + 1" by blast
    moreover have "sd_maxVersion s \<noteq> -1" using s(2) big assms(2) by auto
    ultimately show "unat (min_version (mc_slaveData cm) (-1)) < unat (mc_version cm) + 1"
      using min_version_le [of "mc_slaveData cm" "-1"] by (auto simp: word_le_nat_alt dest!: bspec)
  qed
  finally show ?thesis by (auto simp: fm_commit_def Let_def)
qed

theorem commit_blocks_iff_witness:
  "fm_commit (full_commit rleb_compressor 100 [[7]]) True CO_COMMIT_NEXT demo_master \<noteq> None"
proof -
  have "mc_slaveData demo_master = []" "unat (mc_version demo_master) < 2 ^ 63"
    by (simp_all add: demo_master_def fm_init_def newInstanceData_def new_master_def frame_ops VERSION_NONE_def)
  then show ?thesis using commit_blocks_iff [OF demo_master_run] by simp
qed

section \<open>Commit counters that decrease\<close>

lemma drop_future_prefix:
  assumes "ds \<noteq> []" "drop_future c ds = (kept, released)" "\<exists>d \<in> set ds. id_commitCount d \<le> c"
  shows "\<exists>k. 0 < k \<and> k \<le> length ds \<and> kept = take k ds \<and> (c < id_commitCount (last ds) \<longrightarrow> 1 < length ds \<longrightarrow> k < length ds) \<and>
    \<not> c < id_commitCount (last kept)"
  using assms
proof (induction c ds arbitrary: kept released rule: drop_future.induct)
  case (3 c d e ds)
  show ?case
  proof (cases "id_commitCount (last (d # e # ds)) \<le> c")
    case True
    then have "kept = d # e # ds" using 3(3) by simp
    then show ?thesis using True by (intro exI [of _ "length (d # e # ds)"]) auto
  next
    case False
    obtain k' r where r: "drop_future c (butlast (d # e # ds)) = (k', r)" by (cases "drop_future c (butlast (d # e # ds))")
    then have k': "kept = k'" using 3(3) False by simp
    have "\<exists>x \<in> set (butlast (d # e # ds)). id_commitCount x \<le> c"
    proof -
      from 3(4) obtain x where x: "x \<in> set (d # e # ds)" "id_commitCount x \<le> c" by blast
      then have "x \<noteq> last (d # e # ds)" using False by auto
      then have "x \<in> set (butlast (d # e # ds))" using x(1) append_butlast_last_id [of "d # e # ds"]
        by (metis list.distinct(1) rotate1.simps(2) set_ConsD set_rotate1)
      then show ?thesis using x(2) by blast
    qed
    from 3(1) [OF False _ r this] obtain k where k: "0 < k" "k \<le> length (butlast (d # e # ds))" "k' = take k (butlast (d # e # ds))"
      "\<not> c < id_commitCount (last k')" by auto
    then have "kept = take k (d # e # ds)" unfolding k' by (simp add: take_butlast del: butlast.simps)
    then show ?thesis using k k' by (intro exI [of _ k]) auto
  qed
qed auto

lemma consistent_versions: "consistent_from c nv v ds \<Longrightarrow> j < length ds \<Longrightarrow> os_version (id_os (ds ! j)) = v - of_nat j"
proof (induction ds arbitrary: v j)
  case (Cons d ds)
  then show ?case by (cases j) (auto simp: algebra_simps)
qed simp

text \<open>A decreasing commit counter breaks the version bookkeeping: the instance data of the later
  commits is dropped, but the current version stays unless even the oldest retained data is
  too new. The master then no longer passes \<open>_checkConsistency\<close>, and the next commit leaves a gap.\<close>

theorem decreasing_incarnation_inconsistent:
  assumes "incarnation < mc_commitCount cm" "checkConsistency cm" "mc_version cm \<noteq> VERSION_NONE"
    and "1 < length (mc_instanceDatas cm)" "length (mc_instanceDatas cm) < 2 ^ 128" "incarnation < id_commitCount (last (mc_instanceDatas cm))"
    and "\<exists>d \<in> set (mc_instanceDatas cm). id_commitCount d \<le> incarnation"
  shows "\<not> checkConsistency (updateCommitCount incarnation cm)"
proof -
  let ?ds = "mc_instanceDatas cm"
  obtain kept released where df: "drop_future incarnation ?ds = (kept, released)" by (cases "drop_future incarnation ?ds")
  have ne: "?ds \<noteq> []" using assms(4) by auto
  from drop_future_prefix [OF ne df assms(7)] assms(4,6) obtain k where
    k: "0 < k" "k < length ?ds" "kept = take k ?ds" "\<not> incarnation < id_commitCount (last kept)" by blast
  have "incarnation \<noteq> CO_COMMIT_NEXT" using assms(1) by (auto simp: CO_COMMIT_NEXT_def)
  then have u: "updateCommitCount incarnation cm =
      fold releaseInstanceData released (cm\<lparr>mc_commitCount := incarnation, mc_instanceDatas := kept\<rparr>)"
    using assms(1) df k(4) by (simp add: updateCommitCount_def Let_def)
  let ?j = "length ?ds - k"
  have j: "0 < ?j" "?j < length ?ds" "rev ?ds ! ?j = last kept"
    using k ne last_conv_nth [of kept] by (auto simp: rev_nth min_def)
  have "consistent_from (mc_commitCount cm) (mc_nVersions cm) (mc_version cm) (rev ?ds)"
    using assms(2,3) by (simp add: checkConsistency_def)
  from consistent_versions [OF this, of ?j] j have lv: "os_version (id_os (last kept)) = mc_version cm - of_nat ?j" by simp
  have "unat (of_nat ?j :: u128) = ?j" using j(2) assms(5) by (simp add: unsigned_of_nat take_bit_nat_eq_self)
  then have "(of_nat ?j :: u128) \<noteq> 0" using j(1) by (metis unat_0 not_less0)
  then have diff: "os_version (id_os (last kept)) \<noteq> mc_version cm" using lv by simp
  have "kept \<noteq> []" using k(1,3) ne by auto
  then have rk: "rev kept = last kept # rev (butlast kept)" by (metis append_butlast_last_id rev.simps(2) rev_append rev_rev_ident append_Cons append_Nil rev_singleton_conv)
  have "\<not> consistent_from incarnation (mc_nVersions cm) (mc_version cm) (rev kept)" unfolding rk using diff by simp
  then show ?thesis using assms(3) unfolding u by (simp add: fold_release checkConsistency_def)
qed

definition demo_instance :: "u128 \<Rightarrow> u32 \<Rightarrow> InstanceData" where
  "demo_instance v c = \<lparr>id_os = (new_ostream CMD_NODE_OBJECT_INSTANCE 3)\<lparr>os_version := v\<rparr>, id_commitCount = c\<rparr>"

theorem decreasing_incarnation_inconsistent_witness:
  "\<not> checkConsistency (updateCommitCount 3 ((new_master 3)\<lparr>mc_version := 2, mc_commitCount := 5, mc_nVersions := 9,
     mc_instanceDatas := [demo_instance 1 2, demo_instance 2 5]\<rparr>))"
  by (rule decreasing_incarnation_inconsistent)
    (simp_all add: checkConsistency_def demo_instance_def VERSION_NONE_def)

section \<open>Delta streams that remember\<close>

lemma deltaData_frame:
  "mc_deltaData (obsolete cm) = mc_deltaData cm" "mc_deltaData (removeSlaves node cm) = mc_deltaData cm"
  "newInstanceData cm = (d, cm1) \<Longrightarrow> mc_deltaData cm1 = mc_deltaData cm"
  by (auto simp: obsolete_def fold_release removeSlaves_def updateMaxVersion_def newInstanceData_def Let_def split: prod.split if_splits)

text \<open>What the application does: \<open>k\<close> commits of a dirty object that writes nothing, and nodes that leave one after the other.\<close>

fun empty_commits :: "Compressor \<Rightarrow> nat \<Rightarrow> nat \<Rightarrow> MasterCM \<Rightarrow> MasterCM option" where
  "empty_commits cmp n 0 cm = Some cm"
| "empty_commits cmp n (Suc k) cm =
     Option.bind (fm_commit (delta_commit cmp n [] []) True CO_COMMIT_NEXT cm) (\<lambda>(v, cm1). empty_commits cmp n k cm1)"

lemma newInstanceData_version: "newInstanceData cm = (d, cm1) \<Longrightarrow> mc_version cm1 = mc_version cm"
  by (auto simp: newInstanceData_def Let_def split: if_splits)

lemma version_frame:
  "mc_version (obsolete cm) = mc_version cm" "mc_version (removeSlaves node cm) = mc_version cm"
  "mc_version (updateCommitCount CO_COMMIT_NEXT cm) = mc_version cm"
  "mc_deltaData (updateCommitCount inc cm) = mc_deltaData cm"
  by (simp_all add: obsolete_def fold_release removeSlaves_def updateMaxVersion_def updateCommitCount_def Let_def split: prod.split)

lemma pending_write:
  "os_dataSent os \<or> os_buffer os \<noteq> [] \<Longrightarrow> os_dataSent (os_write cmp n w os) \<or> os_buffer (os_write cmp n w os) \<noteq> []"
  "w \<noteq> [] \<Longrightarrow> os_buffer (os_write cmp n w os) \<noteq> []"
  by (auto simp: os_write_def os_flush_def os_resetBuffer_def Let_def)

lemma pending_writes:
  "os_dataSent os \<or> os_buffer os \<noteq> [] \<Longrightarrow> os_dataSent (fold (os_write cmp n) ws os) \<or> os_buffer (fold (os_write cmp n) ws os) \<noteq> []"
  by (induction ws arbitrary: os) (simp_all add: pending_write)

lemma something_written:
  assumes "w \<in> set ws" "w \<noteq> []"
  shows "os_dataSent (fold (os_write cmp n) ws os) \<or> os_buffer (fold (os_write cmp n) ws os) \<noteq> []"
proof -
  obtain us vs where "ws = us @ w # vs" using assms(1) by (meson split_list)
  then show ?thesis using pending_writes [of "os_write cmp n w (fold (os_write cmp n) us os)"] pending_write(2) [OF assms(2)] by simp
qed

lemma sendData_keeps: "os_dataSent (os_sendData cmp b l os) = os_dataSent os" "os_enabled (os_sendData cmp b l os) = os_enabled os"
  by (simp_all add: os_sendData_def os_sendPacket_def Let_def)

lemma compress_keeps: "os_dataSent (os_compress cmp src r os) = os_dataSent os" "os_enabled (os_compress cmp src r os) = os_enabled os"
  by (simp_all add: os_compress_def Let_def)

lemma enabled_writes: "os_enabled (fold (os_write cmp n) ws os) = os_enabled os"
  by (induction ws arbitrary: os) (simp_all add: os_write_def os_flush_def os_resetBuffer_def Let_def sendData_keeps compress_keeps)

lemma disable_sent:
  assumes "os_enabled os"
  shows "os_dataSent (os_disable cmp os) \<longleftrightarrow> os_dataSent os \<or> os_buffer os \<noteq> []"
  using assms by (simp add: os_disable_def Let_def sendData_keeps compress_keeps)

text \<open>What a delta commit does to the stream, and to the version when nothing is written.\<close>

lemma delta_commit_flag:
  assumes "mc_slaves cm \<noteq> []"
  shows "os_dataSent (mc_deltaData (delta_commit cmp n inst delta cm)) \<longleftrightarrow> (\<exists>w \<in> set delta. w \<noteq> [])"
    "\<forall>w \<in> set delta. w = [] \<Longrightarrow> mc_version (delta_commit cmp n inst delta cm) = mc_version cm"
proof -
  let ?os0 = "os_enableCommit (mc_version cm + 1) (mc_slaves cm) (os_reset (mc_deltaData cm))"
  define os where "os = os_disable cmp (fold (os_write cmp n) delta ?os0)"
  have e: "os_enabled ?os0" "\<not> os_dataSent ?os0" "os_buffer ?os0 = []" using assms by (simp_all add: os_enableCommit_def os_enable_def Let_def)
  have none: "\<not> os_dataSent (fold (os_write cmp n) delta ?os0) \<and> os_buffer (fold (os_write cmp n) delta ?os0) = []" if "\<forall>w \<in> set delta. w = []"
  proof -
    have "\<not> os_dataSent (fold (os_write cmp n) delta os1) \<and> os_buffer (fold (os_write cmp n) delta os1) = []"
      if "\<not> os_dataSent os1" "os_buffer os1 = []" for os1
      using that \<open>\<forall>w \<in> set delta. w = []\<close> by (induction delta arbitrary: os1) (simp_all add: os_write_def)
    then show ?thesis using e(2,3) by blast
  qed
  have s: "os_dataSent os \<longleftrightarrow> (\<exists>w \<in> set delta. w \<noteq> [])"
    unfolding os_def using disable_sent [of "fold (os_write cmp n) delta ?os0" cmp] e(1) none something_written [of _ delta cmp n ?os0]
    by (auto simp: enabled_writes)
  let ?cm1 = "(emit_stream os cm)\<lparr>mc_deltaData := os\<lparr>os_sent := []\<rparr>\<rparr>"
  obtain d cm2 where d: "newInstanceData ?cm1 = (d, cm2)" by (cases "newInstanceData ?cm1")
  then have "mc_deltaData cm2 = os\<lparr>os_sent := []\<rparr>" using deltaData_frame(3) by fastforce
  then show "os_dataSent (mc_deltaData (delta_commit cmp n inst delta cm)) \<longleftrightarrow> (\<exists>w \<in> set delta. w \<noteq> [])"
    unfolding delta_commit_def os_def [symmetric] using assms(1) s d by (simp add: frame_ops)
  show "mc_version (delta_commit cmp n inst delta cm) = mc_version cm" if "\<forall>w \<in> set delta. w = []"
    unfolding delta_commit_def os_def [symmetric] using assms(1) s that by (simp add: frame_ops)
qed

text \<open>Without slaves the stream is not touched; its flag decides.\<close>

lemma delta_commit_alone:
  assumes "mc_slaves cm = []" "os_dataSent (mc_deltaData cm)"
  shows "mc_version (delta_commit cmp n inst delta cm) = mc_version cm + 1"
    "mc_deltaData (delta_commit cmp n inst delta cm) = mc_deltaData cm"
proof -
  obtain d cm2 where d: "newInstanceData cm = (d, cm2)" by (cases "newInstanceData cm")
  note f = newInstanceData_version [OF d] deltaData_frame(3) [OF d]
  show "mc_version (delta_commit cmp n inst delta cm) = mc_version cm + 1"
    "mc_deltaData (delta_commit cmp n inst delta cm) = mc_deltaData cm"
    unfolding delta_commit_def using assms f d by (simp_all add: frame_ops)
qed

lemma commits_alone:
  assumes "mc_slaves cm = []" "mc_maxVersion cm = -1" "os_dataSent (mc_deltaData cm)"
  shows "\<exists>cm1. empty_commits cmp n k cm = Some cm1 \<and> mc_version cm1 = mc_version cm + of_nat k"
  using assms
proof (induction k arbitrary: cm)
  case (Suc k)
  let ?u = "updateCommitCount CO_COMMIT_NEXT cm"
  let ?cm1 = "obsolete (delta_commit cmp n [] [] ?u)"
  have "waitGE cm" using Suc.prems(2) by (simp add: waitGE_def)
  then have c: "fm_commit (delta_commit cmp n [] []) True CO_COMMIT_NEXT cm = Some (mc_version ?cm1, ?cm1)" by (simp add: fm_commit_def Let_def)
  have a: "mc_slaves ?u = []" "os_dataSent (mc_deltaData ?u)" using Suc.prems by (simp_all add: frame_updateCommitCount version_frame)
  have "mc_slaves ?cm1 = []" "mc_maxVersion ?cm1 = -1" "os_dataSent (mc_deltaData ?cm1)" "mc_version ?cm1 = mc_version cm + 1"
    using Suc.prems delta_commit_alone [OF a]
    by (simp_all add: frame_obsolete frame_delta_commit frame_updateCommitCount deltaData_frame version_frame)
  with Suc.IH [of ?cm1] show ?case by (auto simp: c)
qed simp

lemma removed_all:
  assumes "slaves_ok cm" "set (mc_slaves cm) \<subseteq> set nodes"
  shows "mc_slaves (fold removeSlaves nodes cm) = [] \<and> mc_maxVersion (fold removeSlaves nodes cm) = -1 \<and>
    mc_deltaData (fold removeSlaves nodes cm) = mc_deltaData cm \<and> mc_version (fold removeSlaves nodes cm) = mc_version cm"
  using assms
proof (induction nodes arbitrary: cm)
  case Nil
  then show ?case by (simp add: slaves_ok_def)
next
  case (Cons a nodes)
  have "slaves_ok (removeSlaves a cm)" using Cons.prems(1) by (auto simp: slaves_ok_def removeSlaves_def updateMaxVersion_def distinct_remove1)
  moreover have "set (mc_slaves (removeSlaves a cm)) \<subseteq> set nodes"
    using Cons.prems by (auto simp: slaves_ok_def removeSlaves_def updateMaxVersion_def)
  ultimately show ?case using Cons.IH [of "removeSlaves a cm"] by (simp add: deltaData_frame version_frame)
qed

lemma commits_subscribed:
  assumes "mc_slaves cm \<noteq> []" "empty_commits cmp n k cm = Some cm1"
  shows "mc_version cm1 = mc_version cm"
  using assms
proof (induction k arbitrary: cm)
  case (Suc k)
  let ?cm1 = "obsolete (delta_commit cmp n [] [] (updateCommitCount CO_COMMIT_NEXT cm))"
  have c: "empty_commits cmp n k ?cm1 = Some cm1" using Suc.prems(2) by (auto simp: fm_commit_def Let_def split: if_splits)
  have "mc_slaves ?cm1 \<noteq> []" using Suc.prems(1) by (simp add: frame_obsolete frame_delta_commit frame_updateCommitCount)
  moreover have "mc_version ?cm1 = mc_version cm"
    using delta_commit_flag(2) [of "updateCommitCount CO_COMMIT_NEXT cm" "[]"] Suc.prems(1)
    by (simp add: version_frame frame_updateCommitCount)
  ultimately show ?case using Suc.IH [OF _ c] by simp
qed simp



end
