(* ===== verification/Serialization.thy ===== *)
theory Serialization
  imports Data_Roundtrip
begin

text \<open>
  The typed operators of the streams: each pair of \<open><<\<close> and \<open>>>\<close> that the objects rely on is a
  codec, and codecs compose. Child objects are the exception: their operators do not match.
\<close>

section \<open>Codecs\<close>

locale codec =
  fixes plugins :: Plugins and ser :: "'a \<Rightarrow> u8 list list" and rd :: "'a is_reader" and ok :: "'a \<Rightarrow> bool"
  assumes ser_ne: "ok x \<Longrightarrow> [] \<notin> set (ser x)"
    and decode: "ok x \<Longrightarrow> is_holds plugins g gs is \<Longrightarrow> g @ concat gs = ser x @ ws \<Longrightarrow> [] \<notin> set ws \<Longrightarrow>
      \<exists>is1 g1 gs1. rd is = (Some x, is1) \<and> is_holds plugins g1 gs1 is1 \<and> g1 @ concat gs1 = ws"
begin

lemma decode_elements:
  assumes "list_all ok xs" "is_holds plugins g gs is" "g @ concat gs = concat (map ser xs) @ ws" "[] \<notin> set ws"
  shows "\<exists>is1 g1 gs1. rd_elements rd (length xs) is = (Some xs, is1) \<and> is_holds plugins g1 gs1 is1 \<and> g1 @ concat gs1 = ws"
  using assms
proof (induction xs arbitrary: g gs "is")
  case (Cons x xs)
  have "[] \<notin> set (concat (map ser xs) @ ws)" using Cons.prems(1,4) ser_ne by (fastforce simp: list_all_iff)
  with decode [of x g gs "is" "concat (map ser xs) @ ws"] Cons.prems obtain is1 g1 gs1 where
    r: "rd is = (Some x, is1)" "is_holds plugins g1 gs1 is1" "g1 @ concat gs1 = concat (map ser xs) @ ws" by auto
  from Cons.IH [OF _ r(2,3)] Cons.prems r(1) show ?case by (fastforce simp: is_bind_def is_return_def)
qed (auto simp: is_return_def)

end

lemma ser_word_ne [simp]: "0 < k \<Longrightarrow> [] \<notin> set (ser_word k w)"
  by (cases k) (auto simp: ser_word_def)

lemma word_codec: "LENGTH('c) = 8 * k \<Longrightarrow> codec plugins (ser_word k :: 'c::len word \<Rightarrow> _) (rd_word plugins k) (\<lambda>_. True)"
proof (unfold_locales, goal_cases)
  case 1
  then have "0 < k" by (metis gr0I len_not_eq_0 mult_0_right)
  then show ?case by simp
next
  case (2 w g gs "is" ws)
  have k: "0 < k" using 2(1) by (metis gr0I len_not_eq_0 mult_0_right)
  then have "[] \<notin> set (le_split k w # ws)" using 2(5) by (cases k) auto
  from is_read_mirror [OF 2(3) _ this] 2(4) obtain is1 g1 gs1 where
    "is_read plugins k is = (Some (le_split k w), is1)" "is_holds plugins g1 gs1 is1" "g1 @ concat gs1 = ws"
    by (auto simp: ser_word_def)
  then show ?case using le_join_split [of k w] 2(1) by (auto simp: rd_word_def is_bind_def is_return_def)
qed

interpretation word64: codec plugins "ser_word 8 :: u64 \<Rightarrow> _" "rd_word plugins 8" "\<lambda>_. True" for plugins
  by (rule word_codec) simp

interpretation word32: codec plugins "ser_word 4 :: u32 \<Rightarrow> _" "rd_word plugins 4" "\<lambda>_. True" for plugins
  by (rule word_codec) simp

interpretation word128: codec plugins "ser_word 16 :: u128 \<Rightarrow> _" "rd_word plugins 16" "\<lambda>_. True" for plugins
  by (rule word_codec) simp

text \<open>The length that precedes strings and vectors.\<close>

lemma unat_length64: "n < 2 ^ 64 \<Longrightarrow> unat (of_nat n :: u64) = n"
  by (simp add: unsigned_of_nat take_bit_nat_eq_self)

lemma length_zero64: "n < 2 ^ 64 \<Longrightarrow> (of_nat n :: u64) = 0 \<longleftrightarrow> n = 0"
  using unat_length64 [of n] unat_eq_zero [of "of_nat n :: u64"] by auto

lemma decode_length:
  assumes "is_holds plugins g gs is" "g @ concat gs = ser_word 8 (of_nat n :: u64) @ ws" "[] \<notin> set ws"
  obtains is1 g1 gs1 where "rd_word plugins 8 is = (Some (of_nat n :: u64), is1)" "is_holds plugins g1 gs1 is1" "g1 @ concat gs1 = ws"
  using word64.decode [OF TrueI assms] by blast

lemma rd_remaining_read: "rd_remaining plugins n = is_read plugins n"
  by (rule ext) (simp add: rd_remaining_def is_read_def)

interpretation string: codec plugins ser_string "rd_string plugins" "\<lambda>s. length s < 2 ^ 64" for plugins
proof (unfold_locales, goal_cases)
  case (1 x)
  then show ?case by (auto simp: ser_string_def)
next
  case (2 x g gs "is" ws)
  have ne: "[] \<notin> set ((if 0 < length x then [x] else []) @ ws)" using 2(4) by auto
  from decode_length [OF 2(2) _ ne, of "length x"] 2(3) obtain is1 g1 gs1 where
    n: "rd_word plugins 8 is = (Some (of_nat (length x) :: u64), is1)" "is_holds plugins g1 gs1 is1"
      "g1 @ concat gs1 = (if 0 < length x then [x] else []) @ ws" by (auto simp: ser_string_def)
  show ?case
  proof (cases "x = []")
    case True
    with n show ?thesis by (auto simp: rd_string_def is_bind_def is_return_def)
  next
    case False
    from is_read_mirror [OF n(2), of x ws] n(3) ne False obtain is2 g2 gs2 where
      "is_read plugins (length x) is1 = (Some x, is2)" "is_holds plugins g2 gs2 is2" "g2 @ concat gs2 = ws" by auto
    with n(1) False 2(1) show ?thesis
      by (auto simp: rd_string_def is_bind_def rd_remaining_read length_zero64 unat_length64)
  qed
qed

lemma length_bytes_of: "length (bytes_of k ws) = length ws * k"
  by (induction ws) (auto simp: bytes_of_def)

lemma flat_vector_codec:
  assumes "LENGTH('c) = 8 * k"
  shows "codec plugins (ser_flat_vector k :: 'c::len word list \<Rightarrow> _) (rd_flat_vector plugins k) (\<lambda>xs. length xs < 2 ^ 64)"
proof (unfold_locales, goal_cases)
  case (1 x)
  have "0 < k" using assms by (metis gr0I len_not_eq_0 mult_0_right)
  then show ?case using length_bytes_of [of k x] by (auto simp: ser_flat_vector_def)
next
  case (2 x g gs "is" ws)
  have k: "0 < k" using assms by (metis gr0I len_not_eq_0 mult_0_right)
  then have b: "[] = bytes_of k x \<longleftrightarrow> x = []" using length_bytes_of [of k x] by auto
  have ne: "[] \<notin> set ((if 0 < length x then [bytes_of k x] else []) @ ws)" using 2(4) b by auto
  from decode_length [OF 2(2) _ ne, of "length x"] 2(3) obtain is1 g1 gs1 where
    n: "rd_word plugins 8 is = (Some (of_nat (length x) :: u64), is1)" "is_holds plugins g1 gs1 is1"
      "g1 @ concat gs1 = (if 0 < length x then [bytes_of k x] else []) @ ws" by (auto simp: ser_flat_vector_def)
  show ?case
  proof (cases "x = []")
    case True
    with n show ?thesis by (auto simp: rd_flat_vector_def is_bind_def is_return_def)
  next
    case False
    from is_read_mirror [OF n(2), of "bytes_of k x" ws] n(3) ne False obtain is2 g2 gs2 where
      "is_read plugins (length x * k) is1 = (Some (bytes_of k x), is2)" "is_holds plugins g2 gs2 is2" "g2 @ concat gs2 = ws"
      by (auto simp: length_bytes_of)
    moreover have "0 < (of_nat (length x) :: u64)" using False 2(1) length_zero64 [of "length x"] by (simp add: word_neq_0_conv)
    ultimately show ?thesis using n(1) 2(1) tokens_bytes_of [OF assms, of x]
      by (auto simp: rd_flat_vector_def is_bind_def is_return_def unat_length64)
  qed
qed

interpretation bytes_vector: codec plugins "ser_flat_vector 1 :: u8 list \<Rightarrow> _" "rd_flat_vector plugins 1" "\<lambda>xs. length xs < 2 ^ 64" for plugins
  by (rule flat_vector_codec) simp

interpretation u32_vector: codec plugins "ser_flat_vector 4 :: u32 list \<Rightarrow> _" "rd_flat_vector plugins 4" "\<lambda>xs. length xs < 2 ^ 64" for plugins
  by (rule flat_vector_codec) simp

interpretation object_version: codec plugins ser_ObjectVersion "rd_ObjectVersion plugins" "\<lambda>_. True" for plugins
proof (unfold_locales, goal_cases)
  case (1 x)
  have "length (le_split 16 (ov_identifier x)) = 16" by simp
  then show ?case by (auto simp: ser_ObjectVersion_def simp del: length_le_split)
next
  case (2 x g gs "is" ws)
  let ?b = "le_split 16 (ov_identifier x) @ le_split 16 (ov_version x)"
  have l: "length ?b = 32" by simp
  then have "[] \<notin> set (?b # ws)" using 2(4) by (metis length_0_conv set_ConsD zero_neq_numeral)
  from is_read_mirror [OF 2(2) _ this] 2(3) obtain is1 g1 gs1 where
    "is_read plugins 32 is = (Some ?b, is1)" "is_holds plugins g1 gs1 is1" "g1 @ concat gs1 = ws"
    by (auto simp: ser_ObjectVersion_def)
  then show ?case using le_join_split [of 16 "ov_identifier x"] le_join_split [of 16 "ov_version x"]
    by (auto simp: rd_ObjectVersion_def is_bind_def is_return_def)
qed

lemma vector_codec:
  assumes "codec plugins ser rd ok"
  shows "codec plugins (ser_vector ser) (rd_vector plugins rd) (\<lambda>xs. list_all ok xs \<and> length xs < 2 ^ 64)"
proof (unfold_locales, goal_cases)
  case (1 x)
  then show ?case using codec.ser_ne [OF assms] by (fastforce simp: ser_vector_def list_all_iff)
next
  case (2 x g gs "is" ws)
  have ne: "[] \<notin> set (concat (map ser x) @ ws)" using 2(1,4) codec.ser_ne [OF assms] by (fastforce simp: list_all_iff)
  from decode_length [OF 2(2) _ ne, of "length x"] 2(3) obtain is1 g1 gs1 where
    n: "rd_word plugins 8 is = (Some (of_nat (length x) :: u64), is1)" "is_holds plugins g1 gs1 is1"
      "g1 @ concat gs1 = concat (map ser x) @ ws" by (auto simp: ser_vector_def)
  from codec.decode_elements [OF assms _ n(2,3) 2(4)] 2(1) n(1) show ?case
    by (auto simp: rd_vector_def is_bind_def unat_length64)
qed

lemma pair_codec:
  assumes "codec plugins s1 r1 d1" "codec plugins s2 r2 d2"
  shows "codec plugins (\<lambda>(x, y). s1 x @ s2 y) (is_bind r1 (\<lambda>x. is_bind r2 (\<lambda>y. is_return (x, y)))) (\<lambda>(x, y). d1 x \<and> d2 y)"
proof (unfold_locales, goal_cases)
  case (1 x)
  then show ?case using codec.ser_ne [OF assms(1)] codec.ser_ne [OF assms(2)] by (cases x) auto
next
  case (2 z g gs "is" ws)
  obtain x y where z: "z = (x, y)" by (cases z)
  have ne: "[] \<notin> set (s2 y @ ws)" using 2(1,4) z codec.ser_ne [OF assms(2)] by auto
  from codec.decode [OF assms(1) _ 2(2) _ ne, of x] 2(1,3) z obtain is1 g1 gs1 where
    r: "r1 is = (Some x, is1)" "is_holds plugins g1 gs1 is1" "g1 @ concat gs1 = s2 y @ ws" by auto
  from codec.decode [OF assms(2) _ r(2,3) 2(4)] 2(1) z obtain is2 g2 gs2 where
    "r2 is1 = (Some y, is2)" "is_holds plugins g2 gs2 is2" "g2 @ concat gs2 = ws" by auto
  then show ?case using z r(1) by (intro exI [of _ is2] exI [of _ g2] exI [of _ gs2]) (simp add: is_bind_def is_return_def)
qed

section \<open>Values on the wire\<close>

text \<open>C24. A value arrives: whatever codec an object serializes with, the receiver of its
  committed stream decodes the same value and has no data left. Strings, vectors of integers,
  object versions, and vectors and sequences of these are such codecs.\<close>

theorem value_roundtrip:
  assumes "lossless_plugin cmp plugins" "codec plugins ser rd ok" "ok x" "ser x \<noteq> []" "receivers \<noteq> []"
    and "v \<noteq> VERSION_INVALID" "os_sequence os = 0"
  shows "\<exists>ps is1. os_sent (os_disable cmp (fold (os_write cmp n) (ser x) (os_enableCommit v receivers os))) =
      os_sent os @ map (Pair receivers) ps \<and>
    rd (fold is_addDataPacket ps new_istream) = (Some x, is1) \<and> \<not> is_hasData plugins is1"
proof -
  from committed_stream [OF assms(1,4) codec.ser_ne [OF assms(2,3)] assms(5-7)] obtain gs g ps where
    ps: "os_sent (os_disable cmp (fold (os_write cmp n) (ser x) (os_enableCommit v receivers os))) = os_sent os @ map (Pair receivers) ps"
      "grouped n (ser x) gs g" "is_holds plugins [] (gs @ [g]) (fold is_addDataPacket ps new_istream)" .
  have "[] @ concat (gs @ [g]) = ser x @ []" using ps(2) by (simp add: grouped_def)
  from codec.decode [OF assms(2,3) ps(3) this] obtain is1 g1 gs1 where
    r: "rd (fold is_addDataPacket ps new_istream) = (Some x, is1)" "is_holds plugins g1 gs1 is1" "g1 @ concat gs1 = []" by auto
  from is_reads_mirror [OF r(2,3)] have "\<not> is_hasData plugins is1" by simp
  with ps(1) r(1) show ?thesis by blast
qed

theorem value_roundtrip_witness:
  "\<exists>ps is1. os_sent (os_disable rleb_compressor (fold (os_write rleb_compressor 10) (ser_vector ser_string [[1, 1], [], [2]])
      (os_enableCommit 5 [8] (new_ostream CMD_OBJECT_DELTA 0)))) = map (Pair [8]) ps \<and>
    rd_vector rleb_plugins (rd_string rleb_plugins) (fold is_addDataPacket ps new_istream) = (Some [[1, 1], [], [2]], is1) \<and>
    \<not> is_hasData rleb_plugins is1"
  using value_roundtrip [OF rleb_stream.lossless_plugin_axioms vector_codec [OF string.codec_axioms],
      of "[[1, 1], [], [2]]" "[8]" 5 "new_ostream CMD_OBJECT_DELTA 0" 10]
  by (simp add: new_ostream_def VERSION_INVALID_def ser_vector_def ser_word_def)

section \<open>Child objects\<close>

lemma is_read_block:
  assumes "is_holds plugins g gs is" "concat g \<noteq> []"
  shows "fst (is_read plugins m is) = (if m \<le> length (concat g) then Some (take m (concat g)) else None)"
proof -
  have l: "length (is_input is) - is_position is = length (concat g)"
    using assms(1) by (metis is_holds_def length_drop)
  then have "is_position is < is_inputSize is" using assms by (cases "concat g") (auto simp: is_holds_def)
  then have "is_checkBuffer plugins is = (True, is)" by (simp add: is_checkBuffer.simps)
  with assms(1) l show ?thesis by (auto simp: is_read_def is_holds_def)
qed

lemma ser_ObjectVersion_one: "\<exists>b. ser_ObjectVersion c = [b] \<and> length b = 32"
  by (simp add: ser_ObjectVersion_def)

lemma length_children: "length (concat (concat (map ser_ObjectVersion cs))) = 32 * length cs"
  by (induction cs) (auto simp: ser_ObjectVersion_def)

lemma ser_children_eq: "concat (map ser_ObjectVersion cs) = map (hd \<circ> ser_ObjectVersion) cs"
  by (induction cs) (auto simp: ser_ObjectVersion_def)

lemma is_read_first:
  assumes "is_holds plugins [] ((w # t) # gs) is" "w \<noteq> []"
  shows "\<exists>is1. is_read plugins (length w) is = (Some w, is1) \<and> is_holds plugins t gs is1"
proof -
  have b: "blocks plugins ((w # t) # gs) (is_commands is)" and e: "\<not> is_position is < is_inputSize is"
    using assms(1) by (auto simp: is_holds_def)
  then obtain p ps where p: "is_commands is = p # ps" by (cases "is_commands is") auto
  let ?is = "is\<lparr>is_usedCommand := Some p, is_commands := ps, is_input := w @ concat t,
    is_inputSize := length w + length (concat t), is_position := 0\<rparr>"
  have "is_getNextBuffer is = (Some p, is\<lparr>is_usedCommand := Some p, is_commands := ps\<rparr>)"
    using b p assms(2) by (subst is_getNextBuffer.simps) (simp add: is_getNextCommand_def)
  then have "is_checkBuffer plugins is = is_checkBuffer plugins ?is"
    using b p e by (subst is_checkBuffer.simps) simp
  also have "\<dots> = (True, ?is)" using assms(2) by (subst is_checkBuffer.simps) simp
  finally have "is_read plugins (length w) is = (Some w, ?is\<lparr>is_position := length w\<rparr>)" by (simp add: is_read_def)
  moreover have "is_holds plugins t gs (?is\<lparr>is_position := length w\<rparr>)" using b p by (simp add: is_holds_def)
  ultimately show ?thesis by blast
qed

lemma ovs_of_children: "ovs_of (length cs) (concat (concat (map ser_ObjectVersion cs))) = cs"
proof (induction cs)
  case (Cons c cs)
  have "le_join (le_split 16 (ov_identifier c)) = ov_identifier c" "le_join (le_split 16 (ov_version c)) = ov_version c"
    by (simp_all add: le_join_split)
  with Cons show ?case by (simp add: ser_ObjectVersion_def)
qed simp

text \<open>C33. Child objects survive the stream exactly when no packet boundary falls between them:
  with \<open>k\<close> children written to a fresh stream, the receiver reads them if and only if
  \<open>8 + 32 * (k - 1)\<close> bytes do not exceed the object buffer size. Beyond that the single read of
  \<open>deserializeChildren\<close> asks for more bytes than the first packet holds, and fails.\<close>

theorem children_read_iff:
  assumes "lossless_plugin cmp plugins" "8 \<le> n" "children \<noteq> []" "length children < 2 ^ 64" "receivers \<noteq> []"
    and "v \<noteq> VERSION_INVALID" "os_sequence os = 0"
  shows "\<exists>ps. os_sent (os_disable cmp (fold (os_write cmp n) (ser_children children) (os_enableCommit v receivers os))) =
      os_sent os @ map (Pair receivers) ps \<and>
    fst (rd_ObjectVersions plugins (fold is_addDataPacket ps new_istream)) =
      (if 8 + 32 * (length children - 1) \<le> n then Some children else None)"
proof -
  let ?len = "le_split 8 (of_nat (length children) :: u64)" and ?cs = "concat (map ser_ObjectVersion children)"
  have ws: "ser_children children = ?len # ?cs" by (simp add: ser_children_def ser_word_def)
  have ll: "length ?len = 8" by simp
  have ne: "[] \<notin> set ?cs" using object_version.ser_ne by auto
  then have ne': "[] \<notin> set (ser_children children)" using ws ll by (metis list.size(3) set_ConsD zero_neq_numeral)
  have "ser_children children \<noteq> []" using ws by simp
  from committed_stream [OF assms(1) this ne' assms(5-7)] obtain gs g ps where
    ps: "os_sent (os_disable cmp (fold (os_write cmp n) (ser_children children) (os_enableCommit v receivers os))) = os_sent os @ map (Pair receivers) ps"
      "grouped n (ser_children children) gs g" "is_holds plugins [] (gs @ [g]) (fold is_addDataPacket ps new_istream)" .
  have k: "(of_nat (length children) :: u64) \<noteq> 0" "unat (of_nat (length children) :: u64) = length children"
    using assms(3,4) by (simp_all add: length_zero64 unat_length64)
  have rd: "fst (rd_ObjectVersions plugins (fold is_addDataPacket ps new_istream)) =
      (if 32 * length children \<le> length (concat t) then Some (ovs_of (length children) (take (32 * length children) (concat t))) else None)"
    if h: "gs @ [g] = (?len # t) # hs" and t: "concat t \<noteq> []" for t hs
  proof -
    have "?len \<noteq> []" using ll by (metis list.size(3) zero_neq_numeral)
    from is_read_first [OF ps(3) [unfolded h] this] ll obtain is1 where
      r: "is_read plugins 8 (fold is_addDataPacket ps new_istream) = (Some ?len, is1)" "is_holds plugins t hs is1" by auto
    have "rd_word plugins 8 (fold is_addDataPacket ps new_istream) = (Some (of_nat (length children) :: u64), is1)"
      using r(1) by (simp add: rd_word_def is_bind_def is_return_def le_join_split)
    then show ?thesis using is_read_block [OF r(2) t, of "length children * 32"] k
      by (auto simp: rd_ObjectVersions_def is_bind_def is_return_def word_neq_0_conv mult.commute split: option.splits prod.splits if_splits)
  qed
  have cat: "concat gs @ g = ?len # ?cs" "g \<noteq> []" using ps(2) ws by (auto simp: grouped_def)
  have tot: "length (concat (butlast (ser_children children))) = 8 + 32 * (length children - 1)"
    using length_children [of "butlast children", unfolded ser_children_eq] ws assms(3) ll
    by (simp add: ser_children_eq map_butlast)
  show ?thesis
  proof (cases "gs = []")
    case True
    then have "8 + 32 * (length children - 1) \<le> n" using ps(2) tot by (simp add: grouped_def)
    moreover have "concat ?cs \<noteq> []"
      using length_children [of children] assms(3) by (metis length_0_conv mult_is_0 zero_neq_numeral)
    ultimately show ?thesis using rd [of ?cs "[]"] True cat ps(1) by (auto simp: length_children ovs_of_children)
  next
    case False
    then obtain h hs where gs: "gs = h # hs" by (cases gs) auto
    have big: "n < length (concat h)" using ps(2) gs by (auto simp: grouped_def)
    then have "h \<noteq> []" by auto
    then obtain t where t: "h = ?len # t" "?cs = t @ concat hs @ g" using cat(1) gs by (cases h) auto
    have "length (concat h) = 8 + length (concat t)" using t(1) ll by simp
    then have "0 < length (concat t)" using big assms(2) by linarith
    then have "concat t \<noteq> []" by (rule length_greater_0_conv [THEN iffD1])
    moreover have "length (concat t) < 32 * length children"
    proof -
      have "g \<noteq> [] \<Longrightarrow> concat g \<noteq> []" using ne t(2) by (cases g) auto
      then have "0 < length (concat g)" using cat(2) by blast
      then show ?thesis using length_children [of children] arg_cong [OF t(2), of "length \<circ> concat"] by simp
    qed
    moreover have "\<not> 8 + 32 * (length children - 1) \<le> n"
    proof -
      have "butlast (ser_children children) = h @ concat hs @ butlast g"
        using cat ws gs by (metis butlast_append append.assoc append_is_Nil_conv concat.simps(2))
      then show ?thesis using tot big by simp
    qed
    ultimately show ?thesis using rd [of t "hs @ [g]"] gs t(1) ps(1) by auto
  qed
qed

text \<open>With the default buffer size of 60000 bytes, 1877 children are too many.\<close>

theorem children_read_iff_witness:
  "\<exists>ps. os_sent (os_disable rleb_compressor (fold (os_write rleb_compressor 60000) (ser_children (replicate 1877 \<lparr>ov_identifier = 4, ov_version = 1\<rparr>))
      (os_enableCommit 5 [8] (new_ostream CMD_OBJECT_DELTA 0)))) = map (Pair [8]) ps \<and>
    fst (rd_ObjectVersions rleb_plugins (fold is_addDataPacket ps new_istream)) = None"
  using children_read_iff [OF rleb_stream.lossless_plugin_axioms, of 60000 "replicate 1877 \<lparr>ov_identifier = 4, ov_version = 1\<rparr>"
      "[8]" 5 "new_ostream CMD_OBJECT_DELTA 0"]
  by (simp add: new_ostream_def VERSION_INVALID_def)

end
