(* ===== verification/Object_Slave.thy ===== *)
theory Object_Slave
  imports Serialization
begin

text \<open>
  The slave side of versioned objects (\<open>libs/co/versionedSlaveCM.cpp\<close>, \<open>staticSlaveCM.cpp\<close>) and the
  queue that reassembles commits of slaves at the master (\<open>dataIStreamQueue.cpp\<close>).

  The object is application code: the argument \<open>unpack\<close> gives its new state after
  \<open>applyInstanceData\<close> (first argument true) or \<open>unpack\<close> has read a stream. An operation that waits
  for data returns \<open>None\<close>. The thread-safe queues are lists, first element first.
\<close>

section \<open>Versioned slaves\<close>

record 'o SlaveCM =
  sc_version :: u128
  sc_currentIStream :: "ObjectDataIStream option"
  sc_queuedVersions :: "ObjectDataIStream list"
  sc_maxVersions :: u64
  sc_object :: 'o
  sc_acks :: "u64 list"
  sc_newHeads :: "u128 list"

definition new_slave :: "u64 \<Rightarrow> 'o \<Rightarrow> 'o SlaveCM" where
  "new_slave maxVersions object = \<lparr>sc_version = VERSION_NONE, sc_currentIStream = None, sc_queuedVersions = [],
     sc_maxVersions = maxVersions, sc_object = object, sc_acks = [], sc_newHeads = []\<rparr>"

definition slave_cmdData :: "ObjectDataPacket \<Rightarrow> 'o SlaveCM \<Rightarrow> 'o SlaveCM" where
  "slave_cmdData p cm =
     (let is = is_addDataPacket p (case sc_currentIStream cm of Some is \<Rightarrow> is | None \<Rightarrow> new_istream)
      in if is_isReady is
         then cm\<lparr>sc_queuedVersions := sc_queuedVersions cm @ [is], sc_newHeads := sc_newHeads cm @ [is_version is],
                sc_currentIStream := None\<rparr>
         else cm\<lparr>sc_currentIStream := Some is\<rparr>)"

definition sendAck :: "'o SlaveCM \<Rightarrow> 'o SlaveCM" where
  "sendAck cm =
     (let low = ucast (sc_version cm) :: u64; maxVersion = low + sc_maxVersions cm
      in if maxVersion \<le> low then cm else cm\<lparr>sc_acks := sc_acks cm @ [maxVersion]\<rparr>)"

definition unpackOneVersion ::
  "(bool \<Rightarrow> ObjectDataIStream \<Rightarrow> 'o \<Rightarrow> 'o) \<Rightarrow> ObjectDataIStream \<Rightarrow> 'o SlaveCM \<Rightarrow> 'o SlaveCM" where
  "unpackOneVersion unpack is cm =
     sendAck (cm\<lparr>sc_object := unpack (is_hasInstanceData is) is (sc_object cm), sc_version := is_version is\<rparr>)"

fun sync_loop :: "(bool \<Rightarrow> ObjectDataIStream \<Rightarrow> 'o \<Rightarrow> 'o) \<Rightarrow> u128 \<Rightarrow> ObjectDataIStream list \<Rightarrow> 'o SlaveCM \<Rightarrow> 'o SlaveCM option" where
  "sync_loop unpack version [] cm =
     (if sc_version cm < version then None else Some (cm\<lparr>sc_queuedVersions := []\<rparr>))"
| "sync_loop unpack version (is # rest) cm =
     (if sc_version cm < version then sync_loop unpack version rest (unpackOneVersion unpack is cm)
      else Some (cm\<lparr>sc_queuedVersions := is # rest\<rparr>))"

definition syncToHead :: "(bool \<Rightarrow> ObjectDataIStream \<Rightarrow> 'o \<Rightarrow> 'o) \<Rightarrow> 'o SlaveCM \<Rightarrow> 'o SlaveCM" where
  "syncToHead unpack cm = fold (unpackOneVersion unpack) (sc_queuedVersions cm) (cm\<lparr>sc_queuedVersions := []\<rparr>)"

definition slave_sync :: "(bool \<Rightarrow> ObjectDataIStream \<Rightarrow> 'o \<Rightarrow> 'o) \<Rightarrow> u128 \<Rightarrow> 'o SlaveCM \<Rightarrow> (u128 \<times> 'o SlaveCM) option" where
  "slave_sync unpack v cm =
     (if sc_version cm = v then Some (sc_version cm, cm)
      else if v = VERSION_HEAD then
        let cm1 = syncToHead unpack cm in Some (sc_version cm1, cm1)
      else
        let version = (if v = VERSION_NEXT then sc_version cm + 1 else v)
        in map_option (\<lambda>cm1. (sc_version cm1, cm1)) (sync_loop unpack version (sc_queuedVersions cm) cm))"

definition slave_getHeadVersion :: "'o SlaveCM \<Rightarrow> u128" where
  "slave_getHeadVersion cm =
     (if sc_queuedVersions cm = [] then sc_version cm else is_version (last (sc_queuedVersions cm)))"

fun map_loop ::
  "Plugins \<Rightarrow> (bool \<Rightarrow> ObjectDataIStream \<Rightarrow> 'o \<Rightarrow> 'o) \<Rightarrow> u128 \<Rightarrow> ObjectDataIStream list \<Rightarrow> 'o SlaveCM \<Rightarrow> 'o SlaveCM option" where
  "map_loop plugins unpack version [] cm = None"
| "map_loop plugins unpack version (is # rest) cm =
     (if is_version is = version then
        Some (cm\<lparr>sc_queuedVersions := rest, sc_version := is_version is,
               sc_object := if is_hasData plugins is then unpack True is (sc_object cm) else sc_object cm\<rparr>)
      else map_loop plugins unpack version rest cm)"

definition slave_applyMapData ::
  "Plugins \<Rightarrow> (bool \<Rightarrow> ObjectDataIStream \<Rightarrow> 'o \<Rightarrow> 'o) \<Rightarrow> u128 \<Rightarrow> 'o SlaveCM \<Rightarrow> 'o SlaveCM option" where
  "slave_applyMapData plugins unpack version cm = map_loop plugins unpack version (sc_queuedVersions cm) cm"

text \<open>Cached streams older than the queued ones go to the front, newer ones to the back.\<close>

fun select_cached ::
  "u128 \<Rightarrow> u128 \<Rightarrow> u128 \<Rightarrow> ObjectDataIStream list \<Rightarrow> ObjectDataIStream list \<times> ObjectDataIStream list
   \<Rightarrow> ObjectDataIStream list \<times> ObjectDataIStream list" where
  "select_cached startVersion oldest newest [] acc = acc"
| "select_cached startVersion oldest newest (s # ss) (head, tail) =
     (if is_version s < startVersion then select_cached startVersion oldest newest ss (head, tail)
      else if \<not> is_isReady s then (head, tail)
      else if is_version s < oldest then select_cached startVersion oldest newest ss (s # head, tail)
      else if newest < is_version s then select_cached startVersion oldest newest ss (head, tail @ [s])
      else select_cached startVersion oldest newest ss (head, tail))"

text \<open>The copy of a stream starts at its first packet.\<close>

definition copy_istream :: "ObjectDataIStream \<Rightarrow> ObjectDataIStream" where
  "copy_istream is = new_istream\<lparr>is_commands := is_commands is, is_version := is_version is\<rparr>"

definition slave_addInstanceDatas :: "ObjectDataIStream list \<Rightarrow> u128 \<Rightarrow> 'o SlaveCM \<Rightarrow> 'o SlaveCM" where
  "slave_addInstanceDatas cache startVersion cm =
     (let queue = sc_queuedVersions cm;
          oldest = (if queue = [] then VERSION_NONE else is_version (hd queue));
          newest = (if queue = [] then VERSION_NONE else is_version (last queue));
          (head, tail) = select_cached startVersion oldest newest cache ([], []);
          queue1 = fold (\<lambda>s q. copy_istream s # q) head queue;
          queue2 = fold (\<lambda>s q. q @ [copy_istream s]) tail queue1
      in cm\<lparr>sc_queuedVersions := queue2\<rparr>)"

section \<open>Static slaves\<close>

definition static_cmdInstance :: "ObjectDataPacket \<Rightarrow> ObjectDataIStream \<Rightarrow> ObjectDataIStream" where
  "static_cmdInstance p is = is_addDataPacket p is"

definition static_applyMapData ::
  "Plugins \<Rightarrow> (bool \<Rightarrow> ObjectDataIStream \<Rightarrow> 'o \<Rightarrow> 'o) \<Rightarrow> ObjectDataIStream \<Rightarrow> 'o \<Rightarrow> 'o option" where
  "static_applyMapData plugins unpack is object =
     (if \<not> is_isReady is then None
      else Some (if is_hasData plugins is then unpack True is object else object))"

definition static_addInstanceDatas :: "ObjectDataIStream list \<Rightarrow> ObjectDataIStream \<Rightarrow> ObjectDataIStream" where
  "static_addInstanceDatas cache is =
     (case cache of
        [] \<Rightarrow> is
      | s # _ \<Rightarrow> if \<not> is_isReady s \<or> is_version s \<noteq> VERSION_FIRST then is else copy_istream s)"

section \<open>Commits of slaves\<close>

record DataIStreamQueue =
  dq_pending :: "u128 \<rightharpoonup> ObjectDataIStream"
  dq_queued :: "(u128 \<times> ObjectDataIStream) list"

definition dq_empty :: DataIStreamQueue where
  "dq_empty = \<lparr>dq_pending = Map.empty, dq_queued = []\<rparr>"

definition dq_addDataPacket :: "u128 \<Rightarrow> ObjectDataPacket \<Rightarrow> DataIStreamQueue \<Rightarrow> bool \<times> DataIStreamQueue" where
  "dq_addDataPacket key p q =
     (let is = is_addDataPacket p (case dq_pending q key of None \<Rightarrow> new_istream | Some is \<Rightarrow> is)
      in if is_isReady is
         then (True, q\<lparr>dq_pending := (dq_pending q)(key := None), dq_queued := dq_queued q @ [(key, is)]\<rparr>)
         else (False, q\<lparr>dq_pending := (dq_pending q)(key \<mapsto> is)\<rparr>))"

definition dq_tryPop :: "DataIStreamQueue \<Rightarrow> ObjectDataIStream option \<times> DataIStreamQueue" where
  "dq_tryPop q =
     (case dq_queued q of [] \<Rightarrow> (None, q) | (k, is) # rest \<Rightarrow> (Some is, q\<lparr>dq_queued := rest\<rparr>))"

fun pull_loop ::
  "u128 \<Rightarrow> (u128 \<times> ObjectDataIStream) list \<Rightarrow> (u128 \<times> ObjectDataIStream) list \<Rightarrow>
   (ObjectDataIStream \<times> (u128 \<times> ObjectDataIStream) list) option" where
  "pull_loop key [] unused = None"
| "pull_loop key ((k, is) # rest) unused =
     (if k = key then Some (is, unused @ rest) else pull_loop key rest (unused @ [(k, is)]))"

definition dq_pull :: "u128 \<Rightarrow> DataIStreamQueue \<Rightarrow> (ObjectDataIStream \<times> DataIStreamQueue) option" where
  "dq_pull key q = map_option (\<lambda>(is, rest). (is, q\<lparr>dq_queued := rest\<rparr>)) (pull_loop key (dq_queued q) [])"

text \<open>The master applies the commits of its slaves.\<close>

fun apply_all :: "(ObjectDataIStream \<Rightarrow> 'o \<Rightarrow> 'o) \<Rightarrow> (u128 \<times> ObjectDataIStream) list \<Rightarrow> u128 \<times> 'o \<Rightarrow> u128 \<times> 'o" where
  "apply_all unpack [] acc = acc"
| "apply_all unpack ((k, is) # rest) (version, object) = apply_all unpack rest (is_version is, unpack is object)"

definition master_sync ::
  "(ObjectDataIStream \<Rightarrow> 'o \<Rightarrow> 'o) \<Rightarrow> u128 \<Rightarrow> DataIStreamQueue \<times> 'o \<Rightarrow> (u128 \<times> DataIStreamQueue \<times> 'o) option" where
  "master_sync unpack inVersion = (\<lambda>(q, object).
     if inVersion = VERSION_NEXT then
       (case dq_tryPop q of (None, q1) \<Rightarrow> None | (Some is, q1) \<Rightarrow> Some (is_version is, q1, unpack is object))
     else if inVersion = VERSION_HEAD then
       (case apply_all unpack (dq_queued q) (VERSION_NONE, object) of
          (version, object1) \<Rightarrow> Some (version, q\<lparr>dq_queued := []\<rparr>, object1))
     else
       (case dq_pull inVersion q of None \<Rightarrow> None | Some (is, q1) \<Rightarrow> Some (is_version is, q1, unpack is object)))"

section \<open>Slaves follow the master\<close>

text \<open>The packets of one committed version, and an object that decodes them.\<close>

definition committed :: "Compressor \<Rightarrow> nat \<Rightarrow> NodeID list \<Rightarrow> u8 list list \<Rightarrow> u128 \<Rightarrow> ObjectDataPacket list" where
  "committed cmp n receivers ws v =
     map snd (os_sent (os_disable cmp (fold (os_write cmp n) ws (os_enableCommit v receivers (new_ostream CMD_OBJECT_DELTA 0)))))"

definition decode_object :: "'o is_reader \<Rightarrow> bool \<Rightarrow> ObjectDataIStream \<Rightarrow> 'o \<Rightarrow> 'o" where
  "decode_object rd inst is object = (case fst (rd is) of Some x \<Rightarrow> x | None \<Rightarrow> object)"

lemma slave_not_ready:
  assumes "\<forall>p \<in> set ps. \<not> op_last p" "\<not> is_isReady (case sc_currentIStream cm of Some is \<Rightarrow> is | None \<Rightarrow> new_istream)"
  shows "ps \<noteq> [] \<Longrightarrow> fold slave_cmdData ps cm = cm\<lparr>sc_currentIStream :=
    Some (fold is_addDataPacket ps (case sc_currentIStream cm of Some is \<Rightarrow> is | None \<Rightarrow> new_istream))\<rparr>"
  using assms
proof (induction ps arbitrary: cm)
  case (Cons p ps)
  let ?is = "case sc_currentIStream cm of Some is \<Rightarrow> is | None \<Rightarrow> new_istream"
  have v: "is_version (is_addDataPacket p ?is) = is_version ?is"
    using Cons.prems(2) by (simp add: is_addDataPacket_def Let_def)
  then have "slave_cmdData p cm = cm\<lparr>sc_currentIStream := Some (is_addDataPacket p ?is)\<rparr>"
    using Cons.prems(3) by (simp add: slave_cmdData_def Let_def is_isReady_def)
  then show ?case using Cons v by (cases "ps = []") (simp_all add: is_isReady_def)
qed simp

lemma slave_receives:
  assumes "lossless_plugin.complete plugins v gs ps" "lossless_plugin cmp plugins" "v \<noteq> VERSION_INVALID" "sc_currentIStream cm = None"
  shows "fold slave_cmdData ps cm = cm\<lparr>sc_queuedVersions := sc_queuedVersions cm @ [fold is_addDataPacket ps new_istream],
    sc_newHeads := sc_newHeads cm @ [v]\<rparr>"
proof -
  note c = assms(1) [unfolded lossless_plugin.complete_def [OF assms(2)]]
  let ?b = "butlast ps"
  have ps: "ps = ?b @ [last ps]" using c by simp
  have nl: "\<forall>p \<in> set ?b. \<not> op_last p" using c by (auto simp: in_set_conv_nth nth_butlast)
  have r: "is_isReady (fold is_addDataPacket ps new_istream)" "is_version (fold is_addDataPacket ps new_istream) = v"
    using lossless_plugin.receive_complete [OF assms(2,1,3)] by auto
  have "\<not> is_isReady new_istream" by (simp add: is_isReady_def new_istream_def)
  then have b: "fold slave_cmdData ?b cm = (if ?b = [] then cm else cm\<lparr>sc_currentIStream := Some (fold is_addDataPacket ?b new_istream)\<rparr>)"
    using slave_not_ready [OF nl, of cm] assms(4) by simp
  have f: "is_addDataPacket (last ps) (fold is_addDataPacket ?b new_istream) = fold is_addDataPacket ps new_istream"
    by (subst (3) ps) simp
  have "fold slave_cmdData ps cm = slave_cmdData (last ps) (fold slave_cmdData ?b cm)" by (subst ps) simp
  also have "\<dots> = cm\<lparr>sc_queuedVersions := sc_queuedVersions cm @ [fold is_addDataPacket ps new_istream], sc_newHeads := sc_newHeads cm @ [v]\<rparr>"
    unfolding b using f r assms(4) by (cases "?b = []") (simp_all add: slave_cmdData_def Let_def)
  finally show ?thesis .
qed

end
