(* ===== verification/Object_Sync.thy ===== *)
theory Object_Sync
  imports Object_Slave
begin

text \<open>
  Slaves follow the master: every version that the master commits is reassembled, queued and
  applied in order, and the commits of several slaves are told apart at the master.
\<close>

section \<open>Versions in order\<close>

lemma committed_complete:
  assumes "lossless_plugin cmp plugins" "ws \<noteq> []" "[] \<notin> set ws" "receivers \<noteq> []" "v \<noteq> VERSION_INVALID"
  obtains gs where "lossless_plugin.complete plugins v gs (committed cmp n receivers ws v)"
    "is_holds plugins [] gs (fold is_addDataPacket (committed cmp n receivers ws v) new_istream)" "concat gs = ws"
proof -
  have "os_sequence (new_ostream CMD_OBJECT_DELTA 0) = 0" by (simp add: new_ostream_def)
  from committed_stream [OF assms this] obtain gs g ps where
    s: "os_sent (os_disable cmp (fold (os_write cmp n) ws (os_enableCommit v receivers (new_ostream CMD_OBJECT_DELTA 0)))) =
        os_sent (new_ostream CMD_OBJECT_DELTA 0) @ map (Pair receivers) ps"
      "grouped n ws gs g" "lossless_plugin.complete plugins v (gs @ [g]) ps"
      "is_holds plugins [] (gs @ [g]) (fold is_addDataPacket ps new_istream)" .
  have "committed cmp n receivers ws v = ps" using s(1) by (simp add: committed_def new_ostream_def comp_def)
  with s that [of "gs @ [g]"] show ?thesis by (simp add: grouped_def)
qed

definition version_stream ::
  "Compressor \<Rightarrow> nat \<Rightarrow> NodeID list \<Rightarrow> ('o \<Rightarrow> u8 list list) \<Rightarrow> (nat \<Rightarrow> 'o) \<Rightarrow> nat \<Rightarrow> ObjectDataIStream" where
  "version_stream cmp n receivers ser x v =
     fold is_addDataPacket (committed cmp n receivers (ser (x v)) (of_nat v)) new_istream"

lemma small_version: "v < 2 ^ 63 \<Longrightarrow> unat (of_nat v :: u128) = v"
  by (simp add: unsigned_of_nat take_bit_nat_eq_self)

lemma small_not_special: "v < 2 ^ 63 \<Longrightarrow> (of_nat v :: u128) \<noteq> VERSION_INVALID \<and> (of_nat v :: u128) \<noteq> VERSION_HEAD \<and> (of_nat v :: u128) \<noteq> VERSION_NEXT"
  using small_version [of v] by (auto simp: version_defs)

lemma version_stream_props:
  assumes "lossless_plugin cmp plugins" "codec plugins ser rd ok" "\<And>v. ok (x v) \<and> ser (x v) \<noteq> []" "receivers \<noteq> []" "v < 2 ^ 63"
  shows "is_version (version_stream cmp n receivers ser x v) = of_nat v"
    "fst (rd (version_stream cmp n receivers ser x v)) = Some (x v)"
    "sc_currentIStream cm = None \<Longrightarrow> fold slave_cmdData (committed cmp n receivers (ser (x v)) (of_nat v)) cm =
       cm\<lparr>sc_queuedVersions := sc_queuedVersions cm @ [version_stream cmp n receivers ser x v], sc_newHeads := sc_newHeads cm @ [of_nat v]\<rparr>"
proof -
  have ne: "[] \<notin> set (ser (x v))" using codec.ser_ne [OF assms(2)] assms(3) by blast
  have nv: "(of_nat v :: u128) \<noteq> VERSION_INVALID" using small_not_special [OF assms(5)] by blast
  from assms(3) have "ser (x v) \<noteq> []" by blast
  from committed_complete [OF assms(1) this ne assms(4) nv] obtain gs where
    c: "lossless_plugin.complete plugins (of_nat v) gs (committed cmp n receivers (ser (x v)) (of_nat v))"
      "is_holds plugins [] gs (version_stream cmp n receivers ser x v)" "concat gs = ser (x v)"
    unfolding version_stream_def by blast
  show "is_version (version_stream cmp n receivers ser x v) = of_nat v"
    using lossless_plugin.receive_complete [OF assms(1) c(1) nv] by (simp add: version_stream_def)
  have "[] @ concat gs = ser (x v) @ []" using c(3) by simp
  from codec.decode [OF assms(2) _ c(2) this] assms(3) show "fst (rd (version_stream cmp n receivers ser x v)) = Some (x v)" by fastforce
  show "fold slave_cmdData (committed cmp n receivers (ser (x v)) (of_nat v)) cm =
       cm\<lparr>sc_queuedVersions := sc_queuedVersions cm @ [version_stream cmp n receivers ser x v], sc_newHeads := sc_newHeads cm @ [of_nat v]\<rparr>"
    if "sc_currentIStream cm = None"
    using slave_receives [OF c(1) assms(1) nv that] by (simp add: version_stream_def)
qed

lemma slave_queue:
  assumes "lossless_plugin cmp plugins" "codec plugins ser rd ok" "\<And>v. ok (x v) \<and> ser (x v) \<noteq> []" "receivers \<noteq> []"
    and "sc_currentIStream cm = None" "k + m < 2 ^ 63"
  shows "fold slave_cmdData (concat (map (\<lambda>v. committed cmp n receivers (ser (x v)) (of_nat v)) [Suc k..<Suc (k + m)])) cm =
    cm\<lparr>sc_queuedVersions := sc_queuedVersions cm @ map (version_stream cmp n receivers ser x) [Suc k..<Suc (k + m)],
       sc_newHeads := sc_newHeads cm @ map of_nat [Suc k..<Suc (k + m)]\<rparr>"
  using assms(6)
proof (induction m)
  case (Suc m)
  have "[Suc k..<Suc (k + Suc m)] = [Suc k..<Suc (k + m)] @ [Suc (k + m)]" by simp
  moreover have "Suc (k + m) < 2 ^ 63" using Suc.prems by simp
  ultimately show ?case using Suc assms(5)
    by (simp add: version_stream_props(3) [where x = x and ser = ser and ok = ok and rd = rd, OF assms(1-4)] del: upt_Suc of_nat_Suc of_nat_add)
qed simp

lemma sendAck_fields [simp]:
  "sc_version (sendAck cm) = sc_version cm" "sc_object (sendAck cm) = sc_object cm" "sc_queuedVersions (sendAck cm) = sc_queuedVersions cm"
  by (simp_all add: sendAck_def Let_def)

lemma sync_loop_versions:
  assumes "\<forall>v < 2 ^ 63. is_version (S v) = of_nat v \<and> fst (rd (S v)) = Some (x v)"
    and "sc_version cm = of_nat k" "k + m < 2 ^ 63"
  shows "j \<le> m \<Longrightarrow> \<exists>cm'. sync_loop (decode_object rd) (of_nat (k + j)) (map S [Suc k..<Suc (k + m)]) cm = Some cm' \<and>
      sc_version cm' = of_nat (k + j) \<and> (0 < j \<longrightarrow> sc_object cm' = x (k + j)) \<and>
      sc_queuedVersions cm' = map S [Suc (k + j)..<Suc (k + m)]"
    "m < j \<Longrightarrow> k + j < 2 ^ 63 \<Longrightarrow> sync_loop (decode_object rd) (of_nat (k + j)) (map S [Suc k..<Suc (k + m)]) cm = None"
proof -
  have lt: "sc_version cm < of_nat (k + j) \<longleftrightarrow> 0 < j" if "k + j < 2 ^ 63" "sc_version cm = of_nat k" for k j and cm :: "'a SlaveCM"
    using that small_version [of k] small_version [of "k + j"] by (simp add: word_less_nat_alt del: of_nat_add)
  show "\<exists>cm'. sync_loop (decode_object rd) (of_nat (k + j)) (map S [Suc k..<Suc (k + m)]) cm = Some cm' \<and>
      sc_version cm' = of_nat (k + j) \<and> (0 < j \<longrightarrow> sc_object cm' = x (k + j)) \<and>
      sc_queuedVersions cm' = map S [Suc (k + j)..<Suc (k + m)]" if "j \<le> m"
    using that assms(2,3)
  proof (induction j arbitrary: k m cm)
    case 0
    show ?case
    proof (cases m)
      case 0
      with \<open>sc_version cm = of_nat k\<close> show ?thesis by simp
    next
      case (Suc m')
      then have "[Suc k..<Suc (k + m)] = Suc k # [Suc (Suc k)..<Suc (k + m)]" by (simp add: upt_conv_Cons del: upt_Suc)
      with 0 show ?thesis by (simp del: upt_Suc)
    qed
  next
    case (Suc j)
    let ?cm = "unpackOneVersion (decode_object rd) (S (Suc k)) cm"
    obtain m' where m': "m = Suc m'" using Suc.prems(1) by (cases m) auto
    have r: "[Suc k..<Suc (k + m)] = Suc k # [Suc (Suc k)..<Suc (Suc k + m')]"
      unfolding m' by (simp add: upt_conv_Cons del: upt_Suc)
    have "Suc k < 2 ^ 63" "k + Suc j < 2 ^ 63" using Suc.prems(1,3) by simp_all
    note c = assms(1) [rule_format, OF this(1)] lt [OF this(2) Suc.prems(2)]
    have v: "sc_version ?cm = of_nat (Suc k)" "sc_object ?cm = x (Suc k)"
      using c(1) by (simp_all add: unpackOneVersion_def decode_object_def del: of_nat_Suc)
    have "j \<le> m'" "Suc k + m' < 2 ^ 63" using Suc.prems(1,3) m' by simp_all
    from Suc.IH [OF this(1) v(1) this(2)] obtain cm' where
      i: "sync_loop (decode_object rd) (of_nat (Suc k + j)) (map S [Suc (Suc k)..<Suc (Suc k + m')]) ?cm = Some cm'"
        "sc_version cm' = of_nat (Suc k + j)" "0 < j \<longrightarrow> sc_object cm' = x (Suc k + j)"
        "sc_queuedVersions cm' = map S [Suc (Suc k + j)..<Suc (Suc k + m')]" by blast
    have "sc_object cm' = x (Suc k + j)"
    proof (cases j)
      case 0
      have "\<not> sc_version ?cm < of_nat (Suc k + 0)" using v(1) by simp
      then have "sc_object cm' = sc_object ?cm"
        using i(1) unfolding 0 by (cases "map S [Suc (Suc k)..<Suc (Suc k + m')]") (auto simp del: of_nat_Suc of_nat_add upt_Suc)
      then show ?thesis using v(2) 0 by simp
    qed (use i(3) in simp)
    moreover have "sc_version cm < of_nat (k + Suc j)" using c(2) by simp
    ultimately show ?case unfolding r using i m' by (simp del: upt_Suc of_nat_Suc of_nat_add)
  qed
  show "sync_loop (decode_object rd) (of_nat (k + j)) (map S [Suc k..<Suc (k + m)]) cm = None" if "m < j" "k + j < 2 ^ 63"
    using that assms(2)
  proof (induction m arbitrary: k j cm)
    case 0
    then show ?case using lt [OF 0(2,3)] by simp
  next
    case (Suc m)
    let ?cm = "unpackOneVersion (decode_object rd) (S (Suc k)) cm"
    obtain j' where j': "j = Suc j'" using Suc.prems(1) by (cases j) auto
    have r: "[Suc k..<Suc (k + Suc m)] = Suc k # [Suc (Suc k)..<Suc (Suc k + m)]"
      by (simp add: upt_conv_Cons del: upt_Suc)
    have "sc_version ?cm = of_nat (Suc k)" using assms(1) [rule_format, of "Suc k"] Suc.prems(2) j' by (simp add: unpackOneVersion_def del: of_nat_Suc)
    moreover have "m < j'" "Suc k + j' < 2 ^ 63" using Suc.prems(1,2) j' by simp_all
    ultimately have "sync_loop (decode_object rd) (of_nat (Suc k + j')) (map S [Suc (Suc k)..<Suc (Suc k + m)]) ?cm = None"
      using Suc.IH by blast
    moreover have "sc_version cm < of_nat (k + j)" using lt [OF Suc.prems(2,3)] Suc.prems(1) by simp
    ultimately show ?case unfolding r j' by (simp del: upt_Suc of_nat_Suc of_nat_add)
  qed
qed

text \<open>C2. A slave follows the master: let a slave at version \<open>k\<close> receive the packets of the next \<open>m\<close>
  committed versions. Syncing to any of them succeeds, leaves the object with exactly the value
  committed at that version and the later versions queued; syncing beyond them waits.\<close>

theorem slave_follows_master:
  assumes "lossless_plugin cmp plugins" "codec plugins ser rd ok" "\<And>v. ok (x v) \<and> ser (x v) \<noteq> []" "receivers \<noteq> []"
    and "sc_currentIStream cm = None" "sc_queuedVersions cm = []" "sc_version cm = of_nat k" "k + m < 2 ^ 63" "0 < j" "k + j < 2 ^ 63"
  shows "let cm1 = fold slave_cmdData (concat (map (\<lambda>v. committed cmp n receivers (ser (x v)) (of_nat v)) [Suc k..<Suc (k + m)])) cm in
    if j \<le> m then \<exists>cm'. slave_sync (decode_object rd) (of_nat (k + j)) cm1 = Some (of_nat (k + j), cm') \<and>
        sc_version cm' = of_nat (k + j) \<and> sc_object cm' = x (k + j) \<and> length (sc_queuedVersions cm') = m - j
    else slave_sync (decode_object rd) (of_nat (k + j)) cm1 = None"
proof -
  let ?S = "version_stream cmp n receivers ser x"
  let ?cm = "cm\<lparr>sc_queuedVersions := map ?S [Suc k..<Suc (k + m)], sc_newHeads := sc_newHeads cm @ map of_nat [Suc k..<Suc (k + m)]\<rparr>"
  have q: "fold slave_cmdData (concat (map (\<lambda>v. committed cmp n receivers (ser (x v)) (of_nat v)) [Suc k..<Suc (k + m)])) cm = ?cm"
    using slave_queue [where x = x and ser = ser and ok = ok and rd = rd, OF assms(1-5,8)] assms(6) by (simp del: upt_Suc)
  have S: "\<forall>v < 2 ^ 63. is_version (?S v) = of_nat v \<and> fst (rd (?S v)) = Some (x v)"
    using version_stream_props(1,2) [where x = x and ser = ser and ok = ok and rd = rd, OF assms(1-4)] by blast
  have "(of_nat k :: u128) \<noteq> of_nat (k + j)"
    using small_version [of k] small_version [of "k + j"] assms(9,10) by (metis add_is_0 add_lessD1 less_irrefl_nat nat_neq_iff add_cancel_left_right)
  then have s: "slave_sync (decode_object rd) (of_nat (k + j)) ?cm =
      map_option (\<lambda>cm1. (sc_version cm1, cm1)) (sync_loop (decode_object rd) (of_nat (k + j)) (map ?S [Suc k..<Suc (k + m)]) ?cm)"
    using small_not_special [OF assms(10)] assms(7) by (simp add: slave_sync_def del: of_nat_add upt_Suc)
  have v: "sc_version ?cm = of_nat k" using assms(7) by simp
  note loop = sync_loop_versions [where S = ?S and x = x and rd = rd, OF S v assms(8)]
  show ?thesis
  proof (cases "j \<le> m")
    case True
    from loop(1) [OF True] obtain cm' where
      "sync_loop (decode_object rd) (of_nat (k + j)) (map ?S [Suc k..<Suc (k + m)]) ?cm = Some cm'" "sc_version cm' = of_nat (k + j)"
      "0 < j \<longrightarrow> sc_object cm' = x (k + j)" "sc_queuedVersions cm' = map ?S [Suc (k + j)..<Suc (k + m)]" by blast
    then show ?thesis unfolding q s Let_def using True assms(9) by (simp del: of_nat_add upt_Suc)
  next
    case False
    then have "m < j" by simp
    from loop(2) [OF this assms(10)] show ?thesis unfolding q s Let_def using False by (simp del: of_nat_add upt_Suc)
  qed
qed

theorem slave_follows_master_witness:
  "\<exists>cm'. slave_sync (decode_object (rd_string rleb_plugins)) (of_nat (4 + 2))
     (fold slave_cmdData (concat (map (\<lambda>v. committed rleb_compressor 100 [8] (ser_string [of_nat v]) (of_nat v)) [Suc 4..<Suc (4 + 3)]))
       ((new_slave 0 [])\<lparr>sc_version := of_nat 4\<rparr>)) = Some (of_nat (4 + 2), cm') \<and> sc_object cm' = [6]"
  using slave_follows_master [OF rleb_stream.lossless_plugin_axioms string.codec_axioms, of "\<lambda>v. [of_nat v]" "[8]"
      "(new_slave 0 [])\<lparr>sc_version := of_nat 4\<rparr>" 4 3 2 100]
  by (auto simp: new_slave_def ser_string_def ser_word_def Let_def simp del: upt_Suc of_nat_add)

section \<open>Commits of several slaves\<close>

definition key_packets :: "u128 \<Rightarrow> (u128 \<times> ObjectDataPacket) list \<Rightarrow> ObjectDataPacket list" where
  "key_packets k xs = map snd (filter (\<lambda>x. fst x = k) xs)"

definition dq_run :: "(u128 \<times> ObjectDataPacket) list \<Rightarrow> DataIStreamQueue" where
  "dq_run xs = fold (\<lambda>(k, p) q. snd (dq_addDataPacket k p q)) xs dq_empty"

lemma key_packets_snoc: "key_packets k (xs @ [(k', p)]) = key_packets k xs @ (if k' = k then [p] else [])"
  by (simp add: key_packets_def)

text \<open>C29. Interleaved commits are told apart: let the packets of any number of slave commits arrive in
  any interleaving. Each commit is queued once, at the moment its final packet arrives, with
  all of its packets in order; the others are pending with what they have so far.\<close>

theorem commits_reassembled:
  assumes "sorted_wrt (\<lambda>x y. fst x = fst y \<longrightarrow> \<not> op_last (snd x)) xs" "\<forall>x \<in> set xs. op_version (snd x) \<noteq> VERSION_INVALID"
  shows "dq_queued (dq_run xs) =
      map (\<lambda>x. (fst x, fold is_addDataPacket (key_packets (fst x) xs) new_istream)) (filter (op_last \<circ> snd) xs) \<and>
    (\<forall>k. dq_pending (dq_run xs) k =
      (if key_packets k xs = [] \<or> op_last (last (key_packets k xs)) then None
       else Some (fold is_addDataPacket (key_packets k xs) new_istream)))"
  using assms
proof (induction xs rule: rev_induct)
  case Nil
  show ?case by (simp add: dq_run_def dq_empty_def key_packets_def)
next
  case (snoc x xs)
  obtain k p where x: "x = (k, p)" by (cases x)
  have IH: "dq_queued (dq_run xs) =
      map (\<lambda>x. (fst x, fold is_addDataPacket (key_packets (fst x) xs) new_istream)) (filter (op_last \<circ> snd) xs)"
    "dq_pending (dq_run xs) k' = (if key_packets k' xs = [] \<or> op_last (last (key_packets k' xs)) then None
       else Some (fold is_addDataPacket (key_packets k' xs) new_istream))" for k'
    using snoc.IH snoc.prems by (simp_all add: sorted_wrt_append comp_def)
  have nl: "\<not> op_last (snd y)" if "y \<in> set xs" "fst y = k" for y
    using snoc.prems(1) that x by (auto simp: sorted_wrt_append)
  let ?s = "key_packets k xs"
  have sl: "\<forall>p \<in> set ?s. \<not> op_last p" using nl by (auto simp: key_packets_def)
  have "dq_pending (dq_run xs) k = (if ?s = [] then None else Some (fold is_addDataPacket ?s new_istream))"
    using IH(2) [of k] sl last_in_set [of ?s] by auto
  then have pend: "(case dq_pending (dq_run xs) k of None \<Rightarrow> new_istream | Some s \<Rightarrow> s) = fold is_addDataPacket ?s new_istream" by simp
  have f: "fold is_addDataPacket ?s new_istream = new_istream\<lparr>is_commands := ?s\<rparr>"
    using lossless_plugin.add_packets [OF rleb_stream.lossless_plugin_axioms sl] by (simp add: new_istream_def)
  let ?is = "is_addDataPacket p (fold is_addDataPacket ?s new_istream)"
  have ready: "is_isReady ?is \<longleftrightarrow> op_last p"
    using snoc.prems(2) x unfolding f by (simp add: is_addDataPacket_def is_isReady_def is_getPendingVersion_def new_istream_def Let_def)
  have run: "dq_run (xs @ [x]) = snd (dq_addDataPacket k p (dq_run xs))" by (simp add: dq_run_def x)
  have other: "(fst y, fold is_addDataPacket (key_packets (fst y) (xs @ [x])) new_istream) =
      (fst y, fold is_addDataPacket (key_packets (fst y) xs) new_istream)" if "y \<in> set (filter (op_last \<circ> snd) xs)" for y
    using that nl [of y] x by (auto simp: key_packets_snoc)
  have own: "fold is_addDataPacket (key_packets k (xs @ [x])) new_istream = ?is" by (simp add: x key_packets_snoc)
  have q: "map (\<lambda>x. (fst x, fold is_addDataPacket (key_packets (fst x) (xs @ [x'])) new_istream)) (filter (op_last \<circ> snd) xs) =
      dq_queued (dq_run xs)" if "x' = x" for x'
    unfolding IH(1) that by (rule map_cong [OF refl other])
  show ?case
  proof (cases "op_last p")
    case True
    then have "dq_run (xs @ [x]) = (dq_run xs)\<lparr>dq_pending := (dq_pending (dq_run xs))(k := None), dq_queued := dq_queued (dq_run xs) @ [(k, ?is)]\<rparr>"
      unfolding run dq_addDataPacket_def pend using ready by (simp add: Let_def)
    then show ?thesis using True q [OF refl] own IH(2) x by (simp add: key_packets_snoc comp_def)
  next
    case False
    then have "dq_run (xs @ [x]) = (dq_run xs)\<lparr>dq_pending := (dq_pending (dq_run xs))(k \<mapsto> ?is)\<rparr>"
      unfolding run dq_addDataPacket_def pend using ready by (simp add: Let_def)
    then show ?thesis using False q [OF refl] own IH(2) x by (simp add: key_packets_snoc comp_def)
  qed
qed

definition demo_packet :: "bool \<Rightarrow> ObjectDataPacket" where
  "demo_packet isLast = \<lparr>op_command = CMD_OBJECT_SLAVE_DELTA, op_version = 5, op_sequence = 0, op_dataSize = 1, op_compressorName = 1,
     op_chunks = [[7]], op_last = isLast, op_nodeID = 0, op_instanceID = 0, op_masterInstanceID = 0\<rparr>"

theorem commits_reassembled_witness:
  "map fst (dq_queued (dq_run [(1, demo_packet False), (2, demo_packet False), (2, demo_packet True), (1, demo_packet True)])) = [2, 1]"
  using commits_reassembled [of "[(1, demo_packet False), (2, demo_packet False), (2, demo_packet True), (1, demo_packet True)]"]
  by (simp add: demo_packet_def VERSION_INVALID_def)

text \<open>Pulling a commit out of order takes the first one with its key, keeps the others in their order,
  and waits exactly when there is none.\<close>

theorem pull_takes_first:
  "dq_pull key q =
     (case List.extract (\<lambda>x. fst x = key) (dq_queued q) of
        None \<Rightarrow> None
      | Some (before, x, after) \<Rightarrow> Some (snd x, q\<lparr>dq_queued := before @ after\<rparr>))"
proof -
  have "pull_loop key xs unused =
     (case List.extract (\<lambda>x. fst x = key) xs of
        None \<Rightarrow> None
      | Some (before, x, after) \<Rightarrow> Some (snd x, unused @ before @ after))" for xs unused
    by (induction key xs unused rule: pull_loop.induct) (auto simp: extract_Nil_code extract_Cons_code split: option.split)
  then show ?thesis by (auto simp: dq_pull_def split: option.split)
qed

end
