(* ===== verification/Distributed_Queue.thy ===== *)
theory Distributed_Queue
  imports Data_Stream
begin

text \<open>
  The distributed queue: a \<open>QueueMaster\<close> (\<open>libs/co/queueMaster.cpp\<close>) holds the items, and each
  \<open>QueueSlave\<close> (\<open>libs/co/queueSlave.cpp\<close>) prefetches some of them. The server pushes the tiles of a
  frame this way, and the channels pop them.

  Both ends are modelled with the network between them as a system of events: one event is one
  step of a thread that others can observe. A slave is named by its node and its instance
  identifier. Packets between the master and one slave arrive in the order they are sent;
  nothing is assumed about the order of packets of different slaves.
\<close>

section \<open>Packets\<close>

record 'a QueueItemPacket =
  qi_objectID :: u128
  qi_instanceID :: u32
  qi_data :: 'a

record QueueGetItemPacket =
  gi_objectID :: u128
  gi_instanceID :: u32
  gi_itemsRequested :: u32
  gi_slaveInstanceID :: u32
  gi_requestID :: u32

record QueueEmptyPacket =
  qe_objectID :: u128
  qe_instanceID :: u32
  qe_requestID :: u32

datatype 'a QueuePacket = QUEUE_ITEM "'a QueueItemPacket" | QUEUE_EMPTY QueueEmptyPacket

definition mk_QueueEmptyPacket :: "QueueGetItemPacket \<Rightarrow> QueueEmptyPacket" where
  "mk_QueueEmptyPacket request = \<lparr>qe_objectID = gi_objectID request, qe_instanceID = gi_slaveInstanceID request,
     qe_requestID = gi_requestID request\<rparr>"

section \<open>The master\<close>

definition QueueMaster_push :: "u128 \<Rightarrow> 'a QueueItemPacket \<Rightarrow> 'a QueueItemPacket list \<Rightarrow> 'a QueueItemPacket list" where
  "QueueMaster_push objectID packet queue = queue @ [packet\<lparr>qi_objectID := objectID\<rparr>]"

definition QueueMaster_clear :: "'a QueueItemPacket list \<Rightarrow> 'a QueueItemPacket list" where
  "QueueMaster_clear queue = []"

text \<open>The replies to a request, in order, and the items left.\<close>

definition cmdGetItem :: "QueueGetItemPacket \<Rightarrow> 'a QueueItemPacket list \<Rightarrow> 'a QueuePacket list \<times> 'a QueueItemPacket list" where
  "cmdGetItem packet queue =
     (let n = unat (gi_itemsRequested packet);
          commands = take n queue;
          replies = map (\<lambda>item. QUEUE_ITEM (item\<lparr>qi_instanceID := gi_slaveInstanceID packet\<rparr>)) commands
      in (if length commands < n then replies @ [QUEUE_EMPTY (mk_QueueEmptyPacket packet)] else replies, drop n queue))"

section \<open>The slaves\<close>

record 'a QueueSlave =
  qs_objectID :: u128
  qs_instanceID :: u32
  qs_queue :: "'a QueuePacket list"
  qs_prefetchMark :: u32
  qs_prefetchAmount :: u32
  qs_masterInstanceID :: u32

text \<open>
  \<open>pop\<close> numbers its call, asks the master for more items if the local queue is at the low-water
  mark, and waits for a packet. A packet that says that the queue is empty ends the call only if
  it answers a request of this call; otherwise the loop starts again.
\<close>

definition pop_request :: "u32 \<Rightarrow> 'a QueueSlave \<Rightarrow> QueueGetItemPacket option" where
  "pop_request request slave =
     (if length (qs_queue slave) \<le> unat (qs_prefetchMark slave)
      then Some \<lparr>gi_objectID = qs_objectID slave, gi_instanceID = qs_masterInstanceID slave,
             gi_itemsRequested = qs_prefetchAmount slave, gi_slaveInstanceID = qs_instanceID slave, gi_requestID = request\<rparr>
      else None)"

datatype 'a pop_result = Popped "'a QueueItemPacket" | Exhausted | Retry

definition pop_take :: "u32 \<Rightarrow> 'a QueueSlave \<Rightarrow> ('a pop_result \<times> 'a QueueSlave) option" where
  "pop_take request slave =
     (case qs_queue slave of
        [] \<Rightarrow> None
      | QUEUE_ITEM item # rest \<Rightarrow> Some (Popped item, slave\<lparr>qs_queue := rest\<rparr>)
      | QUEUE_EMPTY packet # rest \<Rightarrow>
          Some (if qe_requestID packet = request then Exhausted else Retry, slave\<lparr>qs_queue := rest\<rparr>))"

section \<open>The system\<close>

text \<open>Where the thread of a slave is: outside of \<open>pop\<close>, before the test of the low-water mark, or
  waiting for a packet.\<close>

datatype pop_phase = Idle | AtMark u32 | Waiting u32

type_synonym slave_id = "NodeID \<times> u32"

text \<open>The last two fields record the history: what was pushed, and what the calls of \<open>pop\<close> have
  returned. The request counter is shared by all the slaves of a process.\<close>

record 'a queue_net =
  qn_objectID :: u128
  qn_queue :: "'a QueueItemPacket list"
  qn_slaves :: "slave_id \<Rightarrow> 'a QueueSlave"
  qn_phase :: "slave_id \<Rightarrow> pop_phase"
  qn_requests :: "slave_id \<Rightarrow> QueueGetItemPacket list"
  qn_replies :: "slave_id \<Rightarrow> 'a QueuePacket list"
  qn_counter :: "NodeID \<Rightarrow> u32"
  qn_pushed :: "'a list"
  qn_results :: "slave_id \<Rightarrow> 'a option list"

definition new_slave_queue :: "u128 \<Rightarrow> u32 \<Rightarrow> (slave_id \<Rightarrow> u32) \<Rightarrow> (slave_id \<Rightarrow> u32) \<Rightarrow> slave_id \<Rightarrow> 'a QueueSlave" where
  "new_slave_queue objectID masterInstanceID mark amount s =
     \<lparr>qs_objectID = objectID, qs_instanceID = snd s, qs_queue = [], qs_prefetchMark = mark s, qs_prefetchAmount = amount s,
      qs_masterInstanceID = masterInstanceID\<rparr>"

definition new_queue_net :: "u128 \<Rightarrow> u32 \<Rightarrow> (slave_id \<Rightarrow> u32) \<Rightarrow> (slave_id \<Rightarrow> u32) \<Rightarrow> 'a queue_net" where
  "new_queue_net objectID masterInstanceID mark amount =
     \<lparr>qn_objectID = objectID, qn_queue = [], qn_slaves = new_slave_queue objectID masterInstanceID mark amount,
      qn_phase = (\<lambda>_. Idle), qn_requests = (\<lambda>_. []), qn_replies = (\<lambda>_. []), qn_counter = (\<lambda>_. 0), qn_pushed = [],
      qn_results = (\<lambda>_. [])\<rparr>"

datatype 'a queue_event =
    Push "'a QueueItemPacket"
  | Clear
  | Pop slave_id
  | TestMark slave_id
  | Take slave_id
  | Serve slave_id
  | Deliver slave_id

definition finish_pop :: "slave_id \<Rightarrow> 'a option \<Rightarrow> 'a queue_net \<Rightarrow> 'a queue_net" where
  "finish_pop s result net = net\<lparr>qn_phase := (qn_phase net)(s := Idle), qn_results := (qn_results net)(s := qn_results net s @ [result])\<rparr>"

fun queue_step :: "'a queue_event \<Rightarrow> 'a queue_net \<Rightarrow> 'a queue_net option" where
  "queue_step (Push packet) net =
     Some (net\<lparr>qn_queue := QueueMaster_push (qn_objectID net) packet (qn_queue net), qn_pushed := qn_pushed net @ [qi_data packet]\<rparr>)"
| "queue_step Clear net = Some (net\<lparr>qn_queue := QueueMaster_clear (qn_queue net)\<rparr>)"
| "queue_step (Pop s) net =
     (if qn_phase net s = Idle then
        let request = qn_counter net (fst s) + 1
        in Some (net\<lparr>qn_counter := (qn_counter net)(fst s := request), qn_phase := (qn_phase net)(s := AtMark request)\<rparr>)
      else None)"
| "queue_step (TestMark s) net =
     (case qn_phase net s of
        AtMark request \<Rightarrow>
          Some (net\<lparr>qn_phase := (qn_phase net)(s := Waiting request),
                 qn_requests := (case pop_request request (qn_slaves net s) of
                    None \<Rightarrow> qn_requests net
                  | Some packet \<Rightarrow> (qn_requests net)(s := qn_requests net s @ [packet]))\<rparr>)
      | _ \<Rightarrow> None)"
| "queue_step (Take s) net =
     (case qn_phase net s of
        Waiting request \<Rightarrow>
          (case pop_take request (qn_slaves net s) of
             None \<Rightarrow> None
           | Some (result, slave) \<Rightarrow>
               let net1 = net\<lparr>qn_slaves := (qn_slaves net)(s := slave)\<rparr>
               in Some (case result of
                     Popped item \<Rightarrow> finish_pop s (Some (qi_data item)) net1
                   | Exhausted \<Rightarrow> finish_pop s None net1
                   | Retry \<Rightarrow> net1\<lparr>qn_phase := (qn_phase net1)(s := AtMark request)\<rparr>))
      | _ \<Rightarrow> None)"
| "queue_step (Serve s) net =
     (case qn_requests net s of
        [] \<Rightarrow> None
      | packet # rest \<Rightarrow>
          let (replies, queue) = cmdGetItem packet (qn_queue net);
              receiver = (fst s, gi_slaveInstanceID packet)
          in Some (net\<lparr>qn_queue := queue, qn_requests := (qn_requests net)(s := rest),
                 qn_replies := (qn_replies net)(receiver := qn_replies net receiver @ replies)\<rparr>))"
| "queue_step (Deliver s) net =
     (case qn_replies net s of
        [] \<Rightarrow> None
      | packet # rest \<Rightarrow>
          Some (net\<lparr>qn_replies := (qn_replies net)(s := rest),
                 qn_slaves := (qn_slaves net)(s := (qn_slaves net s)\<lparr>qs_queue := qs_queue (qn_slaves net s) @ [packet]\<rparr>)\<rparr>))"

fun queue_run :: "'a queue_event list \<Rightarrow> 'a queue_net \<Rightarrow> 'a queue_net option" where
  "queue_run [] net = Some net"
| "queue_run (e # es) net = Option.bind (queue_step e net) (queue_run es)"

lemma queue_run_append: "queue_run (es @ fs) net = Option.bind (queue_run es net) (queue_run fs)"
  by (induction es arbitrary: net) (auto split: bind_splits)

lemma queue_run_induct [consumes 1, case_names start step]:
  assumes "queue_run es net = Some net'" "P [] net"
    and "\<And>es e n n'. queue_run es net = Some n \<Longrightarrow> P es n \<Longrightarrow> queue_step e n = Some n' \<Longrightarrow> P (es @ [e]) n'"
  shows "P es net'"
  using assms(1)
proof (induction es arbitrary: net' rule: rev_induct)
  case (snoc e es)
  then obtain n where "queue_run es net = Some n" "queue_step e n = Some net'"
    by (auto simp: queue_run_append split: bind_splits)
  with snoc.IH assms(3) show ?case by blast
qed (use assms(2) in simp)

end
