(* ===== verification/Queue_Delivery.thy ===== *)
theory Queue_Delivery
  imports Distributed_Queue "HOL-Library.Multiset"
begin

text \<open>
  What the distributed queue promises: every item goes to one slave, in the order of the pushes;
  a \<open>pop\<close> that returns nothing means that the queue has run dry; and \<open>pop\<close> always returns.
\<close>

section \<open>The way of an item\<close>

fun items :: "'a QueuePacket list \<Rightarrow> 'a list" where
  "items [] = []"
| "items (QUEUE_ITEM item # ps) = qi_data item # items ps"
| "items (QUEUE_EMPTY packet # ps) = items ps"

fun popped_items :: "'a option list \<Rightarrow> 'a list" where
  "popped_items [] = []"
| "popped_items (Some x # rs) = x # popped_items rs"
| "popped_items (None # rs) = popped_items rs"

definition pipeline :: "'a queue_net \<Rightarrow> slave_id \<Rightarrow> 'a QueuePacket list" where
  "pipeline net s = qs_queue (qn_slaves net s) @ qn_replies net s"

definition flow :: "'a queue_net \<Rightarrow> slave_id \<Rightarrow> 'a list" where
  "flow net s = popped_items (qn_results net s) @ items (pipeline net s)"

lemma items_append [simp]: "items (ps @ qs) = items ps @ items qs"
  by (induction ps rule: items.induct) auto

lemma items_single [simp]: "items [p] @ items ps = items (p # ps)"
  by (cases p) auto

lemma popped_items_append [simp]: "popped_items (rs @ ss) = popped_items rs @ popped_items ss"
  by (induction rs rule: popped_items.induct) auto

lemma items_replies [simp]: "items (map (\<lambda>item. QUEUE_ITEM (item\<lparr>qi_instanceID := k\<rparr>)) xs) = map qi_data xs"
  by (induction xs) auto

definition addressed :: "'a queue_net \<Rightarrow> bool" where
  "addressed net = (\<forall>s. qs_instanceID (qn_slaves net s) = snd s \<and> (\<forall>p \<in> set (qn_requests net s). gi_slaveInstanceID p = snd s))"

lemma addressed_step: "addressed net \<Longrightarrow> queue_step e net = Some net' \<Longrightarrow> addressed net'"
proof (cases e)
  case (Take s)
  assume "addressed net" "queue_step e net = Some net'"
  with Take show ?thesis
    by (auto simp: addressed_def pop_take_def finish_pop_def Let_def
        split: pop_phase.splits list.splits QueuePacket.splits if_splits)
next
  case (Serve s)
  assume a: "addressed net" "queue_step e net = Some net'"
  with Serve obtain packet rest where "qn_requests net s = packet # rest" by (cases "qn_requests net s") auto
  moreover from this a(1) have "\<forall>p \<in> set rest. gi_slaveInstanceID p = snd s" by (simp add: addressed_def del: split_paired_All)
  ultimately show ?thesis using a Serve by (auto simp: addressed_def Let_def cmdGetItem_def split: if_splits)
qed (auto simp: addressed_def pop_request_def Let_def split: pop_phase.splits list.splits option.splits if_splits)

lemma addressed_start [simp]: "addressed (new_queue_net i m mark amount)"
  by (simp add: addressed_def new_queue_net_def new_slave_queue_def)

lemma addressed_run: "queue_run es net = Some net' \<Longrightarrow> addressed net \<Longrightarrow> addressed net'"
  by (induction es net' rule: queue_run_induct) (auto dest: addressed_step)

text \<open>The items of an event move from the master to the slave that is served.\<close>

definition served :: "'a queue_event \<Rightarrow> 'a queue_net \<Rightarrow> 'a QueueItemPacket list" where
  "served e net = (case e of
     Serve s \<Rightarrow> take (unat (gi_itemsRequested (hd (qn_requests net s)))) (qn_queue net) | Clear \<Rightarrow> qn_queue net | _ \<Rightarrow> [])"

definition receiver :: "'a queue_event \<Rightarrow> slave_id option" where
  "receiver e = (case e of Serve s \<Rightarrow> Some s | _ \<Rightarrow> None)"

lemma step_flow:
  assumes "addressed net" "queue_step e net = Some net'"
  shows "flow net' s = flow net s @ (if receiver e = Some s then map qi_data (served e net) else [])"
proof (cases e)
  case (Take t)
  with assms show ?thesis
    by (auto simp: flow_def pipeline_def served_def receiver_def pop_take_def finish_pop_def Let_def
        split: pop_phase.splits list.splits QueuePacket.splits if_splits)
next
  case (Serve t)
  with assms(2) obtain packet rest where r: "qn_requests net t = packet # rest" by (cases "qn_requests net t") auto
  then have "(fst t, gi_slaveInstanceID packet) = t" using assms(1) by (simp add: addressed_def prod_eq_iff del: split_paired_All)
  with assms(2) Serve r show ?thesis
    by (auto simp: flow_def pipeline_def served_def receiver_def cmdGetItem_def Let_def)
next
  case (Deliver t)
  with assms show ?thesis
    by (auto simp: flow_def pipeline_def served_def receiver_def split: list.splits)
qed (use assms in \<open>auto simp: flow_def pipeline_def served_def receiver_def Let_def split: pop_phase.splits if_splits\<close>)

lemma step_queue:
  assumes "queue_step e net = Some net'"
  shows "served e net @ qn_queue net' = qn_queue net @ (case e of Push p \<Rightarrow> [p\<lparr>qi_objectID := qn_objectID net\<rparr>] | _ \<Rightarrow> [])"
    and "qn_pushed net' = qn_pushed net @ (case e of Push p \<Rightarrow> [qi_data p] | _ \<Rightarrow> [])"
proof -
  have "served e net @ qn_queue net' = qn_queue net @ (case e of Push p \<Rightarrow> [p\<lparr>qi_objectID := qn_objectID net\<rparr>] | _ \<Rightarrow> []) \<and>
      qn_pushed net' = qn_pushed net @ (case e of Push p \<Rightarrow> [qi_data p] | _ \<Rightarrow> [])"
  proof (cases e)
    case (Take t)
    with assms show ?thesis
      by (auto simp: served_def pop_take_def finish_pop_def Let_def split: pop_phase.splits list.splits QueuePacket.splits if_splits)
  next
    case (Serve t)
    with assms show ?thesis by (auto simp: served_def cmdGetItem_def Let_def split: list.splits)
  qed (use assms in \<open>auto simp: served_def Let_def QueueMaster_push_def QueueMaster_clear_def
      split: pop_phase.splits option.splits list.splits if_splits\<close>)
  then show "served e net @ qn_queue net' = qn_queue net @ (case e of Push p \<Rightarrow> [p\<lparr>qi_objectID := qn_objectID net\<rparr>] | _ \<Rightarrow> [])"
    "qn_pushed net' = qn_pushed net @ (case e of Push p \<Rightarrow> [qi_data p] | _ \<Rightarrow> [])" by simp_all
qed

definition share :: "slave_id \<Rightarrow> (slave_id option \<times> 'a) list \<Rightarrow> 'a list" where
  "share s taken = map snd (filter (\<lambda>x. fst x = Some s) taken)"

lemma share_append [simp]: "share s (t @ u) = share s t @ share s u"
  by (simp add: share_def)

lemma share_block [simp]: "share s (map (Pair r) xs) = (if r = Some s then xs else [])"
  by (induction xs) (auto simp: share_def)

lemma run_shares:
  assumes "queue_run es (new_queue_net i m mark amount) = Some net"
  shows "\<exists>taken. qn_pushed net = map snd taken @ map qi_data (qn_queue net) \<and> (\<forall>s. flow net s = share s taken) \<and>
    (Clear \<notin> set es \<longrightarrow> None \<notin> fst ` set taken)"
  using assms
proof (induction es net rule: queue_run_induct)
  case start
  then show ?case
    by (auto simp: new_queue_net_def new_slave_queue_def flow_def pipeline_def share_def intro!: exI [of _ "[]"])
next
  case (step es e n n')
  from step.IH obtain taken where t: "qn_pushed n = map snd taken @ map qi_data (qn_queue n)" "\<forall>s. flow n s = share s taken"
    "Clear \<notin> set es \<longrightarrow> None \<notin> fst ` set taken" by blast
  note f = step_flow [OF addressed_run [OF step.hyps(1) addressed_start] step.hyps(2)]
  note q = step_queue [OF step.hyps(2)]
  let ?new = "map (Pair (receiver e)) (map qi_data (served e n))"
  have "map qi_data (served e n) @ map qi_data (qn_queue n') = map qi_data (qn_queue n) @ (case e of Push p \<Rightarrow> [qi_data p] | _ \<Rightarrow> [])"
    using arg_cong [OF q(1), of "map qi_data"] by (cases e) auto
  then have "qn_pushed n' = map snd (taken @ ?new) @ map qi_data (qn_queue n')"
    unfolding q(2) t(1) by (simp add: comp_def)
  moreover have "\<forall>s. flow n' s = share s (taken @ ?new)" by (intro allI) (simp only: f t(2) share_append share_block)
  moreover have new: "r = receiver e \<and> served e n \<noteq> []" if "r \<in> fst ` set ?new" for r using that by auto
  have "e = Clear \<or> (\<exists>s. e = Serve s \<and> receiver e = Some s)" if "served e n \<noteq> []"
    using that by (cases e) (auto simp: served_def receiver_def)
  with new have "e = Clear" if "None \<in> fst ` set ?new" using that by (fastforce simp: receiver_def)
  with t(3) have "Clear \<notin> set (es @ [e]) \<longrightarrow> None \<notin> fst ` set (taken @ ?new)" by (auto simp del: list.map_comp)
  ultimately show ?case by blast
qed

text \<open>C7. Every item goes to one slave: in every interleaving of pushes, pops and deliveries, the items
  pushed are, in order, those handed out followed by those still queued; and what a slave has
  popped, followed by what is on its way to it, are in order the items handed out to it. No
  item is lost, repeated or reordered, unless the queue is cleared.\<close>

theorem items_delivered_once:
  assumes "queue_run es (new_queue_net i m mark amount) = Some net" "Clear \<notin> set es"
  shows "\<exists>taken. qn_pushed net = map snd taken @ map qi_data (qn_queue net) \<and>
    (\<forall>s. popped_items (qn_results net s) @ items (pipeline net s) = map snd (filter (\<lambda>x. fst x = s) taken))"
proof -
  from run_shares [OF assms(1)] assms(2) obtain taken where
    t: "qn_pushed net = map snd taken @ map qi_data (qn_queue net)" "\<forall>s. flow net s = share s taken" "None \<notin> fst ` set taken" by blast
  have "filter (\<lambda>x. fst x = s) (map (apfst the) taken) = map (apfst the) (filter (\<lambda>x. fst x = Some s) taken)" for s
    using t(3) by (induction taken) (auto simp: image_iff)
  then have "map snd (filter (\<lambda>x. fst x = s) (map (apfst the) taken)) = share s taken" for s
    by (simp add: share_def comp_def)
  moreover have "map snd (map (apfst the) taken) = map snd taken" by simp
  ultimately show ?thesis using t(1,2) unfolding flow_def by metis
qed

definition demo_item :: "nat \<Rightarrow> nat QueueItemPacket" where
  "demo_item n = \<lparr>qi_objectID = 0, qi_instanceID = EQ_INSTANCE_ALL, qi_data = n\<rparr>"

definition demo_events :: "nat queue_event list" where
  "demo_events = [Push (demo_item 7), Push (demo_item 8), Pop (1, 1), Pop (2, 1), TestMark (2, 1), Serve (2, 1), TestMark (1, 1),
     Deliver (2, 1), Take (2, 1), Serve (1, 1), Deliver (1, 1), Take (1, 1)]"

lemma demo_queue_run:
  "\<exists>net. queue_run demo_events (new_queue_net 5 3 (\<lambda>_. 1) (\<lambda>_. 1)) = Some net \<and>
     popped_items (qn_results net (1, 1)) = [8] \<and> popped_items (qn_results net (2, 1)) = [7] \<and> qn_pushed net = [7, 8] \<and> qn_queue net = []"
  by (simp add: demo_events_def new_queue_net_def new_slave_queue_def demo_item_def QueueMaster_push_def pop_request_def cmdGetItem_def
      pop_take_def finish_pop_def Let_def mk_QueueEmptyPacket_def)

theorem items_delivered_once_witness:
  "\<exists>net taken. queue_run demo_events (new_queue_net 5 3 (\<lambda>_. 1) (\<lambda>_. 1)) = Some net \<and> [7, 8] = map snd taken \<and>
     [8] @ items (pipeline net (1, 1)) = map snd (filter (\<lambda>x. fst x = ((1, 1) :: slave_id)) taken)"
proof -
  have c: "Clear \<notin> set demo_events" by (simp add: demo_events_def)
  from demo_queue_run obtain net where n: "queue_run demo_events (new_queue_net 5 3 (\<lambda>_. 1) (\<lambda>_. 1)) = Some net"
    "popped_items (qn_results net (1, 1)) = [8]" "qn_pushed net = [7, 8]" "qn_queue net = []" by blast
  from items_delivered_once [OF n(1) c] obtain taken where
    "qn_pushed net = map snd taken @ map qi_data (qn_queue net)"
    "\<forall>s. popped_items (qn_results net s) @ items (pipeline net s) = map snd (filter (\<lambda>x. fst x = s) taken)" by blast
  moreover from this(2) have "popped_items (qn_results net (1, 1)) @ items (pipeline net (1, 1)) = map snd (filter (\<lambda>x. fst x = (1, 1)) taken)"
    by (rule spec)
  ultimately show ?thesis using n by - (rule exI [of _ net], rule exI [of _ taken], simp)
qed

end
