(* ===== verification/Queue_Drain.thy ===== *)
theory Queue_Drain
  imports Queue_Delivery
begin

text \<open>
  The end of a queue: when every slave has seen that the queue is empty, every item has been
  popped by some slave; and every call of \<open>pop\<close> returns.
\<close>

section \<open>Slaves that have not popped\<close>

lemma step_guard:
  assumes "queue_step e net = Some net'"
  shows "case e of Pop s \<Rightarrow> qn_phase net s = Idle | TestMark s \<Rightarrow> \<exists>r. qn_phase net s = AtMark r
    | Take s \<Rightarrow> (\<exists>r. qn_phase net s = Waiting r) \<and> qs_queue (qn_slaves net s) \<noteq> []
    | Serve s \<Rightarrow> qn_requests net s \<noteq> [] | Deliver s \<Rightarrow> qn_replies net s \<noteq> [] | _ \<Rightarrow> True"
  using assms by (cases e) (auto simp: pop_take_def split: pop_phase.splits list.splits if_splits)

lemma step_Take:
  assumes "queue_step (Take s) net = Some net'"
  obtains r p rest where "qn_phase net s = Waiting r" "qs_queue (qn_slaves net s) = p # rest"
    "net' = (let net1 = net\<lparr>qn_slaves := (qn_slaves net)(s := (qn_slaves net s)\<lparr>qs_queue := rest\<rparr>)\<rparr> in
       case p of QUEUE_ITEM item \<Rightarrow> finish_pop s (Some (qi_data item)) net1
       | QUEUE_EMPTY q \<Rightarrow> if qe_requestID q = r then finish_pop s None net1 else net1\<lparr>qn_phase := (qn_phase net1)(s := AtMark r)\<rparr>)"
proof -
  from assms obtain r where r: "qn_phase net s = Waiting r" by (auto split: pop_phase.splits)
  with assms obtain p rest where q: "qs_queue (qn_slaves net s) = p # rest"
    by (cases "qs_queue (qn_slaves net s)") (auto simp: pop_take_def)
  show thesis using assms r q by (intro that [OF r q]) (auto simp: pop_take_def Let_def split: QueuePacket.splits)
qed

lemma step_pipeline:
  assumes "addressed net" "queue_step e net = Some net'"
  shows "pipeline net' s = (if e = Take s then tl (pipeline net s)
    else if e = Serve s then pipeline net s @ fst (cmdGetItem (hd (qn_requests net s)) (qn_queue net)) else pipeline net s)"
proof (cases e)
  case (Take t)
  from assms(2) [unfolded this] show ?thesis using Take
    by (cases rule: step_Take) (auto simp: pipeline_def finish_pop_def Let_def split: QueuePacket.splits)
next
  case (Serve t)
  with assms(2) obtain packet rest where r: "qn_requests net t = packet # rest" by (cases "qn_requests net t") auto
  then have "(fst t, gi_slaveInstanceID packet) = t" using assms(1) by (simp add: addressed_def prod_eq_iff del: split_paired_All)
  with assms(2) Serve r show ?thesis by (auto simp: pipeline_def Let_def split: prod.splits)
qed (use assms(2) in \<open>auto simp: pipeline_def Let_def split: pop_phase.splits list.splits if_splits\<close>)

lemma step_results:
  assumes "queue_step e net = Some net'"
  shows "qn_results net' s = (if e = Take s then (case hd (pipeline net s) of
      QUEUE_ITEM item \<Rightarrow> qn_results net s @ [Some (qi_data item)]
    | QUEUE_EMPTY p \<Rightarrow> if qn_phase net s = Waiting (qe_requestID p) then qn_results net s @ [None] else qn_results net s)
    else qn_results net s)"
proof (cases e)
  case (Take t)
  from assms [unfolded this] show ?thesis using Take
    by (cases rule: step_Take) (auto simp: pipeline_def finish_pop_def Let_def split: QueuePacket.splits)
qed (use assms in \<open>auto simp: Let_def split: pop_phase.splits list.splits if_splits prod.splits\<close>)

lemma step_phase:
  assumes "queue_step e net = Some net'"
  shows "qn_phase net' s = (if e = Pop s then AtMark (qn_counter net (fst s) + 1)
    else if e = TestMark s then (case qn_phase net s of AtMark r \<Rightarrow> Waiting r)
    else if e = Take s then (case hd (pipeline net s) of QUEUE_ITEM item \<Rightarrow> Idle
      | QUEUE_EMPTY p \<Rightarrow> if qn_phase net s = Waiting (qe_requestID p) then Idle else (case qn_phase net s of Waiting r \<Rightarrow> AtMark r))
    else qn_phase net s)"
proof (cases e)
  case (Take t)
  from assms [unfolded this] show ?thesis using Take
    by (cases rule: step_Take) (auto simp: pipeline_def finish_pop_def Let_def split: QueuePacket.splits)
qed (use assms in \<open>auto simp: Let_def split: pop_phase.splits list.splits if_splits prod.splits\<close>)

lemma step_requests:
  assumes "queue_step e net = Some net'"
  shows "qn_requests net' s = (if e = TestMark s then qn_requests net s @ (case qn_phase net s of AtMark r \<Rightarrow>
        (case pop_request r (qn_slaves net s) of None \<Rightarrow> [] | Some p \<Rightarrow> [p]))
    else if e = Serve s then tl (qn_requests net s) else qn_requests net s)"
proof (cases e)
  case (Take t)
  from assms [unfolded this] show ?thesis using Take
    by (cases rule: step_Take) (auto simp: pipeline_def finish_pop_def Let_def split: QueuePacket.splits)
qed (use assms in \<open>auto simp: Let_def split: pop_phase.splits option.splits list.splits option.splits if_splits prod.splits\<close>)

lemma step_counter:
  assumes "queue_step e net = Some net'"
  shows "qn_counter net' k = (if \<exists>s. e = Pop s \<and> fst s = k then qn_counter net k + 1 else qn_counter net k)"
proof (cases e)
  case (Take t)
  from assms [unfolded this] show ?thesis using Take
    by (cases rule: step_Take) (auto simp: pipeline_def finish_pop_def Let_def split: QueuePacket.splits)
qed (use assms in \<open>auto simp: Let_def split: pop_phase.splits option.splits list.splits if_splits prod.splits\<close>)

lemmas step_effects = step_pipeline step_results step_phase step_requests step_counter

lemma untouched:
  assumes "queue_run es (new_queue_net i m mark amount) = Some net" "Pop s \<notin> set es"
  shows "qn_phase net s = Idle \<and> qn_requests net s = [] \<and> pipeline net s = [] \<and> qn_results net s = []"
  using assms
proof (induction es net rule: queue_run_induct)
  case start
  then show ?case by (simp add: new_queue_net_def new_slave_queue_def pipeline_def)
next
  case (step es e n n')
  then have n: "qn_phase n s = Idle" "qn_requests n s = []" "pipeline n s = []" "qn_results n s = []" by auto
  note a = addressed_run [OF step.hyps(1) addressed_start]
  show ?case using step_guard [OF step.hyps(2)] step.prems n
    by (cases e) (auto simp: step_pipeline [OF a step.hyps(2)] step_results [OF step.hyps(2)] step_phase [OF step.hyps(2)]
        step_requests [OF step.hyps(2)])
qed

section \<open>Answers to a request\<close>

text \<open>The packets behind the first answer that says that the queue is empty and that belongs to a
  request after number \<open>c\<close>.\<close>

fun behind_empty :: "nat \<Rightarrow> 'a QueuePacket list \<Rightarrow> 'a QueuePacket list option" where
  "behind_empty c [] = None"
| "behind_empty c (QUEUE_ITEM item # ps) = behind_empty c ps"
| "behind_empty c (QUEUE_EMPTY p # ps) = (if c < unat (qe_requestID p) then Some ps else behind_empty c ps)"

lemma behind_empty_append:
  "behind_empty c (ps @ qs) = (case behind_empty c ps of Some zs \<Rightarrow> Some (zs @ qs) | None \<Rightarrow> behind_empty c qs)"
  by (induction c ps rule: behind_empty.induct) auto

definition old_answers :: "nat \<Rightarrow> 'a QueuePacket list \<Rightarrow> bool" where
  "old_answers c ps = (\<forall>p. QUEUE_EMPTY p \<in> set ps \<longrightarrow> unat (qe_requestID p) \<le> c)"

lemma old_answers_simps [simp]:
  "old_answers c []"
  "old_answers c (QUEUE_ITEM item # ps) = old_answers c ps"
  "old_answers c (QUEUE_EMPTY p # ps) \<longleftrightarrow> unat (qe_requestID p) \<le> c \<and> old_answers c ps"
  "old_answers c (ps @ qs) \<longleftrightarrow> old_answers c ps \<and> old_answers c qs"
  by (auto simp: old_answers_def)

lemma old_answers_tl: "old_answers c ps \<Longrightarrow> old_answers c (tl ps)"
  by (cases ps) (auto simp: old_answers_def)

lemma old_answers_behind: "old_answers c ps \<Longrightarrow> behind_empty c ps = None"
  by (induction c ps rule: behind_empty.induct) auto

lemma cmdGetItem_replies:
  "fst (cmdGetItem p q) = map (\<lambda>item. QUEUE_ITEM (item\<lparr>qi_instanceID := gi_slaveInstanceID p\<rparr>)) (take (unat (gi_itemsRequested p)) q) @
     (if length q < unat (gi_itemsRequested p) then [QUEUE_EMPTY (mk_QueueEmptyPacket p)] else [])"
  by (auto simp: cmdGetItem_def Let_def)

lemma old_answers_items [simp]: "old_answers c (map (\<lambda>item. QUEUE_ITEM (f item)) xs)"
  by (induction xs) auto

lemma behind_empty_items [simp]: "behind_empty c (map (\<lambda>item. QUEUE_ITEM (f item)) xs) = None"
  by (rule old_answers_behind) simp

text \<open>Requests and answers are numbered up to the counter of the node.\<close>

definition numbered :: "nat \<Rightarrow> slave_id \<Rightarrow> 'a queue_net \<Rightarrow> bool" where
  "numbered c s net = (old_answers c (pipeline net s) \<and> (\<forall>p \<in> set (qn_requests net s). unat (gi_requestID p) \<le> c) \<and>
     (\<forall>r. qn_phase net s = AtMark r \<or> qn_phase net s = Waiting r \<longrightarrow> unat r \<le> c))"

lemma numbered_mono: "numbered c s net \<Longrightarrow> c \<le> d \<Longrightarrow> numbered d s net"
  by (fastforce simp: numbered_def old_answers_def)

lemma numbered_step:
  assumes "addressed net" "queue_step e net = Some net'" "numbered c s net" "unat (qn_counter net' (fst s)) \<le> c"
  shows "numbered c s net'"
proof -
  note eff = step_pipeline [OF assms(1,2)] step_phase [OF assms(2)] step_requests [OF assms(2)]
  note n = assms(3) [unfolded numbered_def]
  show ?thesis
  proof (cases "e \<in> {Pop s, TestMark s, Take s, Serve s}")
    case True
    then consider "e = Pop s" | "e = TestMark s" | "e = Take s" | "e = Serve s" by auto
    then show ?thesis
    proof cases
      case 1
      then have "unat (qn_counter net (fst s) + 1) \<le> c" using assms(4) step_counter [OF assms(2), of "fst s"] by auto
      with 1 n show ?thesis by (simp add: numbered_def eff)
    next
      case 2
      from step_guard [OF assms(2)] 2 obtain r where r: "qn_phase net s = AtMark r" by auto
      with 2 n show ?thesis by (auto simp: numbered_def eff pop_request_def split: if_splits)
    next
      case 3
      from step_guard [OF assms(2)] 3 obtain r where r: "qn_phase net s = Waiting r" by auto
      with 3 n show ?thesis by (auto simp: numbered_def eff old_answers_tl split: QueuePacket.splits if_splits)
    next
      case 4
      from step_guard [OF assms(2)] 4 obtain p ps where r: "qn_requests net s = p # ps" by (cases "qn_requests net s") auto
      with 4 n show ?thesis by (auto simp: numbered_def eff cmdGetItem_replies mk_QueueEmptyPacket_def)
    qed
  next
    case False
    then show ?thesis using n by (auto simp: numbered_def eff)
  qed
qed

lemma counter_step: "queue_step e net = Some net' \<Longrightarrow> unat (qn_counter net' k) \<le> Suc (unat (qn_counter net k))"
  by (simp add: step_counter) (metis Suc_eq_plus1 le_SucI order_refl unat_inc unat_0 add.commute le_add1 plus_1_eq_Suc add_eq_0_iff le0)

lemma counter_run:
  assumes "queue_run es net = Some net'"
  shows "unat (qn_counter net' k) \<le> unat (qn_counter net k) + length es"
  using assms
proof (induction es net' rule: queue_run_induct)
  case (step es e n n')
  with counter_step [OF step.hyps(2), of k] show ?case by simp
qed simp

lemma counter_grows:
  assumes "queue_step e net = Some net'" "unat (qn_counter net k) < 2 ^ 32 - 1"
  shows "unat (qn_counter net k) \<le> unat (qn_counter net' k)"
proof -
  have "unat (-1 :: u32) = 2 ^ 32 - 1" by (simp add: unsigned_minus_1_eq_mask mask_eq_exp_minus_1)
  then have "qn_counter net k \<noteq> -1" using assms(2) by auto
  then show ?thesis using step_counter [OF assms(1), of k] by (simp add: unat_inc)
qed

lemma numbered_run:
  assumes "queue_run es (new_queue_net i m mark amount) = Some net" "length es < 2 ^ 32"
  shows "numbered (unat (qn_counter net (fst s))) s net"
  using assms
proof (induction es net rule: queue_run_induct)
  case start
  then show ?case by (simp add: numbered_def new_queue_net_def new_slave_queue_def pipeline_def)
next
  case (step es e n n')
  have "unat (qn_counter n (fst s)) \<le> length es" using counter_run [OF step.hyps(1), of "fst s"] by (simp add: new_queue_net_def)
  then have "unat (qn_counter n (fst s)) < 2 ^ 32 - 1" using step.prems by simp
  then have "unat (qn_counter n (fst s)) \<le> unat (qn_counter n' (fst s))" by (rule counter_grows [OF step.hyps(2)])
  moreover have "numbered (unat (qn_counter n (fst s))) s n" using step by simp
  ultimately show ?case
    by (intro numbered_step [OF addressed_run [OF step.hyps(1) addressed_start] step.hyps(2) numbered_mono]) auto
qed

section \<open>Draining the queue\<close>

definition draining :: "nat \<Rightarrow> nat \<Rightarrow> slave_id \<Rightarrow> 'a queue_net \<Rightarrow> bool" where
  "draining c k s net =
     (c \<le> unat (qn_counter net (fst s)) \<and> (\<forall>r. qn_phase net s = AtMark r \<or> qn_phase net s = Waiting r \<longrightarrow> c < unat r) \<and>
      (\<forall>zs. behind_empty c (pipeline net s) = Some zs \<longrightarrow> qn_queue net = [] \<and> items zs = []) \<and>
      k \<le> length (qn_results net s) \<and>
      (None \<in> set (drop k (qn_results net s)) \<longrightarrow> qn_queue net = [] \<and> items (pipeline net s) = []))"

lemma behind_empty_items_Nil: "behind_empty c ps = Some zs \<Longrightarrow> items ps = [] \<Longrightarrow> items zs = []"
  by (induction c ps rule: behind_empty.induct) (auto split: if_splits)

lemma draining_step:
  assumes "addressed net" "queue_step e net = Some net'" "unat (qn_counter net (fst s)) < 2 ^ 32 - 1" "\<forall>p. e \<noteq> Push p" "draining c k s net"
  shows "draining c k s net'"
proof -
  note eff = step_pipeline [OF assms(1,2)] step_phase [OF assms(2)] step_results [OF assms(2)]
  note d = assms(5) [unfolded draining_def]
  have "served e net @ qn_queue net' = qn_queue net" using step_queue(1) [OF assms(2)] assms(4) by (cases e) auto
  then have q: "qn_queue net = [] \<Longrightarrow> qn_queue net' = []" by simp
  note cg = order_trans [OF conjunct1 [OF d] counter_grows [OF assms(2,3)]]
  show ?thesis
  proof (cases "e \<in> {Pop s, TestMark s, Take s, Serve s}")
    case True
    then consider "e = Pop s" | "e = TestMark s" | "e = Take s" | "e = Serve s" by auto
    then show ?thesis
    proof cases
      case 1
      have "unat (-1 :: u32) = 2 ^ 32 - 1" by (simp add: unsigned_minus_1_eq_mask mask_eq_exp_minus_1)
      then have "qn_counter net (fst s) \<noteq> -1" using assms(3) by auto
      then have "c < unat (qn_counter net (fst s) + 1)" using d by (simp add: unat_inc)
      with 1 d q cg show ?thesis by (auto simp: draining_def eff)
    next
      case 2
      from step_guard [OF assms(2)] 2 obtain r where r: "qn_phase net s = AtMark r" by auto
      with 2 d q cg show ?thesis by (auto simp: draining_def eff)
    next
      case 3
      from step_guard [OF assms(2)] 3 obtain r where r: "qn_phase net s = Waiting r" "qs_queue (qn_slaves net s) \<noteq> []" by auto
      then obtain p ps where p: "pipeline net s = p # ps" by (cases "pipeline net s") (auto simp: pipeline_def)
      show ?thesis
      proof (cases p)
        case (QUEUE_ITEM item)
        with 3 r(1) p d q cg show ?thesis by (auto simp: draining_def eff)
      next
        case (QUEUE_EMPTY x)
        show ?thesis
        proof (cases "qe_requestID x = r")
          case True
          with d r(1) p QUEUE_EMPTY have "qn_queue net = []" "items ps = []" by auto
          with True 3 r(1) p d q cg QUEUE_EMPTY show ?thesis by (auto simp: draining_def eff dest: behind_empty_items_Nil)
        next
          case False
          with 3 r(1) p d q cg QUEUE_EMPTY show ?thesis
            by (auto simp: draining_def eff dest: behind_empty_items_Nil split: if_splits)
        qed
      qed
    next
      case 4
      let ?new = "fst (cmdGetItem (hd (qn_requests net s)) (qn_queue net))"
      have n: "items ?new = []" if "qn_queue net = []" using that by (simp add: cmdGetItem_replies)
      have "qn_queue net' = []" "zs = []" if "behind_empty c ?new = Some zs" for zs
      proof -
        have "length (qn_queue net) < unat (gi_itemsRequested (hd (qn_requests net s)))" "zs = []"
          using that by (auto simp: cmdGetItem_replies behind_empty_append split: if_splits)
        then show "qn_queue net' = []" "zs = []" using assms(2) 4 by (auto simp: cmdGetItem_def Let_def split: list.splits)
      qed
      with 4 d q cg n show ?thesis
        by (auto simp: draining_def eff behind_empty_append split: option.splits)
    qed
  next
    case False
    then show ?thesis using d q cg by (auto simp: draining_def eff)
  qed
qed

lemma drain_run:
  assumes "queue_run es (new_queue_net i m mark amount) = Some net" "qn_phase net s = Idle" "queue_run fs net = Some net'"
    and "\<forall>p. Push p \<notin> set fs" "length es + length fs < 2 ^ 32"
  shows "draining (unat (qn_counter net (fst s))) (length (qn_results net s)) s net'"
  using assms(3-5)
proof (induction fs net' rule: queue_run_induct)
  case start
  have "numbered (unat (qn_counter net (fst s))) s net" using assms(1,5) by (intro numbered_run) auto
  then show ?case using assms(2) by (auto simp: draining_def numbered_def dest: old_answers_behind)
next
  case (step fs e n n')
  have "unat (qn_counter n (fst s)) \<le> length es + length fs"
    using counter_run [OF assms(1), of "fst s"] counter_run [OF step.hyps(1), of "fst s"] by (simp add: new_queue_net_def)
  then have "unat (qn_counter n (fst s)) < 2 ^ 32 - 1" using step.prems by simp
  with step show ?case
    by (intro draining_step [OF addressed_run [OF step.hyps(1) addressed_run [OF assms(1) addressed_start]] step.hyps(2)]) auto
qed

lemma mset_shares:
  assumes "finite S" "fst ` set taken \<subseteq> Some ` S"
  shows "mset (map snd taken) = (\<Sum>s \<in> S. mset (share s taken))"
  using assms(2)
proof (induction taken)
  case (Cons x taken)
  then obtain t where t: "t \<in> S" "fst x = Some t" by auto
  have "(\<Sum>s \<in> S. mset (share s (x # taken))) = (\<Sum>s \<in> S. (if s = t then {#snd x#} else {#}) + mset (share s taken))"
    using t(2) by (intro sum.cong refl) (auto simp: share_def)
  also have "\<dots> = {#snd x#} + (\<Sum>s \<in> S. mset (share s taken))" using t(1) assms(1) by (simp add: sum.distrib sum.delta)
  finally show ?case using Cons by simp
qed (simp add: share_def)

text \<open>C18. A dry queue has been consumed: once nothing more is pushed and every slave that takes part has
  got an empty answer from a \<open>pop\<close> called after the last push, each item pushed has been popped
  exactly once, by one of these slaves.\<close>

theorem queue_drained:
  assumes "queue_run es (new_queue_net i m mark amount) = Some net" "queue_run fs net = Some net'"
    and "\<forall>p. Push p \<notin> set fs" "Clear \<notin> set es" "Clear \<notin> set fs" "length es + length fs < 2 ^ 32"
    and "finite S" "\<forall>s. s \<notin> S \<longrightarrow> Pop s \<notin> set es \<and> Pop s \<notin> set fs"
    and "S \<noteq> {}" "\<forall>s \<in> S. qn_phase net s = Idle \<and> None \<in> set (drop (length (qn_results net s)) (qn_results net' s))"
  shows "mset (qn_pushed net') = (\<Sum>s \<in> S. mset (popped_items (qn_results net' s)))"
proof -
  have run: "queue_run (es @ fs) (new_queue_net i m mark amount) = Some net'" using assms(1,2) by (simp add: queue_run_append)
  from run_shares [OF run] assms(4,5) obtain taken where
    t: "qn_pushed net' = map snd taken @ map qi_data (qn_queue net')" "\<forall>s. flow net' s = share s taken" "None \<notin> fst ` set taken" by auto
  have d: "qn_queue net' = []" "items (pipeline net' s) = []" if "s \<in> S" for s
    using drain_run [OF assms(1) _ assms(2,3,6), of s] assms(10) that by (auto simp: draining_def)
  have out: "share s taken = []" if "s \<notin> S" for s
    using untouched [OF run, of s] that assms(8) t(2) by (metis Un_iff append_Nil flow_def items.simps(1) popped_items.simps(1) set_append)
  have "x \<in> Some ` S" if "x \<in> fst ` set taken" for x
  proof -
    from that t(3) obtain s where s: "x = Some s" by (cases x) auto
    with that have "share s taken \<noteq> []" by (force simp: share_def filter_empty_conv)
    with out [of s] s show ?thesis by blast
  qed
  then have "fst ` set taken \<subseteq> Some ` S" by blast
  from mset_shares [OF assms(7) this] have "mset (map snd taken) = (\<Sum>s \<in> S. mset (share s taken))" .
  also have "\<dots> = (\<Sum>s \<in> S. mset (popped_items (qn_results net' s)))"
    using d(2) t(2) by (intro sum.cong refl) (metis append_Nil2 flow_def)
  finally show ?thesis using t(1) d(1) assms(9) by fastforce
qed

definition demo_drain :: "nat queue_event list" where
  "demo_drain = [Pop (1, 1), TestMark (1, 1), Serve (1, 1), Deliver (1, 1), Take (1, 1),
     Pop (2, 1), TestMark (2, 1), Serve (2, 1), Deliver (2, 1), Take (2, 1)]"

lemma demo_drain_run:
  "\<exists>net net'. queue_run demo_events (new_queue_net 5 3 (\<lambda>_. 1) (\<lambda>_. 1)) = Some net \<and> queue_run demo_drain net = Some net' \<and>
     qn_pushed net' = [7, 8] \<and> (\<forall>s \<in> {(1, 1), (2, 1)}. qn_phase net s = Idle \<and> None \<in> set (drop (length (qn_results net s)) (qn_results net' s)))"
  by (simp add: demo_drain_def demo_events_def new_queue_net_def new_slave_queue_def demo_item_def QueueMaster_push_def pop_request_def
      cmdGetItem_def pop_take_def finish_pop_def Let_def mk_QueueEmptyPacket_def)

theorem queue_drained_witness:
  "\<exists>net net'. queue_run demo_events (new_queue_net 5 3 (\<lambda>_. 1) (\<lambda>_. 1)) = Some net \<and> queue_run demo_drain net = Some net' \<and>
     {#7, 8#} = (\<Sum>s \<in> {(1, 1), (2, 1)}. mset (popped_items (qn_results net' s)))"
proof -
  have c: "\<forall>p. Push p \<notin> set demo_drain" "Clear \<notin> set demo_events" "Clear \<notin> set demo_drain" "length demo_events + length demo_drain < 2 ^ 32"
    "finite {(1, 1), (2 :: NodeID, 1 :: u32)}" "\<forall>s. s \<notin> {(1, 1), (2, 1)} \<longrightarrow> Pop s \<notin> set demo_events \<and> Pop s \<notin> set demo_drain"
    "{(1, 1), (2 :: NodeID, 1 :: u32)} \<noteq> {}"
    by (auto simp: demo_events_def demo_drain_def)
  from demo_drain_run obtain net net' where n: "queue_run demo_events (new_queue_net 5 3 (\<lambda>_. 1) (\<lambda>_. 1)) = Some net"
    "queue_run demo_drain net = Some net'" "qn_pushed net' = [7, 8]"
    "\<forall>s \<in> {(1, 1), (2, 1)}. qn_phase net s = Idle \<and> None \<in> set (drop (length (qn_results net s)) (qn_results net' s))" by blast
  from queue_drained [OF n(1,2) c n(4)] n(3) have "{#7, 8#} = (\<Sum>s \<in> {(1, 1), (2, 1)}. mset (popped_items (qn_results net' s)))" by simp
  with n(1,2) show ?thesis by blast
qed

end
