(* ===== verification/Queue_Return.thy ===== *)
theory Queue_Return
  imports Queue_Drain
begin

text \<open>
  Every call of \<open>pop\<close> returns: each step of the system other than a new call uses up some of a
  bounded amount of work, and a slave that waits always has something on its way.
\<close>

section \<open>Work left\<close>

lemma step_replies:
  assumes "addressed net" "queue_step e net = Some net'"
  shows "qn_replies net' s = (if e = Deliver s then tl (qn_replies net s)
    else if e = Serve s then qn_replies net s @ fst (cmdGetItem (hd (qn_requests net s)) (qn_queue net)) else qn_replies net s)"
proof (cases e)
  case (Take t)
  from assms(2) [unfolded this] show ?thesis using Take
    by (cases rule: step_Take) (auto simp: finish_pop_def Let_def split: QueuePacket.splits)
next
  case (Serve t)
  with assms(2) obtain packet rest where r: "qn_requests net t = packet # rest" by (cases "qn_requests net t") auto
  then have "(fst t, gi_slaveInstanceID packet) = t" using assms(1) by (simp add: addressed_def prod_eq_iff del: split_paired_All)
  with assms(2) Serve r show ?thesis by (auto simp: Let_def split: prod.splits)
qed (use assms(2) in \<open>auto simp: Let_def split: pop_phase.splits list.splits if_splits\<close>)

lemma step_amount:
  assumes "queue_step e net = Some net'"
  shows "qs_prefetchAmount (qn_slaves net' s) = qs_prefetchAmount (qn_slaves net s)"
proof (cases e)
  case (Take t)
  from assms [unfolded this] show ?thesis using Take
    by (cases rule: step_Take) (auto simp: finish_pop_def Let_def split: QueuePacket.splits)
qed (use assms in \<open>auto simp: Let_def split: pop_phase.splits list.splits if_splits prod.splits\<close>)

definition stale_answers :: "u32 \<Rightarrow> 'a QueuePacket list \<Rightarrow> nat" where
  "stale_answers r ps = length (filter (\<lambda>p. case p of QUEUE_EMPTY e \<Rightarrow> qe_requestID e \<noteq> r | QUEUE_ITEM i \<Rightarrow> False) ps)"

definition stale :: "u32 \<Rightarrow> 'a queue_net \<Rightarrow> slave_id \<Rightarrow> nat" where
  "stale r net s = stale_answers r (pipeline net s) + length (filter (\<lambda>p. gi_requestID p \<noteq> r) (qn_requests net s))"

definition request_work :: "QueueGetItemPacket list \<Rightarrow> nat" where
  "request_work ps = sum_list (map (\<lambda>p. unat (gi_itemsRequested p) + 1) ps)"

definition work :: "'a queue_net \<Rightarrow> slave_id \<Rightarrow> nat" where
  "work net s = length (qn_replies net s) + request_work (qn_requests net s) +
     (case qn_phase net s of
        Idle \<Rightarrow> 0
      | AtMark r \<Rightarrow> (unat (qs_prefetchAmount (qn_slaves net s)) + 3) * (stale r net s + 1)
      | Waiting r \<Rightarrow> (unat (qs_prefetchAmount (qn_slaves net s)) + 3) * stale r net s + 1)"

lemma stale_answers_simps [simp]:
  "stale_answers r [] = 0"
  "stale_answers r (QUEUE_ITEM i # ps) = stale_answers r ps"
  "stale_answers r (QUEUE_EMPTY e # ps) = (if qe_requestID e = r then 0 else 1) + stale_answers r ps"
  "stale_answers r (ps @ qs) = stale_answers r ps + stale_answers r qs"
  "stale_answers r (map (\<lambda>i. QUEUE_ITEM (f i)) xs) = 0"
  by (auto simp: stale_answers_def comp_def)

lemma request_work_simps [simp]:
  "request_work [] = 0" "request_work (p # ps) = unat (gi_itemsRequested p) + 1 + request_work ps"
  "request_work (ps @ qs) = request_work ps + request_work qs"
  by (auto simp: request_work_def)

lemma replies_bounded: "length (fst (cmdGetItem p q)) \<le> unat (gi_itemsRequested p)"
  by (auto simp: cmdGetItem_replies)

fun active :: "'a queue_event \<Rightarrow> slave_id option" where
  "active (TestMark s) = Some s"
| "active (Take s) = Some s"
| "active (Serve s) = Some s"
| "active (Deliver s) = Some s"
| "active e = None"

lemma work_frame:
  assumes "addressed net" "queue_step e net = Some net'" "active e \<noteq> Some s" "e \<noteq> Pop s"
  shows "work net' s = work net s"
proof -
  have "e \<noteq> TestMark s" "e \<noteq> Take s" "e \<noteq> Serve s" "e \<noteq> Deliver s" using assms(3) by auto
  then show ?thesis using assms(4)
    by (simp add: work_def stale_def step_replies [OF assms(1,2)] step_requests [OF assms(2)] step_phase [OF assms(2)]
        step_amount [OF assms(2)] step_pipeline [OF assms(1,2)] cong: pop_phase.case_cong)
qed

lemma work_step:
  assumes "addressed net" "queue_step e net = Some net'" "active e = Some s"
  shows "work net' s < work net s"
proof -
  note eff = step_replies [OF assms(1,2)] step_requests [OF assms(2)] step_phase [OF assms(2)]
    step_amount [OF assms(2)] step_pipeline [OF assms(1,2)]
  let ?a = "unat (qs_prefetchAmount (qn_slaves net s))"
  from assms(3) consider "e = TestMark s" | "e = Take s" | "e = Serve s" | "e = Deliver s" by (cases e) auto
  then show ?thesis
  proof cases
    case 1
    from step_guard [OF assms(2)] 1 obtain r where "qn_phase net s = AtMark r" by auto
    with 1 show ?thesis by (auto simp: work_def stale_def eff pop_request_def)
  next
    case 2
    from step_guard [OF assms(2)] 2 obtain r where r: "qn_phase net s = Waiting r" "qs_queue (qn_slaves net s) \<noteq> []" by auto
    then obtain p ps where "pipeline net s = p # ps" by (cases "pipeline net s") (auto simp: pipeline_def)
    with 2 r(1) show ?thesis by (cases p) (auto simp: work_def stale_def eff)
  next
    case 3
    from step_guard [OF assms(2)] 3 obtain p ps where r: "qn_requests net s = p # ps" by (cases "qn_requests net s") auto
    have "stale r net' s \<le> stale r net s" for r
      using 3 r by (auto simp: stale_def eff cmdGetItem_replies mk_QueueEmptyPacket_def)
    with 3 r replies_bounded [of p "qn_queue net"] show ?thesis
      by (auto simp: work_def eff intro!: le_imp_less_Suc add_le_mono mult_le_mono split: pop_phase.split)
  next
    case 4
    from step_guard [OF assms(2)] 4 obtain p ps where r: "qn_replies net s = p # ps" by (cases "qn_replies net s") auto
    with 4 show ?thesis by (auto simp: work_def stale_def eff cong: pop_phase.case_cong)
  qed
qed

lemma work_run:
  fixes net :: "'a queue_net"
  assumes "queue_run fs net = Some net'" "addressed net" "\<forall>s. Pop s \<notin> set fs"
  shows "(\<Sum>s \<in> UNIV. work net' s) + length (filter (\<lambda>e. active e \<noteq> None) fs) \<le> (\<Sum>s \<in> UNIV. work net s)"
  using assms(1,3)
proof (induction fs net' rule: queue_run_induct)
  case (step fs e n n')
  note a = addressed_run [OF step.hyps(1) assms(2)]
  have np: "e \<noteq> Pop s" for s using step.prems [THEN spec, of s] by auto
  show ?case
  proof (cases "active e")
    case None
    then have "work n' s = work n s" for s using work_frame [OF a step.hyps(2) _ np] by auto
    with None step show ?thesis by simp
  next
    case (Some t)
    have f: "work n' s = work n s" if "s \<noteq> t" for s using work_frame [OF a step.hyps(2) _ np] that Some by auto
    have "(\<Sum>s \<in> UNIV. work n' s) < (\<Sum>s \<in> UNIV. work n s)"
    proof (rule sum_strict_mono_ex1)
      show "\<forall>s \<in> UNIV. work n' s \<le> work n s" using f work_step [OF a step.hyps(2) Some] by (metis less_imp_le order_refl)
      show "\<exists>s \<in> UNIV. work n' s < work n s" using work_step [OF a step.hyps(2) Some] by blast
    qed simp
    with Some step show ?thesis by simp
  qed
qed simp

section \<open>Something is on its way\<close>

definition fed :: "slave_id \<Rightarrow> 'a queue_net \<Rightarrow> bool" where
  "fed s net = (0 < qs_prefetchAmount (qn_slaves net s) \<and> (\<forall>p \<in> set (qn_requests net s). 0 < gi_itemsRequested p) \<and>
     (\<forall>r. qn_phase net s = Waiting r \<longrightarrow> pipeline net s \<noteq> [] \<or> qn_requests net s \<noteq> []))"

lemma replies_nonempty: "0 < gi_itemsRequested p \<Longrightarrow> fst (cmdGetItem p q) \<noteq> []"
  by (auto simp: cmdGetItem_replies word_less_nat_alt)

lemma fed_step:
  assumes "addressed net" "queue_step e net = Some net'" "fed s net"
  shows "fed s net'"
proof -
  note eff = step_requests [OF assms(2)] step_phase [OF assms(2)] step_amount [OF assms(2)] step_pipeline [OF assms(1,2)]
  note d = assms(3) [unfolded fed_def]
  show ?thesis
  proof (cases "e \<in> {Pop s, TestMark s, Take s, Serve s}")
    case True
    then consider "e = Pop s" | "e = TestMark s" | "e = Take s" | "e = Serve s" by auto
    then show ?thesis
    proof cases
      case 2
      from step_guard [OF assms(2)] 2 obtain r where "qn_phase net s = AtMark r" by auto
      moreover have "pop_request r (qn_slaves net s) = None \<Longrightarrow> pipeline net s \<noteq> []"
        "pop_request r (qn_slaves net s) = Some p \<Longrightarrow> gi_itemsRequested p = qs_prefetchAmount (qn_slaves net s)" for p
        by (auto simp: pop_request_def pipeline_def split: if_splits)
      ultimately show ?thesis using 2 d by (auto simp: fed_def eff split: option.splits)
    next
      case 3
      from step_guard [OF assms(2)] 3 obtain r where "qn_phase net s = Waiting r" by auto
      with 3 d show ?thesis by (auto simp: fed_def eff split: QueuePacket.splits if_splits)
    next
      case 4
      from step_guard [OF assms(2)] 4 obtain p ps where "qn_requests net s = p # ps" by (cases "qn_requests net s") auto
      with 4 d show ?thesis by (auto simp: fed_def eff replies_nonempty)
    qed (use d in \<open>auto simp: fed_def eff\<close>)
  next
    case False
    then show ?thesis using d by (auto simp: fed_def eff)
  qed
qed

lemma fed_run:
  assumes "queue_run es (new_queue_net i m mark amount) = Some net" "0 < amount s"
  shows "fed s net"
  using assms
proof (induction es net rule: queue_run_induct)
  case start
  then show ?case by (simp add: fed_def new_queue_net_def new_slave_queue_def)
next
  case (step es e n n')
  then show ?case by (auto intro: fed_step [OF addressed_run [OF step.hyps(1) addressed_start] step.hyps(2)])
qed

lemma stuck_idle:
  assumes "fed s net" "\<forall>e. active e = Some s \<longrightarrow> queue_step e net = None"
  shows "qn_phase net s = Idle"
proof (cases "qn_phase net s")
  case (AtMark r)
  have "queue_step (TestMark s) net = None" using assms(2) [THEN spec, of "TestMark s"] by (simp del: queue_step.simps)
  with AtMark show ?thesis by simp
next
  case (Waiting r)
  have "queue_step (Serve s) net = None" "queue_step (Deliver s) net = None" "queue_step (Take s) net = None"
    using assms(2) by (simp_all del: queue_step.simps)
  then have "qn_requests net s = []" "qn_replies net s = []" "qs_queue (qn_slaves net s) = []"
    using Waiting by (auto simp: pop_take_def Let_def split: list.splits prod.splits QueuePacket.splits)
  with assms(1) Waiting show ?thesis by (simp add: fed_def pipeline_def)
qed simp

text \<open>C16. Every \<open>pop\<close> returns if the prefetch amounts are not zero: from any reachable state, however the
  threads and the network are scheduled and whatever is pushed meanwhile, only a bounded number
  of steps can happen before a slave calls \<open>pop\<close> again; and when none is left, no slave is in
  \<open>pop\<close> any more.\<close>

theorem pop_returns:
  assumes "queue_run es (new_queue_net i m mark amount) = Some net" "\<forall>s. 0 < amount s"
  shows "\<exists>B. \<forall>fs net'. queue_run fs net = Some net' \<and> (\<forall>s. Pop s \<notin> set fs) \<longrightarrow>
      length (filter (\<lambda>e. active e \<noteq> None) fs) \<le> B \<and>
      ((\<forall>e. active e \<noteq> None \<longrightarrow> queue_step e net' = None) \<longrightarrow> (\<forall>s. qn_phase net' s = Idle))"
proof (intro exI allI impI conjI)
  fix fs net' s
  assume fs: "queue_run fs net = Some net' \<and> (\<forall>s. Pop s \<notin> set fs)"
  with work_run [OF _ addressed_run [OF assms(1) addressed_start], of fs net']
  show "length (filter (\<lambda>e. active e \<noteq> None) fs) \<le> (\<Sum>s \<in> UNIV. work net s)" by simp
  assume "\<forall>e. active e \<noteq> None \<longrightarrow> queue_step e net' = None"
  moreover have "queue_run (es @ fs) (new_queue_net i m mark amount) = Some net'" using assms(1) fs by (simp add: queue_run_append)
  then have "fed s net'" by (rule fed_run [OF _ spec [OF assms(2)]])
  ultimately show "qn_phase net' s = Idle" by (intro stuck_idle) auto
qed

theorem pop_returns_witness:
  "\<exists>net. queue_run demo_events (new_queue_net 5 3 (\<lambda>_. 1) (\<lambda>_. 1)) = Some net \<and>
     (\<exists>B. \<forall>fs net'. queue_run fs net = Some net' \<and> (\<forall>s. Pop s \<notin> set fs) \<longrightarrow>
       length (filter (\<lambda>e. active e \<noteq> None) fs) \<le> B \<and>
       ((\<forall>e. active e \<noteq> None \<longrightarrow> queue_step e net' = None) \<longrightarrow> (\<forall>s. qn_phase net' s = Idle)))"
proof -
  from demo_queue_run obtain net where n: "queue_run demo_events (new_queue_net 5 3 (\<lambda>_. 1) (\<lambda>_. 1)) = Some net" by blast
  show ?thesis by (rule exI, rule conjI, rule n, rule pop_returns [OF n]) simp
qed

end
