(* ===== verification/Barrier.thy ===== *)
theory Barrier
  imports Object_Master
begin

text \<open>
  The networked barrier (\<open>libs/co/barrier.cpp\<close>): the master counts the nodes that enter, per version
  of the barrier, and lets them go when their number reaches the height.

  Nodes are their identifiers. The constants that mark timeouts come from a library outside of
  the repository and are arguments, as is the order in which a hash map is traversed. Reply
  packets are appended to \<open>ba_out\<close> in the order they are sent.
\<close>

section \<open>State\<close>

record timeouts =
  TIMEOUT_INDEFINITE :: u32
  TIMEOUT_DEFAULT :: u32
  IATTR_TIMEOUT_DEFAULT :: u32

record BarrierEnterPacket =
  be_version :: u128
  be_incarnation :: u32
  be_timeout :: u32
  be_handled :: bool

record BarrierRequest =
  br_time :: u64
  br_timeout :: u32
  br_incarnation :: u32
  br_nodes :: "NodeID list"

record Barrier =
  ba_localNode :: NodeID
  ba_version :: u128
  ba_height :: u32
  ba_enteredNodes :: "u128 \<rightharpoonup> BarrierRequest"
  ba_leaveNotify :: u32
  ba_out :: "(NodeID \<times> u128) list"

definition new_request :: "timeouts \<Rightarrow> BarrierRequest" where
  "new_request tc = \<lparr>br_time = 0, br_timeout = TIMEOUT_INDEFINITE tc, br_incarnation = 0, br_nodes = []\<rparr>"

definition new_barrier :: "NodeID \<Rightarrow> u128 \<Rightarrow> u32 \<Rightarrow> Barrier" where
  "new_barrier localNode version height = \<lparr>ba_localNode = localNode, ba_version = version, ba_height = height,
     ba_enteredNodes = Map.empty, ba_leaveNotify = 0, ba_out = []\<rparr>"

definition barrier_setHeight :: "u32 \<Rightarrow> Barrier \<Rightarrow> Barrier" where
  "barrier_setHeight height b = b\<lparr>ba_height := height\<rparr>"

definition barrier_increase :: "Barrier \<Rightarrow> Barrier" where
  "barrier_increase b = b\<lparr>ba_height := ba_height b + 1\<rparr>"

section \<open>Entering\<close>

text \<open>The caller passes at once if it is alone or cannot reach the master. Otherwise it sends a packet
  and waits until \<open>leaveNotify\<close> has the given value.\<close>

datatype enter_result = Passed | Waits BarrierEnterPacket u32

definition barrier_enter :: "bool \<Rightarrow> u32 \<Rightarrow> Barrier \<Rightarrow> enter_result" where
  "barrier_enter isConnected timeout b =
     (if ba_height b = 1 then Passed
      else if \<not> isConnected then Passed
      else
        Waits \<lparr>be_version = ba_version b, be_incarnation = ba_leaveNotify b, be_timeout = timeout, be_handled = False\<rparr>
          (ba_leaveNotify b + 1))"

section \<open>The master\<close>

definition sendNotify :: "u128 \<Rightarrow> NodeID \<Rightarrow> Barrier \<Rightarrow> Barrier" where
  "sendNotify version node b =
     (if node = ba_localNode b
      then (if version = ba_version b then b\<lparr>ba_leaveNotify := ba_leaveNotify b + 1\<rparr> else b)
      else b\<lparr>ba_out := ba_out b @ [(node, version)]\<rparr>)"

fun cleanup_loop :: "timeouts \<Rightarrow> u64 \<Rightarrow> u128 list \<Rightarrow> (u128 \<rightharpoonup> BarrierRequest) \<Rightarrow> u128 \<rightharpoonup> BarrierRequest" where
  "cleanup_loop tc time [] m = m"
| "cleanup_loop tc time (k # ks) m =
     (case m k of
        None \<Rightarrow> cleanup_loop tc time ks m
      | Some r \<Rightarrow>
          if br_timeout r = TIMEOUT_INDEFINITE tc then cleanup_loop tc time ks m
          else
            let timeout = (if br_timeout r \<noteq> TIMEOUT_DEFAULT tc then br_timeout r else IATTR_TIMEOUT_DEFAULT tc)
            in if br_time r + ucast timeout < time then m(k := None) else cleanup_loop tc time ks m)"

text \<open>The argument \<open>keys\<close> gives the order in which the hash map is traversed.\<close>

definition barrier_cleanup :: "timeouts \<Rightarrow> ((u128 \<rightharpoonup> BarrierRequest) \<Rightarrow> u128 list) \<Rightarrow> u64 \<Rightarrow> Barrier \<Rightarrow> Barrier" where
  "barrier_cleanup tc keys time b =
     (let ks = keys (ba_enteredNodes b)
      in if length ks < 2 then b else b\<lparr>ba_enteredNodes := cleanup_loop tc time ks (ba_enteredNodes b)\<rparr>)"

text \<open>The second half of \<open>_cmdEnter\<close>: the node is noted, and all are released if it was the last.\<close>

definition enter_request ::
  "timeouts \<Rightarrow> ((u128 \<rightharpoonup> BarrierRequest) \<Rightarrow> u128 list) \<Rightarrow> NodeID \<Rightarrow> BarrierEnterPacket \<Rightarrow> BarrierRequest \<Rightarrow> Barrier \<Rightarrow> Barrier" where
  "enter_request tc keys node packet request b =
     (let version = be_version packet;
          nodes = br_nodes request @ [node];
          b1 = b\<lparr>ba_enteredNodes := (ba_enteredNodes b)(version \<mapsto> request\<lparr>br_nodes := nodes\<rparr>)\<rparr>;
          b2 = (if br_timeout request \<noteq> TIMEOUT_INDEFINITE tc then barrier_cleanup tc keys (br_time request) b1 else b1)
      in if ba_version b2 < version then b2
         else if be_timeout packet \<noteq> TIMEOUT_INDEFINITE tc \<and> version < ba_version b2 then sendNotify version node b2
         else if length nodes < unat (ba_height b2) then b2
         else
           let b3 = fold (sendNotify version) (usort nodes) b2
           in b3\<lparr>ba_enteredNodes := (ba_enteredNodes b3)(version := None)\<rparr>)"

definition cmdEnter ::
  "timeouts \<Rightarrow> ((u128 \<rightharpoonup> BarrierRequest) \<Rightarrow> u128 list) \<Rightarrow> u64 \<Rightarrow> NodeID \<Rightarrow> BarrierEnterPacket \<Rightarrow> Barrier \<Rightarrow> BarrierEnterPacket \<times> Barrier" where
  "cmdEnter tc keys time node packet b =
     (if be_handled packet then (packet, b)
      else
        let version = be_version packet;
            request = (case ba_enteredNodes b version of None \<Rightarrow> new_request tc | Some r \<Rightarrow> r)\<lparr>br_time := time\<rparr>;
            fresh = request\<lparr>br_nodes := [], br_incarnation := be_incarnation packet, br_timeout := be_timeout packet\<rparr>
        in (packet\<lparr>be_handled := True\<rparr>,
            if br_nodes request = [] then enter_request tc keys node packet fresh b
            else if br_timeout request \<noteq> TIMEOUT_INDEFINITE tc \<and> br_incarnation request < be_incarnation packet
            then sendNotify version node (b\<lparr>ba_enteredNodes := (ba_enteredNodes b)(version \<mapsto> request)\<rparr>)
            else if br_timeout request \<noteq> TIMEOUT_INDEFINITE tc \<and> br_incarnation request \<noteq> be_incarnation packet
            then enter_request tc keys node packet fresh b
            else enter_request tc keys node packet request b))"

definition cmdEnterReply :: "u128 \<Rightarrow> Barrier \<Rightarrow> Barrier" where
  "cmdEnterReply version b = (if version = ba_version b then b\<lparr>ba_leaveNotify := ba_leaveNotify b + 1\<rparr> else b)"

section \<open>Notification\<close>

lemma sendNotify_frame [simp]:
  "ba_localNode (sendNotify v n b) = ba_localNode b" "ba_version (sendNotify v n b) = ba_version b"
  "ba_height (sendNotify v n b) = ba_height b" "ba_enteredNodes (sendNotify v n b) = ba_enteredNodes b"
  by (simp_all add: sendNotify_def)

lemma sendNotify_fold:
  assumes "distinct ns"
  shows "fold (sendNotify v) ns b = b\<lparr>ba_leaveNotify := ba_leaveNotify b + (if ba_localNode b \<in> set ns \<and> v = ba_version b then 1 else 0),
    ba_out := ba_out b @ map (\<lambda>n. (n, v)) (filter (\<lambda>n. n \<noteq> ba_localNode b) ns)\<rparr>"
  using assms
proof (induction ns arbitrary: b)
  case (Cons n ns)
  then show ?case by (cases "n = ba_localNode b") (auto simp: sendNotify_def)
qed simp

text \<open>A timeout lets a node pass alone: a node that enters with a timeout, gives up, and enters again
  is counted each time. After as many attempts as the barrier is high the master tells it to
  leave, although no other node has entered.\<close>

theorem timeouts_counted_twice:
  assumes "2 \<le> ba_height b" "ba_enteredNodes b = Map.empty" "timeout \<noteq> TIMEOUT_INDEFINITE tc" "node \<noteq> ba_localNode b"
    and "\<forall>m. set (keys m) = dom m \<and> distinct (keys m)" "length stamps = unat (ba_height b)"
    and "packet = \<lparr>be_version = ba_version b, be_incarnation = incarnation, be_timeout = timeout, be_handled = False\<rparr>"
  shows "ba_out (fold (\<lambda>time b. snd (cmdEnter tc keys time node packet b)) stamps b) = ba_out b @ [(node, ba_version b)]"
proof -
  define E where "E = (\<lambda>time b. snd (cmdEnter tc keys time node packet b))"
  define S where "S = (\<lambda>k time. b\<lparr>ba_enteredNodes := [ba_version b \<mapsto>
    \<lparr>br_time = time, br_timeout = timeout, br_incarnation = incarnation, br_nodes = replicate k node\<rparr>]\<rparr>)"
  have k1: "length (keys [ba_version b \<mapsto> r]) < 2" for r
    using assms(5) distinct_card [of "keys [ba_version b \<mapsto> r]"] by simp
  have r: "replicate k node @ [node] = replicate (Suc k) node" for k by (simp add: replicate_append_same)
  have more: "E t (S k t') = S (Suc k) t" if "0 < k" "Suc k < unat (ba_height b)" for k t t'
    using that k1 assms(3,7) r [of k] by (simp add: E_def S_def cmdEnter_def enter_request_def barrier_cleanup_def Let_def)
  have run: "fold E ts (S k t) = S (k + length ts) (last (t # ts))" if "0 < k" "k + length ts < unat (ba_height b)" for k t ts
    using that by (induction ts arbitrary: k t) (simp_all add: more)
  have u: "usort (replicate (Suc k) node) = [node]" for k by (induction k) (auto simp: usort_def)
  have final: "ba_out (E t (S k t')) = ba_out b @ [(node, ba_version b)]" if "Suc k = unat (ba_height b)" "0 < k" for k t t'
  proof -
    have "E t (S k t') = (fold (sendNotify (ba_version b)) [node] (S (Suc k) t))\<lparr>ba_enteredNodes := Map.empty\<rparr>"
      using that k1 assms(3,7) r [of k] u [of k] by (simp add: E_def S_def cmdEnter_def enter_request_def barrier_cleanup_def Let_def)
    then show ?thesis using assms(4) by (simp add: sendNotify_def S_def)
  qed
  have h: "2 \<le> unat (ba_height b)" using assms(1) by (simp add: word_le_nat_alt)
  then obtain t0 ts where ts: "stamps = t0 # ts" "ts \<noteq> []" using assms(6) by (cases stamps; cases "tl stamps") auto
  then obtain us t where us: "stamps = t0 # us @ [t]" by (cases ts rule: rev_cases) auto
  have "E t0 b = S 1 t0"
    using h k1 assms(2,3,7) by (simp add: E_def S_def cmdEnter_def enter_request_def barrier_cleanup_def Let_def new_request_def)
  then have "fold E stamps b = E t (fold E us (S 1 t0))" using us by simp
  also have "\<dots> = E t (S (Suc (length us)) (last (t0 # us)))" using run [of 1 us t0] us assms(6) by simp
  finally show ?thesis using final [of "Suc (length us)"] us assms(6) by (simp add: E_def)
qed

definition demo_timeouts :: timeouts where
  "demo_timeouts = \<lparr>TIMEOUT_INDEFINITE = -1, TIMEOUT_DEFAULT = -2, IATTR_TIMEOUT_DEFAULT = 100\<rparr>"

definition demo_keys :: "(u128 \<rightharpoonup> BarrierRequest) \<Rightarrow> u128 list" where
  "demo_keys m = sorted_list_of_set (dom m)"

theorem timeouts_counted_twice_witness:
  "ba_out (fold (\<lambda>time b. snd (cmdEnter demo_timeouts demo_keys time 7
      \<lparr>be_version = ba_version (new_barrier 1 3 2), be_incarnation = 0, be_timeout = 100, be_handled = False\<rparr> b)) [5, 120] (new_barrier 1 3 2)) =
   ba_out (new_barrier 1 3 2) @ [(7, ba_version (new_barrier 1 3 2))]"
  by (rule timeouts_counted_twice [OF _ _ _ _ _ _ refl, where timeout = 100 and incarnation = 0])
    (simp_all add: new_barrier_def demo_timeouts_def demo_keys_def)

end
