(* ===== verification/Barrier_Sync.thy ===== *)
theory Barrier_Sync
  imports Barrier
begin

text \<open>
  A barrier at work: the nodes enter, each with a timeout of its own or without, the master counts,
  and the network carries the packets. An event is one step of a thread; enter packets of different
  nodes reach the master in any order. A wait with a timeout may expire at any time before the node
  is released; \<open>bn_expired\<close> counts how often that happened. The height and the version of the barrier
  are the same everywhere.
\<close>

section \<open>The system\<close>

text \<open>A node inside waits for a value of \<open>leaveNotify\<close>, with a timeout.\<close>

datatype barrier_phase = Outside | Inside u32 u32

record barrier_net =
  bn_master :: NodeID
  bn_barrier :: "NodeID \<Rightarrow> Barrier"
  bn_phase :: "NodeID \<Rightarrow> barrier_phase"
  bn_enters :: "NodeID \<Rightarrow> BarrierEnterPacket list"
  bn_replies :: "NodeID \<Rightarrow> u128 list"
  bn_entered :: "NodeID \<Rightarrow> nat"
  bn_left :: "NodeID \<Rightarrow> nat"
  bn_expired :: nat

definition new_barrier_net :: "NodeID \<Rightarrow> u128 \<Rightarrow> u32 \<Rightarrow> barrier_net" where
  "new_barrier_net master version height =
     \<lparr>bn_master = master, bn_barrier = (\<lambda>n. new_barrier n version height), bn_phase = (\<lambda>_. Outside), bn_enters = (\<lambda>_. []),
      bn_replies = (\<lambda>_. []), bn_entered = (\<lambda>_. 0), bn_left = (\<lambda>_. 0), bn_expired = 0\<rparr>"

datatype barrier_event = Enter NodeID u32 | Serve_Enter u64 NodeID | Deliver_Reply NodeID | Leave NodeID | Expire NodeID

fun node_of :: "barrier_event \<Rightarrow> NodeID" where
  "node_of (Enter n timeout) = n"
| "node_of (Serve_Enter time n) = n"
| "node_of (Deliver_Reply n) = n"
| "node_of (Leave n) = n"
| "node_of (Expire n) = n"

fun barrier_step ::
  "timeouts \<Rightarrow> ((u128 \<rightharpoonup> BarrierRequest) \<Rightarrow> u128 list) \<Rightarrow> barrier_event \<Rightarrow> barrier_net \<Rightarrow> barrier_net option" where
  "barrier_step tc keys (Enter n timeout) net =
     (if bn_phase net n \<noteq> Outside then None
      else
        (case barrier_enter True timeout (bn_barrier net n) of
           Passed \<Rightarrow> Some (net\<lparr>bn_entered := (bn_entered net)(n := bn_entered net n + 1), bn_left := (bn_left net)(n := bn_left net n + 1)\<rparr>)
         | Waits packet leaveVal \<Rightarrow>
             Some (net\<lparr>bn_phase := (bn_phase net)(n := Inside leaveVal timeout), bn_enters := (bn_enters net)(n := bn_enters net n @ [packet]),
               bn_entered := (bn_entered net)(n := bn_entered net n + 1)\<rparr>)))"
| "barrier_step tc keys (Serve_Enter time n) net =
     (case bn_enters net n of
        [] \<Rightarrow> None
      | packet # rest \<Rightarrow>
          let b = snd (cmdEnter tc keys time n packet (bn_barrier net (bn_master net)))
          in Some (net\<lparr>bn_enters := (bn_enters net)(n := rest),
                 bn_barrier := (bn_barrier net)(bn_master net := b\<lparr>ba_out := []\<rparr>),
                 bn_replies := (\<lambda>k. bn_replies net k @ map snd (filter (\<lambda>x. fst x = k) (ba_out b)))\<rparr>))"
| "barrier_step tc keys (Deliver_Reply n) net =
     (case bn_replies net n of
        [] \<Rightarrow> None
      | version # rest \<Rightarrow>
          Some (net\<lparr>bn_replies := (bn_replies net)(n := rest),
                 bn_barrier := (bn_barrier net)(n := cmdEnterReply version (bn_barrier net n))\<rparr>))"
| "barrier_step tc keys (Leave n) net =
     (case bn_phase net n of
        Outside \<Rightarrow> None
      | Inside leaveVal timeout \<Rightarrow>
          if ba_leaveNotify (bn_barrier net n) = leaveVal
          then Some (net\<lparr>bn_phase := (bn_phase net)(n := Outside), bn_left := (bn_left net)(n := bn_left net n + 1)\<rparr>)
          else None)"
| "barrier_step tc keys (Expire n) net =
     (case bn_phase net n of
        Outside \<Rightarrow> None
      | Inside leaveVal timeout \<Rightarrow>
          if timeout \<noteq> TIMEOUT_INDEFINITE tc \<and> ba_leaveNotify (bn_barrier net n) \<noteq> leaveVal
          then Some (net\<lparr>bn_phase := (bn_phase net)(n := Outside), bn_expired := bn_expired net + 1\<rparr>)
          else None)"

text \<open>Runs in which the nodes of \<open>P\<close> take part.\<close>

inductive barrier_run ::
  "timeouts \<Rightarrow> ((u128 \<rightharpoonup> BarrierRequest) \<Rightarrow> u128 list) \<Rightarrow> NodeID \<Rightarrow> u128 \<Rightarrow> NodeID set \<Rightarrow> barrier_net \<Rightarrow> bool"
  for tc keys master version P where
  start: "barrier_run tc keys master version P (new_barrier_net master version (of_nat (card P)))"
| step: "barrier_run tc keys master version P net \<Longrightarrow> node_of e \<in> P \<Longrightarrow> barrier_step tc keys e net = Some net' \<Longrightarrow>
    barrier_run tc keys master version P net'"

section \<open>Rounds\<close>

text \<open>After \<open>R\<close> complete rounds: who has been counted in the current one, and how far each node is.\<close>

definition waiting_nodes :: "barrier_net \<Rightarrow> u128 \<Rightarrow> NodeID list" where
  "waiting_nodes net version =
     (case ba_enteredNodes (bn_barrier net (bn_master net)) version of None \<Rightarrow> [] | Some r \<Rightarrow> br_nodes r)"

definition node_ok :: "u128 \<Rightarrow> nat \<Rightarrow> NodeID list \<Rightarrow> barrier_net \<Rightarrow> NodeID \<Rightarrow> bool" where
  "node_ok version R ns net n =
     (bn_entered net n = R + (if n \<in> set ns then 1 else 0) + length (bn_enters net n) \<and>
      (\<exists>G. G + length (bn_replies net n) = R \<and> ba_leaveNotify (bn_barrier net n) = of_nat G \<and> bn_left net n \<le> G) \<and>
      (\<forall>p \<in> set (bn_enters net n). be_version p = version \<and> be_incarnation p = of_nat R \<and> \<not> be_handled p) \<and>
      (\<forall>v \<in> set (bn_replies net n). v = version) \<and>
      (case bn_phase net n of
         Outside \<Rightarrow> bn_entered net n = bn_left net n
       | Inside val timeout \<Rightarrow> bn_entered net n = bn_left net n + 1 \<and> val = of_nat (bn_left net n + 1)))"

definition barrier_ok :: "NodeID \<Rightarrow> u128 \<Rightarrow> NodeID set \<Rightarrow> nat \<Rightarrow> barrier_net \<Rightarrow> bool" where
  "barrier_ok master version P R net =
     (bn_master net = master \<and>
      (\<forall>n. ba_localNode (bn_barrier net n) = n \<and> ba_version (bn_barrier net n) = version \<and>
         ba_height (bn_barrier net n) = of_nat (card P) \<and> ba_out (bn_barrier net n) = []) \<and>
      dom (ba_enteredNodes (bn_barrier net master)) \<subseteq> {version} \<and>
      (\<forall>r. ba_enteredNodes (bn_barrier net master) version = Some r \<longrightarrow> br_incarnation r = of_nat R) \<and>
      distinct (waiting_nodes net version) \<and> set (waiting_nodes net version) \<subset> P \<and>
      (\<forall>n \<in> P. node_ok version R (waiting_nodes net version) net n))"

text \<open>A packet whose incarnation is that of the round under way is counted, whatever timeouts it and
  the round have.\<close>

lemma cmdEnter_counts:
  assumes "\<not> be_handled p" "be_version p = ba_version b" "dom (ba_enteredNodes b) \<subseteq> {ba_version b}"
    and "\<forall>r. ba_enteredNodes b (ba_version b) = Some r \<longrightarrow> br_incarnation r = be_incarnation p"
    and "\<forall>m. set (keys m) = dom m \<and> distinct (keys m)"
    and ns: "ns = (case ba_enteredNodes b (ba_version b) of None \<Rightarrow> [] | Some r \<Rightarrow> br_nodes r) @ [node]"
  shows "length ns < unat (ba_height b) \<Longrightarrow> \<exists>r. br_nodes r = ns \<and> br_incarnation r = be_incarnation p \<and>
      snd (cmdEnter tc keys time node p b) = b\<lparr>ba_enteredNodes := (ba_enteredNodes b)(ba_version b \<mapsto> r)\<rparr>"
    and "\<not> length ns < unat (ba_height b) \<Longrightarrow> snd (cmdEnter tc keys time node p b) =
      b\<lparr>ba_leaveNotify := ba_leaveNotify b + (if ba_localNode b \<in> set ns then 1 else 0),
        ba_out := ba_out b @ map (\<lambda>n. (n, ba_version b)) (filter (\<lambda>n. n \<noteq> ba_localNode b) (usort ns)),
        ba_enteredNodes := (ba_enteredNodes b)(ba_version b := None)\<rparr>"
proof -
  let ?v = "ba_version b"
  define q where "q = (case ba_enteredNodes b (be_version p) of None \<Rightarrow> new_request tc | Some r \<Rightarrow> r)\<lparr>br_time := time\<rparr>"
  let ?r = "if br_nodes q = [] then q\<lparr>br_nodes := [], br_incarnation := be_incarnation p, br_timeout := be_timeout p\<rparr> else q"
  have q: "br_nodes q \<noteq> [] \<longrightarrow> br_incarnation q = be_incarnation p" "br_nodes q @ [node] = ns"
    using assms(2,4) ns by (auto simp: q_def new_request_def split: option.splits)
  have "snd (cmdEnter tc keys time node p b) = enter_request tc keys node p ?r b"
    using q(1) assms(1,2) unfolding cmdEnter_def Let_def q_def [symmetric] by (cases "br_nodes q = []") simp_all
  moreover have "br_nodes ?r @ [node] = ns" "br_incarnation ?r = be_incarnation p" using q by auto
  ultimately have "\<exists>r. br_nodes r @ [node] = ns \<and> br_incarnation r = be_incarnation p \<and> snd (cmdEnter tc keys time node p b) = enter_request tc keys node p r b"
    by blast
  then obtain r where r: "br_nodes r @ [node] = ns" "br_incarnation r = be_incarnation p"
    "snd (cmdEnter tc keys time node p b) = enter_request tc keys node p r b" by blast
  have clean: "barrier_cleanup tc keys t (b\<lparr>ba_enteredNodes := (ba_enteredNodes b)(?v \<mapsto> q)\<rparr>) =
      b\<lparr>ba_enteredNodes := (ba_enteredNodes b)(?v \<mapsto> q)\<rparr>" for t q
  proof -
    have "dom ((ba_enteredNodes b)(?v \<mapsto> q)) \<subseteq> {?v}" using assms(3) by auto
    then have "card (set (keys ((ba_enteredNodes b)(?v \<mapsto> q)))) \<le> card {?v}"
      unfolding assms(5) [rule_format, THEN conjunct1] by (rule card_mono [rotated]) simp
    then have "length (keys ((ba_enteredNodes b)(?v \<mapsto> q))) < 2"
      unfolding distinct_card [OF assms(5) [rule_format, THEN conjunct2]] by simp
    then show ?thesis by (simp add: barrier_cleanup_def Let_def)
  qed
  show "\<exists>r. br_nodes r = ns \<and> br_incarnation r = be_incarnation p \<and>
      snd (cmdEnter tc keys time node p b) = b\<lparr>ba_enteredNodes := (ba_enteredNodes b)(?v \<mapsto> r)\<rparr>" if "length ns < unat (ba_height b)"
    using that r(2) assms(2) clean by (intro exI [of _ "r\<lparr>br_nodes := ns\<rparr>"]) (simp add: r(3) enter_request_def Let_def r(1))
  show "snd (cmdEnter tc keys time node p b) =
      b\<lparr>ba_leaveNotify := ba_leaveNotify b + (if ba_localNode b \<in> set ns then 1 else 0),
        ba_out := ba_out b @ map (\<lambda>n. (n, ?v)) (filter (\<lambda>n. n \<noteq> ba_localNode b) (usort ns)),
        ba_enteredNodes := (ba_enteredNodes b)(?v := None)\<rparr>" if "\<not> length ns < unat (ba_height b)"
    using that r(2) assms(2) clean by (simp add: r(3) enter_request_def Let_def r(1) sendNotify_fold)
qed

lemma node_ok_progress:
  assumes "node_ok version R ns net n"
  obtains G where "G + length (bn_replies net n) = R" "ba_leaveNotify (bn_barrier net n) = of_nat G" "bn_left net n \<le> G"
    "bn_entered net n = R + (if n \<in> set ns then 1 else 0) + length (bn_enters net n)"
    "bn_entered net n \<le> bn_left net n + 1" "bn_phase net n = Outside \<longleftrightarrow> bn_entered net n = bn_left net n"
  using assms by (auto simp: node_ok_def split: barrier_phase.splits)

lemma node_ok_cong:
  assumes "bn_entered net' n = bn_entered net n" "bn_enters net' n = bn_enters net n" "bn_replies net' n = bn_replies net n"
    "ba_leaveNotify (bn_barrier net' n) = ba_leaveNotify (bn_barrier net n)" "bn_left net' n = bn_left net n"
    "bn_phase net' n = bn_phase net n" "n \<in> set ns' \<longleftrightarrow> n \<in> set ns"
  shows "node_ok version R ns' net' n = node_ok version R ns net n"
  by (simp add: node_ok_def assms cong: barrier_phase.case_cong)

lemma ok_enter:
  assumes "barrier_ok master version P R net" "n \<in> P" "2 \<le> card P" "card P < 2 ^ 32"
    and "barrier_step tc keys (Enter n t) net = Some net'"
  shows "barrier_ok master version P R net'"
proof -
  note ok = assms(1) [unfolded barrier_ok_def]
  have h: "ba_height (bn_barrier net n) \<noteq> 1"
  proof
    assume "ba_height (bn_barrier net n) = 1"
    then have "unat (of_nat (card P) :: u32) = 1" using ok by simp
    then show False using assms(3,4) by (simp add: unat_of_nat take_bit_nat_eq_self)
  qed
  have n: "node_ok version R (waiting_nodes net version) net n" using ok assms(2) by blast
  from assms(5) have out: "bn_phase net n = Outside" by (auto split: if_splits)
  let ?b = "bn_barrier net n"
  let ?p = "\<lparr>be_version = version, be_incarnation = ba_leaveNotify ?b, be_timeout = t, be_handled = False\<rparr>"
  have net': "net' = net\<lparr>bn_phase := (bn_phase net)(n := Inside (ba_leaveNotify ?b + 1) t), bn_enters := (bn_enters net)(n := bn_enters net n @ [?p]),
       bn_entered := (bn_entered net)(n := bn_entered net n + 1)\<rparr>"
    using assms(5) out h ok by (simp add: barrier_enter_def)
  have w: "waiting_nodes net' version = waiting_nodes net version" by (simp add: net' waiting_nodes_def)
  have "node_ok version R (waiting_nodes net version) net' k" if "k \<in> P" for k
  proof (cases "k = n")
    case True
    from node_ok_progress [OF n] obtain G where g: "G + length (bn_replies net n) = R" "ba_leaveNotify (bn_barrier net n) = of_nat G"
      "bn_left net n \<le> G" "bn_entered net n = R + (if n \<in> set (waiting_nodes net version) then 1 else 0) + length (bn_enters net n)"
      "bn_phase net n = Outside \<longleftrightarrow> bn_entered net n = bn_left net n" by metis
    then have "G = bn_left net n" "R = G" using out by simp_all
    with g n out show ?thesis unfolding True by (simp add: node_ok_def net')
  next
    case False
    then show ?thesis using ok that by (subst node_ok_cong [of _ _ net]) (auto simp: net')
  qed
  then show ?thesis using ok w by (simp add: barrier_ok_def net')
qed

lemma ok_deliver:
  assumes "barrier_ok master version P R net" "n \<in> P" "barrier_step tc keys (Deliver_Reply n) net = Some net'"
  shows "barrier_ok master version P R net'"
proof -
  note ok = assms(1) [unfolded barrier_ok_def]
  have n: "node_ok version R (waiting_nodes net version) net n" using ok assms(2) by blast
  from assms(3) obtain v vs where r: "bn_replies net n = v # vs" by (cases "bn_replies net n") auto
  with n have "v = version" by (simp add: node_ok_def)
  with assms(3) r ok have net': "net' = net\<lparr>bn_replies := (bn_replies net)(n := vs),
      bn_barrier := (bn_barrier net)(n := (bn_barrier net n)\<lparr>ba_leaveNotify := ba_leaveNotify (bn_barrier net n) + 1\<rparr>)\<rparr>"
    by (simp add: cmdEnterReply_def)
  have w: "waiting_nodes net' version = waiting_nodes net version" by (simp add: net' waiting_nodes_def)
  have "node_ok version R (waiting_nodes net version) net' k" if "k \<in> P" for k
  proof (cases "k = n")
    case True
    from node_ok_progress [OF n] obtain G where "G + length (bn_replies net n) = R" "ba_leaveNotify (bn_barrier net n) = of_nat G"
      "bn_left net n \<le> G" by metis
    then have "Suc G + length vs = R" "ba_leaveNotify (bn_barrier net n) + 1 = of_nat (Suc G)" "bn_left net n \<le> Suc G"
      using r by simp_all
    with n r show ?thesis unfolding True by (auto simp: node_ok_def net' simp del: of_nat_Suc split: barrier_phase.splits)
  next
    case False
    then show ?thesis using ok that by (subst node_ok_cong [of _ _ net]) (auto simp: net')
  qed
  then show ?thesis using ok w by (auto simp: barrier_ok_def net')
qed

lemma ok_leave:
  assumes "barrier_ok master version P R net" "n \<in> P" "barrier_step tc keys (Leave n) net = Some net'"
  shows "barrier_ok master version P R net'"
proof -
  note ok = assms(1) [unfolded barrier_ok_def]
  have n: "node_ok version R (waiting_nodes net version) net n" using ok assms(2) by blast
  from assms(3) obtain t where i: "bn_phase net n = Inside (ba_leaveNotify (bn_barrier net n)) t"
    and net': "net' = net\<lparr>bn_phase := (bn_phase net)(n := Outside), bn_left := (bn_left net)(n := bn_left net n + 1)\<rparr>"
    by (auto split: if_splits barrier_phase.splits)
  have w: "waiting_nodes net' version = waiting_nodes net version" by (simp add: net' waiting_nodes_def)
  have "node_ok version R (waiting_nodes net version) net' k" if "k \<in> P" for k
  proof (cases "k = n")
    case True
    from node_ok_progress [OF n] obtain G where g: "G + length (bn_replies net n) = R" "ba_leaveNotify (bn_barrier net n) = of_nat G"
      "bn_left net n \<le> G" "bn_entered net n = R + (if n \<in> set (waiting_nodes net version) then 1 else 0) + length (bn_enters net n)" by metis
    have l: "bn_entered net n = bn_left net n + 1" "ba_leaveNotify (bn_barrier net n) = of_nat (bn_left net n + 1)"
      using n i by (auto simp: node_ok_def)
    have "G \<noteq> bn_left net n" using g(2) l(2) by auto
    then have "G = bn_left net n + 1" using g l by simp
    with g l n show ?thesis unfolding True by (auto simp: node_ok_def net')
  next
    case False
    then show ?thesis using ok that by (subst node_ok_cong [of _ _ net]) (auto simp: net')
  qed
  then show ?thesis using ok w by (simp add: barrier_ok_def net')
qed

lemma filter_eq_single: "distinct xs \<Longrightarrow> filter (\<lambda>x. x = k) xs = (if k \<in> set xs then [k] else [])"
  by (induction xs) auto

lemma ok_serve:
  assumes "barrier_ok master version P R net" "n \<in> P" "finite P" "card P < 2 ^ 32"
    and keys: "\<forall>m. set (keys m) = dom m \<and> distinct (keys m)"
    and "barrier_step tc keys (Serve_Enter time n) net = Some net'"
  shows "barrier_ok master version P R net' \<or> barrier_ok master version P (Suc R) net'"
proof -
  note ok = assms(1) [unfolded barrier_ok_def]
  let ?b = "bn_barrier net master" and ?ns = "waiting_nodes net version"
  have n: "node_ok version R ?ns net n" using ok assms(2) by blast
  from assms(6) obtain p ps where r: "bn_enters net n = p # ps" by (cases "bn_enters net n") auto
  from node_ok_progress [OF n] obtain G where g: "G + length (bn_replies net n) = R" "bn_left net n \<le> G"
    "bn_entered net n = R + (if n \<in> set ?ns then 1 else 0) + length (bn_enters net n)" "bn_entered net n \<le> bn_left net n + 1" by metis
  then have "(if n \<in> set ?ns then 1 else 0) + length (bn_enters net n) \<le> 1" by linarith
  then have fresh: "n \<notin> set ?ns" "ps = []" using r by (auto split: if_splits)
  let ?new = "?ns @ [n]" and ?b' = "snd (cmdEnter tc keys time n p ?b)"
  have net': "net' = net\<lparr>bn_enters := (bn_enters net)(n := []), bn_barrier := (bn_barrier net)(master := ?b'\<lparr>ba_out := []\<rparr>),
      bn_replies := (\<lambda>k. bn_replies net k @ map snd (filter (\<lambda>x. fst x = k) (ba_out ?b')))\<rparr>"
    using assms(6) r fresh ok by (simp add: Let_def)
  have b: "ba_localNode ?b = master" "ba_version ?b = version" "unat (ba_height ?b) = card P" "ba_out ?b = []"
    using ok assms(4) by (auto simp: unat_of_nat take_bit_nat_eq_self)
  have p: "\<not> be_handled p" "be_version p = ba_version ?b" and inc: "be_incarnation p = of_nat R"
    using n r b(2) by (auto simp: node_ok_def)
  have ns: "?new = (case ba_enteredNodes ?b (ba_version ?b) of None \<Rightarrow> [] | Some r \<Rightarrow> br_nodes r) @ [n]"
    using ok b(2) by (simp add: waiting_nodes_def)
  have d: "dom (ba_enteredNodes ?b) \<subseteq> {ba_version ?b}" using ok b(2) by simp
  have t: "\<forall>r. ba_enteredNodes ?b (ba_version ?b) = Some r \<longrightarrow> br_incarnation r = be_incarnation p" using ok b(2) inc by simp
  note enter = cmdEnter_counts [OF p d t keys ns, where time = time, unfolded b]
  have sub: "distinct ?new" "set ?new \<subseteq> P" using ok fresh assms(2) by auto
  show ?thesis
  proof (cases "length ?new < card P")
    case True
    from enter(1) [OF True] obtain q where q: "br_nodes q = ?new" "br_incarnation q = of_nat R"
      "?b' = ?b\<lparr>ba_enteredNodes := (ba_enteredNodes ?b)(version \<mapsto> q)\<rparr>" using inc by auto
    have w: "waiting_nodes net' version = ?new" using ok by (simp add: net' waiting_nodes_def q)
    have "set ?new \<subset> P" using sub True distinct_card [OF sub(1)] by (metis nat_neq_iff psubsetI)
    moreover have "node_ok version R ?new net' k" if "k \<in> P" for k
    proof (cases "k = n")
      case True
      then show ?thesis using n r fresh g by (auto simp: node_ok_def net' q b split: barrier_phase.splits)
    next
      case False
      then show ?thesis using ok that by (subst node_ok_cong [of _ _ net _ ?ns]) (auto simp: net' q b)
    qed
    ultimately show ?thesis using ok sub w q b by (auto simp: barrier_ok_def net')
  next
    case False
    have "card (set ?new) \<le> card P" by (rule card_mono [OF assms(3) sub(2)])
    then have all: "set ?new = P" using False sub distinct_card [OF sub(1)] assms(3) by (metis card_seteq le_antisym not_less order_refl)
    note e = enter(2) [OF False]
    have out: "ba_out ?b' = map (\<lambda>k. (k, version)) (filter (\<lambda>k. k \<noteq> master) (usort ?new))" by (simp add: e)
    have rep: "map snd (filter (\<lambda>x. fst x = k) (ba_out ?b')) = (if k \<in> P \<and> k \<noteq> master then [version] else [])" for k
    proof -
      have "filter (\<lambda>x. x = k) (usort ?new) = (if k \<in> set (usort ?new) then [k] else [])"
        by (rule filter_eq_single) simp
      then show ?thesis using all by (auto simp: out filter_map comp_def conj_commute filter_filter [symmetric])
    qed
    have w: "waiting_nodes net' version = []" using ok by (simp add: net' waiting_nodes_def e)
    have "node_ok version (Suc R) [] net' k" if "k \<in> P" for k
    proof -
      have k: "node_ok version R ?ns net k" using ok that by blast
      from node_ok_progress [OF k] obtain H where "H + length (bn_replies net k) = R" "ba_leaveNotify (bn_barrier net k) = of_nat H"
        "bn_left net k \<le> H" by metis
      note h = this
      have "\<exists>G. G + length (bn_replies net' k) = Suc R \<and> ba_leaveNotify (bn_barrier net' k) = of_nat G \<and> bn_left net' k \<le> G"
      proof (cases "k = master")
        case True
        then show ?thesis using h that by (intro exI [of _ "Suc H"]) (simp add: net' rep e b all [symmetric] del: set_append)
      next
        case False
        then show ?thesis using h that by (intro exI [of _ H]) (simp add: net' rep)
      qed
      moreover have "bn_entered net' k = Suc R + length (bn_enters net' k)"
      proof (cases "k = n")
        case True
        then show ?thesis using g(3) r fresh by (simp add: net')
      next
        case False
        then have "k \<in> set ?ns" using all that by auto
        then show ?thesis using k False by (simp add: net' node_ok_def)
      qed
      moreover have "bn_enters net' k = []"
      proof (cases "k = n")
        case True
        then show ?thesis by (simp add: net')
      next
        case False
        then have "k \<in> set ?ns" using all that by auto
        have "bn_entered net k \<le> bn_left net k + 1" "bn_entered net k = R + 1 + length (bn_enters net k)" "bn_left net k \<le> R"
          using node_ok_progress [OF k] \<open>k \<in> set ?ns\<close> h(1,3) by (metis, metis, linarith)
        then have "length (bn_enters net k) = 0" by linarith
        then show ?thesis using False by (simp add: net')
      qed
      moreover have "bn_phase net' k = bn_phase net k" "bn_entered net' k = bn_entered net k" "bn_left net' k = bn_left net k"
        "set (bn_replies net' k) \<subseteq> insert version (set (bn_replies net k))"
        by (auto simp: net' rep)
      ultimately show ?thesis using k unfolding node_ok_def by (auto split: barrier_phase.splits)
    qed
    moreover have "P \<noteq> {}" using assms(2) by blast
    ultimately have "barrier_ok master version P (Suc R) net'" using ok w b by (auto simp: barrier_ok_def net' e)
    then show ?thesis ..
  qed
qed

lemma barrier_step_expired:
  assumes "barrier_step tc keys e net = Some net'"
  shows "bn_expired net \<le> bn_expired net'"
  using assms by (cases e) (auto simp: Let_def split: if_splits enter_result.splits list.splits barrier_phase.splits)

lemma barrier_run_ok:
  assumes "barrier_run tc keys master version P net" "finite P" "2 \<le> card P" "card P < 2 ^ 32"
    and "\<forall>m. set (keys m) = dom m \<and> distinct (keys m)"
  shows "bn_expired net = 0 \<Longrightarrow> \<exists>R. barrier_ok master version P R net"
  using assms(1)
proof induction
  case start
  have "{} \<subset> P" using assms(3) by auto
  then have "barrier_ok master version P 0 (new_barrier_net master version (of_nat (card P)))"
    by (simp add: barrier_ok_def node_ok_def new_barrier_net_def new_barrier_def waiting_nodes_def)
  then show ?case ..
next
  case (step net e net')
  from barrier_step_expired [OF step(3)] step(5) have "bn_expired net = 0" by simp
  with step.IH obtain R where ok: "barrier_ok master version P R net" by blast
  show ?case
  proof (cases e)
    case (Enter n t)
    with step ok_enter [OF ok _ assms(3,4), of n tc keys t] show ?thesis by (auto simp del: barrier_step.simps)
  next
    case (Serve_Enter time n)
    with step ok_serve [OF ok _ assms(2,4,5), of n tc time] show ?thesis by (fastforce simp del: barrier_step.simps)
  next
    case (Deliver_Reply n)
    with step ok_deliver [OF ok, of n tc keys] show ?thesis by (auto simp del: barrier_step.simps)
  next
    case (Leave n)
    with step ok_leave [OF ok, of n tc keys] show ?thesis by (auto simp del: barrier_step.simps)
  next
    case (Expire n)
    with step(3,5) show ?thesis by (auto split: barrier_phase.splits if_splits)
  qed
qed

text \<open>C9. The barrier synchronises: as long as no wait has timed out, no node has left the barrier more
  often than any other node has entered it, whatever timeouts the nodes gave when they entered. After
  a wait has timed out this no longer holds (\<open>timeouts_counted_twice\<close>): the node that gave up has been
  counted and is counted again when it returns.\<close>

theorem barrier_synchronises:
  assumes "barrier_run tc keys master version P net" "finite P" "2 \<le> card P" "card P < 2 ^ 32"
    and "\<forall>m. set (keys m) = dom m \<and> distinct (keys m)" "bn_expired net = 0"
    and "n \<in> P" "m \<in> P"
  shows "bn_left net n \<le> bn_entered net m"
proof -
  from barrier_run_ok [OF assms(1-6)] obtain R where "barrier_ok master version P R net" ..
  then have "node_ok version R (waiting_nodes net version) net n" "node_ok version R (waiting_nodes net version) net m"
    using assms(7,8) by (auto simp: barrier_ok_def)
  then show ?thesis by (auto simp: node_ok_def)
qed

text \<open>C21. The barrier lets everyone go: as long as no wait has timed out, when all packets have been
  handled and no node can leave, every node has left as often as all of them have entered, whatever
  timeouts they gave. None is forgotten.\<close>

theorem barrier_releases:
  assumes "barrier_run tc keys master version P net" "finite P" "2 \<le> card P" "card P < 2 ^ 32"
    and "\<forall>m. set (keys m) = dom m \<and> distinct (keys m)" "bn_expired net = 0"
    and "\<forall>n \<in> P. \<forall>e \<in> {Serve_Enter 0 n, Deliver_Reply n, Leave n}. barrier_step tc keys e net = None"
    and "\<forall>n \<in> P. k \<le> bn_entered net n" "n \<in> P"
  shows "k \<le> bn_left net n"
proof -
  from barrier_run_ok [OF assms(1-6)] obtain R where ok: "barrier_ok master version P R net" ..
  let ?ns = "waiting_nodes net version"
  have idle: "bn_enters net m = []" "bn_replies net m = []" "\<forall>t. bn_phase net m \<noteq> Inside (ba_leaveNotify (bn_barrier net m)) t" if "m \<in> P" for m
    using assms(7) [THEN bspec, OF that] by (auto simp: Let_def split: list.splits if_splits barrier_phase.splits)
  obtain m where m: "m \<in> P" "m \<notin> set ?ns" using ok by (auto simp: barrier_ok_def)
  have "node_ok version R ?ns net m" using ok m by (simp add: barrier_ok_def)
  then have kR: "k \<le> R" using m idle(1) [OF m(1)] assms(8) by (auto simp: node_ok_def)
  have n: "node_ok version R ?ns net n" using ok assms(9) by (simp add: barrier_ok_def)
  show ?thesis
  proof (cases "bn_phase net n")
    case Outside
    then have "bn_entered net n = bn_left net n" using n by (simp add: node_ok_def)
    then show ?thesis using assms(8,9) by fastforce
  next
    case (Inside val t)
    have "bn_entered net n = bn_left net n + 1" "val = of_nat (bn_left net n + 1)" "ba_leaveNotify (bn_barrier net n) = of_nat R"
      "R \<le> bn_entered net n" "bn_left net n \<le> R"
      using n Inside idle [OF assms(9)] by (auto simp: node_ok_def)
    moreover from this have "bn_left net n + 1 \<noteq> R" using idle(3) [OF assms(9)] Inside by metis
    ultimately show ?thesis using kR by linarith
  qed
qed

definition demo_barrier :: "barrier_event list \<Rightarrow> barrier_net option" where
  "demo_barrier es = fold (\<lambda>e net. Option.bind net (barrier_step demo_timeouts demo_keys e)) es (Some (new_barrier_net 1 3 2))"

definition demo_round :: "barrier_event list" where
  "demo_round = [Enter 1 (-1), Enter 2 300, Serve_Enter 5 2, Serve_Enter 7 1, Deliver_Reply 2, Leave 2, Enter 2 300, Leave 1]"

lemma demo_barrier_run:
  "demo_barrier es = Some net \<Longrightarrow> node_of ` set es \<subseteq> {1, 2} \<Longrightarrow> barrier_run demo_timeouts demo_keys 1 3 {1, 2} net"
proof (induction es arbitrary: net rule: rev_induct)
  case Nil
  then show ?case using barrier_run.start [of demo_timeouts demo_keys 1 3 "{1, 2}"] by (simp add: demo_barrier_def)
next
  case (snoc e es)
  then obtain net1 where "demo_barrier es = Some net1" "barrier_step demo_timeouts demo_keys e net1 = Some net"
    by (auto simp: demo_barrier_def split: bind_splits)
  with snoc show ?case by (auto intro: barrier_run.step)
qed

lemma demo_keys_ok: "\<forall>m. set (demo_keys m) = dom m \<and> distinct (demo_keys m)"
  by (simp add: demo_keys_def)

lemma demo_barrier_result:
  "\<exists>net. demo_barrier demo_round = Some net \<and> bn_expired net = 0 \<and> bn_left net 1 = 1 \<and> bn_entered net 2 = 2 \<and> bn_left net 2 = 1"
  by (simp add: demo_barrier_def demo_round_def new_barrier_net_def new_barrier_def barrier_enter_def cmdEnter_def enter_request_def
      new_request_def demo_timeouts_def Let_def usort_def sendNotify_def cmdEnterReply_def barrier_cleanup_def demo_keys_def)

theorem barrier_synchronises_witness:
  "\<exists>net. demo_barrier demo_round = Some net \<and> bn_left net 1 = 1 \<and> bn_left net 1 \<le> bn_entered net 2"
proof -
  from demo_barrier_result obtain net where n: "demo_barrier demo_round = Some net" "bn_expired net = 0" "bn_left net 1 = 1" by blast
  have "node_of ` set demo_round \<subseteq> {1, 2}" by (auto simp: demo_round_def)
  from barrier_synchronises [OF demo_barrier_run [OF n(1) this] _ _ _ demo_keys_ok n(2), of 1 2] n show ?thesis by auto
qed

lemma demo_barrier_stuck:
  "\<exists>net. demo_barrier (demo_round @ [Serve_Enter 0 2]) = Some net \<and> bn_expired net = 0 \<and> bn_entered net 1 = 1 \<and> bn_entered net 2 = 2 \<and>
      (\<forall>n \<in> {1, 2}. \<forall>e \<in> {Serve_Enter 0 n, Deliver_Reply n, Leave n}. barrier_step demo_timeouts demo_keys e net = None)"
  by (simp add: demo_barrier_def demo_round_def new_barrier_net_def new_barrier_def barrier_enter_def cmdEnter_def enter_request_def
      new_request_def demo_timeouts_def Let_def usort_def sendNotify_def cmdEnterReply_def barrier_cleanup_def demo_keys_def)

theorem barrier_releases_witness:
  "\<exists>net. demo_barrier (demo_round @ [Serve_Enter 0 2]) = Some net \<and> 1 \<le> bn_left net 1 \<and> 1 \<le> bn_left net 2"
proof -
  from demo_barrier_stuck obtain net where n: "demo_barrier (demo_round @ [Serve_Enter 0 2]) = Some net" "bn_expired net = 0" "bn_entered net 1 = 1"
    "bn_entered net 2 = 2" "\<forall>n \<in> {1, 2}. \<forall>e \<in> {Serve_Enter 0 n, Deliver_Reply n, Leave n}. barrier_step demo_timeouts demo_keys e net = None"
    by blast
  have "node_of ` set (demo_round @ [Serve_Enter 0 2]) \<subseteq> {1, 2}" by (auto simp: demo_round_def)
  from barrier_releases [OF demo_barrier_run [OF n(1) this] _ _ _ demo_keys_ok n(2) n(5), of 1] n(1-4) show ?thesis by auto
qed

end
