(* ===== verification/Instance_Cache.thy ===== *)
theory Instance_Cache
  imports Data_Stream Float32
begin

text \<open>
  The cache of instance data (\<open>libs/co/instanceCache.cpp\<close>). A node keeps the streams of instance
  data that it has received, by object and version, so that mapping an object need not transfer
  them again. Items in use are pinned by an access count; when the cache is over its limit,
  streams of the others are released.

  The argument \<open>order\<close> gives the order in which the hash map is traversed, and \<open>time\<close> is what the
  clock of the cache returns. The loop that releases streams is a partial function, so that an
  operation that does not return would be \<open>None\<close>.
\<close>

section \<open>State\<close>

record CacheItem =
  ci_masterInstanceID :: u32
  ci_versions :: "ObjectDataIStream list"
  ci_used :: u32
  ci_access :: u32
  ci_from :: NodeID
  ci_times :: "int list"

record InstanceCache =
  ic_items :: "u128 \<rightharpoonup> CacheItem"
  ic_maxSize :: u64
  ic_size :: u64

definition new_cache :: "u64 \<Rightarrow> InstanceCache" where
  "new_cache maxSize = \<lparr>ic_items = Map.empty, ic_maxSize = maxSize, ic_size = 0\<rparr>"

definition new_item :: "u32 \<Rightarrow> NodeID \<Rightarrow> CacheItem" where
  "new_item instanceID nodeID = \<lparr>ci_masterInstanceID = instanceID, ci_versions = [], ci_used = 0, ci_access = 0,
     ci_from = nodeID, ci_times = []\<rparr>"

section \<open>Releasing streams\<close>

definition deleteStream :: "ObjectDataIStream \<Rightarrow> u64 \<Rightarrow> u64" where
  "deleteStream stream bytes = bytes - of_nat (is_getDataSize stream)"

definition releaseFirstStream :: "CacheItem \<times> u64 \<Rightarrow> CacheItem \<times> u64" where
  "releaseFirstStream = (\<lambda>(item, bytes).
     case ci_versions item of
       [] \<Rightarrow> (item, bytes)
     | s # ss \<Rightarrow> (item\<lparr>ci_versions := ss, ci_times := tl (ci_times item)\<rparr>, deleteStream s bytes))"

definition releaseStreams :: "CacheItem \<times> u64 \<Rightarrow> CacheItem \<times> u64" where
  "releaseStreams = (\<lambda>(item, bytes). (item\<lparr>ci_versions := [], ci_times := []\<rparr>, fold deleteStream (rev (ci_versions item)) bytes))"

fun release_older :: "int \<Rightarrow> ObjectDataIStream list \<Rightarrow> int list \<Rightarrow> u64 \<Rightarrow> ObjectDataIStream list \<times> int list \<times> u64" where
  "release_older minTime (s # ss) (t # ts) bytes =
     (if t \<le> minTime \<and> is_isReady s then release_older minTime ss ts (deleteStream s bytes) else (s # ss, t # ts, bytes))"
| "release_older minTime ss ts bytes = (ss, ts, bytes)"

definition releaseStreams_time :: "int \<Rightarrow> CacheItem \<times> u64 \<Rightarrow> CacheItem \<times> u64" where
  "releaseStreams_time minTime = (\<lambda>(item, bytes).
     case release_older minTime (ci_versions item) (ci_times item) bytes of
       (ss, ts, bytes1) \<Rightarrow> (item\<lparr>ci_versions := ss, ci_times := ts\<rparr>, bytes1))"

definition put_item :: "u128 \<Rightarrow> CacheItem \<times> u64 \<Rightarrow> InstanceCache \<Rightarrow> InstanceCache" where
  "put_item k = (\<lambda>(item, bytes) c. c\<lparr>ic_items := (ic_items c)(k \<mapsto> item), ic_size := bytes\<rparr>)"

definition erase_item :: "u128 \<Rightarrow> InstanceCache \<Rightarrow> InstanceCache" where
  "erase_item k c = c\<lparr>ic_items := (ic_items c)(k := None)\<rparr>"

definition evictable :: "u32 \<Rightarrow> CacheItem \<Rightarrow> bool" where
  "evictable minUsage item = (ci_access item = 0 \<and> minUsage \<le> ci_used item)"

text \<open>Both rounds stop as soon as the size is at the target. The first one collects the keys of the
  items it has released from; the flag tells whether one of them has streams left.\<close>

fun release_first_round ::
  "u32 \<Rightarrow> u64 \<Rightarrow> u128 list \<Rightarrow> bool \<times> u128 list \<times> InstanceCache \<Rightarrow> bool \<times> u128 list \<times> InstanceCache" where
  "release_first_round minUsage target [] acc = acc"
| "release_first_round minUsage target (k # ks) (streamsLeft, keys, c) =
     (if \<not> target < ic_size c then (streamsLeft, keys, c)
      else
        case ic_items c k of
          None \<Rightarrow> release_first_round minUsage target ks (streamsLeft, keys, c)
        | Some item \<Rightarrow>
            if evictable minUsage item then
              let (item1, bytes1) = releaseFirstStream (item, ic_size c)
              in release_first_round minUsage target ks
                   (streamsLeft \<or> ci_versions item1 \<noteq> [], keys @ [k], put_item k (item1, bytes1) c)
            else release_first_round minUsage target ks (streamsLeft, keys, c))"

fun release_round :: "u32 \<Rightarrow> u64 \<Rightarrow> u128 list \<Rightarrow> bool \<times> InstanceCache \<Rightarrow> bool \<times> InstanceCache" where
  "release_round minUsage target [] acc = acc"
| "release_round minUsage target (k # ks) (streamsLeft, c) =
     (if \<not> target < ic_size c then (streamsLeft, c)
      else
        case ic_items c k of
          None \<Rightarrow> release_round minUsage target ks (streamsLeft, c)
        | Some item \<Rightarrow>
            if ci_versions item \<noteq> [] \<and> evictable minUsage item then
              let (item1, bytes1) = releaseFirstStream (item, ic_size c)
              in release_round minUsage target ks (streamsLeft \<or> ci_versions item1 \<noteq> [], put_item k (item1, bytes1) c)
            else release_round minUsage target ks (streamsLeft, c))"

partial_function (option) release_rounds :: "u32 \<Rightarrow> u64 \<Rightarrow> u128 list \<Rightarrow> bool \<Rightarrow> InstanceCache \<Rightarrow> InstanceCache option" where
  "release_rounds minUsage target keys streamsLeft c =
     (if streamsLeft \<and> target < ic_size c then
        (case release_round minUsage target keys (False, c) of
           (left1, c1) \<Rightarrow> release_rounds minUsage target keys left1 c1)
      else Some c)"

definition erase_empty :: "u128 \<Rightarrow> InstanceCache \<Rightarrow> InstanceCache" where
  "erase_empty k c =
     (case ic_items c k of None \<Rightarrow> c | Some item \<Rightarrow> if ci_versions item = [] then erase_item k c else c)"

text \<open>The low-water mark is computed in single precision.\<close>

definition release_target :: "u64 \<Rightarrow> u64" where
  "release_target maxSize = of_int \<lfloor>fl32 (fl32 (of_nat (unat maxSize)) * fl32 (8 / 10))\<rfloor>"

definition releaseItems :: "((u128 \<rightharpoonup> CacheItem) \<Rightarrow> u128 list) \<Rightarrow> u32 \<Rightarrow> InstanceCache \<Rightarrow> InstanceCache option" where
  "releaseItems order minUsage c =
     (if ic_size c \<le> ic_maxSize c then Some c
      else
        let target = release_target (ic_maxSize c);
            (streamsLeft, keys, c1) = release_first_round minUsage target (order (ic_items c)) (False, [], c)
        in map_option (fold erase_empty keys) (release_rounds minUsage target keys streamsLeft c1))"

section \<open>Operations\<close>

definition add_stream :: "int \<Rightarrow> CacheItem \<Rightarrow> CacheItem" where
  "add_stream time item = item\<lparr>ci_versions := ci_versions item @ [new_istream], ci_times := ci_times item @ [time]\<rparr>"

text \<open>The item of the object, with a stream that awaits the packet; \<open>None\<close> if the packet is rejected.\<close>

definition prepare_item :: "int \<Rightarrow> u128 \<Rightarrow> u32 \<Rightarrow> NodeID \<Rightarrow> u32 \<Rightarrow> CacheItem \<times> u64 \<Rightarrow> (CacheItem \<times> u64) option" where
  "prepare_item time version instanceID nodeID usage = (\<lambda>(item, bytes).
     let other = (ci_masterInstanceID item \<noteq> instanceID \<or> ci_from item \<noteq> nodeID)
     in if other \<and> ci_access item \<noteq> 0 then None
     else
       let (item1, bytes1) = (if other then releaseStreams (item, bytes) else (item, bytes));
           item2 = (if other then item1\<lparr>ci_masterInstanceID := instanceID, ci_from := nodeID, ci_used := usage\<rparr>
                    else item1\<lparr>ci_used := max (ci_used item1) usage\<rparr>)
       in if ci_versions item2 = [] then Some (add_stream time item2, bytes1)
       else
         let previous = last (ci_versions item2); previousVersion = is_getPendingVersion previous
         in if previousVersion = version then (if is_isReady previous then None else Some (item2, bytes1))
         else if version < previousVersion then None
         else if previousVersion + 1 \<noteq> version then
           (if ci_access item2 \<noteq> 0 then None
            else let (item3, bytes3) = releaseStreams (item2, bytes1) in Some (add_stream time item3, bytes3))
         else Some (add_stream time item2, bytes1))"

text \<open>A packet of the same master that is rejected still updates the use count.\<close>

definition rejected_item :: "u32 \<Rightarrow> NodeID \<Rightarrow> u32 \<Rightarrow> CacheItem \<Rightarrow> CacheItem" where
  "rejected_item instanceID nodeID usage item =
     (if ci_masterInstanceID item \<noteq> instanceID \<or> ci_from item \<noteq> nodeID then item
      else item\<lparr>ci_used := max (ci_used item) usage\<rparr>)"

definition cache_add ::
  "((u128 \<rightharpoonup> CacheItem) \<Rightarrow> u128 list) \<Rightarrow> int \<Rightarrow> ObjectVersion \<Rightarrow> u32 \<Rightarrow> NodeID \<Rightarrow> ObjectDataPacket \<Rightarrow> u32 \<Rightarrow> InstanceCache
   \<Rightarrow> (bool \<times> InstanceCache) option" where
  "cache_add order time revision instanceID nodeID packet usage c =
     (let objectID = ov_identifier revision;
          item = (case ic_items c objectID of None \<Rightarrow> new_item instanceID nodeID | Some item \<Rightarrow> item)
      in case prepare_item time (ov_version revision) instanceID nodeID usage (item, ic_size c) of
           None \<Rightarrow> Some (False, put_item objectID (rejected_item instanceID nodeID usage item, ic_size c) c)
         | Some (item1, bytes1) \<Rightarrow>
             let stream = is_addDataPacket packet (last (ci_versions item1));
                 item2 = item1\<lparr>ci_versions := butlast (ci_versions item1) @ [stream]\<rparr>;
                 bytes2 = (if is_isReady stream then bytes1 + of_nat (is_getDataSize stream) else bytes1)
             in map_option (Pair True)
                  (Option.bind (releaseItems order 1 (put_item objectID (item2, bytes2) c)) (releaseItems order 0)))"

fun remove_loop :: "NodeID \<Rightarrow> u128 list \<Rightarrow> u128 list \<times> InstanceCache \<Rightarrow> u128 list \<times> InstanceCache" where
  "remove_loop nodeID [] acc = acc"
| "remove_loop nodeID (k # ks) (keys, c) =
     (case ic_items c k of
        None \<Rightarrow> remove_loop nodeID ks (keys, c)
      | Some item \<Rightarrow>
          if ci_from item \<noteq> nodeID \<or> ci_access item \<noteq> 0 then remove_loop nodeID ks (keys, c)
          else remove_loop nodeID ks (keys @ [k], put_item k (releaseStreams (item, ic_size c)) c))"

definition cache_remove :: "((u128 \<rightharpoonup> CacheItem) \<Rightarrow> u128 list) \<Rightarrow> NodeID \<Rightarrow> InstanceCache \<Rightarrow> InstanceCache" where
  "cache_remove order nodeID c =
     (case remove_loop nodeID (order (ic_items c)) ([], c) of (keys, c1) \<Rightarrow> fold erase_item keys c1)"

definition cache_lookup :: "u128 \<Rightarrow> InstanceCache \<Rightarrow> (u32 \<times> ObjectDataIStream list) option \<times> InstanceCache" where
  "cache_lookup objectID c =
     (case ic_items c objectID of
        None \<Rightarrow> (None, c)
      | Some item \<Rightarrow> (Some (ci_masterInstanceID item, ci_versions item),
          put_item objectID (item\<lparr>ci_access := ci_access item + 1, ci_used := ci_used item + 1\<rparr>, ic_size c) c))"

definition cache_release :: "((u128 \<rightharpoonup> CacheItem) \<Rightarrow> u128 list) \<Rightarrow> u128 \<Rightarrow> u32 \<Rightarrow> InstanceCache \<Rightarrow> (bool \<times> InstanceCache) option" where
  "cache_release order objectID count c =
     (case ic_items c objectID of
        None \<Rightarrow> Some (False, c)
      | Some item \<Rightarrow> map_option (Pair True)
          (releaseItems order 1 (put_item objectID (item\<lparr>ci_access := ci_access item - count\<rparr>, ic_size c) c)))"

definition cache_erase :: "u128 \<Rightarrow> InstanceCache \<Rightarrow> bool \<times> InstanceCache" where
  "cache_erase objectID c =
     (case ic_items c objectID of
        None \<Rightarrow> (False, c)
      | Some item \<Rightarrow>
          if ci_access item \<noteq> 0 then (False, c)
          else (True, erase_item objectID (put_item objectID (releaseStreams (item, ic_size c)) c)))"

fun expire_loop :: "int \<Rightarrow> u128 list \<Rightarrow> u128 list \<times> InstanceCache \<Rightarrow> u128 list \<times> InstanceCache" where
  "expire_loop time [] acc = acc"
| "expire_loop time (k # ks) (keys, c) =
     (case ic_items c k of
        None \<Rightarrow> expire_loop time ks (keys, c)
      | Some item \<Rightarrow>
          if ci_access item \<noteq> 0 then expire_loop time ks (keys, c)
          else
            let (item1, bytes1) = releaseStreams_time time (item, ic_size c)
            in expire_loop time ks (if ci_versions item1 = [] then keys @ [k] else keys, put_item k (item1, bytes1) c))"

definition cache_expire :: "((u128 \<rightharpoonup> CacheItem) \<Rightarrow> u128 list) \<Rightarrow> int \<Rightarrow> int \<Rightarrow> InstanceCache \<Rightarrow> InstanceCache" where
  "cache_expire order now timeout c =
     (let time = now - timeout
      in if time \<le> 0 then c
         else case expire_loop time (order (ic_items c)) ([], c) of (keys, c1) \<Rightarrow> fold erase_item keys c1)"

text \<open>A call of an operation.\<close>

datatype cache_call =
    Add int ObjectVersion u32 NodeID ObjectDataPacket u32
  | Remove NodeID
  | Lookup u128
  | Release u128 u32
  | Erase u128
  | Expire int int

fun cache_exec :: "((u128 \<rightharpoonup> CacheItem) \<Rightarrow> u128 list) \<Rightarrow> cache_call \<Rightarrow> InstanceCache \<Rightarrow> InstanceCache option" where
  "cache_exec order (Add time revision instanceID nodeID packet usage) c =
     map_option snd (cache_add order time revision instanceID nodeID packet usage c)"
| "cache_exec order (Remove nodeID) c = Some (cache_remove order nodeID c)"
| "cache_exec order (Lookup objectID) c = Some (snd (cache_lookup objectID c))"
| "cache_exec order (Release objectID count) c = map_option snd (cache_release order objectID count c)"
| "cache_exec order (Erase objectID) c = Some (snd (cache_erase objectID c))"
| "cache_exec order (Expire now timeout) c = Some (cache_expire order now timeout c)"

fun cache_run :: "((u128 \<rightharpoonup> CacheItem) \<Rightarrow> u128 list) \<Rightarrow> cache_call list \<Rightarrow> InstanceCache \<Rightarrow> InstanceCache option" where
  "cache_run order [] c = Some c"
| "cache_run order (x # xs) c = Option.bind (cache_exec order x c) (cache_run order xs)"

end
