(* ===== verification/Cache_Accounting.thy ===== *)
theory Cache_Accounting
  imports Instance_Cache
begin

text \<open>
  The bookkeeping of the instance cache: releasing always ends, data that is in use stays, and the
  size is that of the streams held as long as no incomplete stream is released.
\<close>

section \<open>Releasing ends\<close>

definition enumerates :: "((u128 \<rightharpoonup> CacheItem) \<Rightarrow> u128 list) \<Rightarrow> bool" where
  "enumerates order = (\<forall>m. set (order m) = dom m \<and> distinct (order m))"

definition stream_count :: "InstanceCache \<Rightarrow> u128 \<Rightarrow> nat" where
  "stream_count c k = (case ic_items c k of None \<Rightarrow> 0 | Some item \<Rightarrow> length (ci_versions item))"

lemma put_item_simps [simp]:
  "ic_items (put_item k (item, n) c) = (ic_items c)(k \<mapsto> item)" "ic_size (put_item k (item, n) c) = n"
  "ic_maxSize (put_item k (item, n) c) = ic_maxSize c"
  by (simp_all add: put_item_def)

lemma erase_item_simps [simp]:
  "ic_items (erase_item k c) = (ic_items c)(k := None)" "ic_size (erase_item k c) = ic_size c" "ic_maxSize (erase_item k c) = ic_maxSize c"
  by (simp_all add: erase_item_def)

text \<open>One release, and the rounds in terms of it.\<close>

definition candidate :: "u32 \<Rightarrow> InstanceCache \<Rightarrow> u128 \<Rightarrow> bool" where
  "candidate minUsage c k = (\<exists>item. ic_items c k = Some item \<and> ci_versions item \<noteq> [] \<and> evictable minUsage item)"

definition has_candidate :: "u32 \<Rightarrow> u128 list \<Rightarrow> InstanceCache \<Rightarrow> bool" where
  "has_candidate minUsage keys c = (\<exists>k \<in> set keys. candidate minUsage c k)"

definition drop_first :: "u128 \<Rightarrow> InstanceCache \<Rightarrow> InstanceCache" where
  "drop_first k c = put_item k (releaseFirstStream (the (ic_items c k), ic_size c)) c"

definition stream_left :: "InstanceCache \<Rightarrow> u128 \<Rightarrow> bool" where
  "stream_left c k = (ci_versions (the (ic_items c k)) \<noteq> [])"

lemma drop_first_items:
  assumes "candidate u c k"
  obtains item s ss where "ic_items c k = Some item" "ci_versions item = s # ss" "evictable u item"
    "ic_items (drop_first k c) = (ic_items c)(k \<mapsto> item\<lparr>ci_versions := ss, ci_times := tl (ci_times item)\<rparr>)"
    "ic_size (drop_first k c) = deleteStream s (ic_size c)" "ic_maxSize (drop_first k c) = ic_maxSize c"
  using assms by (auto simp: candidate_def drop_first_def releaseFirstStream_def neq_Nil_conv)

lemma round_Cons:
  "release_round u target (k # ks) (left, c) =
     (if target < ic_size c then
        if candidate u c k then release_round u target ks (left \<or> stream_left (drop_first k c) k, drop_first k c)
        else release_round u target ks (left, c)
      else (left, c))"
  by (auto simp: candidate_def drop_first_def stream_left_def put_item_def Let_def split: option.splits prod.splits)

declare release_round.simps(2) [simp del]

lemma candidate_left: "candidate u c k \<Longrightarrow> stream_left (drop_first k c) k \<Longrightarrow> candidate u (drop_first k c) k"
  by (erule drop_first_items) (simp add: candidate_def stream_left_def evictable_def)

lemma candidate_count: "candidate u c k \<Longrightarrow> stream_count (drop_first k c) k < stream_count c k"
  by (erule drop_first_items) (simp add: stream_count_def)

lemma drop_first_other: "candidate u c k \<Longrightarrow> j \<noteq> k \<Longrightarrow> ic_items (drop_first k c) j = ic_items c j"
  by (erule drop_first_items) simp

lemma candidate_cong: "ic_items c1 k = ic_items c k \<Longrightarrow> candidate u c1 k = candidate u c k"
  by (simp add: candidate_def)

text \<open>A round keeps the candidates that it reports, and releases at least one stream if it finds one.\<close>

lemma round_other: "k \<notin> set ks \<Longrightarrow> ic_items (snd (release_round u target ks (left, c))) k = ic_items c k"
  by (induction ks arbitrary: left c) (auto simp: round_Cons drop_first_other)

lemma round_left:
  "distinct ks \<Longrightarrow> fst (release_round u target ks (left, c)) \<Longrightarrow>
    left \<or> (\<exists>k \<in> set ks. candidate u (snd (release_round u target ks (left, c))) k)"
proof (induction ks arbitrary: left c)
  case (Cons k ks)
  show ?case
  proof (cases "target < ic_size c \<and> candidate u c k")
    case True
    let ?r = "release_round u target ks (left \<or> stream_left (drop_first k c) k, drop_first k c)"
    have e: "release_round u target (k # ks) (left, c) = ?r" using True by (simp add: round_Cons)
    have "ic_items (snd ?r) k = ic_items (drop_first k c) k" using Cons.prems(1) by (simp add: round_other)
    then have "candidate u (snd ?r) k = candidate u (drop_first k c) k" by (rule candidate_cong)
    then have "stream_left (drop_first k c) k \<Longrightarrow> candidate u (snd ?r) k" using candidate_left [of u c k] True by blast
    moreover have "(left \<or> stream_left (drop_first k c) k) \<or> (\<exists>k \<in> set ks. candidate u (snd ?r) k)"
      by (rule Cons.IH) (use Cons.prems e in simp_all)
    ultimately have "left \<or> candidate u (snd ?r) k \<or> (\<exists>k \<in> set ks. candidate u (snd ?r) k)" by argo
    then show ?thesis unfolding e by simp
  next
    case False
    show ?thesis
    proof (cases "target < ic_size c")
      case True
      with False have e: "release_round u target (k # ks) (left, c) = release_round u target ks (left, c)" by (simp add: round_Cons)
      show ?thesis using Cons.IH [of left c] Cons.prems unfolding e by auto
    next
      case False
      with Cons.prems(2) show ?thesis by (simp add: round_Cons)
    qed
  qed
qed simp

lemma drop_count_le: "candidate u c k \<Longrightarrow> stream_count (drop_first k c) j \<le> stream_count c j"
  using candidate_count [of u c k] drop_first_other [of u c k j] by (cases "j = k") (auto simp: stream_count_def)

lemma round_count_le: "stream_count (snd (release_round u target ks (left, c))) k \<le> stream_count c k"
  by (induction ks arbitrary: left c) (auto simp: round_Cons intro: order_trans [OF _ drop_count_le])

lemma round_progress:
  assumes "\<exists>k \<in> set ks. candidate u c k" "target < ic_size c"
  shows "\<exists>k \<in> set ks. stream_count (snd (release_round u target ks (left, c))) k < stream_count c k"
  using assms
proof (induction ks arbitrary: left c)
  case (Cons k ks)
  show ?case
  proof (cases "candidate u c k")
    case True
    then have "stream_count (snd (release_round u target ks (l, drop_first k c))) k < stream_count c k" for l
      by (intro le_less_trans [OF round_count_le candidate_count])
    with True Cons.prems(2) show ?thesis by (simp add: round_Cons)
  next
    case False
    with Cons show ?thesis by (auto simp: round_Cons)
  qed
qed simp

lemma release_rounds_returns:
  assumes "distinct keys" "streamsLeft \<longrightarrow> has_candidate u keys c"
  shows "\<exists>c1. release_rounds u target keys streamsLeft c = Some c1"
  using assms(2)
proof (induction "\<Sum>k \<in> UNIV. stream_count c k" arbitrary: streamsLeft c rule: less_induct)
  case less
  show ?case
  proof (cases "streamsLeft \<and> target < ic_size c")
    case True
    obtain left1 c1 where r: "release_round u target keys (False, c) = (left1, c1)" by fastforce
    have "\<exists>k \<in> UNIV. stream_count c1 k < stream_count c k"
      using round_progress [of keys u c target False] True less.prems r by (auto simp: has_candidate_def)
    moreover have "\<forall>k \<in> UNIV. stream_count c1 k \<le> stream_count c k"
      using round_count_le [of u target keys False c] r by simp
    ultimately have "(\<Sum>k \<in> UNIV. stream_count c1 k) < (\<Sum>k \<in> UNIV. stream_count c k)" by (intro sum_strict_mono_ex1) simp_all
    moreover have "left1 \<longrightarrow> has_candidate u keys c1" using round_left [OF assms(1), of u target False c] r by (auto simp: has_candidate_def)
    ultimately have "\<exists>c2. release_rounds u target keys left1 c1 = Some c2" by (rule less.hyps)
    with True r show ?thesis by (subst release_rounds.simps) simp
  next
    case False
    then show ?thesis by (subst release_rounds.simps) auto
  qed
qed

definition evict :: "u32 \<Rightarrow> InstanceCache \<Rightarrow> u128 \<Rightarrow> bool" where
  "evict minUsage c k = (\<exists>item. ic_items c k = Some item \<and> evictable minUsage item)"

lemma first_round_Cons:
  "release_first_round u target (k # ks) (left, keys, c) =
     (if target < ic_size c then
        if evict u c k then release_first_round u target ks (left \<or> stream_left (drop_first k c) k, keys @ [k], drop_first k c)
        else release_first_round u target ks (left, keys, c)
      else (left, keys, c))"
  by (auto simp: evict_def drop_first_def stream_left_def put_item_def Let_def split: option.splits prod.splits)

declare release_first_round.simps(2) [simp del]

lemma evict_candidate: "evict u c k \<Longrightarrow> candidate u c k \<or> drop_first k c = c"
  by (auto simp: evict_def candidate_def drop_first_def releaseFirstStream_def put_item_def fun_upd_idem split: list.split)

lemma first_round_rule:
  assumes "\<And>c k. P c \<Longrightarrow> candidate u c k \<Longrightarrow> P (drop_first k c)"
    and "distinct (keys @ ks)" "left \<longrightarrow> has_candidate u keys c" "P c"
    and "release_first_round u target ks (left, keys, c) = (left1, keys1, c1)"
  shows "distinct keys1 \<and> (left1 \<longrightarrow> has_candidate u keys1 c1) \<and> P c1"
  using assms(2-5)
proof (induction ks arbitrary: left keys c)
  case (Cons k ks)
  show ?case
  proof (cases "target < ic_size c \<and> evict u c k")
    case True
    let ?c = "drop_first k c"
    have r: "release_first_round u target ks (left \<or> stream_left ?c k, keys @ [k], ?c) = (left1, keys1, c1)"
      using Cons.prems(4) True by (simp add: first_round_Cons)
    have "candidate u c k \<or> ?c = c" using True evict_candidate by blast
    then have p: "P ?c" using assms(1) Cons.prems(3) by auto
    have "candidate u ?c j" if "candidate u c j" "j \<in> set keys" for j
      using that Cons.prems(1) drop_first_other [of u c k j] \<open>candidate u c k \<or> ?c = c\<close> candidate_cong [of ?c j c u] by auto
    moreover have "candidate u ?c k" if "stream_left ?c k"
      using that True \<open>candidate u c k \<or> ?c = c\<close> candidate_left [of u c k] by (auto simp: stream_left_def evict_def candidate_def)
    ultimately have "left \<or> stream_left ?c k \<longrightarrow> has_candidate u (keys @ [k]) ?c" using Cons.prems(2) by (auto simp: has_candidate_def)
    with Cons.IH [OF _ _ p r] Cons.prems(1) show ?thesis by simp
  next
    case False
    show ?thesis
    proof (cases "target < ic_size c")
      case True
      with False Cons.prems(4) have "release_first_round u target ks (left, keys, c) = (left1, keys1, c1)" by (simp add: first_round_Cons)
      from Cons.IH [OF _ Cons.prems(2,3) this] Cons.prems(1) show ?thesis by simp
    next
      case False
      with Cons.prems show ?thesis by (simp add: first_round_Cons)
    qed
  qed
qed simp

lemma round_rule:
  assumes "\<And>c k. P c \<Longrightarrow> candidate u c k \<Longrightarrow> P (drop_first k c)"
  shows "P c \<Longrightarrow> P (snd (release_round u target ks (left, c)))"
  by (induction ks arbitrary: left c) (simp_all add: round_Cons assms)

lemma rounds_rule:
  assumes "\<And>c k. P c \<Longrightarrow> candidate u c k \<Longrightarrow> P (drop_first k c)" "release_rounds u target keys left c = Some c1" "P c"
  shows "P c1"
proof -
  have "u = u \<longrightarrow> P c \<longrightarrow> P c1"
  proof (rule release_rounds.raw_induct [where P = "\<lambda>u' t' keys' left c c1. u' = u \<longrightarrow> P c \<longrightarrow> P c1", OF _ assms(2)], intro impI)
    fix f u' t' keys' left c c1
    assume IH: "\<And>u' t' keys' left c c1. f u' t' keys' left c = Some c1 \<Longrightarrow> u' = u \<longrightarrow> P c \<longrightarrow> P c1"
      and f: "(if left \<and> t' < ic_size c then case release_round u' t' keys' (False, c) of (l, c') \<Rightarrow> f u' t' keys' l c' else Some c) = Some c1"
      and u: "u' = u" and p: "P c"
    from round_rule [of P u c t' keys' False, OF assms(1) p] f IH u p show "P c1" by (auto split: if_splits prod.splits)
  qed
  with assms(3) show ?thesis by simp
qed

text \<open>Releasing returns, and keeps what the release of one stream and the removal of empty items keep.\<close>

lemma releaseItems_rule:
  assumes "enumerates order" "P c" "\<And>c k. P c \<Longrightarrow> candidate u c k \<Longrightarrow> P (drop_first k c)" "\<And>c k. P c \<Longrightarrow> P (erase_empty k c)"
  shows "\<exists>c1. releaseItems order u c = Some c1 \<and> P c1"
proof (cases "ic_size c \<le> ic_maxSize c")
  case True
  then show ?thesis using assms(2) by (simp add: releaseItems_def)
next
  case False
  let ?t = "release_target (ic_maxSize c)"
  obtain left keys c1 where r: "release_first_round u ?t (order (ic_items c)) (False, [], c) = (left, keys, c1)"
    using prod_cases3 by blast
  have "distinct keys" "left \<longrightarrow> has_candidate u keys c1" "P c1"
    using first_round_rule [of P u "[]" "order (ic_items c)" False c, OF assms(3) _ _ assms(2) r] assms(1) by (auto simp: enumerates_def)
  moreover from release_rounds_returns [OF this(1,2)] obtain c2 where c2: "release_rounds u ?t keys left c1 = Some c2" by blast
  ultimately have "P c2" using rounds_rule [of P u, OF assms(3) c2] by blast
  moreover have "P c2 \<Longrightarrow> P (fold erase_empty ks c2)" for ks by (induction ks arbitrary: c2) (simp_all add: assms(4))
  ultimately show ?thesis using False r c2 by (simp add: releaseItems_def Let_def)
qed

section \<open>What releasing achieves\<close>

text \<open>Releasing only stops above the target when there is nothing left to release.\<close>

lemma round_none:
  "distinct ks \<Longrightarrow> \<not> fst (release_round u target ks (left, c)) \<Longrightarrow> target < ic_size (snd (release_round u target ks (left, c))) \<Longrightarrow>
    \<not> left \<and> (\<forall>k \<in> set ks. \<not> candidate u (snd (release_round u target ks (left, c))) k)"
proof (induction ks arbitrary: left c)
  case (Cons k ks)
  have t: "target < ic_size c" using Cons.prems(3) by (auto simp: round_Cons split: if_splits)
  show ?case
  proof (cases "candidate u c k")
    case True
    let ?left = "left \<or> stream_left (drop_first k c) k" and ?c = "drop_first k c"
    let ?r = "release_round u target ks (?left, ?c)"
    have e: "release_round u target (k # ks) (left, c) = ?r" using True t by (simp add: round_Cons)
    have IH: "\<not> ?left \<and> (\<forall>k \<in> set ks. \<not> candidate u (snd ?r) k)" using Cons.prems unfolding e by (intro Cons.IH) simp_all
    have "candidate u (snd ?r) k = candidate u ?c k" by (rule candidate_cong) (use Cons.prems(1) in \<open>simp add: round_other\<close>)
    with IH show ?thesis unfolding e by (auto simp: candidate_def stream_left_def)
  next
    case False
    let ?r = "release_round u target ks (left, c)"
    have e: "release_round u target (k # ks) (left, c) = ?r" using False t by (simp add: round_Cons)
    have IH: "\<not> left \<and> (\<forall>k \<in> set ks. \<not> candidate u (snd ?r) k)" using Cons.prems unfolding e by (intro Cons.IH) simp_all
    have "candidate u (snd ?r) k = candidate u c k" by (rule candidate_cong) (use Cons.prems(1) in \<open>simp add: round_other\<close>)
    with IH False show ?thesis unfolding e by (metis set_ConsD)
  qed
qed simp

lemma rounds_done:
  assumes "release_rounds u target keys left c = Some c1" "distinct keys" "\<not> left \<longrightarrow> target < ic_size c \<longrightarrow> \<not> has_candidate u keys c"
  shows "target < ic_size c1 \<longrightarrow> \<not> has_candidate u keys c1"
proof -
  let ?Q = "\<lambda>u' t keys' left c c1. distinct keys' \<longrightarrow> (\<not> left \<longrightarrow> t < ic_size c \<longrightarrow> \<not> has_candidate u' keys' c) \<longrightarrow>
    t < ic_size c1 \<longrightarrow> \<not> has_candidate u' keys' c1"
  have "?Q u target keys left c c1"
  proof (rule release_rounds.raw_induct [where P = ?Q, OF _ assms(1)], intro impI)
    fix f u' t keys' left c c1
    assume IH: "\<And>u' t keys' left c c1. f u' t keys' left c = Some c1 \<Longrightarrow> ?Q u' t keys' left c c1"
      and f: "(if left \<and> t < ic_size c then case release_round u' t keys' (False, c) of (l, c') \<Rightarrow> f u' t keys' l c' else Some c) = Some c1"
      and d: "distinct keys'" and n: "\<not> left \<longrightarrow> t < ic_size c \<longrightarrow> \<not> has_candidate u' keys' c" and t: "t < ic_size c1"
    show "\<not> has_candidate u' keys' c1"
    proof (cases "left \<and> t < ic_size c")
      case True
      obtain l c2 where r: "release_round u' t keys' (False, c) = (l, c2)" by fastforce
      from round_none [OF d, of u' t False c] r have "\<not> l \<longrightarrow> t < ic_size c2 \<longrightarrow> \<not> has_candidate u' keys' c2" by (auto simp: has_candidate_def)
      with IH [of u' t keys' l c2 c1] f True r d t show ?thesis by simp
    next
      case False
      with f n t show ?thesis by auto
    qed
  qed
  with assms(2,3) show ?thesis by simp
qed

lemma first_round_done:
  "distinct (keys @ ks) \<Longrightarrow> \<not> left \<longrightarrow> \<not> has_candidate u keys c \<Longrightarrow> (\<forall>k. candidate u c k \<longrightarrow> k \<in> set keys \<union> set ks) \<Longrightarrow>
    release_first_round u target ks (left, keys, c) = (left1, keys1, c1) \<Longrightarrow> target < ic_size c1 \<Longrightarrow>
    (\<not> left1 \<longrightarrow> \<not> has_candidate u keys1 c1) \<and> (\<forall>k. candidate u c1 k \<longrightarrow> k \<in> set keys1)"
proof (induction ks arbitrary: left keys c)
  case (Cons k ks)
  have t: "target < ic_size c" using Cons.prems(4,5) by (auto simp: first_round_Cons split: if_splits)
  show ?case
  proof (cases "evict u c k")
    case True
    let ?c = "drop_first k c"
    have s: "candidate u c k \<or> ?c = c" using True by (rule evict_candidate)
    have o: "candidate u ?c j = candidate u c j" if "j \<noteq> k" for j
      using s that drop_first_other [of u c k j] by (intro candidate_cong) auto
    have n: "stream_left ?c k" if "candidate u ?c k" using that by (auto simp: candidate_def stream_left_def)
    show ?thesis
    proof (rule Cons.IH [of "keys @ [k]" "left \<or> stream_left ?c k" ?c])
      show "\<not> (left \<or> stream_left ?c k) \<longrightarrow> \<not> has_candidate u (keys @ [k]) ?c"
      proof -
        have "k \<notin> set keys" using Cons.prems(1) by simp
        then have "candidate u ?c j = candidate u c j" if "j \<in> set keys" for j using o [of j] that by blast
        then show ?thesis using Cons.prems(2) n by (auto simp: has_candidate_def)
      qed
      show "\<forall>j. candidate u ?c j \<longrightarrow> j \<in> set (keys @ [k]) \<union> set ks" using Cons.prems(3) o by auto
    qed (use Cons.prems(1,4,5) True t in \<open>simp_all add: first_round_Cons\<close>)
  next
    case False
    then have "\<not> candidate u c k" by (auto simp: evict_def candidate_def)
    then have "\<forall>j. candidate u c j \<longrightarrow> j \<in> set keys \<union> set ks" using Cons.prems(3) by auto
    with Cons.IH [of keys left c] Cons.prems False t show ?thesis by (simp add: first_round_Cons)
  qed
qed simp

lemma erase_empty_candidate: "candidate u (erase_empty j c) k \<Longrightarrow> candidate u c k"
  by (auto simp: candidate_def erase_empty_def split: option.splits if_splits)

lemma erase_empty_size [simp]: "ic_size (erase_empty k c) = ic_size c" "ic_maxSize (erase_empty k c) = ic_maxSize c"
  by (simp_all add: erase_empty_def split: option.split)

lemma erase_empties: "ic_size (fold erase_empty ks c) = ic_size c" "candidate u (fold erase_empty ks c) k \<Longrightarrow> candidate u c k"
  by (induction ks arbitrary: c) (auto dest: erase_empty_candidate)

lemma releaseItems_done:
  assumes "enumerates order" "releaseItems order u c = Some c1" "release_target (ic_maxSize c) \<le> ic_maxSize c"
  shows "ic_size c1 \<le> ic_maxSize c \<or> (\<forall>k. \<not> candidate u c1 k)"
proof (cases "ic_size c \<le> ic_maxSize c")
  case True
  then show ?thesis using assms(2) by (simp add: releaseItems_def)
next
  case False
  let ?t = "release_target (ic_maxSize c)"
  obtain left keys c2 where r: "release_first_round u ?t (order (ic_items c)) (False, [], c) = (left, keys, c2)"
    using prod_cases3 by blast
  obtain c3 where c3: "release_rounds u ?t keys left c2 = Some c3" "c1 = fold erase_empty keys c3"
    using assms(2) False r by (auto simp: releaseItems_def Let_def)
  have o: "distinct ([] @ order (ic_items c))" "\<forall>k. candidate u c k \<longrightarrow> k \<in> set [] \<union> set (order (ic_items c))"
    using assms(1) by (auto simp: enumerates_def candidate_def)
  have d: "distinct keys" using first_round_rule [of "\<lambda>_. True" u "[]" "order (ic_items c)" False c, OF _ o(1) _ _ r] by simp
  have f: "(\<not> left \<longrightarrow> \<not> has_candidate u keys c2) \<and> (\<forall>k. candidate u c2 k \<longrightarrow> k \<in> set keys)" if "?t < ic_size c2"
    using first_round_done [OF o(1) _ o(2) r that] by (simp add: has_candidate_def)
  have c: "candidate u (drop_first j c) k \<Longrightarrow> candidate u c j \<Longrightarrow> candidate u c k" for j c k
    using candidate_cong [OF drop_first_other [of u c j k]] by blast
  have "\<not> candidate u c1 k" if t: "?t < ic_size c1" for k
  proof
    assume k: "candidate u c1 k"
    have t3: "?t < ic_size c3" and k3: "candidate u c3 k" using t k by (auto simp: c3(2) erase_empties(1) dest: erase_empties(2))
    then have t2: "?t < ic_size c2" using c3(1) by (subst (asm) release_rounds.simps) (auto split: if_splits)
    have "\<not> has_candidate u keys c3" using rounds_done [OF c3(1) d] f t2 t3 by blast
    moreover have "\<forall>k. candidate u c3 k \<longrightarrow> k \<in> set keys"
      using rounds_rule [of "\<lambda>c. \<forall>k. candidate u c k \<longrightarrow> k \<in> set keys" u, OF _ c3(1)] c f [OF t2] by blast
    ultimately show False using k3 by (auto simp: has_candidate_def)
  qed
  then show ?thesis using assms(3) by (meson linorder_not_less order_trans)
qed

lemma of_int_word_le: "0 \<le> z \<Longrightarrow> z \<le> uint (m :: u64) \<Longrightarrow> of_int z \<le> m"
  unfolding word_le_def by (simp add: unsigned_of_int order_trans [OF take_bit_int_less_eq_self_iff [THEN iffD2]])

lemma release_target_le: "release_target m \<le> m"
proof -
  define x where "x = (of_nat (unat m) :: rat)"
  have x: "0 \<le> x" unfolding x_def by (rule of_nat_0_le_iff)
  have a: "\<bar>fl32 x - x\<bar> \<le> x / 2 ^ 24" "\<bar>fl32 (8 / 10) - 8 / 10\<bar> \<le> (8 / 10 :: rat) / 2 ^ 24"
    using fl32_error [OF x] fl32_error [of "8 / 10"] by simp_all
  have b: "fl32 x \<le> x * (1 + 1 / 2 ^ 24)" "fl32 (8 / 10) \<le> 81 / 100"
    using a [THEN abs_le_D1] by (simp_all add: field_simps)
  have p: "0 \<le> fl32 x" "0 \<le> fl32 (8 / 10)" by (simp_all add: fl32_nonneg x)
  let ?y = "fl32 x * fl32 (8 / 10)"
  have y: "0 \<le> ?y" using p by (rule mult_nonneg_nonneg)
  have y2: "?y \<le> x * (1 + 1 / 2 ^ 24) * (81 / 100)" by (rule mult_mono [OF b]) (use p x in simp_all)
  have "fl32 ?y \<le> ?y * (1 + 1 / 2 ^ 24)" using abs_le_D1 [OF fl32_error [OF y]] by (simp add: distrib_left)
  also have "\<dots> \<le> x * (1 + 1 / 2 ^ 24) * (81 / 100) * (1 + 1 / 2 ^ 24)" using y2 by (rule mult_right_mono) simp
  also have "\<dots> = x * ((1 + 1 / 2 ^ 24) * (81 / 100) * (1 + 1 / 2 ^ 24))" by (simp only: mult.assoc)
  also have "\<dots> \<le> x * 1" by (rule mult_left_mono) (simp_all add: x)
  finally have "fl32 ?y \<le> x" by simp
  then have "\<lfloor>fl32 ?y\<rfloor> \<le> int (unat m)" by (simp add: x_def floor_le_iff)
  moreover have "0 \<le> \<lfloor>fl32 ?y\<rfloor>" using fl32_nonneg [OF y] by simp
  ultimately show ?thesis unfolding release_target_def x_def
    by (intro of_int_word_le) simp_all
qed

end
