(* ===== verification/Object_Store.thy ===== *)
theory Object_Store
  imports Object_Master Object_Slave Cache_Accounting
begin

text \<open>
  The object store of a node (\<open>libs/co/objectStore.cpp\<close>) and the distributed objects it manages
  (\<open>object.cpp\<close>): attaching and detaching, mapping with the help of the instance cache, registering,
  the dispatch of commands to objects, and the handlers of the node commands.

  Objects are addresses into a heap. A local command that its sender waits for is executed in place.
  Identifiers of requests are chosen by the local node and are arguments. What is sent to other nodes
  is appended to \<open>st_out\<close>, what requests are served with to \<open>st_served\<close>. An operation that would not
  return is \<open>None\<close>. The value of \<open>LB_MAX_UINT32\<close> and the test for generated identifiers belong to the
  base library and are fields of the configuration.
\<close>

section \<open>Objects and their change managers\<close>

datatype ChangeType = TYPE_NONE | TYPE_STATIC | TYPE_INSTANCE | TYPE_DELTA | TYPE_UNBUFFERED

datatype 'o ChangeManager =
    NullCM
  | StaticMasterCM MasterCM
  | StaticSlaveCM ObjectDataIStream
  | VersionedMasterCM ChangeType MasterCM DataIStreamQueue
  | VersionedSlaveCM u32 "NodeID option" "'o SlaveCM"

text \<open>The last five fields are what the application provides: its type, limits, compressor, what it writes.\<close>

record 'o Object =
  ob_id :: u128
  ob_instanceID :: u32
  ob_cm :: "'o ChangeManager"
  ob_content :: 'o
  ob_changeType :: ChangeType
  ob_maxVersions :: u64
  ob_compressor :: Compressor
  ob_bufferSize :: nat
  ob_instanceData :: "u8 list list"

fun isMaster :: "'o ChangeManager \<Rightarrow> bool" where
  "isMaster (StaticMasterCM cm) = True"
| "isMaster (VersionedMasterCM type cm q) = True"
| "isMaster _ = False"

fun getMasterNode :: "'o ChangeManager \<Rightarrow> NodeID option" where
  "getMasterNode (VersionedSlaveCM inst master cm) = master"
| "getMasterNode _ = None"

fun getMasterInstanceID :: "'o ChangeManager \<Rightarrow> u32" where
  "getMasterInstanceID (VersionedSlaveCM inst master cm) = inst"
| "getMasterInstanceID _ = EQ_INSTANCE_INVALID"

fun setMasterNode :: "NodeID \<Rightarrow> 'o ChangeManager \<Rightarrow> 'o ChangeManager" where
  "setMasterNode node (VersionedSlaveCM inst master cm) = VersionedSlaveCM inst (Some node) cm"
| "setMasterNode node cm = cm"

fun getSlaveNodes :: "'o ChangeManager \<Rightarrow> NodeID list" where
  "getSlaveNodes (VersionedMasterCM type cm q) = mc_slaves cm"
| "getSlaveNodes _ = []"

fun cm_removeSlave :: "NodeID \<Rightarrow> u32 \<Rightarrow> 'o ChangeManager \<Rightarrow> 'o ChangeManager" where
  "cm_removeSlave node instanceID (VersionedMasterCM type cm q) = VersionedMasterCM type (removeSlave node instanceID cm) q"
| "cm_removeSlave node instanceID cm = cm"

fun cm_removeSlaves :: "NodeID \<Rightarrow> 'o ChangeManager \<Rightarrow> 'o ChangeManager" where
  "cm_removeSlaves node (VersionedMasterCM type cm q) = VersionedMasterCM type (removeSlaves node cm) q"
| "cm_removeSlaves node cm = cm"

fun cm_addInstanceDatas :: "ObjectDataIStream list \<Rightarrow> u128 \<Rightarrow> 'o ChangeManager \<Rightarrow> 'o ChangeManager" where
  "cm_addInstanceDatas cache version (VersionedSlaveCM inst master cm) = VersionedSlaveCM inst master (slave_addInstanceDatas cache version cm)"
| "cm_addInstanceDatas cache version (StaticSlaveCM is) = StaticSlaveCM (static_addInstanceDatas cache is)"
| "cm_addInstanceDatas cache version cm = cm"

definition isAttached :: "'o Object \<Rightarrow> bool" where
  "isAttached ob = (ob_instanceID ob \<noteq> EQ_INSTANCE_INVALID)"

text \<open>Masters read their instance identifier from the object when they send; here it is copied on attaching.\<close>

fun set_instance :: "u32 \<Rightarrow> 'o ChangeManager \<Rightarrow> 'o ChangeManager" where
  "set_instance inst (StaticMasterCM cm) = StaticMasterCM (cm\<lparr>mc_instanceID := inst\<rparr>)"
| "set_instance inst (VersionedMasterCM type cm q) = VersionedMasterCM type
     (cm\<lparr>mc_instanceID := inst, mc_deltaData := (mc_deltaData cm)\<lparr>os_masterInstanceID := inst\<rparr>,
        mc_instanceDatas := map (\<lambda>d. d\<lparr>id_os := (id_os d)\<lparr>os_masterInstanceID := inst\<rparr>\<rparr>) (mc_instanceDatas cm)\<rparr>) q"
| "set_instance inst cm = cm"

definition object_attach :: "u128 \<Rightarrow> u32 \<Rightarrow> 'o Object \<Rightarrow> 'o Object" where
  "object_attach identifier inst ob = ob\<lparr>ob_id := identifier, ob_instanceID := inst, ob_cm := set_instance inst (ob_cm ob)\<rparr>"

definition object_detach :: "'o Object \<Rightarrow> 'o Object" where
  "object_detach ob = ob\<lparr>ob_instanceID := EQ_INSTANCE_INVALID\<rparr>"

definition object_transfer :: "'o Object \<Rightarrow> 'o Object \<Rightarrow> 'o Object \<times> 'o Object" where
  "object_transfer source ob =
     (ob\<lparr>ob_id := ob_id source, ob_instanceID := ob_instanceID source, ob_cm := ob_cm source\<rparr>,
      source\<lparr>ob_cm := NullCM, ob_instanceID := EQ_INSTANCE_INVALID\<rparr>)"

definition setupChangeManager :: "ChangeType \<Rightarrow> bool \<Rightarrow> u32 \<Rightarrow> 'o Object \<Rightarrow> 'o Object" where
  "setupChangeManager type master masterInstanceID ob = ob\<lparr>ob_cm :=
     (case type of
        TYPE_NONE \<Rightarrow> NullCM
      | TYPE_STATIC \<Rightarrow> if master then StaticMasterCM (new_master (ob_instanceID ob)) else StaticSlaveCM new_istream
      | TYPE_UNBUFFERED \<Rightarrow>
          if master then VersionedMasterCM type ((new_master (ob_instanceID ob))\<lparr>mc_version := VERSION_FIRST\<rparr>) dq_empty
          else VersionedSlaveCM masterInstanceID None (new_slave (ob_maxVersions ob) (ob_content ob))
      | _ \<Rightarrow>
          if master then VersionedMasterCM type
            (fm_init (ob_compressor ob) (ob_bufferSize ob) (ob_instanceData ob) (new_master (ob_instanceID ob))) dq_empty
          else VersionedSlaveCM masterInstanceID None (new_slave (ob_maxVersions ob) (ob_content ob)))\<rparr>"

definition object_addSlave :: "NodeID \<Rightarrow> MapRequest \<Rightarrow> 'o Object \<Rightarrow> 'o Object" where
  "object_addSlave node packet ob = ob\<lparr>ob_cm :=
     (case ob_cm ob of
        StaticMasterCM cm \<Rightarrow> StaticMasterCM
          (cm_addSlave (cm_initSlave (ob_compressor ob) (ob_bufferSize ob) (ob_instanceData ob)) node packet VERSION_FIRST cm)
      | VersionedMasterCM type cm q \<Rightarrow> VersionedMasterCM type
          (addSlave (if type = TYPE_UNBUFFERED then cm_initSlave (ob_compressor ob) (ob_bufferSize ob) (ob_instanceData ob)
                     else fm_initSlave (ob_compressor ob)) node packet cm) q
      | cm \<Rightarrow> cm)\<rparr>"

text \<open>The commands that change managers handle.\<close>

datatype ObjectCommand =
    OBJECT_DATA_CMD ObjectDataPacket
  | SLAVE_DELTA_CMD u128 ObjectDataPacket
  | MAX_VERSION_CMD NodeID u32 u64

fun cm_dispatch :: "ObjectCommand \<Rightarrow> 'o ChangeManager \<Rightarrow> 'o ChangeManager" where
  "cm_dispatch (OBJECT_DATA_CMD p) (VersionedSlaveCM inst master cm) = VersionedSlaveCM inst master (slave_cmdData p cm)"
| "cm_dispatch (OBJECT_DATA_CMD p) (StaticSlaveCM is) = StaticSlaveCM (static_cmdInstance p is)"
| "cm_dispatch (SLAVE_DELTA_CMD key p) (VersionedMasterCM type cm q) = VersionedMasterCM type cm (snd (dq_addDataPacket key p q))"
| "cm_dispatch (MAX_VERSION_CMD node inst v) (VersionedMasterCM type cm q) = VersionedMasterCM type (cmdMaxVersion node inst v cm) q"
| "cm_dispatch cmd cm = cm"

definition object_dispatch :: "ObjectCommand \<Rightarrow> 'o Object \<Rightarrow> 'o Object" where
  "object_dispatch cmd ob = ob\<lparr>ob_cm := cm_dispatch cmd (ob_cm ob)\<rparr>"

section \<open>The store\<close>

datatype StorePacket =
    FIND_MASTER_NODE_ID u32 u128
  | FIND_MASTER_NODE_ID_REPLY u32 NodeID
  | MAP_OBJECT u32 u128 MapRequest
  | MAP_OBJECT_REPLY u32 u128 MapReply
  | UNSUBSCRIBE_OBJECT u32 u128 u32 u32
  | DETACH_OBJECT u32 u128 u32
  | UNMAP_OBJECT u128

record StoreConfig =
  cf_nodeID :: NodeID
  cf_instanceMax :: u32
  cf_isGenerated :: "u128 \<Rightarrow> bool"
  cf_sendQueueSize :: nat
  cf_sendQueueAge :: int
  cf_order :: "(u128 \<rightharpoonup> CacheItem) \<Rightarrow> u128 list"
  cf_objectsOrder :: "(u128 \<rightharpoonup> nat list) \<Rightarrow> u128 list"

record 'o ObjectStore =
  st_instanceIDs :: u32
  st_sendOnRegister :: int
  st_objects :: "u128 \<rightharpoonup> nat list"
  st_heap :: "nat \<Rightarrow> 'o Object"
  st_sendQueue :: "(int \<times> nat) list"
  st_instanceCache :: "InstanceCache option"
  st_pushData :: DataIStreamQueue
  st_requests :: "u32 \<rightharpoonup> nat"
  st_served :: "(u32 \<times> u128) list"
  st_out :: "(NodeID \<times> StorePacket) list"

definition new_store :: "InstanceCache option \<Rightarrow> (nat \<Rightarrow> 'o Object) \<Rightarrow> 'o ObjectStore" where
  "new_store cache heap = \<lparr>st_instanceIDs = - 0x7FFFFFFF, st_sendOnRegister = 0, st_objects = Map.empty, st_heap = heap,
     st_sendQueue = [], st_instanceCache = cache, st_pushData = dq_empty, st_requests = Map.empty, st_served = [], st_out = []\<rparr>"

definition upd_object :: "nat \<Rightarrow> ('o Object \<Rightarrow> 'o Object) \<Rightarrow> 'o ObjectStore \<Rightarrow> 'o ObjectStore" where
  "upd_object a f st = st\<lparr>st_heap := (st_heap st)(a := f (st_heap st a))\<rparr>"

definition st_send :: "NodeID \<Rightarrow> StorePacket \<Rightarrow> 'o ObjectStore \<Rightarrow> 'o ObjectStore" where
  "st_send node p st = st\<lparr>st_out := st_out st @ [(node, p)]\<rparr>"

definition serveRequest :: "u32 \<Rightarrow> u128 \<Rightarrow> 'o ObjectStore \<Rightarrow> 'o ObjectStore" where
  "serveRequest request result st =
     st\<lparr>st_served := st_served st @ [(request, result)], st_requests := (st_requests st)(request := None)\<rparr>"

section \<open>Attaching and detaching\<close>

function genNextID :: "u32 \<Rightarrow> u32 \<Rightarrow> u32 \<times> u32" where
  "genNextID instanceMax val =
     (let val1 = val + 1; result = val1 + 0x7FFFFFFF
      in if instanceMax < result then genNextID instanceMax val1 else (result, val1))"
  by auto

lemma genNextID_measure:
  assumes "instanceMax < (v + 1) + (0x7FFFFFFF :: u32)"
  shows "unat (- (v + 1 + 0x7FFFFFFF + 1)) < unat (- (v + (0x7FFFFFFF :: u32) + 1))"
proof -
  let ?r = "v + 1 + (0x7FFFFFFF :: u32)"
  have "?r \<noteq> 0" using assms by auto
  then have "unat (- ?r - 1) < unat (- ?r)" by (metis measure_unat neg_equal_0_iff_equal)
  then show ?thesis by (simp add: algebra_simps)
qed

termination genNextID
  by (relation "measure (\<lambda>(m, v). unat (- (v + 0x7FFFFFFF + 1)))") (use genNextID_measure in auto)

declare genNextID.simps [simp del]

definition attach_object :: "StoreConfig \<Rightarrow> nat \<Rightarrow> u128 \<Rightarrow> u32 \<Rightarrow> 'o ObjectStore \<Rightarrow> 'o ObjectStore" where
  "attach_object cf a identifier inInstanceID st =
     (let (inst, ids) = (if inInstanceID = EQ_INSTANCE_INVALID then genNextID (cf_instanceMax cf) (st_instanceIDs st)
                         else (inInstanceID, st_instanceIDs st));
          st1 = upd_object a (object_attach identifier inst) (st\<lparr>st_instanceIDs := ids\<rparr>);
          objects = (case st_objects st1 identifier of None \<Rightarrow> [] | Some objects \<Rightarrow> objects)
      in st1\<lparr>st_objects := (st_objects st1)(identifier \<mapsto> objects @ [a])\<rparr>)"

definition detach_object :: "nat \<Rightarrow> 'o ObjectStore \<Rightarrow> 'o ObjectStore" where
  "detach_object a st =
     (if \<not> isAttached (st_heap st a) then st
      else
        let identifier = ob_id (st_heap st a);
            objects = remove1 a (case st_objects st identifier of None \<Rightarrow> [] | Some objects \<Rightarrow> objects);
            st1 = st\<lparr>st_objects := (st_objects st)(identifier := (if objects = [] then None else Some objects))\<rparr>
        in upd_object a object_detach st1)"

definition find_instance :: "u32 \<Rightarrow> nat list \<Rightarrow> 'o ObjectStore \<Rightarrow> nat option" where
  "find_instance inst objects st = find (\<lambda>a. ob_instanceID (st_heap st a) = inst) objects"

definition cmdDetachObject :: "u32 \<Rightarrow> u128 \<Rightarrow> u32 \<Rightarrow> 'o ObjectStore \<Rightarrow> 'o ObjectStore" where
  "cmdDetachObject request identifier inst st =
     serveRequest request 0
       (case st_objects st identifier of
          None \<Rightarrow> st
        | Some objects \<Rightarrow> (case find_instance inst objects st of None \<Rightarrow> st | Some a \<Rightarrow> detach_object a st))"

definition detachObject :: "nat \<Rightarrow> u32 \<Rightarrow> 'o ObjectStore \<Rightarrow> 'o ObjectStore" where
  "detachObject a request st = cmdDetachObject request (ob_id (st_heap st a)) (ob_instanceID (st_heap st a)) st"

definition swapObject :: "nat \<Rightarrow> nat \<Rightarrow> 'o ObjectStore \<Rightarrow> 'o ObjectStore" where
  "swapObject oldObject newObject st =
     (if \<not> isAttached (st_heap st oldObject) then st
      else
        let identifier = ob_id (st_heap st oldObject)
        in case st_objects st identifier of
             None \<Rightarrow> st
           | Some objects \<Rightarrow>
               if oldObject \<notin> set objects then st
               else
                 let (new, old) = object_transfer (st_heap st oldObject) (st_heap st newObject)
                 in st\<lparr>st_heap := (st_heap st)(newObject := new, oldObject := old),
                       st_objects := (st_objects st)(identifier \<mapsto>
                         takeWhile (\<lambda>x. x \<noteq> oldObject) objects @ newObject # tl (dropWhile (\<lambda>x. x \<noteq> oldObject) objects))\<rparr>)"

section \<open>Registering\<close>

definition cmdRegisterObject :: "StoreConfig \<Rightarrow> int \<Rightarrow> nat \<Rightarrow> 'o ObjectStore \<Rightarrow> 'o ObjectStore" where
  "cmdRegisterObject cf time a st =
     (if st_sendOnRegister st \<le> 0 then st
      else
        let age = (if cf_sendQueueAge cf \<noteq> 0 then cf_sendQueueAge cf + time else 2 ^ 63 - 1);
            queue = st_sendQueue st @ [(age, a)]
        in st\<lparr>st_sendQueue := drop (length queue - cf_sendQueueSize cf) queue\<rparr>)"

fun erase_first :: "nat \<Rightarrow> (int \<times> nat) list \<Rightarrow> (int \<times> nat) list" where
  "erase_first a [] = []"
| "erase_first a (x # xs) = (if snd x = a then xs else x # erase_first a xs)"

definition cmdDeregisterObject :: "u32 \<Rightarrow> 'o ObjectStore \<Rightarrow> 'o ObjectStore" where
  "cmdDeregisterObject request st =
     serveRequest request 0
       (case st_requests st request of None \<Rightarrow> st | Some a \<Rightarrow> st\<lparr>st_sendQueue := erase_first a (st_sendQueue st)\<rparr>)"

definition registerObject :: "StoreConfig \<Rightarrow> int \<Rightarrow> nat \<Rightarrow> 'o ObjectStore \<Rightarrow> 'o ObjectStore" where
  "registerObject cf time a st =
     (let st1 = upd_object a (\<lambda>ob. setupChangeManager (ob_changeType ob) True EQ_INSTANCE_INVALID ob) st;
          st2 = attach_object cf a (ob_id (st_heap st1 a)) EQ_INSTANCE_INVALID st1
      in if 0 < cf_sendQueueSize cf then cmdRegisterObject cf time a st2 else st2)"

definition notifyDetach :: "nat \<Rightarrow> 'o ObjectStore \<Rightarrow> 'o ObjectStore" where
  "notifyDetach a st =
     (if \<not> isMaster (ob_cm (st_heap st a)) then st
      else fold (\<lambda>node. st_send node (UNMAP_OBJECT (ob_id (st_heap st a)))) (getSlaveNodes (ob_cm (st_heap st a))) st)"

definition deregisterObject :: "StoreConfig \<Rightarrow> u32 \<Rightarrow> u32 \<Rightarrow> nat \<Rightarrow> 'o ObjectStore \<Rightarrow> 'o ObjectStore" where
  "deregisterObject cf request request2 a st =
     (if \<not> isAttached (st_heap st a) then st
      else
        let st1 = notifyDetach a st;
            st2 = (if 0 < cf_sendQueueSize cf then cmdDeregisterObject request (st1\<lparr>st_requests := (st_requests st1)(request \<mapsto> a)\<rparr>) else st1);
            identifier = ob_id (st_heap st2 a);
            st3 = upd_object a (setupChangeManager TYPE_NONE True EQ_INSTANCE_INVALID) (detachObject a request2 st2)
        in st3\<lparr>st_instanceCache := map_option (\<lambda>c. snd (cache_erase identifier c)) (st_instanceCache st3)\<rparr>)"

text \<open>The queue of registered objects is sent when the command thread is idle.\<close>

definition notifyCommandThreadIdle :: "int \<Rightarrow> NodeID list \<Rightarrow> 'o ObjectStore \<Rightarrow> bool \<times> 'o ObjectStore" where
  "notifyCommandThreadIdle time nodes st =
     (case st_sendQueue st of
        [] \<Rightarrow> (False, st)
      | (age, a) # rest \<Rightarrow>
          if time < age \<and> nodes = [] then (True, st)
          else
            let st1 = (if time < age then upd_object a (\<lambda>ob. ob\<lparr>ob_cm :=
                         (case ob_cm ob of
                            VersionedMasterCM type cm q \<Rightarrow>
                              if type = TYPE_UNBUFFERED then ob_cm ob
                              else VersionedMasterCM type (fm_sendInstanceData (ob_compressor ob) nodes cm) q
                          | cm \<Rightarrow> cm)\<rparr>) st else st)
            in (rest \<noteq> [], st1\<lparr>st_sendQueue := rest\<rparr>))"

definition enableSendOnRegister :: "'o ObjectStore \<Rightarrow> 'o ObjectStore" where
  "enableSendOnRegister st = st\<lparr>st_sendOnRegister := st_sendOnRegister st + 1\<rparr>"

definition cmdDisableSendOnRegister :: "u32 \<Rightarrow> 'o ObjectStore \<Rightarrow> 'o ObjectStore" where
  "cmdDisableSendOnRegister request st =
     (let st1 = st\<lparr>st_sendOnRegister := st_sendOnRegister st - 1\<rparr>
      in serveRequest request 0 (if st_sendOnRegister st1 = 0 then st1\<lparr>st_sendQueue := []\<rparr> else st1))"

definition disableSendOnRegister :: "StoreConfig \<Rightarrow> u32 \<Rightarrow> 'o ObjectStore \<Rightarrow> 'o ObjectStore" where
  "disableSendOnRegister cf request st =
     (if 0 < cf_sendQueueSize cf then cmdDisableSendOnRegister request st
      else st\<lparr>st_sendOnRegister := st_sendOnRegister st - 1\<rparr>)"

section \<open>Mapping\<close>

text \<open>The identifier of the master node, asked of one node after the other.\<close>

definition cmdFindMasterNodeID :: "StoreConfig \<Rightarrow> u128 \<Rightarrow> 'o ObjectStore \<Rightarrow> NodeID" where
  "cmdFindMasterNodeID cf identifier st =
     (case st_objects st identifier of
        None \<Rightarrow> 0
      | Some objects \<Rightarrow>
          (case find (\<lambda>n. n \<noteq> 0)
             (map (\<lambda>a. if isMaster (ob_cm (st_heap st a)) then cf_nodeID cf
                       else case getMasterNode (ob_cm (st_heap st a)) of None \<Rightarrow> 0 | Some node \<Rightarrow> node) objects) of
             None \<Rightarrow> 0
           | Some node \<Rightarrow> node))"

fun findMasterNodeID :: "(NodeID \<Rightarrow> NodeID) \<Rightarrow> NodeID list \<Rightarrow> NodeID" where
  "findMasterNodeID ask [] = 0"
| "findMasterNodeID ask (node # nodes) = (if ask node \<noteq> 0 then ask node else findMasterNodeID ask nodes)"

text \<open>The request, which announces the versions that the cache holds; they are pinned.\<close>

definition map_request :: "u128 \<Rightarrow> u64 \<Rightarrow> u32 \<Rightarrow> (u32 \<times> ObjectDataIStream list) option \<Rightarrow> MapRequest" where
  "map_request version maxVersion inst cached =
     (let packet = \<lparr>mr_requestedVersion = version, mr_minCachedVersion = VERSION_HEAD, mr_maxCachedVersion = VERSION_NONE,
            mr_maxVersion = maxVersion, mr_instanceID = inst, mr_masterInstanceID = 0, mr_useCache = False\<rparr>
      in case cached of
           None \<Rightarrow> packet
         | Some (masterInstanceID, versions) \<Rightarrow>
             packet\<lparr>mr_useCache := True, mr_masterInstanceID := masterInstanceID,
               mr_minCachedVersion := is_version (hd versions), mr_maxCachedVersion := is_version (last versions)\<rparr>)"

definition mapObjectNB ::
  "StoreConfig \<Rightarrow> u32 \<Rightarrow> nat \<Rightarrow> u128 \<Rightarrow> u128 \<Rightarrow> NodeID \<Rightarrow> bool \<Rightarrow> 'o ObjectStore \<Rightarrow> MapRequest option \<times> 'o ObjectStore" where
  "mapObjectNB cf request a identifier version master isConnected st =
     (if \<not> cf_isGenerated cf identifier \<or> isAttached (st_heap st a) \<or> isMaster (ob_cm (st_heap st a)) \<or> \<not> isConnected then (None, st)
      else
        let (inst, ids) = genNextID (cf_instanceMax cf) (st_instanceIDs st);
            (cached, cache) = (case st_instanceCache st of
               None \<Rightarrow> (None, None)
             | Some c \<Rightarrow> (case cache_lookup identifier c of (data, c1) \<Rightarrow> (data, Some c1)));
            packet = map_request version (ob_maxVersions (st_heap st a)) inst cached
        in (Some packet, st_send master (MAP_OBJECT request identifier packet)
             (st\<lparr>st_instanceIDs := ids, st_instanceCache := cache, st_requests := (st_requests st)(request \<mapsto> a)\<rparr>)))"

definition cmdMapObject :: "u32 \<Rightarrow> NodeID \<Rightarrow> u128 \<Rightarrow> MapRequest \<Rightarrow> 'o ObjectStore \<Rightarrow> 'o ObjectStore" where
  "cmdMapObject request node identifier packet st =
     (case find (\<lambda>a. isMaster (ob_cm (st_heap st a))) (case st_objects st identifier of None \<Rightarrow> [] | Some objects \<Rightarrow> objects) of
        Some a \<Rightarrow> upd_object a (object_addSlave node packet) st
      | None \<Rightarrow> st_send node (MAP_OBJECT_REPLY request identifier
          \<lparr>rp_node = node, rp_version = mr_requestedVersion packet, rp_result = False, rp_releaseCache = mr_useCache packet, rp_useCache = False\<rparr>) st)"

definition cmdMapObjectSuccess ::
  "StoreConfig \<Rightarrow> NodeID \<Rightarrow> u32 \<Rightarrow> u128 \<Rightarrow> u32 \<Rightarrow> ChangeType \<Rightarrow> u32 \<Rightarrow> 'o ObjectStore \<Rightarrow> 'o ObjectStore" where
  "cmdMapObjectSuccess cf nodeID request identifier inst changeType masterInstanceID st =
     (if nodeID \<noteq> cf_nodeID cf then st
      else
        case st_requests st request of
          None \<Rightarrow> st
        | Some a \<Rightarrow> attach_object cf a identifier inst (upd_object a (setupChangeManager changeType False masterInstanceID) st))"

definition release_pins :: "StoreConfig \<Rightarrow> u128 \<Rightarrow> u32 \<Rightarrow> 'o ObjectStore \<Rightarrow> 'o ObjectStore option" where
  "release_pins cf identifier count st =
     (case st_instanceCache st of
        None \<Rightarrow> Some st
      | Some c \<Rightarrow> map_option (\<lambda>(found, c1). st\<lparr>st_instanceCache := Some c1\<rparr>) (cache_release (cf_order cf) identifier count c))"

definition use_cached :: "nat \<Rightarrow> u128 \<Rightarrow> u128 \<Rightarrow> 'o ObjectStore \<Rightarrow> 'o ObjectStore" where
  "use_cached a identifier version st =
     (case st_instanceCache st of
        None \<Rightarrow> st
      | Some c \<Rightarrow>
          (case cache_lookup identifier c of (data, c1) \<Rightarrow>
             upd_object a (\<lambda>ob. ob\<lparr>ob_cm := cm_addInstanceDatas (case data of None \<Rightarrow> [] | Some d \<Rightarrow> snd d) version (ob_cm ob)\<rparr>)
               (st\<lparr>st_instanceCache := Some c1\<rparr>)))"

definition cmdMapObjectReply :: "StoreConfig \<Rightarrow> NodeID \<Rightarrow> u32 \<Rightarrow> u128 \<Rightarrow> MapReply \<Rightarrow> 'o ObjectStore \<Rightarrow> 'o ObjectStore option" where
  "cmdMapObjectReply cf from request identifier packet st =
     (if rp_node packet \<noteq> cf_nodeID cf then Some st
      else
        map_option (serveRequest request (rp_version packet))
          (if rp_result packet then
             case st_requests st request of
               None \<Rightarrow> Some st
             | Some a \<Rightarrow>
                 let st1 = upd_object a (\<lambda>ob. ob\<lparr>ob_cm := setMasterNode from (ob_cm ob)\<rparr>) st
                 in if rp_useCache packet then release_pins cf identifier 2 (use_cached a identifier (rp_version packet) st1)
                    else if rp_releaseCache packet then release_pins cf identifier 1 st1
                    else Some st1
           else if rp_releaseCache packet then release_pins cf identifier 1 st
           else Some st))"

definition mapObjectSync ::
  "Plugins \<Rightarrow> (bool \<Rightarrow> ObjectDataIStream \<Rightarrow> 'o \<Rightarrow> 'o) \<Rightarrow> nat \<Rightarrow> u128 \<Rightarrow> 'o ObjectStore \<Rightarrow> (bool \<times> 'o ObjectStore) option" where
  "mapObjectSync plugins unpack a version st =
     (if \<not> isAttached (st_heap st a) then Some (False, st)
      else
        case ob_cm (st_heap st a) of
          VersionedSlaveCM inst master cm \<Rightarrow>
            map_option (\<lambda>cm1. (True, upd_object a (\<lambda>ob. ob\<lparr>ob_cm := VersionedSlaveCM inst master cm1\<rparr>) st))
              (slave_applyMapData plugins unpack version cm)
        | StaticSlaveCM is \<Rightarrow>
            map_option (\<lambda>content. (True, upd_object a (\<lambda>ob. ob\<lparr>ob_content := content, ob_cm := StaticSlaveCM new_istream\<rparr>) st))
              (static_applyMapData plugins unpack is (ob_content (st_heap st a)))
        | _ \<Rightarrow> Some (True, st))"

section \<open>Unmapping\<close>

definition unmapObject :: "u32 \<Rightarrow> (NodeID \<Rightarrow> bool) \<Rightarrow> nat \<Rightarrow> 'o ObjectStore \<Rightarrow> 'o ObjectStore" where
  "unmapObject request isConnected a st =
     (if \<not> isAttached (st_heap st a) then st
      else
        let st1 = notifyDetach a st; ob = st_heap st1 a;
            direct = upd_object a (setupChangeManager TYPE_NONE False EQ_INSTANCE_INVALID) (detachObject a request st1)
        in if getMasterInstanceID (ob_cm ob) \<noteq> EQ_INSTANCE_INVALID then
             case getMasterNode (ob_cm ob) of
               None \<Rightarrow> direct
             | Some master \<Rightarrow>
                 if isConnected master then
                   st_send master (UNSUBSCRIBE_OBJECT request (ob_id ob) (getMasterInstanceID (ob_cm ob)) (ob_instanceID ob)) st1
                 else direct
           else direct)"

definition cmdUnsubscribeObject :: "u32 \<Rightarrow> NodeID \<Rightarrow> u128 \<Rightarrow> u32 \<Rightarrow> u32 \<Rightarrow> 'o ObjectStore \<Rightarrow> 'o ObjectStore" where
  "cmdUnsubscribeObject request node identifier masterInstanceID slaveInstanceID st =
     st_send node (DETACH_OBJECT request identifier slaveInstanceID)
       (case find (\<lambda>a. isMaster (ob_cm (st_heap st a)) \<and> ob_instanceID (st_heap st a) = masterInstanceID)
               (case st_objects st identifier of None \<Rightarrow> [] | Some objects \<Rightarrow> objects) of
          None \<Rightarrow> st
        | Some a \<Rightarrow> upd_object a (\<lambda>ob. ob\<lparr>ob_cm := cm_removeSlave node slaveInstanceID (ob_cm ob)\<rparr>) st)"

definition cmdUnmapObject :: "u128 \<Rightarrow> 'o ObjectStore \<Rightarrow> 'o ObjectStore" where
  "cmdUnmapObject identifier st =
     (let st1 = st\<lparr>st_instanceCache := map_option (\<lambda>c. snd (cache_erase identifier c)) (st_instanceCache st)\<rparr>
      in case st_objects st1 identifier of
           None \<Rightarrow> st1
         | Some objects \<Rightarrow>
             fold (\<lambda>a. upd_object a object_detach) objects (st1\<lparr>st_objects := (st_objects st1)(identifier := None)\<rparr>))"

text \<open>A request is served only if the sender has registered one.\<close>

definition cmdRemoveNode :: "StoreConfig \<Rightarrow> u32 option \<Rightarrow> NodeID \<Rightarrow> 'o ObjectStore \<Rightarrow> 'o ObjectStore" where
  "cmdRemoveNode cf request node st =
     (case request of None \<Rightarrow> id | Some r \<Rightarrow> serveRequest r 0)
       (fold (\<lambda>identifier st.
          fold (\<lambda>a. upd_object a (\<lambda>ob. ob\<lparr>ob_cm := cm_removeSlaves node (ob_cm ob)\<rparr>))
            (case st_objects st identifier of None \<Rightarrow> [] | Some objects \<Rightarrow> objects) st)
          (cf_objectsOrder cf (st_objects st)) st)"

section \<open>Dispatch\<close>

text \<open>Commands for one instance go to it, others to all instances. The flag is false if the command has
  to wait until an object is attached.\<close>

definition dispatchObjectCommand ::
  "StoreConfig \<Rightarrow> u128 \<Rightarrow> u32 \<Rightarrow> ObjectCommand \<Rightarrow> 'o ObjectStore \<Rightarrow> bool \<times> 'o ObjectStore" where
  "dispatchObjectCommand cf identifier inst cmd st =
     (case st_objects st identifier of
        None \<Rightarrow> (inst = EQ_INSTANCE_NONE, st)
      | Some objects \<Rightarrow>
          if inst \<le> cf_instanceMax cf then
            (case find_instance inst objects st of
               None \<Rightarrow> (False, st)
             | Some a \<Rightarrow> (True, upd_object a (object_dispatch cmd) st))
          else (True, fold (\<lambda>a. upd_object a (object_dispatch cmd)) objects st))"

definition cache_instance :: "StoreConfig \<Rightarrow> int \<Rightarrow> NodeID \<Rightarrow> u128 \<Rightarrow> ObjectDataPacket \<Rightarrow> 'o ObjectStore \<Rightarrow> 'o ObjectStore option" where
  "cache_instance cf time from identifier p st =
     (case st_instanceCache st of
        None \<Rightarrow> Some st
      | Some c \<Rightarrow> map_option (\<lambda>(added, c1). st\<lparr>st_instanceCache := Some c1\<rparr>)
          (cache_add (cf_order cf) time \<lparr>ov_identifier = identifier, ov_version = op_version p\<rparr> (op_masterInstanceID p) from p 0 c))"

definition deliver_instance :: "StoreConfig \<Rightarrow> u128 \<Rightarrow> DataCommand \<Rightarrow> ObjectDataPacket \<Rightarrow> 'o ObjectStore \<Rightarrow> bool \<times> 'o ObjectStore" where
  "deliver_instance cf identifier type p st =
     (if type = CMD_NODE_OBJECT_INSTANCE then (True, st)
      else if type = CMD_NODE_OBJECT_INSTANCE_MAP then
        (if op_nodeID p \<noteq> cf_nodeID cf then (True, st)
         else dispatchObjectCommand cf identifier (op_instanceID p) (OBJECT_DATA_CMD p) st)
      else if type = CMD_NODE_OBJECT_INSTANCE_COMMIT then
        dispatchObjectCommand cf identifier (op_instanceID p) (OBJECT_DATA_CMD p) st
      else if type = CMD_NODE_OBJECT_INSTANCE_PUSH then
        (True, st\<lparr>st_pushData := snd (dq_addDataPacket identifier p (st_pushData st))\<rparr>)
      else (False, st))"

definition cmdInstance :: "StoreConfig \<Rightarrow> int \<Rightarrow> NodeID \<Rightarrow> u128 \<Rightarrow> ObjectDataPacket \<Rightarrow> 'o ObjectStore \<Rightarrow> (bool \<times> 'o ObjectStore) option" where
  "cmdInstance cf time from identifier packet st =
     (let p = packet\<lparr>op_command := CMD_OBJECT_INSTANCE\<rparr>
      in map_option (deliver_instance cf identifier (op_command packet) p) (cache_instance cf time from identifier p st))"

text \<open>The application gets the stream of a push; \<open>None\<close> while it has not arrived.\<close>

definition cmdObjectPush :: "u128 \<Rightarrow> 'o ObjectStore \<Rightarrow> (ObjectDataIStream \<times> 'o ObjectStore) option" where
  "cmdObjectPush identifier st =
     map_option (\<lambda>(is, q). (is, st\<lparr>st_pushData := q\<rparr>)) (dq_pull identifier (st_pushData st))"

definition expireInstanceData :: "StoreConfig \<Rightarrow> int \<Rightarrow> int \<Rightarrow> 'o ObjectStore \<Rightarrow> 'o ObjectStore" where
  "expireInstanceData cf now age st =
     st\<lparr>st_instanceCache := map_option (cache_expire (cf_order cf) now age) (st_instanceCache st)\<rparr>"

definition removeInstanceData :: "StoreConfig \<Rightarrow> NodeID \<Rightarrow> 'o ObjectStore \<Rightarrow> 'o ObjectStore" where
  "removeInstanceData cf node st =
     st\<lparr>st_instanceCache := map_option (cache_remove (cf_order cf) node) (st_instanceCache st)\<rparr>"

end
