(* ===== verification/Store_Objects.thy ===== *)
theory Store_Objects
  imports Object_Store
begin

text \<open>
  The table of objects: in every run of a node, the table lists exactly the attached objects, each once
  and under its identifier, and instance identifiers are unique, so that a command reaches exactly
  the instances it is meant for.
\<close>

section \<open>Generated identifiers\<close>

definition generated :: "'o ObjectStore \<Rightarrow> nat" where
  "generated st = unat (st_instanceIDs st + 0x7FFFFFFF)"

lemma genNextID_next:
  assumes "unat (v + 0x7FFFFFFF) < unat instanceMax"
  shows "genNextID instanceMax v = (v + 1 + 0x7FFFFFFF, v + 1)" "unat (v + 1 + 0x7FFFFFFF) = Suc (unat (v + 0x7FFFFFFF))"
proof -
  let ?r = "v + (0x7FFFFFFF :: u32)"
  have "?r \<noteq> - 1" using assms by (metis not_less word_n1_ge word_le_nat_alt)
  then have "unat (?r + 1) = Suc (unat ?r)" by (rule unat_inc)
  then show u: "unat (v + 1 + 0x7FFFFFFF) = Suc (unat ?r)" by (simp add: add.assoc add.commute add.left_commute)
  have "\<not> instanceMax < v + 1 + 0x7FFFFFFF" using assms by (simp only: word_less_nat_alt u)
  then show "genNextID instanceMax v = (v + 1 + 0x7FFFFFFF, v + 1)" by (subst genNextID.simps) (simp add: Let_def)
qed

section \<open>The table\<close>

definition objects_of :: "'o ObjectStore \<Rightarrow> u128 \<Rightarrow> nat list" where
  "objects_of st identifier = (case st_objects st identifier of None \<Rightarrow> [] | Some objects \<Rightarrow> objects)"

definition attached :: "'o ObjectStore \<Rightarrow> nat \<Rightarrow> bool" where
  "attached st a = isAttached (st_heap st a)"

definition table_ok :: "'o ObjectStore \<Rightarrow> bool" where
  "table_ok st = ((\<forall>i. st_objects st i \<noteq> Some []) \<and> (\<forall>i. distinct (objects_of st i)) \<and>
     (\<forall>i a. a \<in> set (objects_of st i) \<longleftrightarrow> attached st a \<and> ob_id (st_heap st a) = i))"

text \<open>Operations that leave the table alone.\<close>

definition same_table :: "'o ObjectStore \<Rightarrow> 'o ObjectStore \<Rightarrow> bool" where
  "same_table st st1 = (st_objects st1 = st_objects st \<and> st_instanceIDs st1 = st_instanceIDs st \<and>
     (\<forall>a. ob_id (st_heap st1 a) = ob_id (st_heap st a) \<and> ob_instanceID (st_heap st1 a) = ob_instanceID (st_heap st a)))"

lemma same_table_refl [simp]: "same_table st st"
  by (simp add: same_table_def)

lemma same_table_trans [trans]: "same_table st st1 \<Longrightarrow> same_table st1 st2 \<Longrightarrow> same_table st st2"
  by (simp add: same_table_def)

lemma same_table_attached: "same_table st st1 \<Longrightarrow> attached st1 a = attached st a"
  by (simp add: same_table_def attached_def isAttached_def)

lemma same_table_ok: "same_table st st1 \<Longrightarrow> table_ok st \<Longrightarrow> table_ok st1"
  by (simp add: table_ok_def same_table_attached) (simp add: same_table_def objects_of_def)

lemma same_table_upd:
  "(\<And>ob. ob_id (f ob) = ob_id ob \<and> ob_instanceID (f ob) = ob_instanceID ob) \<Longrightarrow> same_table st (upd_object a f st)"
  by (simp add: same_table_def upd_object_def)

lemma same_table_fold: "(\<And>x st. same_table st (f x st)) \<Longrightarrow> same_table st (fold f xs st)"
  by (induction xs arbitrary: st) (auto intro: same_table_trans)

lemma same_table_simple [simp]:
  "same_table st (st_send node p st) = True" "same_table st (serveRequest r v st) = True"
  "same_table st (st\<lparr>st_instanceCache := c\<rparr>) = True" "same_table st (st\<lparr>st_requests := q\<rparr>) = True"
  "same_table st (st\<lparr>st_sendQueue := s\<rparr>) = True" "same_table st (st\<lparr>st_sendOnRegister := n\<rparr>) = True"
  "same_table st (st\<lparr>st_pushData := d\<rparr>) = True"
  by (simp_all add: same_table_def st_send_def serveRequest_def)

section \<open>Operations on the table\<close>

lemma attach_object_eq:
  assumes "inst \<noteq> EQ_INSTANCE_INVALID"
  shows "attach_object cf a i inst st =
    (upd_object a (object_attach i inst) st)\<lparr>st_objects := (st_objects st)(i \<mapsto> objects_of st i @ [a])\<rparr>"
  using assms by (simp add: attach_object_def upd_object_def objects_of_def)

lemma attach_ok:
  assumes "table_ok st" "\<not> attached st a" "inst \<noteq> EQ_INSTANCE_INVALID"
  shows "table_ok ((upd_object a (object_attach i inst) st)\<lparr>st_objects := (st_objects st)(i \<mapsto> objects_of st i @ [a])\<rparr>)"
proof -
  have "a \<notin> set (objects_of st j)" for j using assms(1,2) by (simp add: table_ok_def)
  then show ?thesis using assms unfolding table_ok_def
    by (auto simp: objects_of_def attached_def upd_object_def object_attach_def isAttached_def split: if_splits)
qed

lemma detach_object_eq:
  "attached st a \<Longrightarrow> detach_object a st = (upd_object a object_detach st)\<lparr>st_objects :=
     (st_objects st)(ob_id (st_heap st a) := (let os = remove1 a (objects_of st (ob_id (st_heap st a))) in if os = [] then None else Some os))\<rparr>"
  by (simp add: detach_object_def attached_def objects_of_def upd_object_def Let_def)

lemma detach_ok: "table_ok st \<Longrightarrow> table_ok (detach_object a st)"
proof (cases "attached st a")
  case True
  assume t: "table_ok st"
  let ?i = "ob_id (st_heap st a)"
  have d: "set (remove1 a (objects_of st ?i)) = set (objects_of st ?i) - {a}" "distinct (remove1 a (objects_of st ?i))"
    using t by (auto simp: table_ok_def set_remove1_eq distinct_remove1)
  have o: "objects_of (detach_object a st) j = (if j = ?i then remove1 a (objects_of st ?i) else objects_of st j)" for j
    by (simp add: detach_object_eq [OF True] objects_of_def Let_def)
  have h: "st_heap (detach_object a st) = (st_heap st)(a := object_detach (st_heap st a))"
    by (simp add: detach_object_eq [OF True] upd_object_def)
  have n: "st_objects (detach_object a st) j \<noteq> Some []" for j
    using t by (auto simp: detach_object_eq [OF True] Let_def table_ok_def)
  have m: "b \<in> set (objects_of st j) \<longleftrightarrow> attached st b \<and> ob_id (st_heap st b) = j" for b j using t by (simp add: table_ok_def)
  have e: "distinct (objects_of st j)" for j using t by (simp add: table_ok_def)
  show ?thesis unfolding table_ok_def using n d e m
    by (auto simp: o h attached_def isAttached_def object_detach_def)
qed (simp add: detach_object_def attached_def)

lemma detach_ids: "attached (detach_object a st) b \<Longrightarrow> attached st b \<and> ob_instanceID (st_heap (detach_object a st) b) = ob_instanceID (st_heap st b) \<and> b \<noteq> a"
  by (auto simp: detach_object_def upd_object_def object_detach_def attached_def isAttached_def Let_def split: if_splits)

lemma detach_counter [simp]: "st_instanceIDs (detach_object a st) = st_instanceIDs st" "st_requests (detach_object a st) = st_requests st"
  by (simp_all add: detach_object_def upd_object_def Let_def)

lemma unmap_heap:
  "st_heap (fold (\<lambda>a. upd_object a object_detach) os st) = (\<lambda>a. if a \<in> set os then object_detach (st_heap st a) else st_heap st a)"
  "st_objects (fold (\<lambda>a. upd_object a object_detach) os st) = st_objects st"
  "st_instanceIDs (fold (\<lambda>a. upd_object a object_detach) os st) = st_instanceIDs st"
  "st_requests (fold (\<lambda>a. upd_object a object_detach) os st) = st_requests st"
  by (induction os arbitrary: st) (auto simp: upd_object_def object_detach_def)

lemma unmap_objects:
  "table_ok st \<Longrightarrow> table_ok (fold (\<lambda>a. upd_object a object_detach) (objects_of st i) (st\<lparr>st_objects := (st_objects st)(i := None)\<rparr>))"
  unfolding table_ok_def
  by (auto simp: unmap_heap objects_of_def attached_def isAttached_def object_detach_def split: if_splits)

lemma swap_ok:
  assumes "table_ok st" "\<not> attached st b"
  shows "table_ok (swapObject a b st)"
proof (cases "attached st a")
  case True
  let ?i = "ob_id (st_heap st a)"
  have t: "c \<in> set (objects_of st j) \<longleftrightarrow> attached st c \<and> ob_id (st_heap st c) = j" "distinct (objects_of st j)" "st_objects st j \<noteq> Some []" for c j
    using assms(1) by (simp_all add: table_ok_def)
  from True t(1) [of a ?i] obtain os where os: "st_objects st ?i = Some os" "a \<in> set os" "objects_of st ?i = os"
    by (cases "st_objects st ?i") (simp_all add: objects_of_def)
  then obtain us vs where s: "os = us @ a # vs" "a \<notin> set us" by (auto dest: split_list_first)
  then have r: "takeWhile (\<lambda>x. x \<noteq> a) os @ b # tl (dropWhile (\<lambda>x. x \<noteq> a) os) = us @ b # vs"
  proof -
    have "\<forall>x \<in> set us. x \<noteq> a" using s(2) by auto
    then show ?thesis unfolding s(1) by (simp add: takeWhile_append dropWhile_append)
  qed
  let ?st = "swapObject a b st"
  have e: "?st = st\<lparr>st_heap := (st_heap st)(b := fst (object_transfer (st_heap st a) (st_heap st b)), a := snd (object_transfer (st_heap st a) (st_heap st b))),
      st_objects := (st_objects st)(?i \<mapsto> us @ b # vs)\<rparr>"
    using True os(1,2) r by (simp add: swapObject_def attached_def Let_def split_beta)
  have ab: "a \<noteq> b" using True assms(2) by auto
  have d: "distinct (us @ a # vs)" using t(2) [of ?i] os(3) s(1) by simp
  have "b \<notin> set (us @ a # vs)" using t(1) [of b ?i] os(3) s(1) assms(2) by simp
  with d have d1: "distinct (us @ b # vs)" "b \<notin> set us" "b \<notin> set vs" "a \<notin> set us" "a \<notin> set vs" by auto
  have o: "objects_of ?st j = (if j = ?i then us @ b # vs else objects_of st j)" for j by (simp add: e objects_of_def)
  have at: "attached ?st c \<and> ob_id (st_heap ?st c) = j \<longleftrightarrow> (if c = b then j = ?i else c \<noteq> a \<and> attached st c \<and> ob_id (st_heap st c) = j)" for c j
    using ab True by (auto simp: e object_transfer_def attached_def isAttached_def)
  have "c \<in> set (objects_of ?st j) \<longleftrightarrow> attached ?st c \<and> ob_id (st_heap ?st c) = j" for c j
    unfolding at using t(1) [of c j] d1 os(3) s(1) assms(2) by (auto simp: o)
  moreover have "distinct (objects_of ?st j)" for j using d1(1) t(2) by (simp add: o)
  moreover have "st_objects ?st j \<noteq> Some []" for j using t(3) by (simp add: e)
  ultimately show ?thesis by (simp add: table_ok_def)
next
  case False
  then show ?thesis using assms(1) by (simp add: swapObject_def attached_def)
qed

end
