(* ===== verification/Store_Run.thy ===== *)
theory Store_Run
  imports Store_Objects
begin

text \<open>
  Runs of an object store. A flight is a request to map an object that has not been answered. The
  network gives success and reply packets for flights, with the fields that they copy from the
  request; all other packets and calls come in any order.
\<close>

section \<open>Steps\<close>

record Flight =
  fl_object :: nat
  fl_id :: u128
  fl_packet :: MapRequest
  fl_attached :: bool

type_synonym Flights = "u32 \<rightharpoonup> Flight"

definition in_flight :: "Flights \<Rightarrow> nat \<Rightarrow> bool" where
  "in_flight fl a = (\<exists>r f. fl r = Some f \<and> fl_object f = a)"

text \<open>There are unused instance identifiers. When a request is made, another identifier of requests is free.\<close>

definition has_room :: "StoreConfig \<Rightarrow> 'o ObjectStore \<Rightarrow> bool" where
  "has_room cf st = (generated st < unat (cf_instanceMax cf))"

inductive store_step :: "StoreConfig \<Rightarrow> 'o ObjectStore \<times> Flights \<Rightarrow> 'o ObjectStore \<times> Flights \<Rightarrow> bool" for cf where
  register: "\<not> attached st a \<Longrightarrow> \<not> in_flight fl a \<Longrightarrow> has_room cf st \<Longrightarrow> store_step cf (st, fl) (registerObject cf time a st, fl)"
| deregister: "request \<notin> dom fl \<Longrightarrow> request2 \<notin> dom fl \<Longrightarrow> store_step cf (st, fl) (deregisterObject cf request request2 a st, fl)"
| map_object: "request \<notin> dom fl \<Longrightarrow> insert request (dom fl) \<noteq> UNIV \<Longrightarrow> \<not> in_flight fl a \<Longrightarrow> has_room cf st \<Longrightarrow>
    mapObjectNB cf request a identifier version master isConn st = (Some packet, st1) \<Longrightarrow>
    store_step cf (st, fl) (st1, fl(request \<mapsto> \<lparr>fl_object = a, fl_id = identifier, fl_packet = packet, fl_attached = False\<rparr>))"
| success: "fl request = Some f \<Longrightarrow> \<not> fl_attached f \<Longrightarrow>
    store_step cf (st, fl) (cmdMapObjectSuccess cf (cf_nodeID cf) request (fl_id f) (mr_instanceID (fl_packet f)) type masterInst st,
      fl(request \<mapsto> f\<lparr>fl_attached := True\<rparr>))"
| reply: "fl request = Some f \<Longrightarrow> rp_node packet = cf_nodeID cf \<Longrightarrow> rp_releaseCache packet = mr_useCache (fl_packet f) \<Longrightarrow>
    (rp_useCache packet \<longrightarrow> rp_releaseCache packet) \<Longrightarrow> cmdMapObjectReply cf from request (fl_id f) packet st = Some st1 \<Longrightarrow>
    store_step cf (st, fl) (st1, fl(request := None))"
| other_success: "node \<noteq> cf_nodeID cf \<Longrightarrow> store_step cf (st, fl) (cmdMapObjectSuccess cf node request identifier inst type masterInst st, fl)"
| other_reply: "rp_node packet \<noteq> cf_nodeID cf \<Longrightarrow> cmdMapObjectReply cf from request identifier packet st = Some st1 \<Longrightarrow>
    store_step cf (st, fl) (st1, fl)"
| sync: "mapObjectSync plugins unpack a version st = Some (flag, st1) \<Longrightarrow> store_step cf (st, fl) (st1, fl)"
| unmap: "request \<notin> dom fl \<Longrightarrow> store_step cf (st, fl) (unmapObject request isConnected a st, fl)"
| unsubscribed: "store_step cf (st, fl) (cmdUnsubscribeObject request node identifier masterInst slaveInst st, fl)"
| detached: "request \<notin> dom fl \<Longrightarrow> store_step cf (st, fl) (cmdDetachObject request identifier inst st, fl)"
| unmapped: "store_step cf (st, fl) (cmdUnmapObject identifier st, fl)"
| swap: "\<not> attached st b \<Longrightarrow> \<not> in_flight fl b \<Longrightarrow> store_step cf (st, fl) (swapObject a b st, fl)"
| map_command: "store_step cf (st, fl) (cmdMapObject request node identifier packet st, fl)"
| remove_node: "set_option request \<inter> dom fl = {} \<Longrightarrow> store_step cf (st, fl) (cmdRemoveNode cf request node st, fl)"
| dispatch: "store_step cf (st, fl) (snd (dispatchObjectCommand cf identifier inst cmd st), fl)"
| instance_data: "cmdInstance cf time from identifier data st = Some (flag, st1) \<Longrightarrow> store_step cf (st, fl) (st1, fl)"
| push_data: "cmdObjectPush identifier st = Some (is, st1) \<Longrightarrow> store_step cf (st, fl) (st1, fl)"
| idle: "store_step cf (st, fl) (snd (notifyCommandThreadIdle time nodes st), fl)"
| enable_send: "store_step cf (st, fl) (enableSendOnRegister st, fl)"
| disable_send: "request \<notin> dom fl \<Longrightarrow> store_step cf (st, fl) (disableSendOnRegister cf request st, fl)"
| expire: "store_step cf (st, fl) (expireInstanceData cf now age st, fl)"
| remove_data: "store_step cf (st, fl) (removeInstanceData cf node st, fl)"

inductive store_run :: "StoreConfig \<Rightarrow> 'o ObjectStore \<times> Flights \<Rightarrow> 'o ObjectStore \<times> Flights \<Rightarrow> bool" for cf where
  refl: "store_run cf s s"
| step: "store_run cf s s1 \<Longrightarrow> store_step cf s1 s2 \<Longrightarrow> store_run cf s s2"

section \<open>Steps that attach nothing\<close>

definition shrinks :: "Flights \<Rightarrow> 'o ObjectStore \<Rightarrow> 'o ObjectStore \<Rightarrow> bool" where
  "shrinks fl st st1 = ((table_ok st \<longrightarrow> table_ok st1) \<and> st_instanceIDs st1 = st_instanceIDs st \<and>
     (\<forall>a. attached st1 a \<longrightarrow> attached st a \<and> ob_instanceID (st_heap st1 a) = ob_instanceID (st_heap st a)) \<and>
     (\<forall>r \<in> dom fl. st_requests st1 r = st_requests st r))"

lemma shrinks_refl [simp]: "shrinks fl st st"
  by (simp add: shrinks_def)

lemma shrinks_trans [trans]: "shrinks fl st st1 \<Longrightarrow> shrinks fl st1 st2 \<Longrightarrow> shrinks fl st st2"
  by (auto simp: shrinks_def)

definition keeps_requests :: "Flights \<Rightarrow> 'o ObjectStore \<Rightarrow> 'o ObjectStore \<Rightarrow> bool" where
  "keeps_requests fl st st1 = (\<forall>r \<in> dom fl. st_requests st1 r = st_requests st r)"

lemma shrinks_same: "same_table st st1 \<Longrightarrow> keeps_requests fl st st1 \<Longrightarrow> shrinks fl st st1"
  using same_table_ok [of st st1] same_table_attached [of st st1] by (auto simp: shrinks_def same_table_def keeps_requests_def)

lemma keeps_requests_simps [simp]:
  "keeps_requests fl st (st_send node p st)" "keeps_requests fl st (st\<lparr>st_instanceCache := c\<rparr>)"
  "keeps_requests fl st (st\<lparr>st_sendQueue := s\<rparr>)" "keeps_requests fl st (st\<lparr>st_sendOnRegister := n\<rparr>)"
  "keeps_requests fl st (st\<lparr>st_pushData := d\<rparr>)" "keeps_requests fl st (upd_object a f st)" "keeps_requests fl st st"
  by (simp_all add: keeps_requests_def st_send_def upd_object_def)

lemma keeps_requests_serve: "r \<notin> dom fl \<Longrightarrow> keeps_requests fl st (serveRequest r v st)"
  by (auto simp: keeps_requests_def serveRequest_def)

lemma keeps_requests_trans: "keeps_requests fl st st1 \<Longrightarrow> keeps_requests fl st1 st2 \<Longrightarrow> keeps_requests fl st st2"
  by (simp add: keeps_requests_def)

lemma shrinks_upd: "(\<And>ob. ob_id (f ob) = ob_id ob \<and> ob_instanceID (f ob) = ob_instanceID ob) \<Longrightarrow> shrinks fl st (upd_object a f st)"
  by (intro shrinks_same same_table_upd) simp_all

lemma shrinks_fold: "(\<And>x st. shrinks fl st (f x st)) \<Longrightarrow> shrinks fl st (fold f xs st)"
  by (induction xs arbitrary: st) (auto intro: shrinks_trans)

lemma shrinks_serve: "r \<notin> dom fl \<Longrightarrow> shrinks fl st (serveRequest r v st)"
  by (intro shrinks_same keeps_requests_serve) simp_all

lemma shrinks_simple [simp]:
  "shrinks fl st (st_send node p st)" "shrinks fl st (st\<lparr>st_instanceCache := c\<rparr>)" "shrinks fl st (st\<lparr>st_sendQueue := s\<rparr>)"
  "shrinks fl st (st\<lparr>st_sendOnRegister := n\<rparr>)" "shrinks fl st (st\<lparr>st_pushData := d\<rparr>)"
  by (simp_all add: shrinks_same)

lemma shrinks_request: "r \<notin> dom fl \<Longrightarrow> shrinks fl st (st\<lparr>st_requests := (st_requests st)(r \<mapsto> a)\<rparr>)"
  by (intro shrinks_same) (auto simp: keeps_requests_def)

lemma shrinks_detach: "shrinks fl st (detach_object a st)"
  using detach_ok [of st a] detach_ids [of a st] by (simp add: shrinks_def)

lemma shrinks_cmdDetach: "r \<notin> dom fl \<Longrightarrow> shrinks fl st (cmdDetachObject r i inst st)"
  unfolding cmdDetachObject_def
  by (rule shrinks_trans [OF _ shrinks_serve]) (auto intro: shrinks_detach split: option.split)

lemma shrinks_setup: "shrinks fl st (upd_object a (setupChangeManager type m inst) st)"
  by (rule shrinks_upd) (simp add: setupChangeManager_def)

lemma shrinks_notifyDetach: "shrinks fl st (notifyDetach a st)"
  by (simp add: notifyDetach_def shrinks_fold)

lemma shrinks_cmdDeregister: "r \<notin> dom fl \<Longrightarrow> shrinks fl st (cmdDeregisterObject r st)"
  unfolding cmdDeregisterObject_def by (rule shrinks_trans [OF _ shrinks_serve]) (auto split: option.split)

lemma shrinks_deregister:
  assumes "r \<notin> dom fl" "r2 \<notin> dom fl"
  shows "shrinks fl st (deregisterObject cf r r2 a st)"
proof (cases "isAttached (st_heap st a)")
  case True
  let ?st1 = "notifyDetach a st"
  let ?st2 = "if 0 < cf_sendQueueSize cf then cmdDeregisterObject r (?st1\<lparr>st_requests := (st_requests ?st1)(r \<mapsto> a)\<rparr>) else ?st1"
  let ?st3 = "upd_object a (setupChangeManager TYPE_NONE True EQ_INSTANCE_INVALID) (detachObject a r2 ?st2)"
  have "shrinks fl ?st1 ?st2"
    by (simp, intro impI, rule shrinks_trans [OF shrinks_request [OF assms(1)] shrinks_cmdDeregister [OF assms(1)]])
  then have "shrinks fl st ?st2" by (rule shrinks_trans [OF shrinks_notifyDetach])
  moreover have "shrinks fl ?st2 ?st3" unfolding detachObject_def
    by (rule shrinks_trans [OF shrinks_cmdDetach [OF assms(2)] shrinks_setup])
  ultimately have "shrinks fl st ?st3" by (rule shrinks_trans)
  then have "shrinks fl st (?st3\<lparr>st_instanceCache := c\<rparr>)" for c by (rule shrinks_trans [OF _ shrinks_simple(2)])
  then show ?thesis unfolding deregisterObject_def Let_def if_not_P [OF notI [OF notE [OF _ True]]] by simp
qed (simp add: deregisterObject_def)

lemma shrinks_unmap: "r \<notin> dom fl \<Longrightarrow> shrinks fl st (unmapObject r isConnected a st)"
proof -
  assume r: "r \<notin> dom fl"
  let ?st1 = "notifyDetach a st"
  have "shrinks fl ?st1 (upd_object a (setupChangeManager TYPE_NONE False EQ_INSTANCE_INVALID) (detachObject a r ?st1))"
    unfolding detachObject_def by (rule shrinks_trans [OF shrinks_cmdDetach [OF r] shrinks_setup])
  then show ?thesis
    by (auto simp: unmapObject_def Let_def intro!: shrinks_trans [OF shrinks_notifyDetach [of fl st a]] split: option.split)
qed

lemma shrinks_unsubscribe: "shrinks fl st (cmdUnsubscribeObject r node i m s st)"
  unfolding cmdUnsubscribeObject_def
  by (rule shrinks_trans [OF _ shrinks_simple(1)]) (auto intro: shrinks_upd split: option.split)

lemma shrinks_unmapped: "shrinks fl st (cmdUnmapObject i st)"
proof -
  let ?st = "st\<lparr>st_instanceCache := map_option (\<lambda>c. snd (cache_erase i c)) (st_instanceCache st)\<rparr>"
  have "shrinks fl ?st (fold (\<lambda>a. upd_object a object_detach) (objects_of ?st i) (?st\<lparr>st_objects := (st_objects ?st)(i := None)\<rparr>))"
    using unmap_objects [of ?st i] by (auto simp: shrinks_def unmap_heap attached_def isAttached_def object_detach_def)
  then have "shrinks fl st \<dots>" by (rule shrinks_trans [OF shrinks_simple(2)])
  moreover have "shrinks fl st ?st" by simp
  ultimately show ?thesis by (simp add: cmdUnmapObject_def Let_def objects_of_def split: option.split) (auto simp: objects_of_def)
qed

lemma shrinks_map_command: "shrinks fl st (cmdMapObject r node i p st)"
  unfolding cmdMapObject_def by (auto intro!: shrinks_upd simp: object_addSlave_def split: option.split)

lemma shrinks_remove_node: "set_option r \<inter> dom fl = {} \<Longrightarrow> shrinks fl st (cmdRemoveNode cf r node st)"
  unfolding cmdRemoveNode_def
  by (cases r) (auto intro!: shrinks_fold shrinks_upd intro: shrinks_trans [OF _ shrinks_serve])

lemma shrinks_dispatch: "shrinks fl st (snd (dispatchObjectCommand cf i inst cmd st))"
  by (auto simp: dispatchObjectCommand_def object_dispatch_def intro!: shrinks_fold shrinks_upd split: option.split)

lemma shrinks_deliver: "shrinks fl st (snd (deliver_instance cf i type p st))"
  by (simp add: deliver_instance_def shrinks_dispatch)

lemma shrinks_cache_instance: "cache_instance cf time from i p st = Some st1 \<Longrightarrow> shrinks fl st st1"
  by (auto simp: cache_instance_def split: option.splits)

lemma shrinks_instance: "cmdInstance cf time from i data st = Some (flag, st1) \<Longrightarrow> shrinks fl st st1"
proof -
  let ?p = "data\<lparr>op_command := CMD_OBJECT_INSTANCE\<rparr>"
  assume "cmdInstance cf time from i data st = Some (flag, st1)"
  then obtain st2 where c: "cache_instance cf time from i ?p st = Some st2" and d: "deliver_instance cf i (op_command data) ?p st2 = (flag, st1)"
    by (auto simp: cmdInstance_def Let_def)
  show ?thesis using shrinks_trans [OF shrinks_cache_instance [OF c] shrinks_deliver, of fl cf i "op_command data" ?p] d by simp
qed

lemma shrinks_idle: "shrinks fl st (snd (notifyCommandThreadIdle time nodes st))"
  by (auto simp: notifyCommandThreadIdle_def Let_def split: list.split intro!: shrinks_trans [OF shrinks_upd shrinks_simple(3)])

lemma shrinks_disable: "r \<notin> dom fl \<Longrightarrow> shrinks fl st (disableSendOnRegister cf r st)"
proof -
  assume r: "r \<notin> dom fl"
  have "shrinks fl (st\<lparr>st_sendOnRegister := n\<rparr>) (st\<lparr>st_sendOnRegister := n, st_sendQueue := []\<rparr>)" for n
    by (rule shrinks_simple(3))
  then have "shrinks fl st (st\<lparr>st_sendOnRegister := n, st_sendQueue := []\<rparr>)" for n by (rule shrinks_trans [OF shrinks_simple(4)])
  with r show ?thesis by (auto simp: disableSendOnRegister_def cmdDisableSendOnRegister_def Let_def intro!: shrinks_trans [OF _ shrinks_serve])
qed

lemma shrinks_push: "cmdObjectPush i st = Some (is, st1) \<Longrightarrow> shrinks fl st st1"
  by (auto simp: cmdObjectPush_def)

lemma shrinks_sync: "mapObjectSync plugins unpack a version st = Some (flag, st1) \<Longrightarrow> shrinks fl st st1"
  by (auto simp: mapObjectSync_def intro!: shrinks_upd split: if_splits ChangeManager.splits)

lemma shrinks_cache: "shrinks fl st (expireInstanceData cf now age st)" "shrinks fl st (removeInstanceData cf node st)"
    "shrinks fl st (enableSendOnRegister st)"
  by (simp_all add: expireInstanceData_def removeInstanceData_def enableSendOnRegister_def)

lemma shrinks_release: "release_pins cf i n st = Some st1 \<Longrightarrow> shrinks fl st st1"
  by (auto simp: release_pins_def split: option.splits)

lemma shrinks_use_cached: "shrinks fl st (use_cached a i v st)"
  by (auto simp: use_cached_def intro!: shrinks_trans [OF shrinks_simple(2) shrinks_upd] split: option.split prod.split)

lemma shrinks_reply:
  assumes "cmdMapObjectReply cf from request i packet st = Some st1" "request \<notin> dom fl \<or> rp_node packet \<noteq> cf_nodeID cf"
  shows "shrinks fl st st1"
proof (cases "rp_node packet \<noteq> cf_nodeID cf")
  case False
  have m: "shrinks fl st (upd_object a (\<lambda>ob. ob\<lparr>ob_cm := setMasterNode from (ob_cm ob)\<rparr>) st)" for a by (rule shrinks_upd) simp
  obtain st2 where st2: "st1 = serveRequest request (rp_version packet) st2" "shrinks fl st st2"
  proof -
    note t = shrinks_trans [OF m shrinks_trans [OF shrinks_use_cached shrinks_release]] shrinks_trans [OF m shrinks_release] m shrinks_release
    from assms(1) False show thesis
      by (auto simp: cmdMapObjectReply_def Let_def split: if_splits option.splits intro: that t)
  qed
  then show ?thesis using False assms(2) shrinks_trans [OF st2(2) shrinks_serve] by simp
qed (use assms(1) in \<open>simp add: cmdMapObjectReply_def\<close>)

end
