(* ===== verification/Store_Dispatch.thy ===== *)
theory Store_Dispatch
  imports Store_Run
begin

text \<open>
  In every run of a node the table of objects is right and instance identifiers are unique. Commands
  for one instance therefore reach that instance and no other, and commands for all instances reach
  each of them once.
\<close>

section \<open>Claims on instance identifiers\<close>

text \<open>An identifier is claimed by the object attached under it, or by the object to be mapped under it.\<close>

definition claim :: "'o ObjectStore \<Rightarrow> Flights \<Rightarrow> u32 \<Rightarrow> nat \<Rightarrow> bool" where
  "claim st fl i a = (attached st a \<and> ob_instanceID (st_heap st a) = i \<or>
     (\<exists>r f. fl r = Some f \<and> \<not> fl_attached f \<and> fl_object f = a \<and> mr_instanceID (fl_packet f) = i))"

definition claims_ok :: "StoreConfig \<Rightarrow> 'o ObjectStore \<Rightarrow> Flights \<Rightarrow> bool" where
  "claims_ok cf st fl = ((\<forall>i a. claim st fl i a \<longrightarrow> unat i \<le> generated st) \<and>
     (\<forall>i a b. claim st fl i a \<and> claim st fl i b \<longrightarrow> a = b) \<and> generated st \<le> unat (cf_instanceMax cf))"

definition flights_ok :: "'o ObjectStore \<Rightarrow> Flights \<Rightarrow> bool" where
  "flights_ok st fl = (\<forall>r f. fl r = Some f \<longrightarrow> st_requests st r = Some (fl_object f) \<and>
     (\<not> fl_attached f \<longrightarrow> \<not> attached st (fl_object f)) \<and>
     (\<forall>r1 f1. fl r1 = Some f1 \<and> fl_object f1 = fl_object f \<longrightarrow> r1 = r))"

definition sys_ok :: "StoreConfig \<Rightarrow> 'o ObjectStore \<times> Flights \<Rightarrow> bool" where
  "sys_ok cf = (\<lambda>(st, fl). table_ok st \<and> claims_ok cf st fl \<and> flights_ok st fl)"

lemma claims_mono:
  assumes "claims_ok cf st fl" "\<And>i a. claim st1 fl1 i a \<Longrightarrow> claim st fl i a" "st_instanceIDs st1 = st_instanceIDs st"
  shows "claims_ok cf st1 fl1"
proof -
  have "generated st1 = generated st" using assms(3) by (simp add: generated_def)
  then show ?thesis using assms(1,2) unfolding claims_ok_def by metis
qed

lemma claims_insert:
  assumes "claims_ok cf st fl" "\<And>j b. claim st1 fl1 j b \<Longrightarrow> (j = i \<and> b = a) \<or> claim st fl j b"
    "unat i = Suc (generated st)" "generated st1 = Suc (generated st)" "has_room cf st"
  shows "claims_ok cf st1 fl1"
proof -
  have old: "claim st fl j b \<Longrightarrow> unat j \<le> generated st" "claim st fl j b \<Longrightarrow> claim st fl j c \<Longrightarrow> b = c" for j b c
    using assms(1) unfolding claims_ok_def by blast+
  have new: "\<not> claim st fl i b" for b using old(1) [of i b] assms(3) by auto
  have "unat j \<le> generated st1" if "claim st1 fl1 j b" for j b
    using assms(2) [OF that] old(1) [of j b] assms(3,4) by auto
  moreover have "b = c" if "claim st1 fl1 j b" "claim st1 fl1 j c" for j b c
    using assms(2) [OF that(1)] assms(2) [OF that(2)] old(2) new by blast
  moreover have "generated st1 \<le> unat (cf_instanceMax cf)" using assms(4,5) by (simp add: has_room_def)
  ultimately show ?thesis unfolding claims_ok_def by blast
qed

lemma shrinks_sys_ok:
  assumes "sys_ok cf (st, fl)" "shrinks fl1 st st1" "\<forall>r f. fl1 r = Some f \<longrightarrow> fl r = Some f"
  shows "sys_ok cf (st1, fl1)"
proof -
  have s: "table_ok st \<Longrightarrow> table_ok st1" "st_instanceIDs st1 = st_instanceIDs st"
    "attached st1 a \<Longrightarrow> attached st a" "attached st1 a \<Longrightarrow> ob_instanceID (st_heap st1 a) = ob_instanceID (st_heap st a)"
    "fl1 r = Some f \<Longrightarrow> st_requests st1 r = st_requests st r" for a r f
    using assms(2) by (auto simp: shrinks_def)
  have "claim st1 fl1 i a \<Longrightarrow> claim st fl i a" for i a using s(3,4) assms(3) unfolding claim_def by metis
  then have "claims_ok cf st1 fl1" using assms(1) s(2) claims_mono [of cf st fl st1 fl1] by (simp add: sys_ok_def)
  moreover have "flights_ok st1 fl1" using assms(1,3) s(3,5) unfolding sys_ok_def flights_ok_def by simp metis
  ultimately show ?thesis using assms(1) s(1) by (simp add: sys_ok_def)
qed

section \<open>Attaching\<close>

definition attached_at :: "nat \<Rightarrow> u128 \<Rightarrow> u32 \<Rightarrow> 'o ObjectStore \<Rightarrow> 'o ObjectStore" where
  "attached_at a i inst st = (upd_object a (object_attach i inst) st)\<lparr>st_objects := (st_objects st)(i \<mapsto> objects_of st i @ [a])\<rparr>"

lemma attached_at_simps:
  "inst \<noteq> EQ_INSTANCE_INVALID \<Longrightarrow> attached (attached_at a i inst st) b \<longleftrightarrow> b = a \<or> attached st b"
  "st_instanceIDs (attached_at a i inst st) = st_instanceIDs st" "st_requests (attached_at a i inst st) = st_requests st"
  "ob_instanceID (st_heap (attached_at a i inst st) b) = (if b = a then inst else ob_instanceID (st_heap st b))"
  by (auto simp: attached_at_def attached_def upd_object_def object_attach_def isAttached_def)

lemma next_instance:
  assumes "has_room cf st" "cf_instanceMax cf < EQ_INSTANCE_NONE"
  defines "inst \<equiv> st_instanceIDs st + 1 + 0x7FFFFFFF"
  shows "genNextID (cf_instanceMax cf) (st_instanceIDs st) = (inst, st_instanceIDs st + 1)"
    "unat inst = Suc (generated st)" "inst \<le> cf_instanceMax cf" "inst \<noteq> EQ_INSTANCE_INVALID"
proof -
  have r: "unat (st_instanceIDs st + 0x7FFFFFFF) < unat (cf_instanceMax cf)" using assms(1) by (simp add: has_room_def generated_def)
  show "genNextID (cf_instanceMax cf) (st_instanceIDs st) = (inst, st_instanceIDs st + 1)"
    unfolding inst_def by (rule genNextID_next(1) [OF r])
  show u: "unat inst = Suc (generated st)" unfolding inst_def generated_def by (rule genNextID_next(2) [OF r])
  then show le: "inst \<le> cf_instanceMax cf" using r by (simp add: word_le_nat_alt generated_def)
  have "inst < EQ_INSTANCE_NONE" using le assms(2) by (rule le_less_trans)
  then show "inst \<noteq> EQ_INSTANCE_INVALID" by (auto simp: EQ_INSTANCE_NONE_def EQ_INSTANCE_INVALID_def)
qed

lemma attached_at_table: "table_ok st \<Longrightarrow> \<not> attached st a \<Longrightarrow> inst \<noteq> EQ_INSTANCE_INVALID \<Longrightarrow> table_ok (attached_at a i inst st)"
  unfolding attached_at_def by (rule attach_ok)

lemma register_attaches:
  assumes "has_room cf st" "cf_instanceMax cf < EQ_INSTANCE_NONE"
  obtains st1 st2 i where "same_table st st1" "st_requests st1 = st_requests st" "shrinks fl st2 (registerObject cf time a st)"
    "st2 = attached_at a i (st_instanceIDs st + 1 + 0x7FFFFFFF) (st1\<lparr>st_instanceIDs := st_instanceIDs st + 1\<rparr>)"
proof -
  let ?st1 = "upd_object a (\<lambda>ob. setupChangeManager (ob_changeType ob) True EQ_INSTANCE_INVALID ob) st"
  have s: "same_table st ?st1" by (rule same_table_upd) (simp add: setupChangeManager_def)
  have e: "st_requests ?st1 = st_requests st" "st_instanceIDs ?st1 = st_instanceIDs st" by (simp_all add: upd_object_def)
  let ?st2 = "attach_object cf a (ob_id (st_heap ?st1 a)) EQ_INSTANCE_INVALID ?st1"
  have "?st2 = attached_at a (ob_id (st_heap ?st1 a)) (st_instanceIDs st + 1 + 0x7FFFFFFF) (?st1\<lparr>st_instanceIDs := st_instanceIDs st + 1\<rparr>)"
    using next_instance(1) [OF assms] e(2) by (simp add: attach_object_def attached_at_def objects_of_def upd_object_def)
  moreover have "shrinks fl ?st2 (registerObject cf time a st)"
    by (simp add: registerObject_def Let_def cmdRegisterObject_def)
  ultimately show thesis using that s e(1) by blast
qed

text \<open>Attaching an object that no one else claims an identifier for.\<close>

lemma attached_at_flights:
  assumes "flights_ok st fl" "\<And>b. attached st1 b = attached st b" "\<And>r. r \<in> dom fl \<Longrightarrow> st_requests st1 r = st_requests st r"
    "\<And>r f. fl r = Some f \<Longrightarrow> \<not> fl_attached f \<Longrightarrow> fl_object f \<noteq> a" "inst \<noteq> EQ_INSTANCE_INVALID"
  shows "flights_ok (attached_at a i inst st1) fl"
  unfolding flights_ok_def attached_at_simps(1) [OF assms(5)] attached_at_simps(3) assms(2)
proof (intro allI impI conjI)
  fix r f assume f: "fl r = Some f"
  from assms(1) f have o: "st_requests st r = Some (fl_object f)" "\<not> fl_attached f \<Longrightarrow> \<not> attached st (fl_object f)"
    unfolding flights_ok_def by blast+
  show "st_requests st1 r = Some (fl_object f)" using assms(3) [of r] f o(1) by auto
  show "\<not> fl_attached f \<Longrightarrow> \<not> (fl_object f = a \<or> attached st (fl_object f))" using assms(4) [OF f] o(2) by blast
  fix r1 f1 assume "fl r1 = Some f1 \<and> fl_object f1 = fl_object f"
  then show "r1 = r" using assms(1) f unfolding flights_ok_def by blast
qed

lemma register_sys_ok:
  assumes "sys_ok cf (st, fl)" "\<not> attached st a" "\<not> in_flight fl a" "has_room cf st" "cf_instanceMax cf < EQ_INSTANCE_NONE"
  shows "sys_ok cf (registerObject cf time a st, fl)"
proof -
  let ?inst = "st_instanceIDs st + 1 + 0x7FFFFFFF"
  obtain st1 st2 i where s: "same_table st st1" "st_requests st1 = st_requests st" "shrinks fl st2 (registerObject cf time a st)"
    "st2 = attached_at a i ?inst (st1\<lparr>st_instanceIDs := st_instanceIDs st + 1\<rparr>)"
    using register_attaches [OF assms(4,5)] .
  let ?st1 = "st1\<lparr>st_instanceIDs := st_instanceIDs st + 1\<rparr>"
  note inst = next_instance [OF assms(4,5)]
  have ok: "table_ok st" "claims_ok cf st fl" "flights_ok st fl" using assms(1) by (simp_all add: sys_ok_def)
  have "table_ok st1" using same_table_ok [OF s(1) ok(1)] .
  then have t: "table_ok ?st1" by (simp add: table_ok_def objects_of_def attached_def)
  have u: "attached ?st1 b = attached st b" "ob_instanceID (st_heap ?st1 b) = ob_instanceID (st_heap st b)" for b
    using same_table_attached [OF s(1), of b] s(1) by (simp_all add: attached_def same_table_def)
  have "table_ok st2" unfolding s(4) using t u(1) assms(2) inst(4) by (simp add: attached_at_table)
  moreover have c: "claim st2 fl j b \<Longrightarrow> (j = ?inst \<and> b = a) \<or> claim st fl j b" for j b
    unfolding claim_def s(4) attached_at_simps(1) [OF inst(4)] attached_at_simps(4) u by (metis (full_types))
  have "generated st2 = Suc (generated st)" using inst(2) by (simp add: s(4) generated_def attached_at_simps)
  then have "claims_ok cf st2 fl" using claims_insert [OF ok(2) c inst(2) _ assms(4)] by blast
  moreover have "flights_ok st2 fl" unfolding s(4)
    by (rule attached_at_flights [OF ok(3) u(1)]) (use s(2) assms(3) inst(4) in \<open>auto simp: in_flight_def\<close>)
  ultimately have "sys_ok cf (st2, fl)" by (simp add: sys_ok_def)
  then show ?thesis by (rule shrinks_sys_ok [OF _ s(3)]) simp
qed

lemma map_sys_ok:
  assumes "sys_ok cf (st, fl)" "request \<notin> dom fl" "\<not> in_flight fl a" "has_room cf st" "cf_instanceMax cf < EQ_INSTANCE_NONE"
    "mapObjectNB cf request a i version master isConn st = (Some packet, st1)"
  shows "sys_ok cf (st1, fl(request \<mapsto> \<lparr>fl_object = a, fl_id = i, fl_packet = packet, fl_attached = False\<rparr>))"
proof -
  let ?inst = "st_instanceIDs st + 1 + 0x7FFFFFFF" and ?f = "\<lparr>fl_object = a, fl_id = i, fl_packet = packet, fl_attached = False\<rparr>"
  note inst = next_instance [OF assms(4,5)]
  have ok: "table_ok st" "claims_ok cf st fl" "flights_ok st fl" using assms(1) by (simp_all add: sys_ok_def)
  from assms(6) inst(1) have m: "st_objects st1 = st_objects st" "st_heap st1 = st_heap st" "st_instanceIDs st1 = st_instanceIDs st + 1"
    "st_requests st1 = (st_requests st)(request \<mapsto> a)" "mr_instanceID packet = ?inst" "\<not> attached st a"
    by (auto simp: mapObjectNB_def Let_def st_send_def map_request_def attached_def split: if_splits option.splits prod.splits)
  have t: "attached st1 b = attached st b" "objects_of st1 = objects_of st" for b by (simp_all add: attached_def m(1,2) objects_of_def [abs_def])
  have "table_ok st1" using ok(1) m(1,2) t unfolding table_ok_def by simp
  moreover have c: "claim st1 (fl(request \<mapsto> ?f)) j b \<Longrightarrow> (j = ?inst \<and> b = a) \<or> claim st fl j b" for j b
    unfolding claim_def t m(2) by (auto simp: m(5) split: if_splits)
  have "generated st1 = Suc (generated st)" using inst(2) by (simp add: m(3) generated_def)
  then have "claims_ok cf st1 (fl(request \<mapsto> ?f))" using claims_insert [OF ok(2) c inst(2) _ assms(4)] by blast
  moreover have "flights_ok st1 (fl(request \<mapsto> ?f))"
    unfolding flights_ok_def t(1) m(4)
  proof (intro allI impI conjI)
    fix r f assume f: "(fl(request \<mapsto> ?f)) r = Some f"
    show "((st_requests st)(request \<mapsto> a)) r = Some (fl_object f)" "\<not> fl_attached f \<Longrightarrow> \<not> attached st (fl_object f)"
      using f ok(3) m(6) unfolding flights_ok_def by (auto split: if_splits)
    fix r1 f1 assume "(fl(request \<mapsto> ?f)) r1 = Some f1 \<and> fl_object f1 = fl_object f"
    then show "r1 = r" using f ok(3) assms(2,3) unfolding flights_ok_def in_flight_def by (auto split: if_splits) blast
  qed
  ultimately show ?thesis by (simp add: sys_ok_def)
qed

lemma success_sys_ok:
  assumes "sys_ok cf (st, fl)" "fl request = Some f" "\<not> fl_attached f" "cf_instanceMax cf < EQ_INSTANCE_NONE"
  shows "sys_ok cf (cmdMapObjectSuccess cf (cf_nodeID cf) request (fl_id f) (mr_instanceID (fl_packet f)) type masterInst st,
    fl(request \<mapsto> f\<lparr>fl_attached := True\<rparr>))"
proof -
  let ?a = "fl_object f" and ?inst = "mr_instanceID (fl_packet f)"
  let ?st1 = "upd_object ?a (setupChangeManager type False masterInst) st"
  have s: "same_table st ?st1" by (rule same_table_upd) (simp add: setupChangeManager_def)
  have ok: "table_ok st" "claims_ok cf st fl" "flights_ok st fl" using assms(1) by (simp_all add: sys_ok_def)
  have f: "st_requests st request = Some ?a" "\<not> attached st ?a" using ok(3) assms(2,3) unfolding flights_ok_def by blast+
  have cl: "claim st fl ?inst ?a" using assms(2,3) unfolding claim_def by blast
  then have "?inst \<le> cf_instanceMax cf" using ok(2) unfolding claims_ok_def word_le_nat_alt by (meson order_trans)
  then have "?inst < EQ_INSTANCE_NONE" using assms(4) by (rule le_less_trans)
  then have inst: "?inst \<noteq> EQ_INSTANCE_INVALID" by (auto simp: EQ_INSTANCE_NONE_def EQ_INSTANCE_INVALID_def)
  let ?st2 = "attached_at ?a (fl_id f) ?inst ?st1" and ?fl = "fl(request \<mapsto> f\<lparr>fl_attached := True\<rparr>)"
  have e: "cmdMapObjectSuccess cf (cf_nodeID cf) request (fl_id f) ?inst type masterInst st = ?st2"
    using f(1) inst by (simp add: cmdMapObjectSuccess_def attach_object_eq attached_at_def)
  have t: "attached ?st1 b = attached st b" "ob_instanceID (st_heap ?st1 b) = ob_instanceID (st_heap st b)" for b
    using same_table_attached [OF s] s by (simp_all add: same_table_def)
  have "table_ok ?st2" using same_table_ok [OF s ok(1)] f(2) t(1) inst by (simp add: attached_at_table)
  moreover have "claim ?st2 ?fl j b \<Longrightarrow> claim st fl j b" for j b
    unfolding claim_def attached_at_simps(1) [OF inst] attached_at_simps(4) t using cl [unfolded claim_def] assms(2,3)
    by (auto split: if_splits)
  then have "claims_ok cf ?st2 ?fl" by (rule claims_mono [OF ok(2)]) (simp_all add: attached_at_simps upd_object_def)
  moreover have "flights_ok st ?fl" using ok(3) assms(2) unfolding flights_ok_def by auto
  then have "flights_ok ?st2 ?fl"
  proof (rule attached_at_flights)
    fix r f1 assume "?fl r = Some f1" "\<not> fl_attached f1"
    then show "fl_object f1 \<noteq> ?a" using ok(3) assms(2) unfolding flights_ok_def by (auto split: if_splits)
  qed (use t inst in \<open>simp_all add: upd_object_def\<close>)
  ultimately show ?thesis unfolding e by (simp add: sys_ok_def)
qed

lemma swap_sys_ok:
  assumes "sys_ok cf (st, fl)" "\<not> attached st b" "\<not> in_flight fl b"
  shows "sys_ok cf (swapObject a b st, fl)"
proof (cases "swapObject a b st = st")
  case False
  have ok: "table_ok st" "claims_ok cf st fl" "flights_ok st fl" using assms(1) by (simp_all add: sys_ok_def)
  let ?st = "swapObject a b st"
  have h: "st_heap ?st = (st_heap st)(b := fst (object_transfer (st_heap st a) (st_heap st b)), a := snd (object_transfer (st_heap st a) (st_heap st b)))"
    and o: "st_instanceIDs ?st = st_instanceIDs st" "st_requests ?st = st_requests st" and a: "attached st a"
    using False by (auto simp: swapObject_def Let_def attached_def split_beta split: if_splits option.splits)
  have ab: "a \<noteq> b" using a assms(2) by auto
  have t: "attached ?st c = (c = b \<or> c \<noteq> a \<and> attached st c)" "ob_instanceID (st_heap ?st b) = ob_instanceID (st_heap st a)" 
    "c \<noteq> a \<Longrightarrow> c \<noteq> b \<Longrightarrow> ob_instanceID (st_heap ?st c) = ob_instanceID (st_heap st c)" for c
    using ab a by (auto simp: h attached_def isAttached_def object_transfer_def)
  let ?i = "ob_instanceID (st_heap st a)"
  have c: "claim ?st fl j c \<Longrightarrow> (j = ?i \<and> c = b) \<or> (claim st fl j c \<and> c \<noteq> b)" for j c
    unfolding claim_def t(1) using t(2,3) assms(3) unfolding in_flight_def by metis
  have ca: "claim st fl ?i a" using a by (simp add: claim_def)
  have na: "\<not> claim ?st fl ?i c" if "c \<noteq> b" for c
  proof
    assume k: "claim ?st fl ?i c"
    then have "claim st fl ?i c" using c that by blast
    then have "c = a" using ca ok(2) unfolding claims_ok_def by blast
    with k obtain r f where "fl r = Some f" "\<not> fl_attached f" "fl_object f = a" using ab unfolding claim_def t(1) by blast
    then show False using ok(3) a unfolding flights_ok_def by blast
  qed
  have g: "generated ?st = generated st" by (simp add: generated_def o(1))
  have "claims_ok cf ?st fl" unfolding claims_ok_def g
  proof (intro conjI allI impI)
    show "generated st \<le> unat (cf_instanceMax cf)" using ok(2) unfolding claims_ok_def by blast
    show "unat j \<le> generated st" if "claim ?st fl j d" for j d
      using c [OF that] ca ok(2) unfolding claims_ok_def by blast
    show "d = e" if "claim ?st fl j d \<and> claim ?st fl j e" for j d e
      using that c [of j d] c [of j e] na ok(2) unfolding claims_ok_def by metis
  qed
  moreover have "flights_ok ?st fl" using ok(3) assms(3) a ab unfolding flights_ok_def o t(1) in_flight_def by blast
  ultimately show ?thesis using swap_ok [OF ok(1) assms(2)] by (simp add: sys_ok_def)
qed (use assms(1) in simp)

section \<open>Runs\<close>

lemma step_sys_ok:
  assumes "store_step cf s s1" "cf_instanceMax cf < EQ_INSTANCE_NONE" "sys_ok cf s"
  shows "sys_ok cf s1"
  using assms(1,3)
proof cases
  case (register st a fl time)
  then show ?thesis using register_sys_ok assms(2,3) by blast
next
  case (map_object request fl a st i version master isConn packet st1)
  then show ?thesis using map_sys_ok assms(2,3) by blast
next
  case (success fl request f st)
  then show ?thesis using success_sys_ok assms(2,3) by blast
next
  case (reply fl request f packet fr st st1)
  have "shrinks (fl(request := None)) st st1" by (rule shrinks_reply [OF reply(7)]) simp
  then show ?thesis using assms(3) shrinks_sys_ok [of cf st fl "fl(request := None)" st1] unfolding reply(1,2) by simp
next
  case (swap st b fl a)
  then show ?thesis using swap_sys_ok assms(3) by blast
next
  case (other_success node st fl)
  then show ?thesis using assms(3) by (simp add: cmdMapObjectSuccess_def)
qed (use assms(3) in \<open>auto intro: shrinks_sys_ok shrinks_deregister shrinks_reply shrinks_sync shrinks_unmap shrinks_unsubscribe
  shrinks_cmdDetach shrinks_unmapped shrinks_map_command shrinks_remove_node shrinks_dispatch shrinks_instance shrinks_push shrinks_idle
  shrinks_disable shrinks_cache\<close>)

lemma run_sys_ok: "store_run cf s s1 \<Longrightarrow> cf_instanceMax cf < EQ_INSTANCE_NONE \<Longrightarrow> sys_ok cf s \<Longrightarrow> sys_ok cf s1"
  by (induction rule: store_run.induct) (auto intro: step_sys_ok)

lemma new_sys_ok: "\<forall>a. \<not> isAttached (heap a) \<Longrightarrow> sys_ok cf (new_store cache heap, Map.empty)"
  by (simp add: sys_ok_def table_ok_def claims_ok_def claim_def flights_ok_def new_store_def objects_of_def attached_def generated_def)

text \<open>C22. The table of objects: in every run of a node, the list of an identifier has exactly the
  attached objects with that identifier, each once, no list is empty, and no two attached objects
  of the node have the same instance identifier.\<close>

theorem object_table_exact:
  assumes "store_run cf (new_store cache heap, Map.empty) (st, fl)" "cf_instanceMax cf < EQ_INSTANCE_NONE" "\<forall>a. \<not> isAttached (heap a)"
  shows "distinct (objects_of st i) \<and> set (objects_of st i) = {a. isAttached (st_heap st a) \<and> ob_id (st_heap st a) = i} \<and>
    st_objects st i \<noteq> Some [] \<and> inj_on (\<lambda>a. ob_instanceID (st_heap st a)) {a. isAttached (st_heap st a)}"
proof -
  have "sys_ok cf (st, fl)" by (rule run_sys_ok [OF assms(1,2) new_sys_ok [OF assms(3)]])
  then have ok: "table_ok st" "claims_ok cf st fl" by (simp_all add: sys_ok_def)
  have "inj_on (\<lambda>a. ob_instanceID (st_heap st a)) {a. isAttached (st_heap st a)}"
    using ok(2) unfolding claims_ok_def claim_def attached_def inj_on_def by blast
  with ok(1) show ?thesis unfolding table_ok_def attached_def by blast
qed

text \<open>A node that has registered one object.\<close>

definition demo_config :: StoreConfig where
  "demo_config = \<lparr>cf_nodeID = 1, cf_instanceMax = 0xfffffff0, cf_isGenerated = (\<lambda>i. i \<noteq> 0), cf_sendQueueSize = 100,
     cf_sendQueueAge = 100, cf_order = (\<lambda>m. sorted_list_of_set (dom m)), cf_objectsOrder = (\<lambda>m. sorted_list_of_set (dom m))\<rparr>"

definition demo_object :: "unit Object" where
  "demo_object = \<lparr>ob_id = 5, ob_instanceID = EQ_INSTANCE_INVALID, ob_cm = NullCM, ob_content = (), ob_changeType = TYPE_STATIC,
     ob_maxVersions = 0, ob_compressor = \<lparr>cmp_name = 0, cmp_compress = (\<lambda>b. [b])\<rparr>, ob_bufferSize = 8, ob_instanceData = []\<rparr>"

definition demo_store :: "unit ObjectStore" where
  "demo_store = registerObject demo_config 0 3 (new_store None (\<lambda>_. demo_object))"

lemma demo_store_run: "store_run demo_config (new_store None (\<lambda>_. demo_object), Map.empty) (demo_store, Map.empty)"
  unfolding demo_store_def
  by (rule store_run.step [OF store_run.refl], rule store_step.register)
    (simp_all add: new_store_def attached_def isAttached_def demo_object_def in_flight_def has_room_def generated_def demo_config_def)

lemma demo_room: "cf_instanceMax demo_config < EQ_INSTANCE_NONE" "\<forall>a :: nat. \<not> isAttached ((\<lambda>_. demo_object) a)"
  by (simp_all add: demo_config_def EQ_INSTANCE_NONE_def isAttached_def demo_object_def)

lemma demo_members: "isAttached (st_heap demo_store a) = (a = 3)" "ob_id (st_heap demo_store a) = 5" "ob_instanceID (st_heap demo_store 3) = 1"
proof -
  have "genNextID 0xfffffff0 (- 0x7FFFFFFF) = (1, - 0x7FFFFFFE)" by (subst genNextID.simps) (simp add: Let_def)
  then have h: "st_heap demo_store = (\<lambda>_. demo_object)(3 := object_attach 5 1 (setupChangeManager TYPE_STATIC True EQ_INSTANCE_INVALID demo_object))"
    by (simp add: demo_store_def registerObject_def Let_def attach_object_def upd_object_def new_store_def cmdRegisterObject_def demo_config_def
      demo_object_def setupChangeManager_def)
  show "isAttached (st_heap demo_store a) = (a = 3)" "ob_id (st_heap demo_store a) = 5" "ob_instanceID (st_heap demo_store 3) = 1"
    by (simp_all add: h isAttached_def object_attach_def demo_object_def EQ_INSTANCE_INVALID_def)
qed

theorem object_table_exact_witness:
  "distinct (objects_of demo_store 5) \<and> set (objects_of demo_store 5) = {3} \<and> st_objects demo_store 5 \<noteq> Some [] \<and>
     inj_on (\<lambda>a. ob_instanceID (st_heap demo_store a)) {a. isAttached (st_heap demo_store a)}"
  using object_table_exact [OF demo_store_run demo_room, of 5] by (simp add: demo_members)

section \<open>Dispatch\<close>

lemma fold_upd_heap:
  "distinct as \<Longrightarrow> fold (\<lambda>a. upd_object a f) as st = st\<lparr>st_heap := (\<lambda>a. if a \<in> set as then f (st_heap st a) else st_heap st a)\<rparr>"
proof (induction as arbitrary: st)
  case (Cons a as)
  then show ?case by (auto simp: upd_object_def fun_eq_iff intro!: arg_cong [where f = "\<lambda>h. st_heap_update h st"])
qed simp

text \<open>C13. Commands reach exactly the instances they are meant for. In every run of a node: a command for
  an attached instance changes that instance alone; a command for all instances reaches every
  attached object with the identifier once and no other; a command for an identifier that is not
  attached changes nothing, and is kept for later unless it was sent to all nodes.\<close>

theorem dispatch_exact:
  assumes "store_run cf (new_store cache heap, Map.empty) (st, fl)" "cf_instanceMax cf < EQ_INSTANCE_NONE" "\<forall>a. \<not> isAttached (heap a)"
  defines "members i \<equiv> {a. isAttached (st_heap st a) \<and> ob_id (st_heap st a) = i}"
  shows "(\<forall>a \<in> members i. dispatchObjectCommand cf i (ob_instanceID (st_heap st a)) cmd st = (True, upd_object a (object_dispatch cmd) st)) \<and>
    (members i \<noteq> {} \<and> cf_instanceMax cf < inst \<longrightarrow> dispatchObjectCommand cf i inst cmd st =
       (True, st\<lparr>st_heap := (\<lambda>a. if a \<in> members i then object_dispatch cmd (st_heap st a) else st_heap st a)\<rparr>)) \<and>
    (members i = {} \<longrightarrow> dispatchObjectCommand cf i inst cmd st = (inst = EQ_INSTANCE_NONE, st))"
proof -
  have "sys_ok cf (st, fl)" by (rule run_sys_ok [OF assms(1,2) new_sys_ok [OF assms(3)]])
  then have ok: "table_ok st" "claims_ok cf st fl" by (simp_all add: sys_ok_def)
  have m: "set (objects_of st i) = members i" "distinct (objects_of st i)" "st_objects st i \<noteq> Some []"
    using ok(1) by (auto simp: table_ok_def members_def attached_def)
  have some: "st_objects st i = Some (objects_of st i)" if "members i \<noteq> {}"
    using that m(1) by (cases "st_objects st i") (auto simp: objects_of_def)
  have none: "st_objects st i = None" if "members i = {}"
    using that m(1,3) by (cases "st_objects st i") (auto simp: objects_of_def)
  have uni: "dispatchObjectCommand cf i (ob_instanceID (st_heap st a)) cmd st = (True, upd_object a (object_dispatch cmd) st)"
    if a: "a \<in> members i" for a
  proof -
    let ?inst = "ob_instanceID (st_heap st a)"
    have c: "claim st fl ?inst a" using a by (simp add: claim_def members_def attached_def)
    then have le: "?inst \<le> cf_instanceMax cf" using ok(2) unfolding claims_ok_def word_le_nat_alt by (meson order_trans)
    have u: "b = a" if "b \<in> set (objects_of st i)" "ob_instanceID (st_heap st b) = ?inst" for b
    proof -
      have "claim st fl ?inst b" using that m(1) by (auto simp: claim_def members_def attached_def)
      with c show ?thesis using ok(2) unfolding claims_ok_def by blast
    qed
    have "find (\<lambda>b. ob_instanceID (st_heap st b) = ?inst) (objects_of st i) \<noteq> None"
      using a m(1) by (auto simp: find_None_iff)
    then obtain b where b: "find (\<lambda>b. ob_instanceID (st_heap st b) = ?inst) (objects_of st i) = Some b" by blast
    then have "b \<in> set (objects_of st i) \<and> ob_instanceID (st_heap st b) = ?inst" by (auto simp: find_Some_iff)
    with u have "b = a" by blast
    moreover have "st_objects st i = Some (objects_of st i)" using some a by blast
    ultimately show ?thesis using b le by (simp add: dispatchObjectCommand_def find_instance_def)
  qed
  moreover have "dispatchObjectCommand cf i inst cmd st =
      (True, st\<lparr>st_heap := (\<lambda>a. if a \<in> members i then object_dispatch cmd (st_heap st a) else st_heap st a)\<rparr>)"
    if "members i \<noteq> {} \<and> cf_instanceMax cf < inst"
  proof -
    have "\<not> inst \<le> cf_instanceMax cf" "st_objects st i = Some (objects_of st i)" using that some by auto
    then show ?thesis using fold_upd_heap [OF m(2), of "object_dispatch cmd" st] m(1) by (simp add: dispatchObjectCommand_def)
  qed
  moreover have "dispatchObjectCommand cf i inst cmd st = (inst = EQ_INSTANCE_NONE, st)" if "members i = {}"
    using none [OF that] by (simp add: dispatchObjectCommand_def)
  ultimately show ?thesis by blast
qed

theorem dispatch_exact_witness:
  "dispatchObjectCommand demo_config 5 1 (MAX_VERSION_CMD 7 1 2) demo_store =
     (True, upd_object 3 (object_dispatch (MAX_VERSION_CMD 7 1 2)) demo_store)"
  using dispatch_exact [OF demo_store_run demo_room, of 5 "MAX_VERSION_CMD 7 1 2" 1] by (simp add: demo_members)

end
