(* ===== verification/Cache_Safety.thy ===== *)
theory Cache_Safety
  imports Cache_Accounting
begin

text \<open>
  What the instance cache promises its users: data that a mapping has pinned stays, and the size is
  right as long as only complete streams are released; the code also releases incomplete ones.
\<close>

section \<open>The size of the cache\<close>

definition item_bytes :: "CacheItem option \<Rightarrow> nat" where
  "item_bytes i = (case i of None \<Rightarrow> 0 | Some item \<Rightarrow> sum_list (map is_getDataSize (filter is_isReady (ci_versions item))))"

definition cache_bytes :: "InstanceCache \<Rightarrow> nat" where
  "cache_bytes c = (\<Sum>k \<in> UNIV. item_bytes (ic_items c k))"

definition item_ready :: "CacheItem option \<Rightarrow> bool" where
  "item_ready i = (case i of None \<Rightarrow> True | Some item \<Rightarrow> \<forall>s \<in> set (ci_versions item). is_isReady s)"

definition exact :: "InstanceCache \<Rightarrow> bool" where
  "exact c = (ic_size c = of_nat (cache_bytes c) \<and> (\<forall>k. item_ready (ic_items c k)))"

lemma cache_bytes_upd:
  assumes "ic_items c1 = (ic_items c)(k := i)"
  shows "cache_bytes c1 + item_bytes (ic_items c k) = cache_bytes c + item_bytes i"
proof -
  have "cache_bytes c1 = item_bytes i + (\<Sum>j \<in> UNIV - {k}. item_bytes (ic_items c j))"
    unfolding cache_bytes_def assms by (subst sum.remove [of UNIV k]) auto
  moreover have "cache_bytes c = item_bytes (ic_items c k) + (\<Sum>j \<in> UNIV - {k}. item_bytes (ic_items c j))"
    unfolding cache_bytes_def by (subst sum.remove [of UNIV k]) auto
  ultimately show ?thesis by simp
qed

lemma exact_upd:
  assumes "exact c" "ic_items c1 = (ic_items c)(k := i)" "item_ready i"
    and "ic_size c1 + of_nat (item_bytes (ic_items c k)) = ic_size c + of_nat (item_bytes i)"
  shows "exact c1"
proof -
  have "(of_nat (cache_bytes c1 + item_bytes (ic_items c k)) :: u64) = of_nat (cache_bytes c + item_bytes i)"
    by (simp only: cache_bytes_upd [OF assms(2)])
  then have "of_nat (cache_bytes c1) + of_nat (item_bytes (ic_items c k)) = ic_size c1 + of_nat (item_bytes (ic_items c k))"
    using assms(1,4) by (simp add: exact_def)
  then have "ic_size c1 = of_nat (cache_bytes c1)" by simp
  then show ?thesis using assms(1-3) by (auto simp: exact_def)
qed

lemma ready_bytes: "\<forall>s \<in> set ss. is_isReady s \<Longrightarrow> filter is_isReady ss = ss"
  by (rule filter_True)

lemma exact_drop_first:
  assumes "exact c" "candidate u c k"
  shows "exact (drop_first k c)"
proof -
  from assms(2) obtain item s ss where i: "ic_items c k = Some item" "ci_versions item = s # ss"
    "ic_items (drop_first k c) = (ic_items c)(k \<mapsto> item\<lparr>ci_versions := ss, ci_times := tl (ci_times item)\<rparr>)"
    "ic_size (drop_first k c) = deleteStream s (ic_size c)" by (rule drop_first_items)
  have "item_ready (ic_items c k)" using assms(1) by (simp add: exact_def)
  then show ?thesis using i by (intro exact_upd [OF assms(1) i(3)]) (auto simp: item_ready_def item_bytes_def deleteStream_def)
qed

lemma exact_erase_empty: "exact c \<Longrightarrow> exact (erase_empty k c)"
  by (auto simp: erase_empty_def item_ready_def item_bytes_def intro!: exact_upd [of c _ k None] split: option.split)

lemma exact_releaseItems:
  assumes "enumerates order" "exact c"
  shows "\<exists>c1. releaseItems order u c = Some c1 \<and> exact c1"
  by (rule releaseItems_rule [where P = exact, OF assms]) (auto intro: exact_drop_first exact_erase_empty)

lemma fold_deleteStream: "fold deleteStream ss n = n - of_nat (sum_list (map is_getDataSize ss))"
  by (induction ss arbitrary: n) (simp_all add: deleteStream_def)

lemma releaseStreams_eq:
  "releaseStreams (item, n) = (item\<lparr>ci_versions := [], ci_times := []\<rparr>, n - of_nat (sum_list (map is_getDataSize (ci_versions item))))"
  by (simp add: releaseStreams_def fold_deleteStream rev_map [symmetric] sum_list_rev)

lemma release_older_eq:
  "release_older t ss ts n = (ss1, ts1, n1) \<Longrightarrow>
    \<exists>pre. ss = pre @ ss1 \<and> n1 = n - of_nat (sum_list (map is_getDataSize pre)) \<and> (\<forall>s \<in> set pre. is_isReady s)"
proof (induction t ss ts n rule: release_older.induct)
  case (1 t s ss tm ts n)
  show ?case
  proof (cases "tm \<le> t \<and> is_isReady s")
    case True
    with 1 obtain pre where "ss = pre @ ss1" "n1 = deleteStream s n - of_nat (sum_list (map is_getDataSize pre))" "\<forall>s \<in> set pre. is_isReady s"
      by auto
    then show ?thesis using True by (intro exI [of _ "s # pre"]) (simp add: deleteStream_def)
  next
    case False
    with 1 show ?thesis by (intro exI [of _ "[]"]) auto
  qed
qed (auto intro!: exI [of _ "[]"])

text \<open>Emptying an item.\<close>

lemma exact_releaseStreams:
  assumes "exact c" "ic_items c k = Some item"
  shows "exact (put_item k (releaseStreams (item, ic_size c)) c)"
proof -
  have "item_ready (Some item)" using assms by (metis exact_def)
  then show ?thesis using assms(2)
    by (intro exact_upd [OF assms(1), of _ k "Some (item\<lparr>ci_versions := [], ci_times := []\<rparr>)"])
      (auto simp: releaseStreams_eq item_ready_def item_bytes_def ready_bytes)
qed

definition item_empty :: "InstanceCache \<Rightarrow> u128 \<Rightarrow> bool" where
  "item_empty c k = (\<forall>item. ic_items c k = Some item \<longrightarrow> ci_versions item = [])"

lemma exact_erase_item: "exact c \<Longrightarrow> item_empty c k \<Longrightarrow> exact (erase_item k c)"
  by (rule exact_upd [of c _ k None]) (simp_all add: item_empty_def item_ready_def item_bytes_def split: option.split)

lemma exact_erase_items: "exact c \<Longrightarrow> \<forall>k \<in> set keys. item_empty c k \<Longrightarrow> exact (fold erase_item keys c)"
proof (induction keys arbitrary: c)
  case (Cons k keys)
  have "\<forall>j \<in> set keys. item_empty (erase_item k c) j" using Cons.prems(2) by (auto simp: item_empty_def)
  with Cons show ?case by (simp add: exact_erase_item)
qed simp

lemma exact_remove_loop:
  "exact c \<Longrightarrow> \<forall>k \<in> set keys. item_empty c k \<Longrightarrow> remove_loop n ks (keys, c) = (keys1, c1) \<Longrightarrow>
    exact c1 \<and> (\<forall>k \<in> set keys1. item_empty c1 k)"
proof (induction ks arbitrary: keys c)
  case (Cons k ks)
  show ?case
  proof (cases "\<exists>item. ic_items c k = Some item \<and> ci_from item = n \<and> ci_access item = 0")
    case True
    then obtain item where i: "ic_items c k = Some item" "ci_from item = n" "ci_access item = 0" by blast
    let ?c = "put_item k (releaseStreams (item, ic_size c)) c"
    have "\<forall>j \<in> set (keys @ [k]). item_empty ?c j" using Cons.prems(2) by (auto simp: item_empty_def releaseStreams_eq)
    moreover have "remove_loop n ks (keys @ [k], ?c) = (keys1, c1)" using Cons.prems(3) i by simp
    ultimately show ?thesis by (rule Cons.IH [OF exact_releaseStreams [OF Cons.prems(1) i(1)]])
  next
    case False
    with Cons show ?thesis by (auto split: option.splits if_splits)
  qed
qed simp

lemma exact_expire_loop:
  "exact c \<Longrightarrow> \<forall>k \<in> set keys. item_empty c k \<Longrightarrow> distinct (keys @ ks) \<Longrightarrow> expire_loop t ks (keys, c) = (keys1, c1) \<Longrightarrow>
    exact c1 \<and> (\<forall>k \<in> set keys1. item_empty c1 k)"
proof (induction ks arbitrary: keys c)
  case (Cons k ks)
  show ?case
  proof (cases "\<exists>item. ic_items c k = Some item \<and> ci_access item = 0")
    case True
    then obtain item where i: "ic_items c k = Some item" "ci_access item = 0" by blast
    obtain ss ts n where r: "release_older t (ci_versions item) (ci_times item) (ic_size c) = (ss, ts, n)" using prod_cases3 by blast
    from release_older_eq [OF r] obtain pre where p: "ci_versions item = pre @ ss" "n = ic_size c - of_nat (sum_list (map is_getDataSize pre))" by blast
    let ?item = "item\<lparr>ci_versions := ss, ci_times := ts\<rparr>"
    let ?c = "put_item k (?item, n) c" and ?keys = "if ss = [] then keys @ [k] else keys"
    have "item_ready (Some item)" using Cons.prems(1) i by (metis exact_def)
    then have "exact ?c" using i p
      by (intro exact_upd [OF Cons.prems(1), of _ k "Some ?item"]) (auto simp: item_ready_def item_bytes_def ready_bytes)
    moreover have "\<forall>j \<in> set ?keys. item_empty ?c j" using Cons.prems(2,3) by (auto simp: item_empty_def)
    moreover have "distinct (?keys @ ks)" using Cons.prems(3) by auto
    moreover have "expire_loop t ks (?keys, ?c) = (keys1, c1)" using Cons.prems(4) i r by (simp add: releaseStreams_time_def)
    ultimately show ?thesis by (rule Cons.IH)
  next
    case False
    with Cons show ?thesis by (auto split: option.splits if_splits)
  qed
qed simp

text \<open>A packet that completes its stream.\<close>

definition complete_packet :: "ObjectDataPacket \<Rightarrow> bool" where
  "complete_packet p = (op_last p \<and> op_version p \<noteq> VERSION_INVALID)"

lemma complete_stream: "complete_packet p \<Longrightarrow> is_isReady (is_addDataPacket p s)"
  by (simp add: complete_packet_def is_isReady_def is_addDataPacket_def is_getPendingVersion_def Let_def)

lemma prepare_ready:
  assumes "prepare_item time version inst n usage (item, m) = Some (item1, m1)" "item_ready (Some item)"
  shows "\<exists>ss. ci_versions item1 = ss @ [new_istream] \<and> (\<forall>s \<in> set ss. is_isReady s) \<and>
    m1 - of_nat (sum_list (map is_getDataSize ss)) = m - of_nat (item_bytes (Some item))"
proof -
  have r: "\<forall>s \<in> set (ci_versions item). is_isReady s" using assms(2) by (simp add: item_ready_def)
  then have b: "item_bytes (Some item) = sum_list (map is_getDataSize (ci_versions item))" by (simp add: item_bytes_def ready_bytes)
  have l: "is_isReady (last (ci_versions item))" if "ci_versions item \<noteq> []" using that r by simp
  show ?thesis using assms(1) r l
    by (auto simp: b prepare_item_def Let_def releaseStreams_eq add_stream_def split: if_splits)
qed

lemma exact_add:
  assumes "enumerates order" "exact c" "complete_packet p"
  shows "\<exists>b c1. cache_add order time v inst n p usage c = Some (b, c1) \<and> exact c1"
proof -
  let ?k = "ov_identifier v"
  let ?item = "case ic_items c ?k of None \<Rightarrow> new_item inst n | Some item \<Rightarrow> item"
  have ready: "item_ready (Some ?item)"
    using assms(2) by (auto simp: exact_def item_ready_def new_item_def split: option.splits)
  have bytes: "item_bytes (Some ?item) = item_bytes (ic_items c ?k)" by (simp add: item_bytes_def new_item_def split: option.split)
  show ?thesis
  proof (cases "prepare_item time (ov_version v) inst n usage (?item, ic_size c)")
    case None
    let ?c = "put_item ?k (rejected_item inst n usage ?item, ic_size c) c"
    have "exact ?c" using ready bytes
      by (intro exact_upd [OF assms(2), of _ ?k "Some (rejected_item inst n usage ?item)"])
        (simp_all add: rejected_item_def item_ready_def item_bytes_def)
    then show ?thesis using None by (intro exI [of _ False] exI [of _ ?c]) (simp add: cache_add_def Let_def)
  next
    case (Some r)
    then obtain item1 m1 where r: "prepare_item time (ov_version v) inst n usage (?item, ic_size c) = Some (item1, m1)" by (cases r) auto
    from prepare_ready [OF r ready] obtain ss where ss: "ci_versions item1 = ss @ [new_istream]" "\<forall>s \<in> set ss. is_isReady s"
      "m1 - of_nat (sum_list (map is_getDataSize ss)) = ic_size c - of_nat (item_bytes (Some ?item))" by blast
    let ?s = "is_addDataPacket p new_istream"
    let ?item2 = "item1\<lparr>ci_versions := ss @ [?s]\<rparr>" and ?m2 = "m1 + of_nat (is_getDataSize ?s)"
    let ?c = "put_item ?k (?item2, ?m2) c"
    have s: "is_isReady ?s" by (rule complete_stream [OF assms(3)])
    have "m1 = ic_size c - of_nat (item_bytes (Some ?item)) + of_nat (sum_list (map is_getDataSize ss))" using ss(3) by (simp add: algebra_simps)
    then have "exact ?c" using ss(2) s bytes
      by (intro exact_upd [OF assms(2), of _ ?k "Some ?item2"]) (auto simp: item_ready_def item_bytes_def ready_bytes)
    then obtain c1 where c1: "releaseItems order 1 ?c = Some c1" "exact c1" using exact_releaseItems [OF assms(1)] by blast
    then obtain c2 where c2: "releaseItems order 0 c1 = Some c2" "exact c2" using exact_releaseItems [OF assms(1)] by blast
    show ?thesis using r ss(1) s c1 c2 by (intro exI [of _ True] exI [of _ c2]) (simp add: cache_add_def Let_def)
  qed
qed

lemma exact_exec:
  assumes "enumerates order" "exact c" "\<And>t v i n p u. x = Add t v i n p u \<Longrightarrow> complete_packet p"
  shows "\<exists>c1. cache_exec order x c = Some c1 \<and> exact c1"
proof (cases x)
  case (Add t v i n p u)
  then show ?thesis using exact_add [OF assms(1,2) assms(3) [OF Add], of t v i n u] by auto
next
  case (Remove n)
  obtain keys c1 where r: "remove_loop n (order (ic_items c)) ([], c) = (keys, c1)" by fastforce
  from exact_remove_loop [OF assms(2) _ r] show ?thesis using Remove r by (simp add: cache_remove_def exact_erase_items)
next
  case (Lookup k)
  show ?thesis
  proof (cases "ic_items c k")
    case (Some item)
    let ?item = "item\<lparr>ci_access := ci_access item + 1, ci_used := ci_used item + 1\<rparr>"
    have "item_ready (Some item)" using assms(2) Some by (metis exact_def)
    then have "exact (put_item k (?item, ic_size c) c)" using Some
      by (intro exact_upd [OF assms(2), of _ k "Some ?item"]) (simp_all add: item_ready_def item_bytes_def)
    then show ?thesis using Lookup Some by (simp add: cache_lookup_def)
  qed (use Lookup assms(2) in \<open>simp add: cache_lookup_def\<close>)
next
  case (Release k count)
  show ?thesis
  proof (cases "ic_items c k")
    case (Some item)
    let ?item = "item\<lparr>ci_access := ci_access item - count\<rparr>"
    have "item_ready (Some item)" using assms(2) Some by (metis exact_def)
    then have "exact (put_item k (?item, ic_size c) c)" using Some
      by (intro exact_upd [OF assms(2), of _ k "Some ?item"]) (simp_all add: item_ready_def item_bytes_def)
    from exact_releaseItems [OF assms(1) this, of 1] show ?thesis using Release Some by (auto simp: cache_release_def)
  qed (use Release assms(2) in \<open>simp add: cache_release_def\<close>)
next
  case (Erase k)
  show ?thesis
  proof (cases "\<exists>item. ic_items c k = Some item \<and> ci_access item = 0")
    case True
    then obtain item where i: "ic_items c k = Some item" "ci_access item = 0" by blast
    have "exact (erase_item k (put_item k (releaseStreams (item, ic_size c)) c))"
      by (intro exact_erase_item exact_releaseStreams [OF assms(2) i(1)]) (simp add: item_empty_def releaseStreams_eq)
    then show ?thesis using Erase i by (simp add: cache_erase_def)
  next
    case False
    then show ?thesis using Erase assms(2) by (auto simp: cache_erase_def split: option.split)
  qed
next
  case (Expire now timeout)
  obtain keys c1 where r: "expire_loop (now - timeout) (order (ic_items c)) ([], c) = (keys, c1)" by fastforce
  from exact_expire_loop [OF assms(2) _ _ r] show ?thesis using Expire r assms(1,2)
    by (simp add: cache_expire_def exact_erase_items enumerates_def Let_def)
qed

text \<open>C28. The size of the cache is right: whatever is added, looked up, released, expired and removed,
  every operation returns, and \<open>_size\<close> is the number of bytes of the streams held, as long as
  every packet added is a complete stream.\<close>

theorem cache_size_exact:
  assumes "enumerates order" "\<forall>t v i n p u. Add t v i n p u \<in> set xs \<longrightarrow> complete_packet p"
  shows "\<exists>c. cache_run order xs (new_cache maxSize) = Some c \<and> ic_size c = of_nat (cache_bytes c)"
proof -
  have "exact c \<Longrightarrow> \<exists>c1. cache_run order xs c = Some c1 \<and> exact c1" for c
    using assms(2)
  proof (induction xs arbitrary: c)
    case (Cons x xs)
    from exact_exec [OF assms(1) Cons.prems(1), of x] Cons.prems(2) obtain c1 where c1: "cache_exec order x c = Some c1" "exact c1" by auto
    have "\<exists>c2. cache_run order xs c1 = Some c2 \<and> exact c2" by (rule Cons.IH [OF c1(2)]) (use Cons.prems(2) in auto)
    with c1(1) show ?case by simp
  qed simp
  from this [of "new_cache maxSize"] obtain c where "cache_run order xs (new_cache maxSize) = Some c" "exact c"
    by (auto simp: exact_def new_cache_def cache_bytes_def item_bytes_def item_ready_def)
  then show ?thesis by (simp add: exact_def)
qed

definition demo_order :: "(u128 \<rightharpoonup> CacheItem) \<Rightarrow> u128 list" where
  "demo_order m = sorted_list_of_set (dom m)"

lemma demo_order: "enumerates demo_order"
  by (simp add: enumerates_def demo_order_def)

definition cache_packet :: "bool \<Rightarrow> nat \<Rightarrow> ObjectDataPacket" where
  "cache_packet isLast n = \<lparr>op_command = CMD_OBJECT_INSTANCE, op_version = 1, op_sequence = 0, op_dataSize = n, op_compressorName = 1,
     op_chunks = [], op_last = isLast, op_nodeID = 0, op_instanceID = 0, op_masterInstanceID = 0\<rparr>"

theorem cache_size_exact_witness:
  "\<exists>c. cache_run demo_order [Add 0 \<lparr>ov_identifier = 4, ov_version = 1\<rparr> 2 7 (cache_packet True 100) 0, Lookup 4, Remove 7] (new_cache 1000) = Some c \<and>
     ic_size c = of_nat (cache_bytes c)"
  by (rule cache_size_exact [OF demo_order]) (simp add: complete_packet_def cache_packet_def VERSION_INVALID_def)

section \<open>Data in use\<close>

text \<open>What stays of an item that is in use: its master, and every complete stream.\<close>

definition keeps :: "CacheItem \<Rightarrow> CacheItem \<Rightarrow> bool" where
  "keeps item item1 = (ci_masterInstanceID item1 = ci_masterInstanceID item \<and> ci_from item1 = ci_from item \<and>
     length (ci_versions item) \<le> length (ci_versions item1) \<and>
     (\<forall>j < length (ci_versions item). is_isReady (ci_versions item ! j) \<longrightarrow> ci_versions item1 ! j = ci_versions item ! j))"

definition pinned :: "u128 \<Rightarrow> CacheItem \<Rightarrow> InstanceCache \<Rightarrow> bool" where
  "pinned k item c = (ic_items c k = Some item \<and> ci_access item \<noteq> 0 \<and> ci_versions item \<noteq> [])"

lemma pinned_drop_first: "pinned k item c \<Longrightarrow> candidate u c j \<Longrightarrow> pinned k item (drop_first j c)"
  by (cases "j = k") (auto simp: pinned_def candidate_def evictable_def drop_first_other)

lemma pinned_erase_empty: "pinned k item c \<Longrightarrow> pinned k item (erase_empty j c)"
  by (auto simp: pinned_def erase_empty_def split: option.split)

lemma pinned_releaseItems:
  "enumerates order \<Longrightarrow> pinned k item c \<Longrightarrow> \<exists>c1. releaseItems order u c = Some c1 \<and> pinned k item c1"
  by (rule releaseItems_rule [where P = "pinned k item"]) (auto intro: pinned_drop_first pinned_erase_empty)

lemma pinned_put_other: "pinned k item c \<Longrightarrow> j \<noteq> k \<Longrightarrow> pinned k item (put_item j r c)"
  by (cases r) (simp add: pinned_def)

lemma pinned_erase_items: "pinned k item c \<Longrightarrow> k \<notin> set keys \<Longrightarrow> pinned k item (fold erase_item keys c)"
  by (induction keys arbitrary: c) (auto simp: pinned_def)

lemma pinned_remove_loop:
  "pinned k item c \<Longrightarrow> k \<notin> set keys \<Longrightarrow> remove_loop n ks (keys, c) = (keys1, c1) \<Longrightarrow> pinned k item c1 \<and> k \<notin> set keys1"
proof (induction ks arbitrary: keys c)
  case (Cons j ks)
  show ?case
  proof (cases "\<exists>it. ic_items c j = Some it \<and> ci_from it = n \<and> ci_access it = 0")
    case True
    then obtain it where it: "ic_items c j = Some it" "ci_from it = n" "ci_access it = 0" by blast
    then have j: "j \<noteq> k" using Cons.prems(1) by (auto simp: pinned_def)
    show ?thesis using Cons.IH [OF pinned_put_other [OF Cons.prems(1) j], of "keys @ [j]"] Cons.prems(2,3) it j by simp
  next
    case False
    with Cons show ?thesis by (auto split: option.splits if_splits)
  qed
qed simp

lemma pinned_expire_loop:
  "pinned k item c \<Longrightarrow> k \<notin> set keys \<Longrightarrow> expire_loop t ks (keys, c) = (keys1, c1) \<Longrightarrow> pinned k item c1 \<and> k \<notin> set keys1"
proof (induction ks arbitrary: keys c)
  case (Cons j ks)
  show ?case
  proof (cases "\<exists>it. ic_items c j = Some it \<and> ci_access it = 0")
    case True
    then obtain it where it: "ic_items c j = Some it" "ci_access it = 0" by blast
    then have j: "j \<noteq> k" using Cons.prems(1) by (auto simp: pinned_def)
    obtain it1 n where r: "releaseStreams_time t (it, ic_size c) = (it1, n)" by fastforce
    let ?keys = "if ci_versions it1 = [] then keys @ [j] else keys"
    have "k \<notin> set ?keys" using Cons.prems(2) j by simp
    moreover have "expire_loop t ks (?keys, put_item j (it1, n) c) = (keys1, c1)" using Cons.prems(3) it r by simp
    ultimately show ?thesis by (rule Cons.IH [OF pinned_put_other [OF Cons.prems(1) j]])
  next
    case False
    with Cons show ?thesis by (auto split: option.splits if_splits)
  qed
qed simp

text \<open>A packet for an item in use is rejected, or goes to the last stream or to a new one.\<close>

lemma keeps_add:
  assumes "ci_access item \<noteq> 0" "ci_versions item \<noteq> []"
    "prepare_item time version inst n usage (item, m) = Some (item1, m1)"
  shows "keeps item (item1\<lparr>ci_versions := butlast (ci_versions item1) @ [s]\<rparr>) \<and> ci_access item1 = ci_access item"
proof -
  have *: "j = length (ci_versions item) - Suc 0" if "\<not> j < length (ci_versions item) - Suc 0" "j < length (ci_versions item)" for j
    using that by linarith
  show ?thesis using assms
    by (auto simp: prepare_item_def Let_def keeps_def add_stream_def nth_append nth_butlast last_conv_nth split: if_splits dest!: *)
qed

lemma keeps_rejected: "keeps item (rejected_item inst n usage item) \<and> ci_access (rejected_item inst n usage item) = ci_access item
    \<and> ci_versions (rejected_item inst n usage item) = ci_versions item"
  by (simp add: keeps_def rejected_item_def)

lemma pinned_add:
  assumes "enumerates order" "pinned k item c"
  shows "\<exists>b c1 item1. cache_add order time v inst n p usage c = Some (b, c1) \<and> pinned k item1 c1 \<and> keeps item item1 \<and>
    ci_access item1 = ci_access item"
proof -
  let ?k = "ov_identifier v"
  let ?it = "case ic_items c ?k of None \<Rightarrow> new_item inst n | Some item \<Rightarrow> item"
  have k: "ci_access item \<noteq> 0" "ci_versions item \<noteq> []" "ic_items c k = Some item" using assms(2) by (auto simp: pinned_def)
  show ?thesis
  proof (cases "prepare_item time (ov_version v) inst n usage (?it, ic_size c)")
    case None
    let ?it1 = "rejected_item inst n usage ?it"
    let ?c = "put_item ?k (?it1, ic_size c) c"
    have "\<exists>item1. pinned k item1 ?c \<and> keeps item item1 \<and> ci_access item1 = ci_access item"
    proof (cases "?k = k")
      case True
      with k keeps_rejected [of item inst n usage] show ?thesis by (intro exI [of _ ?it1]) (simp add: pinned_def)
    next
      case False
      then show ?thesis using pinned_put_other [OF assms(2)] by (intro exI [of _ item]) (simp add: keeps_def)
    qed
    then show ?thesis using None by (intro exI [of _ False] exI [of _ ?c]) (simp add: cache_add_def Let_def)
  next
    case (Some r)
    then obtain it1 m1 where r: "prepare_item time (ov_version v) inst n usage (?it, ic_size c) = Some (it1, m1)" by (cases r) auto
    let ?s = "is_addDataPacket p (last (ci_versions it1))"
    let ?it2 = "it1\<lparr>ci_versions := butlast (ci_versions it1) @ [?s]\<rparr>"
    let ?m2 = "if is_isReady ?s then m1 + of_nat (is_getDataSize ?s) else m1"
    let ?c = "put_item ?k (?it2, ?m2) c"
    have "\<exists>item1. pinned k item1 ?c \<and> keeps item item1 \<and> ci_access item1 = ci_access item"
    proof (cases "?k = k")
      case True
      with k r keeps_add [of item time "ov_version v" inst n usage "ic_size c" it1 m1 ?s] show ?thesis
        by (intro exI [of _ ?it2]) (simp add: pinned_def)
    next
      case False
      then show ?thesis using pinned_put_other [OF assms(2)] by (intro exI [of _ item]) (simp add: keeps_def)
    qed
    then obtain item1 where i: "pinned k item1 ?c" "keeps item item1" "ci_access item1 = ci_access item" by blast
    from pinned_releaseItems [OF assms(1) i(1)] obtain c1 where c1: "releaseItems order 1 ?c = Some c1" "pinned k item1 c1" by blast
    from pinned_releaseItems [OF assms(1) this(2)] obtain c2 where c2: "releaseItems order 0 c1 = Some c2" "pinned k item1 c2" by blast
    show ?thesis using r i(2,3) c1 c2 by (intro exI [of _ True] exI [of _ c2] exI [of _ item1]) (simp add: cache_add_def Let_def)
  qed
qed

definition access_after :: "u128 \<Rightarrow> cache_call \<Rightarrow> u32 \<Rightarrow> u32" where
  "access_after k x n = (if x = Lookup k then n + 1 else n)"

definition releases :: "u128 \<Rightarrow> cache_call \<Rightarrow> bool" where
  "releases k x = (\<exists>count. x = Release k count)"

lemma pinned_exec:
  assumes "enumerates order" "pinned k item c" "\<not> releases k x" "x = Lookup k \<Longrightarrow> ci_access item + 1 \<noteq> 0"
  shows "\<exists>c1 item1. cache_exec order x c = Some c1 \<and> pinned k item1 c1 \<and> keeps item item1 \<and>
    ci_access item1 = access_after k x (ci_access item)"
proof (cases x)
  case (Add t v i n p u)
  then show ?thesis using pinned_add [OF assms(1,2), of t v i n p u] by (auto simp: access_after_def)
next
  case (Remove n)
  obtain keys c1 where r: "remove_loop n (order (ic_items c)) ([], c) = (keys, c1)" by fastforce
  from pinned_remove_loop [OF assms(2) _ r] have "pinned k item (fold erase_item keys c1)" by (simp add: pinned_erase_items)
  then show ?thesis using Remove r by (auto simp: cache_remove_def keeps_def access_after_def)
next
  case (Lookup j)
  show ?thesis
  proof (cases "j = k")
    case True
    let ?item = "item\<lparr>ci_access := ci_access item + 1, ci_used := ci_used item + 1\<rparr>"
    show ?thesis using True Lookup assms(2,4)
      by (intro exI [of _ "put_item k (?item, ic_size c) c"] exI [of _ ?item]) (auto simp: cache_lookup_def pinned_def keeps_def access_after_def)
  next
    case False
    then have "pinned k item (snd (cache_lookup j c))" using assms(2) by (auto simp: cache_lookup_def pinned_def split: option.split)
    then show ?thesis using Lookup False by (auto simp: keeps_def access_after_def)
  qed
next
  case (Release j count)
  then have j: "j \<noteq> k" using assms(3) by (auto simp: releases_def)
  have "\<exists>b c1. cache_release order j count c = Some (b, c1) \<and> pinned k item c1"
  proof (cases "ic_items c j")
    case (Some it)
    from pinned_releaseItems [OF assms(1) pinned_put_other [OF assms(2) j], of 1] Some show ?thesis
      by (fastforce simp: cache_release_def)
  next
    case None
    then show ?thesis using assms(2) by (intro exI [of _ False] exI [of _ c]) (simp add: cache_release_def)
  qed
  then show ?thesis using Release by (auto simp: keeps_def access_after_def)
next
  case (Erase j)
  have "pinned k item (snd (cache_erase j c))" using assms(2)
    by (auto simp: cache_erase_def pinned_def put_item_def split: option.split prod.split)
  then show ?thesis using Erase by (auto simp: keeps_def access_after_def)
next
  case (Expire now timeout)
  obtain keys c1 where r: "expire_loop (now - timeout) (order (ic_items c)) ([], c) = (keys, c1)" by fastforce
  from pinned_expire_loop [OF assms(2) _ r] have "pinned k item (cache_expire order now timeout c)"
    using r assms(2) by (simp add: cache_expire_def pinned_erase_items Let_def)
  then show ?thesis using Expire by (auto simp: keeps_def access_after_def)
qed

lemma keeps_trans: "keeps a b \<Longrightarrow> keeps b c \<Longrightarrow> keeps a c"
  by (auto simp: keeps_def)

text \<open>C11. Data in use stays: from a lookup on, whatever else is added, looked up, released, erased,
  removed and expired, until the object itself is released, every operation returns and the item
  keeps its master and all its complete streams, and it is in use once more for each lookup.\<close>

theorem pinned_data_stays:
  assumes "enumerates order" "ic_items c k = Some item" "ci_access item \<noteq> 0" "ci_versions item \<noteq> []"
    "\<forall>x \<in> set xs. \<not> releases k x" "unat (ci_access item) + count_list xs (Lookup k) < 2 ^ 32"
  shows "\<exists>c1 item1. cache_run order xs c = Some c1 \<and> ic_items c1 k = Some item1 \<and> keeps item item1 \<and>
    unat (ci_access item1) = unat (ci_access item) + count_list xs (Lookup k)"
proof -
  have "pinned k item c" using assms(2-4) by (simp add: pinned_def)
  then have "\<exists>c1 item1. cache_run order xs c = Some c1 \<and> pinned k item1 c1 \<and> keeps item item1 \<and>
    unat (ci_access item1) = unat (ci_access item) + count_list xs (Lookup k)"
    using assms(5,6)
  proof (induction xs arbitrary: c item)
    case Nil
    then show ?case by (intro exI [of _ c] exI [of _ item]) (simp add: keeps_def)
  next
    case (Cons x xs)
    let ?n = "if x = Lookup k then 1 else 0 :: nat"
    have "ci_access item \<noteq> - 1" if "x = Lookup k" using that Cons.prems(3) by (auto simp: unsigned_minus_1_eq_mask mask_eq_exp_minus_1)
    then have n: "unat (access_after k x (ci_access item)) = unat (ci_access item) + ?n"
      and z: "x = Lookup k \<Longrightarrow> ci_access item + 1 \<noteq> 0"
      by (auto simp: access_after_def unat_inc eq_neg_iff_add_eq_0)
    from pinned_exec [OF assms(1) Cons.prems(1) _ z, of x] Cons.prems(2) obtain c1 item1 where
      1: "cache_exec order x c = Some c1" "pinned k item1 c1" "keeps item item1" "ci_access item1 = access_after k x (ci_access item)"
      by auto
    have l: "count_list (x # xs) (Lookup k) = ?n + count_list xs (Lookup k)" by simp
    from Cons.IH [OF 1(2)] Cons.prems(2,3) n 1(4) l obtain c2 item2 where
      "cache_run order xs c1 = Some c2" "pinned k item2 c2" "keeps item1 item2"
      "unat (ci_access item2) = unat (ci_access item1) + count_list xs (Lookup k)" by auto
    with 1 n l show ?case using keeps_trans [OF 1(3)] by (intro exI [of _ c2] exI [of _ item2]) simp
  qed
  then show ?thesis by (auto simp: pinned_def)
qed

theorem pinned_data_stays_witness:
  "\<exists>c1 item1. cache_run demo_order [Expire 50 10, Lookup 4, Remove 7]
       (new_cache 10\<lparr>ic_items := [4 \<mapsto> new_item 2 7\<lparr>ci_access := 1, ci_versions := [new_istream]\<rparr>]\<rparr>) = Some c1 \<and>
     ic_items c1 4 = Some item1 \<and> keeps (new_item 2 7\<lparr>ci_access := 1, ci_versions := [new_istream]\<rparr>) item1 \<and>
     unat (ci_access item1) = Suc (Suc 0)"
  using pinned_data_stays [OF demo_order, of "new_cache 10\<lparr>ic_items := [4 \<mapsto> new_item 2 7\<lparr>ci_access := 1, ci_versions := [new_istream]\<rparr>]\<rparr>"
    4 "new_item 2 7\<lparr>ci_access := 1, ci_versions := [new_istream]\<rparr>" "[Expire 50 10, Lookup 4, Remove 7]"]
  by (simp add: releases_def)

section \<open>The limit\<close>

lemma releaseItems_maxSize: "enumerates order \<Longrightarrow> releaseItems order u c = Some c1 \<Longrightarrow> ic_maxSize c1 = ic_maxSize c"
  using releaseItems_rule [of order "\<lambda>c1. ic_maxSize c1 = ic_maxSize c" c u] drop_first_items [of u]
  by (metis (no_types, lifting) erase_empty_size(2) option.inject)

text \<open>C36. The limit is kept as far as data in use allows: after a packet has been added, the size of the
  cache is at most its maximum, or every item that still has streams is in use.\<close>

theorem add_within_limit:
  assumes "enumerates order" "cache_add order time v inst n p usage c = Some (True, c1)"
  shows "ic_size c1 \<le> ic_maxSize c \<or> (\<forall>k item. ic_items c1 k = Some item \<and> ci_access item = 0 \<longrightarrow> ci_versions item = [])"
proof -
  obtain c2 c3 where c: "releaseItems order 1 c2 = Some c3" "releaseItems order 0 c3 = Some c1" "ic_maxSize c2 = ic_maxSize c"
    using assms(2) by (auto simp: cache_add_def Let_def bind_eq_Some_conv split: option.splits)
  then have "ic_maxSize c3 = ic_maxSize c" using releaseItems_maxSize [OF assms(1)] by simp
  with releaseItems_done [OF assms(1) c(2) release_target_le] show ?thesis by (auto simp: candidate_def evictable_def)
qed

theorem add_within_limit_witness:
  "\<exists>c1. cache_add demo_order 0 \<lparr>ov_identifier = 4, ov_version = 1\<rparr> 2 7 (cache_packet True 100) 0 (new_cache 1000) = Some (True, c1) \<and>
     (ic_size c1 \<le> 1000 \<or> (\<forall>k item. ic_items c1 k = Some item \<and> ci_access item = 0 \<longrightarrow> ci_versions item = []))"
proof -
  have "\<exists>c1. cache_add demo_order 0 \<lparr>ov_identifier = 4, ov_version = 1\<rparr> 2 7 (cache_packet True 100) 0 (new_cache 1000) = Some (True, c1)"
    by (simp add: cache_add_def prepare_item_def Let_def new_cache_def new_item_def add_stream_def releaseItems_def is_isReady_def is_getDataSize_def
      is_addDataPacket_def is_getPendingVersion_def new_istream_def cache_packet_def VERSION_INVALID_def word_le_nat_alt)
  then obtain c1 where c1: "cache_add demo_order 0 \<lparr>ov_identifier = 4, ov_version = 1\<rparr> 2 7 (cache_packet True 100) 0 (new_cache 1000) = Some (True, c1)" by blast
  from add_within_limit [OF demo_order c1] c1 show ?thesis by (simp add: new_cache_def)
qed

section \<open>Incomplete streams\<close>

text \<open>The bytes of a stream are counted when it becomes complete, but \<open>_deleteStream\<close> subtracts those
  of any stream. Removing a node while one of its objects is transferred makes the size wrap around.\<close>

definition ruined :: "u64 \<Rightarrow> nat \<Rightarrow> InstanceCache" where
  "ruined maxSize d = \<lparr>ic_items = Map.empty, ic_maxSize = maxSize, ic_size = - of_nat d\<rparr>"

lemma enumerates_single: "enumerates order \<Longrightarrow> order [k \<mapsto> item] = [k]"
proof -
  assume "enumerates order"
  then have o: "set (order [k \<mapsto> item]) = {k}" "distinct (order [k \<mapsto> item])" by (auto simp: enumerates_def)
  then have "length (order [k \<mapsto> item]) = 1" using distinct_card by fastforce
  with o(1) show ?thesis by (auto simp: length_Suc_conv)
qed

lemma remove_incomplete:
  assumes "enumerates order" "\<not> op_last p"
  shows "cache_run order [Add t v i n p u, Remove n] (new_cache m) = Some (ruined m (op_dataSize p))"
  using assms(2)
  by (simp add: cache_add_def prepare_item_def Let_def new_cache_def new_item_def add_stream_def releaseItems_def is_isReady_def
    is_addDataPacket_def new_istream_def cache_remove_def enumerates_single [OF assms(1)] releaseStreams_eq is_getDataSize_def
    put_item_def erase_item_def ruined_def)

text \<open>Releasing in a cache that holds one stream, which is not in use.\<close>

lemma release_single:
  assumes "enumerates order" "ic_items c = [k \<mapsto> item]" "ic_maxSize c < ic_size c" "ci_access item = 0" "ci_used item = 0"
    "ci_versions item = [s]"
  shows "releaseItems order 1 c = Some c" "releaseItems order 0 c = Some (c\<lparr>ic_items := Map.empty, ic_size := ic_size c - of_nat (is_getDataSize s)\<rparr>)"
proof -
  have t: "release_target (ic_maxSize c) < ic_size c" using release_target_le assms(3) by (rule le_less_trans)
  have o: "order (ic_items c) = [k]" by (simp add: assms(1,2) enumerates_single)
  show "releaseItems order 1 c = Some c" using assms(2-5) o t
    by (simp add: releaseItems_def Let_def first_round_Cons evict_def evictable_def release_rounds.simps)
  show "releaseItems order 0 c = Some (c\<lparr>ic_items := Map.empty, ic_size := ic_size c - of_nat (is_getDataSize s)\<rparr>)" using assms(2-6) o t
    by (simp add: releaseItems_def Let_def first_round_Cons evict_def evictable_def release_rounds.simps stream_left_def drop_first_def
      releaseFirstStream_def deleteStream_def erase_empty_def erase_item_def put_item_def)
qed

lemma ruined_add:
  assumes "enumerates order" "complete_packet q" "m < of_nat (op_dataSize q) - of_nat d"
  shows "cache_exec order (Add t v i n q 0) (ruined m d) = Some (ruined m d)"
proof -
  let ?s = "is_addDataPacket q new_istream"
  let ?item = "new_item i n\<lparr>ci_versions := [?s], ci_times := [t]\<rparr>"
  let ?c = "put_item (ov_identifier v) (?item, of_nat (op_dataSize q) - of_nat d) (ruined m d)"
  have r: "is_isReady ?s" by (rule complete_stream [OF assms(2)])
  have d: "is_getDataSize ?s = op_dataSize q" by (simp add: is_getDataSize_def is_addDataPacket_def new_istream_def Let_def)
  have "releaseItems order 1 ?c = Some ?c" "releaseItems order 0 ?c = Some (ruined m d)"
    using release_single [OF assms(1), of ?c "ov_identifier v" ?item ?s] assms(3) d by (simp_all add: ruined_def new_item_def put_item_def)
  moreover have "cache_exec order (Add t v i n q 0) (ruined m d) =
      map_option snd (map_option (Pair True) (Option.bind (releaseItems order 1 ?c) (releaseItems order 0)))"
    using r d by (simp add: cache_add_def prepare_item_def Let_def new_item_def add_stream_def ruined_def)
  ultimately show ?thesis by simp
qed

lemma cache_run_append: "cache_run order (xs @ ys) c = Option.bind (cache_run order xs c) (cache_run order ys)"
proof (induction xs arbitrary: c)
  case (Cons x xs)
  then show ?case by (cases "cache_exec order x c") simp_all
qed simp

lemma wrapped_size:
  assumes "e < d" "d \<le> 2 ^ 63" "(m :: u64) < 2 ^ 63"
  shows "m < of_nat e - of_nat d"
proof -
  have "(of_nat (2 ^ 64 - (d - e)) :: u64) = of_nat (2 ^ 64) - of_nat (d - e)" using assms(2) by (intro of_nat_diff) simp
  moreover have "(of_nat (2 ^ 64) :: u64) = 0" by simp
  ultimately have "(of_nat e - of_nat d :: u64) = of_nat (2 ^ 64 - (d - e))" using assms(1) by (simp add: of_nat_diff)
  moreover have "unat (of_nat (2 ^ 64 - (d - e)) :: u64) = 2 ^ 64 - (d - e)"
    using assms(1) by (simp add: unsigned_of_nat take_bit_nat_eq_self)
  ultimately have "unat (of_nat e - of_nat d :: u64) = 2 ^ 64 - (d - e)" by simp
  moreover have "unat m < 2 ^ 63" using assms(3) by (simp add: word_less_nat_alt)
  ultimately show ?thesis using assms(1,2) by (simp add: word_less_nat_alt)
qed



end
