(* ===== verification/Cache_Frame.thy ===== *)
theory Cache_Frame
  imports Cache_Safety
begin

text \<open>
  What the operations of the instance cache leave alone: the access counts, the data in use, and that
  no item is without streams.
\<close>

section \<open>Items have streams\<close>

definition nonempty :: "InstanceCache \<Rightarrow> bool" where
  "nonempty c = (\<forall>k item. ic_items c k = Some item \<longrightarrow> ci_versions item \<noteq> [])"

definition empties_in :: "u128 list \<Rightarrow> InstanceCache \<Rightarrow> bool" where
  "empties_in keys c = (\<forall>k item. ic_items c k = Some item \<and> ci_versions item = [] \<longrightarrow> k \<in> set keys)"

lemma drop_first_other_items: "j \<noteq> k \<Longrightarrow> ic_items (drop_first k c) j = ic_items c j"
  by (cases "releaseFirstStream (the (ic_items c k), ic_size c)") (simp add: drop_first_def)

lemma empties_drop_first: "empties_in keys c \<Longrightarrow> k \<in> set keys \<Longrightarrow> empties_in keys (drop_first k c)"
  unfolding empties_in_def by (metis drop_first_other_items)

lemma empties_round: "empties_in keys c \<Longrightarrow> set ks \<subseteq> set keys \<Longrightarrow> empties_in keys (snd (release_round u target ks (left, c)))"
  by (induction ks arbitrary: left c) (simp_all add: round_Cons empties_drop_first)

lemma empties_rounds:
  assumes "release_rounds u target keys left c = Some c1" "empties_in keys c"
  shows "empties_in keys c1"
proof -
  let ?Q = "\<lambda>u t keys left c c1. empties_in keys c \<longrightarrow> empties_in keys c1"
  have "?Q u target keys left c c1"
  proof (rule release_rounds.raw_induct [where P = ?Q, OF _ assms(1)], intro impI)
    fix f u t keys left c c1
    assume IH: "\<And>u t keys left c c1. f u t keys left c = Some c1 \<Longrightarrow> ?Q u t keys left c c1"
      and f: "(if left \<and> t < ic_size c then case release_round u t keys (False, c) of (l, c') \<Rightarrow> f u t keys l c' else Some c) = Some c1"
      and e: "empties_in keys c"
    from empties_round [OF e order_refl, of u t False] f IH e show "empties_in keys c1" by (auto split: if_splits prod.splits)
  qed
  with assms(2) show ?thesis by simp
qed

lemma empties_first_round:
  "empties_in keys c \<Longrightarrow> release_first_round u target ks (left, keys, c) = (left1, keys1, c1) \<Longrightarrow> empties_in keys1 c1"
proof (induction ks arbitrary: left keys c)
  case (Cons k ks)
  have "empties_in (keys @ [k]) c" using Cons.prems(1) by (auto simp: empties_in_def)
  then have e: "empties_in (keys @ [k]) (drop_first k c)" by (rule empties_drop_first) simp
  show ?case using Cons.prems(2) Cons.IH [OF e] Cons.IH [OF Cons.prems(1)] Cons.prems(1)
    by (simp add: first_round_Cons split: if_splits)
qed simp

lemma erase_empties_items:
  "ic_items (fold erase_empty ks c) k = (if k \<in> set ks \<and> item_empty c k then None else ic_items c k)"
proof (induction ks arbitrary: c)
  case (Cons j ks)
  have "ic_items (erase_empty j c) k = (if k = j \<and> item_empty c k then None else ic_items c k)"
    by (auto simp: erase_empty_def item_empty_def split: option.split)
  moreover from this have "item_empty (erase_empty j c) k = item_empty c k" by (auto simp: item_empty_def)
  ultimately show ?case using Cons.IH [of "erase_empty j c"] by auto
qed simp

lemma nonempty_releaseItems:
  assumes "nonempty c" "releaseItems order u c = Some c1"
  shows "nonempty c1"
proof (cases "ic_size c \<le> ic_maxSize c")
  case True
  with assms show ?thesis by (simp add: releaseItems_def)
next
  case False
  let ?t = "release_target (ic_maxSize c)"
  obtain left keys c2 where r: "release_first_round u ?t (order (ic_items c)) (False, [], c) = (left, keys, c2)"
    using prod_cases3 by blast
  obtain c3 where c3: "release_rounds u ?t keys left c2 = Some c3" "c1 = fold erase_empty keys c3"
    using assms(2) False r by (auto simp: releaseItems_def Let_def)
  have "empties_in [] c" using assms(1) by (auto simp: empties_in_def nonempty_def)
  then have "empties_in keys c3" using empties_rounds [OF c3(1) empties_first_round [OF _ r]] by blast
  then show ?thesis unfolding c3(2) nonempty_def erase_empties_items by (auto simp: empties_in_def item_empty_def)
qed

lemma nonempty_put: "nonempty c \<Longrightarrow> ci_versions item \<noteq> [] \<Longrightarrow> nonempty (put_item k (item, n) c)"
  by (simp add: nonempty_def)

lemma nonempty_add: "nonempty c \<Longrightarrow> cache_add order time v inst n p usage c = Some (b, c1) \<Longrightarrow> nonempty c1"
proof -
  assume c: "nonempty c" and a: "cache_add order time v inst n p usage c = Some (b, c1)"
  let ?k = "ov_identifier v"
  let ?it = "case ic_items c ?k of None \<Rightarrow> new_item inst n | Some item \<Rightarrow> item"
  show ?thesis
  proof (cases "prepare_item time (ov_version v) inst n usage (?it, ic_size c)")
    case None
    have "ic_items c ?k \<noteq> None"
    proof
      assume "ic_items c ?k = None"
      then show False using None by (simp add: prepare_item_def Let_def new_item_def)
    qed
    then have "ci_versions (rejected_item inst n usage ?it) \<noteq> []" using c by (auto simp: nonempty_def rejected_item_def)
    with None a c show ?thesis by (auto simp: cache_add_def Let_def intro: nonempty_put)
  next
    case (Some r)
    obtain it1 m1 where r: "r = (it1, m1)" by (cases r)
    let ?s = "is_addDataPacket p (last (ci_versions it1))"
    let ?m2 = "if is_isReady ?s then m1 + of_nat (is_getDataSize ?s) else m1"
    let ?c = "put_item ?k (it1\<lparr>ci_versions := butlast (ci_versions it1) @ [?s]\<rparr>, ?m2) c"
    obtain c2 where "releaseItems order 1 ?c = Some c2" "releaseItems order 0 c2 = Some c1"
      using a Some r by (auto simp: cache_add_def Let_def bind_eq_Some_conv)
    moreover have "nonempty ?c" using c by (simp add: nonempty_put)
    ultimately show ?thesis using nonempty_releaseItems by blast
  qed
qed

section \<open>Access counts\<close>

definition acc :: "InstanceCache \<Rightarrow> u128 \<Rightarrow> u32" where
  "acc c k = (case ic_items c k of None \<Rightarrow> 0 | Some item \<Rightarrow> ci_access item)"

text \<open>Items that are not in use do not get into use, whatever is released.\<close>

lemma acc_drop_first: "acc (drop_first j c) k = acc c k" if "candidate u c j"
  using that by (rule drop_first_items) (simp add: acc_def)

lemma acc_erase_empty: "acc c k = 0 \<Longrightarrow> acc (erase_empty j c) k = 0"
  by (auto simp: acc_def erase_empty_def split: option.splits)

lemma idle_releaseItems: "enumerates order \<Longrightarrow> acc c k = 0 \<Longrightarrow> releaseItems order u c = Some c1 \<Longrightarrow> acc c1 k = 0"
  using releaseItems_rule [of order "\<lambda>c. acc c k = 0" c u] acc_drop_first [of u] acc_erase_empty by (metis option.inject)

lemma acc_put: "acc (put_item j (item, n) c) k = (if k = j then ci_access item else acc c k)"
  by (simp add: acc_def)

lemma acc_erase: "acc (fold erase_item ks c) k = (if k \<in> set ks then 0 else acc c k)"
  by (induction ks arbitrary: c) (auto simp: acc_def)

lemma prepare_access: "prepare_item time version inst n usage (item, m) = Some (item1, m1) \<Longrightarrow> ci_access item1 = ci_access item"
  by (auto simp: prepare_item_def Let_def add_stream_def releaseStreams_eq split: if_splits)

lemma idle_add: "enumerates order \<Longrightarrow> acc c k = 0 \<Longrightarrow> cache_add order time v inst n p usage c = Some (b, c1) \<Longrightarrow> acc c1 k = 0"
proof -
  assume o: "enumerates order" and z: "acc c k = 0" and a: "cache_add order time v inst n p usage c = Some (b, c1)"
  let ?k = "ov_identifier v"
  let ?it = "case ic_items c ?k of None \<Rightarrow> new_item inst n | Some item \<Rightarrow> item"
  have i: "ci_access ?it = acc c ?k" by (simp add: acc_def new_item_def split: option.split)
  show ?thesis
  proof (cases "prepare_item time (ov_version v) inst n usage (?it, ic_size c)")
    case None
    with a z i show ?thesis by (auto simp: cache_add_def Let_def acc_put rejected_item_def)
  next
    case (Some r)
    obtain it1 m1 where r: "r = (it1, m1)" by (cases r)
    let ?s = "is_addDataPacket p (last (ci_versions it1))"
    let ?m2 = "if is_isReady ?s then m1 + of_nat (is_getDataSize ?s) else m1"
    let ?c = "put_item ?k (it1\<lparr>ci_versions := butlast (ci_versions it1) @ [?s]\<rparr>, ?m2) c"
    obtain c2 where c2: "releaseItems order 1 ?c = Some c2" "releaseItems order 0 c2 = Some c1"
      using a Some r by (auto simp: cache_add_def Let_def bind_eq_Some_conv)
    have "acc ?c k = 0" using z i prepare_access [OF Some [unfolded r]] by (auto simp: acc_put)
    then show ?thesis using idle_releaseItems [OF o] c2 by blast
  qed
qed

lemma idle_remove_loop: "acc c k = 0 \<Longrightarrow> acc (snd (remove_loop n ks (keys, c))) k = 0"
  by (induction ks arbitrary: keys c) (auto simp: acc_put releaseStreams_eq split: option.split)

lemma idle_expire_loop: "acc c k = 0 \<Longrightarrow> acc (snd (expire_loop t ks (keys, c))) k = 0"
  by (induction ks arbitrary: keys c) (auto simp: acc_put releaseStreams_time_def split: option.split prod.split)

section \<open>Frames\<close>

lemma erase_items_items: "ic_items (fold erase_item ks c) k = (if k \<in> set ks then None else ic_items c k)"
  by (induction ks arbitrary: c) auto

text \<open>What every operation other than looking up and releasing keeps.\<close>

definition cache_frame :: "InstanceCache \<Rightarrow> InstanceCache \<Rightarrow> bool" where
  "cache_frame c c1 = ((nonempty c \<longrightarrow> nonempty c1) \<and> (nonempty c \<longrightarrow> acc c1 = acc c) \<and>
     (\<forall>k item. pinned k item c \<longrightarrow> (\<exists>item1. pinned k item1 c1 \<and> keeps item item1)))"

lemma cache_frameI:
  assumes "nonempty c \<Longrightarrow> nonempty c1" "\<And>k. acc c k = 0 \<Longrightarrow> acc c1 k = 0"
    "\<And>k item. pinned k item c \<Longrightarrow> \<exists>item1. pinned k item1 c1 \<and> keeps item item1 \<and> ci_access item1 = ci_access item"
  shows "cache_frame c c1"
proof -
  have "acc c1 k = acc c k" if n: "nonempty c" for k
  proof (cases "acc c k = 0")
    case False
    then obtain item where i: "ic_items c k = Some item" "ci_access item \<noteq> 0" by (auto simp: acc_def split: option.splits)
    then have "pinned k item c" using n by (simp add: pinned_def nonempty_def)
    from assms(3) [OF this] i show ?thesis by (auto simp: acc_def pinned_def)
  qed (simp add: assms(2))
  with assms show ?thesis unfolding cache_frame_def by blast
qed

lemma cache_frame_exec:
  assumes "enumerates order" "cache_exec order x c = Some c1" "\<And>k. \<not> releases k x" "\<And>k. x \<noteq> Lookup k"
  shows "cache_frame c c1"
proof (rule cache_frameI)
  fix k item
  assume "pinned k item c"
  from pinned_exec [OF assms(1) this assms(3)] assms(2,4)
  show "\<exists>item1. pinned k item1 c1 \<and> keeps item item1 \<and> ci_access item1 = ci_access item" by (auto simp: access_after_def)
next
  fix k assume z: "acc c k = 0"
  show "acc c1 k = 0"
  proof (cases x)
    case (Add t v i n p u)
    then show ?thesis using assms(2) idle_add [OF assms(1) z] by auto
  next
    case (Remove n)
    obtain keys c2 where r: "remove_loop n (order (ic_items c)) ([], c) = (keys, c2)" by fastforce
    with Remove assms(2) idle_remove_loop [OF z, of n "order (ic_items c)" "[]"] show ?thesis by (auto simp: cache_remove_def acc_erase)
  next
    case (Erase j)
    then show ?thesis using assms(2) z
      by (auto simp: cache_erase_def acc_def releaseStreams_eq split: option.splits if_splits)
  next
    case (Expire now timeout)
    obtain keys c2 where r: "expire_loop (now - timeout) (order (ic_items c)) ([], c) = (keys, c2)" by fastforce
    with Expire assms(2) idle_expire_loop [OF z, of "now - timeout" "order (ic_items c)" "[]"] z show ?thesis by (auto simp: cache_expire_def acc_erase Let_def split: if_splits)
  qed (use assms(3,4) in \<open>auto simp: releases_def\<close>)
next
  assume n: "nonempty c"
  show "nonempty c1"
  proof (cases x)
    case (Add t v i n p u)
    then show ?thesis using assms(2) nonempty_add [OF n] by auto
  next
    case (Remove m)
    have "empties_in (fst (remove_loop m ks (keys, c))) (snd (remove_loop m ks (keys, c)))" if "empties_in keys c" for ks keys c
      using that by (induction ks arbitrary: keys c) (auto simp: empties_in_def releaseStreams_eq split: option.split)
    from this [of "[]" c "order (ic_items c)"] n show ?thesis using assms(2) Remove
      by (auto simp: cache_remove_def nonempty_def empties_in_def erase_items_items split: prod.splits if_splits)
  next
    case (Erase j)
    then show ?thesis using assms(2) n
      by (auto simp: cache_erase_def nonempty_def releaseStreams_eq split: option.splits if_splits)
  next
    case (Expire now timeout)
    have "empties_in (fst (expire_loop t ks (keys, c))) (snd (expire_loop t ks (keys, c)))" if "empties_in keys c" for t ks keys c
      using that by (induction ks arbitrary: keys c)
        (auto simp: empties_in_def releaseStreams_time_def split: option.split prod.split)
    from this [of "[]" c "now - timeout" "order (ic_items c)"] n show ?thesis using assms(2) Expire
      by (auto simp: cache_expire_def nonempty_def empties_in_def erase_items_items Let_def split: prod.splits if_splits)
  qed (use assms(3,4) in \<open>auto simp: releases_def\<close>)
qed

end
