(* ===== verification/Store_Pins.thy ===== *)
theory Store_Pins
  imports Store_Dispatch Cache_Frame
begin

text \<open>
  Mapping with the help of the instance cache: a request pins the cached data that it announces to
  the master, and its reply releases it. The access counts of the cache are therefore exactly the
  requests under way, and the announced data is still there when the reply arrives.
\<close>

section \<open>Frames\<close>

lemma cache_frame_refl [simp]: "cache_frame c c"
  by (auto simp: cache_frame_def keeps_def)

lemma cache_frame_trans: "cache_frame c c1 \<Longrightarrow> cache_frame c1 c2 \<Longrightarrow> cache_frame c c2"
  unfolding cache_frame_def using keeps_trans by metis

definition store_frame :: "'o ObjectStore \<Rightarrow> 'o ObjectStore \<Rightarrow> bool" where
  "store_frame st st1 = (case st_instanceCache st of None \<Rightarrow> st_instanceCache st1 = None
     | Some c \<Rightarrow> \<exists>c1. st_instanceCache st1 = Some c1 \<and> cache_frame c c1)"

lemma store_frame_same: "st_instanceCache st1 = st_instanceCache st \<Longrightarrow> store_frame st st1"
  by (auto simp: store_frame_def split: option.split)

lemma store_frame_trans: "store_frame st st1 \<Longrightarrow> store_frame st1 st2 \<Longrightarrow> store_frame st st2"
  by (auto simp: store_frame_def split: option.splits intro: cache_frame_trans)

lemma frame_erase: "enumerates order \<Longrightarrow> cache_frame c (snd (cache_erase i c))"
  by (rule cache_frame_exec [of order "Erase i"]) (simp_all add: releases_def)

lemma same_cache [simp]:
  "st_instanceCache (upd_object a f st) = st_instanceCache st" "st_instanceCache (serveRequest r v st) = st_instanceCache st"
  "st_instanceCache (st_send node p st) = st_instanceCache st" "st_instanceCache (detach_object a st) = st_instanceCache st"
  "st_instanceCache (cmdDetachObject r i inst st) = st_instanceCache st" "st_instanceCache (attach_object cf a i inst st) = st_instanceCache st"
  by (simp_all add: upd_object_def serveRequest_def st_send_def detach_object_def Let_def cmdDetachObject_def attach_object_def
    split: option.split prod.split)

lemma same_cache_fold: "(\<And>x st. st_instanceCache (f x st) = st_instanceCache st) \<Longrightarrow> st_instanceCache (fold f xs st) = st_instanceCache st"
  by (induction xs arbitrary: st) simp_all

lemma same_cache_ops [simp]:
  "st_instanceCache (registerObject cf time a st) = st_instanceCache st" "st_instanceCache (notifyDetach a st) = st_instanceCache st"
  "st_instanceCache (unmapObject r isConnected a st) = st_instanceCache st"
  "st_instanceCache (cmdUnsubscribeObject r node i m s st) = st_instanceCache st"
  "st_instanceCache (swapObject a b st) = st_instanceCache st" "st_instanceCache (cmdMapObject r node i p st) = st_instanceCache st"
  "st_instanceCache (cmdRemoveNode cf ro node st) = st_instanceCache st"
  "st_instanceCache (snd (dispatchObjectCommand cf i inst cmd st)) = st_instanceCache st"
  "st_instanceCache (snd (notifyCommandThreadIdle time nodes st)) = st_instanceCache st"
  "st_instanceCache (enableSendOnRegister st) = st_instanceCache st" "st_instanceCache (disableSendOnRegister cf r st) = st_instanceCache st"
  "st_instanceCache (cmdMapObjectSuccess cf node r i inst type m st) = st_instanceCache st"
  "st_instanceCache (cmdDeregisterObject r st) = st_instanceCache st"
  by (simp_all add: registerObject_def Let_def cmdRegisterObject_def notifyDetach_def same_cache_fold unmapObject_def detachObject_def
    cmdUnsubscribeObject_def swapObject_def split_beta cmdMapObject_def cmdRemoveNode_def dispatchObjectCommand_def
    notifyCommandThreadIdle_def enableSendOnRegister_def disableSendOnRegister_def cmdDisableSendOnRegister_def cmdMapObjectSuccess_def
    cmdDeregisterObject_def split: option.split list.split prod.split)

lemma frame_deregister: "enumerates (cf_order cf) \<Longrightarrow> store_frame st (deregisterObject cf r r2 a st)"
  by (auto simp: deregisterObject_def Let_def store_frame_def detachObject_def frame_erase split: option.split)

lemma frame_unmapped: "enumerates (cf_order cf) \<Longrightarrow> store_frame st (cmdUnmapObject i st)"
  by (auto simp: cmdUnmapObject_def Let_def store_frame_def same_cache_fold frame_erase split: option.split)

lemma frame_instance:
  assumes "enumerates (cf_order cf)" "cmdInstance cf time fr i p st = Some (flag, st1)"
  shows "store_frame st st1"
proof -
  let ?p = "p\<lparr>op_command := CMD_OBJECT_INSTANCE\<rparr>"
  from assms(2) obtain st2 where c: "cache_instance cf time fr i ?p st = Some st2" and d: "deliver_instance cf i (op_command p) ?p st2 = (flag, st1)"
    by (auto simp: cmdInstance_def Let_def)
  have "st_instanceCache (snd (deliver_instance cf i (op_command p) ?p st2)) = st_instanceCache st2" by (simp add: deliver_instance_def)
  then have e: "st_instanceCache st1 = st_instanceCache st2" using d by simp
  show ?thesis
  proof (cases "st_instanceCache st")
    case None
    with c e show ?thesis by (simp add: cache_instance_def store_frame_def)
  next
    case (Some ca)
    with c obtain b c1 where a: "cache_add (cf_order cf) time \<lparr>ov_identifier = i, ov_version = op_version ?p\<rparr> (op_masterInstanceID ?p) fr ?p 0 ca = Some (b, c1)"
      "st_instanceCache st2 = Some c1" by (auto simp: cache_instance_def)
    have "cache_frame ca c1"
      by (rule cache_frame_exec [OF assms(1), of "Add time \<lparr>ov_identifier = i, ov_version = op_version ?p\<rparr> (op_masterInstanceID ?p) fr ?p 0"])
        (use a(1) in \<open>simp_all add: releases_def\<close>)
    with Some e a(2) show ?thesis by (simp add: store_frame_def)
  qed
qed

lemma frame_data:
  assumes "enumerates (cf_order cf)"
  shows "store_frame st (expireInstanceData cf now age st)" "store_frame st (removeInstanceData cf node st)"
proof -
  have "cache_frame c (cache_expire (cf_order cf) now age c)" for c
    by (rule cache_frame_exec [OF assms, of "Expire now age"]) (simp_all add: releases_def)
  then show "store_frame st (expireInstanceData cf now age st)" by (auto simp: store_frame_def expireInstanceData_def split: option.split)
  have "cache_frame c (cache_remove (cf_order cf) node c)" for c
    by (rule cache_frame_exec [OF assms, of "Remove node"]) (simp_all add: releases_def)
  then show "store_frame st (removeInstanceData cf node st)" by (auto simp: store_frame_def removeInstanceData_def split: option.split)
qed

lemma same_cache_sync: "mapObjectSync plugins unpack a version st = Some (flag, st1) \<Longrightarrow> st_instanceCache st1 = st_instanceCache st"
  by (auto simp: mapObjectSync_def split: if_splits ChangeManager.splits)

lemma same_cache_push: "cmdObjectPush i st = Some (is, st1) \<Longrightarrow> st_instanceCache st1 = st_instanceCache st"
  by (auto simp: cmdObjectPush_def)

text \<open>Every step is a request, a reply, or keeps the cache.\<close>

lemma step_frame_cases:
  assumes "store_step cf (st, fl) (st1, fl1)" "enumerates (cf_order cf)"
  obtains (frame) "store_frame st st1" "fl1 = fl"
  | (success) request f where "store_frame st st1" "fl request = Some f" "fl1 = fl(request \<mapsto> f\<lparr>fl_attached := True\<rparr>)"
  | (request) request a i version master isConn packet where "request \<notin> dom fl" "insert request (dom fl) \<noteq> UNIV"
      "mapObjectNB cf request a i version master isConn st = (Some packet, st1)"
      "fl1 = fl(request \<mapsto> \<lparr>fl_object = a, fl_id = i, fl_packet = packet, fl_attached = False\<rparr>)"
  | (reply) request f packet fr where "fl request = Some f" "rp_node packet = cf_nodeID cf"
      "rp_releaseCache packet = mr_useCache (fl_packet f)" "rp_useCache packet \<longrightarrow> rp_releaseCache packet"
      "cmdMapObjectReply cf fr request (fl_id f) packet st = Some st1" "fl1 = fl(request := None)"
  using assms(1)
proof cases
  case (map_object request a i version master isConn packet)
  then show thesis by (intro that(3))
next
  case (reply request f packet fr)
  then show thesis by (intro that(4))
next
  case (success request f type masterInst)
  then show thesis by (intro that(2)) (simp_all add: store_frame_same)
next
  case (other_reply packet fr request i)
  then show thesis by (intro that(1)) (simp_all add: cmdMapObjectReply_def store_frame_same)
next
  case (instance_data time fr i data flag)
  then show thesis using frame_instance [OF assms(2)] by (intro that(1))
next
  case (sync plugins unpack a version flag)
  then show thesis using same_cache_sync store_frame_same by (intro that(1)) blast+
next
  case (push_data i stream)
  then show thesis using same_cache_push store_frame_same by (intro that(1)) blast+
qed (use that(1) assms(2) in \<open>simp_all add: store_frame_same frame_deregister frame_unmapped frame_data\<close>)

section \<open>Requests under way\<close>

definition uses_cache :: "Flights \<Rightarrow> u128 \<Rightarrow> u32 \<Rightarrow> bool" where
  "uses_cache fl i r = (\<exists>f. fl r = Some f \<and> fl_id f = i \<and> mr_useCache (fl_packet f))"

definition pins :: "Flights \<Rightarrow> u128 \<Rightarrow> nat" where
  "pins fl i = card {r. uses_cache fl i r}"

lemma pins_new:
  assumes "r \<notin> dom fl"
  shows "pins (fl(r \<mapsto> f)) i = pins fl i + (if fl_id f = i \<and> mr_useCache (fl_packet f) then 1 else 0)"
proof -
  have "{q. uses_cache (fl(r \<mapsto> f)) i q} = (if fl_id f = i \<and> mr_useCache (fl_packet f) then insert r {q. uses_cache fl i q} else {q. uses_cache fl i q})"
    using assms by (auto simp: uses_cache_def)
  moreover have "r \<notin> {q. uses_cache fl i q}" using assms by (auto simp: uses_cache_def)
  ultimately show ?thesis by (simp add: pins_def)
qed

lemma pins_attached: "fl r = Some f \<Longrightarrow> pins (fl(r \<mapsto> f\<lparr>fl_attached := True\<rparr>)) i = pins fl i"
proof -
  assume "fl r = Some f"
  then have "uses_cache (fl(r \<mapsto> f\<lparr>fl_attached := True\<rparr>)) i q = uses_cache fl i q" for q by (auto simp: uses_cache_def)
  then show ?thesis by (simp add: pins_def)
qed

lemma pins_done:
  assumes "fl r = Some f"
  shows "pins fl i = pins (fl(r := None)) i + (if fl_id f = i \<and> mr_useCache (fl_packet f) then 1 else 0)"
  using pins_new [of r "fl(r := None)" f i] assms by (simp add: fun_upd_idem)

lemma pins_bound: "dom fl \<noteq> UNIV \<Longrightarrow> pins fl i < 2 ^ 32"
proof -
  assume "dom fl \<noteq> UNIV"
  then have "{r. uses_cache fl i r} \<subset> (UNIV :: u32 set)" by (auto simp: uses_cache_def)
  from psubset_card_mono [OF _ this] show ?thesis by (simp add: pins_def card_word)
qed

definition pins_ok :: "'o ObjectStore \<Rightarrow> Flights \<Rightarrow> bool" where
  "pins_ok st fl = (case st_instanceCache st of None \<Rightarrow> \<forall>r f. fl r = Some f \<longrightarrow> \<not> mr_useCache (fl_packet f)
     | Some c \<Rightarrow> nonempty c \<and> (\<forall>i. unat (acc c i) = pins fl i))"

lemma pins_ok_frame: "pins_ok st fl \<Longrightarrow> store_frame st st1 \<Longrightarrow> pins_ok st1 fl"
  by (auto simp: pins_ok_def store_frame_def cache_frame_def split: option.splits)

lemma pins_ok_attached: "pins_ok st fl \<Longrightarrow> fl r = Some f \<Longrightarrow> pins_ok st (fl(r \<mapsto> f\<lparr>fl_attached := True\<rparr>))"
  by (auto simp: pins_ok_def pins_attached split: option.splits)

text \<open>A request.\<close>

lemma map_cache:
  assumes "mapObjectNB cf request a i version master isConn st = (Some packet, st1)"
  shows "(case st_instanceCache st of None \<Rightarrow> st_instanceCache st1 = None \<and> \<not> mr_useCache packet
    | Some c \<Rightarrow> st_instanceCache st1 = Some (snd (cache_lookup i c)) \<and> mr_useCache packet = (ic_items c i \<noteq> None) \<and>
        (\<forall>item. ic_items c i = Some item \<longrightarrow> mr_minCachedVersion packet = is_version (hd (ci_versions item)) \<and>
          mr_maxCachedVersion packet = is_version (last (ci_versions item)) \<and> mr_masterInstanceID packet = ci_masterInstanceID item))"
  using assms by (auto simp: mapObjectNB_def Let_def st_send_def map_request_def cache_lookup_def split: if_splits option.splits prod.splits)

lemma lookup_acc: "acc (snd (cache_lookup i c)) k = (if k = i \<and> ic_items c i \<noteq> None then acc c k + 1 else acc c k)"
  by (auto simp: cache_lookup_def acc_def split: option.split)

lemma lookup_nonempty: "nonempty c \<Longrightarrow> nonempty (snd (cache_lookup i c))"
  by (auto simp: cache_lookup_def nonempty_def split: option.split)

lemma pins_ok_request:
  assumes "pins_ok st fl" "request \<notin> dom fl" "insert request (dom fl) \<noteq> UNIV"
    "mapObjectNB cf request a i version master isConn st = (Some packet, st1)"
  shows "pins_ok st1 (fl(request \<mapsto> \<lparr>fl_object = a, fl_id = i, fl_packet = packet, fl_attached = False\<rparr>))"
proof -
  let ?fl = "fl(request \<mapsto> \<lparr>fl_object = a, fl_id = i, fl_packet = packet, fl_attached = False\<rparr>)"
  note m = map_cache [OF assms(4)]
  show ?thesis
  proof (cases "st_instanceCache st")
    case None
    with m assms(1) show ?thesis by (auto simp: pins_ok_def)
  next
    case (Some c)
    with assms(1) have c: "nonempty c" "unat (acc c k) = pins fl k" for k by (simp_all add: pins_ok_def)
    have m1: "st_instanceCache st1 = Some (snd (cache_lookup i c))" "mr_useCache packet = (ic_items c i \<noteq> None)" using m Some by simp_all
    have p: "pins ?fl k = pins fl k + (if i = k \<and> mr_useCache packet then 1 else 0)" for k using pins_new [OF assms(2)] by simp
    have b: "pins ?fl k < 2 ^ 32" for k by (rule pins_bound) (use assms(3) in simp)
    have "acc c k \<noteq> - 1" if "i = k" "mr_useCache packet" for k
      using that b [of k] p [of k] c(2) [of k] by (auto simp: unsigned_minus_1_eq_mask mask_eq_exp_minus_1)
    then have "unat (acc (snd (cache_lookup i c)) k) = pins ?fl k" for k
      using c(2) [of k] p [of k] m1(2) by (auto simp: lookup_acc unat_inc)
    with m1(1) lookup_nonempty [OF c(1)] show ?thesis by (simp add: pins_ok_def)
  qed
qed

text \<open>A reply releases what its request has pinned.\<close>

definition cache_drop :: "u128 \<Rightarrow> InstanceCache \<Rightarrow> InstanceCache \<Rightarrow> bool" where
  "cache_drop i c c1 = (nonempty c1 \<and> acc c1 = (acc c)(i := acc c i - 1) \<and>
     (\<forall>k item. pinned k item c \<and> (k = i \<longrightarrow> ci_access item \<noteq> 1) \<longrightarrow> (\<exists>item1. pinned k item1 c1 \<and> keeps item item1)))"

lemma frame_releaseItems: "enumerates order \<Longrightarrow> releaseItems order u c = Some c1 \<Longrightarrow> cache_frame c c1"
proof (rule cache_frameI)
  assume o: "enumerates order" and r: "releaseItems order u c = Some c1"
  show "nonempty c \<Longrightarrow> nonempty c1" using nonempty_releaseItems r by blast
  show "acc c k = 0 \<Longrightarrow> acc c1 k = 0" for k using idle_releaseItems [OF o] r by blast
  show "\<exists>item1. pinned k item1 c1 \<and> keeps item item1 \<and> ci_access item1 = ci_access item" if "pinned k item c" for k item
    using pinned_releaseItems [OF o that, of u] r by (auto simp: keeps_def)
qed

lemma release_drop:
  assumes "enumerates order" "nonempty c" "ic_items c i = Some item"
    "cache_release order i n (put_item i (item\<lparr>ci_access := ci_access item + (n - 1), ci_used := m\<rparr>, ic_size c) c) = Some (b, c1)"
  shows "cache_drop i c c1"
proof -
  let ?item = "item\<lparr>ci_used := m, ci_access := ci_access item - 1\<rparr>"
  let ?c = "c\<lparr>ic_items := (ic_items c)(i \<mapsto> ?item)\<rparr>"
  have "releaseItems order 1 ?c = Some c1" using assms(4) by (simp add: cache_release_def put_item_def)
  then have f: "cache_frame ?c c1" by (rule frame_releaseItems [OF assms(1)])
  have n: "nonempty ?c" using assms(2,3) by (auto simp: nonempty_def)
  have a: "acc ?c = (acc c)(i := acc c i - 1)" using assms(3) by (auto simp: acc_def fun_eq_iff)
  have k: "\<exists>item1. pinned k item1 c1 \<and> keeps item2 item1" if p: "pinned k item2 c" "k = i \<longrightarrow> ci_access item2 \<noteq> 1" for k item2
  proof -
    let ?item2 = "if k = i then ?item else item2"
    have "pinned k ?item2 ?c" using p assms(3) by (auto simp: pinned_def)
    then obtain item1 where "pinned k item1 c1" "keeps ?item2 item1" using f by (auto simp: cache_frame_def)
    moreover have "keeps item2 ?item2" using p(1) assms(3) by (auto simp: pinned_def keeps_def)
    ultimately show ?thesis using keeps_trans by blast
  qed
  show ?thesis using f n a k unfolding cache_drop_def cache_frame_def by simp
qed

lemma reply_cache:
  assumes "cmdMapObjectReply cf fr request (fl_id f) packet st = Some st1" "rp_node packet = cf_nodeID cf"
    "rp_releaseCache packet = mr_useCache (fl_packet f)" "rp_useCache packet \<longrightarrow> rp_releaseCache packet"
    "st_requests st request = Some (fl_object f)" "enumerates (cf_order cf)"
  shows "if mr_useCache (fl_packet f) then
      (\<forall>c item. st_instanceCache st = Some c \<and> nonempty c \<and> ic_items c (fl_id f) = Some item \<longrightarrow>
        (\<exists>c1. st_instanceCache st1 = Some c1 \<and> cache_drop (fl_id f) c c1))
    else st_instanceCache st1 = st_instanceCache st"
proof (cases "mr_useCache (fl_packet f)")
  case False
  with assms show ?thesis by (auto simp: cmdMapObjectReply_def Let_def split: if_splits)
next
  case True
  have "\<exists>c1. st_instanceCache st1 = Some c1 \<and> cache_drop (fl_id f) c c1"
    if c: "st_instanceCache st = Some c" "nonempty c" "ic_items c (fl_id f) = Some item" for c item
  proof -
    let ?st = "upd_object (fl_object f) (\<lambda>ob. ob\<lparr>ob_cm := setMasterNode fr (ob_cm ob)\<rparr>) st"
    have one: "\<exists>c1. st_instanceCache st3 = Some c1 \<and> cache_drop (fl_id f) c c1"
      if "release_pins cf (fl_id f) 1 st2 = Some st3" "st_instanceCache st2 = Some c" for st2 st3
    proof -
      have "put_item (fl_id f) (item\<lparr>ci_access := ci_access item + (1 - 1), ci_used := ci_used item\<rparr>, ic_size c) c = c"
        using c(3) by (simp add: put_item_def fun_upd_idem)
      with that obtain b c1 where "cache_release (cf_order cf) (fl_id f) 1 (put_item (fl_id f)
          (item\<lparr>ci_access := ci_access item + (1 - 1), ci_used := ci_used item\<rparr>, ic_size c) c) = Some (b, c1)" "st_instanceCache st3 = Some c1"
        by (auto simp: release_pins_def)
      with release_drop [OF assms(6) c(2,3)] show ?thesis by blast
    qed
    have two: "\<exists>c1. st_instanceCache st3 = Some c1 \<and> cache_drop (fl_id f) c c1"
      if "release_pins cf (fl_id f) 2 (use_cached a (fl_id f) v st2) = Some st3" "st_instanceCache st2 = Some c" for st2 st3 a v
    proof -
      have "st_instanceCache (use_cached a (fl_id f) v st2) =
          Some (put_item (fl_id f) (item\<lparr>ci_access := ci_access item + (2 - 1), ci_used := ci_used item + 1\<rparr>, ic_size c) c)"
        using that(2) c(3) by (simp add: use_cached_def cache_lookup_def)
      with that(1) obtain b c1 where "cache_release (cf_order cf) (fl_id f) 2 (put_item (fl_id f)
          (item\<lparr>ci_access := ci_access item + (2 - 1), ci_used := ci_used item + 1\<rparr>, ic_size c) c) = Some (b, c1)" "st_instanceCache st3 = Some c1"
        by (auto simp: release_pins_def)
      with release_drop [OF assms(6) c(2,3)] show ?thesis by blast
    qed
    obtain st2 where "st1 = serveRequest request (rp_version packet) st2"
      "release_pins cf (fl_id f) 2 (use_cached (fl_object f) (fl_id f) (rp_version packet) ?st) = Some st2 \<or>
       release_pins cf (fl_id f) 1 ?st = Some st2 \<or> release_pins cf (fl_id f) 1 st = Some st2"
      using assms(1-5) True by (auto simp: cmdMapObjectReply_def Let_def split: if_splits)
    with one [of _ st2] two [of _ _ _ st2] c(1) show ?thesis by auto
  qed
  with True show ?thesis by auto
qed

lemma unat_dec: "(n :: u32) \<noteq> 0 \<Longrightarrow> unat (n - 1) = unat n - 1"
  by (simp add: unat_sub word_le_nat_alt Suc_leI unat_gt_0)

lemma pins_ok_reply:
  assumes "pins_ok st fl" "flights_ok st fl" "fl request = Some f" "cmdMapObjectReply cf fr request (fl_id f) packet st = Some st1"
    "rp_node packet = cf_nodeID cf" "rp_releaseCache packet = mr_useCache (fl_packet f)"
    "rp_useCache packet \<longrightarrow> rp_releaseCache packet" "enumerates (cf_order cf)"
  shows "pins_ok st1 (fl(request := None))"
proof -
  have q: "st_requests st request = Some (fl_object f)" using assms(2,3) unfolding flights_ok_def by blast
  note r = reply_cache [OF assms(4-7) q assms(8)]
  show ?thesis
  proof (cases "mr_useCache (fl_packet f)")
    case False
    then have "pins (fl(request := None)) i = pins fl i" for i using pins_done [of fl request f i, OF assms(3)] by simp
    with False r assms(1) show ?thesis by (auto simp: pins_ok_def split: option.splits)
  next
    case True
    with assms(1,3) obtain c where c: "st_instanceCache st = Some c" "nonempty c" "\<And>i. unat (acc c i) = pins fl i"
      by (cases "st_instanceCache st") (auto simp: pins_ok_def)
    have p: "pins fl (fl_id f) = Suc (pins (fl(request := None)) (fl_id f))" using pins_done [of fl request f "fl_id f", OF assms(3)] True by simp
    then have z: "acc c (fl_id f) \<noteq> 0" using c(3) [of "fl_id f"] by auto
    then obtain item where "ic_items c (fl_id f) = Some item" by (auto simp: acc_def split: option.splits)
    with r True c(1,2) obtain c1 where c1: "st_instanceCache st1 = Some c1" "cache_drop (fl_id f) c c1" by auto
    have u: "unat (acc c (fl_id f) - 1) = unat (acc c (fl_id f)) - 1" using z by (rule unat_dec)
    have a: "acc c1 i = (if i = fl_id f then acc c i - 1 else acc c i)" for i using c1(2) by (simp add: cache_drop_def)
    have "unat (acc c1 i) = pins (fl(request := None)) i" for i
    proof (cases "i = fl_id f")
      case True
      then show ?thesis using a [of i] u c(3) [of "fl_id f"] p by simp
    next
      case False
      then have "pins fl i = pins (fl(request := None)) i" using pins_done [of fl request f i, OF assms(3)] by simp
      then show ?thesis using a [of i] c(3) [of i] False by simp
    qed
    with c1 show ?thesis by (simp add: pins_ok_def cache_drop_def)
  qed
qed

section \<open>Runs\<close>

lemma run_pins_ok:
  assumes "store_run cf s s1" "cf_instanceMax cf < EQ_INSTANCE_NONE" "enumerates (cf_order cf)"
    "sys_ok cf s" "pins_ok (fst s) (snd s)"
  shows "pins_ok (fst s1) (snd s1)"
  using assms(1,4,5)
proof (induction rule: store_run.induct)
  case (step s s1 s2)
  obtain st fl st1 fl1 where s: "s1 = (st, fl)" "s2 = (st1, fl1)" by (cases s1, cases s2)
  have p: "pins_ok st fl" using step s(1) by simp
  have f: "flights_ok st fl" using run_sys_ok [OF step.hyps(1) assms(2) step.prems(1)] by (simp add: s(1) sys_ok_def)
  from step.hyps(2) assms(3) have "pins_ok st1 fl1" unfolding s
    by (rule step_frame_cases) (use p f assms(3) in \<open>auto intro: pins_ok_frame pins_ok_attached pins_ok_request pins_ok_reply\<close>)
  then show ?case by (simp add: s)
qed simp

lemma new_pins_ok: "pins_ok (new_store (Some (new_cache m)) heap) Map.empty"
  by (simp add: pins_ok_def new_store_def nonempty_def new_cache_def acc_def pins_def uses_cache_def)

text \<open>C23. No pin is lost or left behind: in every run of a node the access count of a cached object is
  the number of its mapping requests that announced cached data and have not been answered.\<close>

theorem cache_pins_exact:
  assumes "store_run cf (new_store (Some (new_cache m)) heap, Map.empty) (st, fl)" "cf_instanceMax cf < EQ_INSTANCE_NONE"
    "enumerates (cf_order cf)" "\<forall>a. \<not> isAttached (heap a)" "st_instanceCache st = Some c" "ic_items c i = Some item"
  shows "unat (ci_access item) = card {r. \<exists>f. fl r = Some f \<and> fl_id f = i \<and> mr_useCache (fl_packet f)}"
proof -
  have "pins_ok st fl" using run_pins_ok [OF assms(1-3) new_sys_ok [OF assms(4)]] new_pins_ok [of m heap] by simp
  with assms(5,6) show ?thesis by (simp add: pins_ok_def acc_def pins_def uses_cache_def) (metis option.simps(5))
qed

text \<open>A run in which one request stays unanswered.\<close>

inductive pending_run :: "StoreConfig \<Rightarrow> u32 \<Rightarrow> 'o ObjectStore \<times> Flights \<Rightarrow> 'o ObjectStore \<times> Flights \<Rightarrow> bool" for cf request where
  refl: "pending_run cf request s s"
| step: "pending_run cf request s s1 \<Longrightarrow> store_step cf s1 s2 \<Longrightarrow> request \<in> dom (snd s2) \<Longrightarrow> pending_run cf request s s2"

definition holds_cached :: "u32 \<Rightarrow> u128 \<Rightarrow> CacheItem \<Rightarrow> 'o ObjectStore \<times> Flights \<Rightarrow> bool" where
  "holds_cached request i item = (\<lambda>(st, fl). uses_cache fl i request \<and>
     (\<exists>c item1. st_instanceCache st = Some c \<and> pinned i item1 c \<and> keeps item item1))"

lemma holds_frame: "holds_cached r i item (st, fl) \<Longrightarrow> store_frame st st1 \<Longrightarrow> uses_cache fl1 i r \<Longrightarrow> holds_cached r i item (st1, fl1)"
proof -
  assume h: "holds_cached r i item (st, fl)" and f: "store_frame st st1" and u: "uses_cache fl1 i r"
  from h obtain c item1 where c: "st_instanceCache st = Some c" "pinned i item1 c" "keeps item item1" by (auto simp: holds_cached_def)
  from f c(1) obtain c1 where c1: "st_instanceCache st1 = Some c1" "cache_frame c c1" by (auto simp: store_frame_def)
  from c1(2) c(2) obtain item2 where i2: "pinned i item2 c1" "keeps item1 item2" unfolding cache_frame_def by blast
  from keeps_trans [OF c(3) i2(2)] i2(1) c1(1) u show ?thesis by (auto simp: holds_cached_def)
qed

lemma pins_pos: "uses_cache fl i r \<Longrightarrow> 0 < pins fl i"
  unfolding pins_def by (subst card_gt_0_iff) auto

lemma holds_request:
  assumes "pins_ok st1 fl1" "uses_cache fl1 i r" "st_instanceCache st1 = Some (snd (cache_lookup j c))" "pinned i item1 c" "keeps item item1"
  shows "holds_cached r i item (st1, fl1)"
proof -
  have "unat (acc (snd (cache_lookup j c)) i) = pins fl1 i" using assms(1,3) by (simp add: pins_ok_def)
  then have z: "acc (snd (cache_lookup j c)) i \<noteq> 0" using pins_pos [OF assms(2)] by auto
  let ?item = "if i = j then item1\<lparr>ci_access := ci_access item1 + 1, ci_used := ci_used item1 + 1\<rparr> else item1"
  have "ic_items (snd (cache_lookup j c)) i = Some ?item"
    using assms(4) by (auto simp: cache_lookup_def pinned_def split: option.split)
  then have "pinned i ?item (snd (cache_lookup j c))" using z assms(4) by (auto simp: acc_def pinned_def)
  moreover have "keeps item ?item" using assms(5) by (simp add: keeps_def)
  ultimately show ?thesis using assms(2,3) by (auto simp: holds_cached_def)
qed

lemma holds_reply:
  assumes "pins_ok st fl" "fl request = Some f" "uses_cache (fl(request := None)) i r" "mr_useCache (fl_packet f)"
    "st_instanceCache st = Some c" "pinned i item1 c" "keeps item item1" "st_instanceCache st1 = Some c1" "cache_drop (fl_id f) c c1"
  shows "holds_cached r i item (st1, fl(request := None))"
proof -
  have "ci_access item1 \<noteq> 1" if "i = fl_id f"
  proof -
    have "unat (ci_access item1) = pins fl i" using assms(1,5,6) by (auto simp: pins_ok_def pinned_def acc_def split: option.splits)
    also have "\<dots> = pins (fl(request := None)) i + 1" using pins_done [of fl request f i, OF assms(2)] assms(4) that by simp
    finally show ?thesis using pins_pos [OF assms(3)] by auto
  qed
  then obtain item2 where "pinned i item2 c1" "keeps item1 item2" using assms(6,9) unfolding cache_drop_def by blast
  then show ?thesis using assms(3,8) keeps_trans [OF assms(7)] by (auto simp: holds_cached_def)
qed

lemma holds_step:
  assumes "store_step cf (st, fl) (st1, fl1)" "enumerates (cf_order cf)" "pins_ok st fl" "flights_ok st fl"
    "holds_cached r i item (st, fl)" "r \<in> dom fl1"
  shows "holds_cached r i item (st1, fl1)"
  using assms(1,2)
proof (cases rule: step_frame_cases)
  case frame
  moreover have "uses_cache fl i r" using assms(5) by (simp add: holds_cached_def)
  ultimately show ?thesis using holds_frame [OF assms(5)] by blast
next
  case (success request f)
  have "uses_cache fl1 i r" using assms(5) success(2,3) by (auto simp: holds_cached_def uses_cache_def)
  then show ?thesis using holds_frame [OF assms(5)] success(1) by blast
next
  case (request request a j version master isConn packet)
  obtain c item1 where c: "st_instanceCache st = Some c" "pinned i item1 c" "keeps item item1" "uses_cache fl i r"
    using assms(5) by (auto simp: holds_cached_def)
  have "uses_cache fl1 i r" using c(4) request(1,4) by (auto simp: uses_cache_def)
  moreover have "pins_ok st1 fl1" using pins_ok_request [OF assms(3) request(1-3)] request(4) by simp
  moreover have "st_instanceCache st1 = Some (snd (cache_lookup j c))" using map_cache [OF request(3)] c(1) by simp
  ultimately show ?thesis using holds_request c(2,3) by blast
next
  case (reply request f packet fr)
  obtain c item1 where c: "st_instanceCache st = Some c" "pinned i item1 c" "keeps item item1" "uses_cache fl i r"
    using assms(5) by (auto simp: holds_cached_def)
  have u: "uses_cache (fl(request := None)) i r" using c(4) assms(6) reply(6) by (auto simp: uses_cache_def)
  have q: "st_requests st request = Some (fl_object f)" using assms(4) reply(1) unfolding flights_ok_def by blast
  note rc = reply_cache [OF reply(5,2,3,4) q assms(2)]
  show ?thesis
  proof (cases "mr_useCache (fl_packet f)")
    case False
    with rc have "store_frame st st1" by (simp add: store_frame_same)
    then show ?thesis unfolding reply(6) by (rule holds_frame [OF assms(5) _ u])
  next
    case True
    then have "0 < pins fl (fl_id f)" using pins_pos [of fl "fl_id f" request] reply(1) by (auto simp: uses_cache_def)
    moreover have "unat (acc c (fl_id f)) = pins fl (fl_id f)" "nonempty c" using assms(3) c(1) by (simp_all add: pins_ok_def)
    ultimately have "acc c (fl_id f) \<noteq> 0" "nonempty c" by auto
    then obtain it where "ic_items c (fl_id f) = Some it" by (auto simp: acc_def split: option.splits)
    with rc True c(1) \<open>nonempty c\<close> obtain c1 where "st_instanceCache st1 = Some c1" "cache_drop (fl_id f) c c1" by auto
    then show ?thesis unfolding reply(6) using holds_reply [OF assms(3) reply(1) u True c(1-3)] by blast
  qed
qed

lemma pending_is_run: "pending_run cf r s s1 \<Longrightarrow> store_run cf s0 s \<Longrightarrow> store_run cf s0 s1"
  by (induction rule: pending_run.induct) (auto intro: store_run.step)

lemma holds_pending:
  assumes "pending_run cf r s s1" "store_run cf s0 s" "sys_ok cf s0" "pins_ok (fst s0) (snd s0)"
    "cf_instanceMax cf < EQ_INSTANCE_NONE" "enumerates (cf_order cf)" "holds_cached r i item s"
  shows "holds_cached r i item s1"
  using assms(1,2,7)
proof (induction rule: pending_run.induct)
  case (step s s1 s2)
  obtain st fl st1 fl1 where s: "s1 = (st, fl)" "s2 = (st1, fl1)" by (cases s1, cases s2)
  have r: "store_run cf s0 (st, fl)" using pending_is_run [OF step.hyps(1) step.prems(1)] by (simp add: s)
  have "flights_ok st fl" using run_sys_ok [OF r assms(5,3)] by (simp add: sys_ok_def)
  moreover have "pins_ok st fl" using run_pins_ok [OF r assms(5,6,3,4)] by simp
  ultimately show ?case using holds_step [of cf st fl st1 fl1 r i item] step assms(6) by (simp add: s)
qed simp

text \<open>C10. What a request has announced is there when the reply arrives. A node asks to map an object,
  and its request announces cached versions; whatever then happens at the node, as long as the
  request is not answered the cache holds the object, with the announced master and every complete
  stream that the request was based on, for the handler of the reply to give to the object.\<close>

theorem announced_data_kept:
  assumes "store_run cf (new_store (Some (new_cache m)) heap, Map.empty) (st, fl)" "cf_instanceMax cf < EQ_INSTANCE_NONE"
    "enumerates (cf_order cf)" "\<forall>a. \<not> isAttached (heap a)"
    "request \<notin> dom fl" "insert request (dom fl) \<noteq> UNIV" "\<not> in_flight fl a" "has_room cf st"
    "mapObjectNB cf request a i version master isConn st = (Some packet, st1)" "mr_useCache packet"
    "pending_run cf request (st1, fl(request \<mapsto> \<lparr>fl_object = a, fl_id = i, fl_packet = packet, fl_attached = False\<rparr>)) (st2, fl2)"
  shows "\<exists>c item c2 item2. st_instanceCache st = Some c \<and> ic_items c i = Some item \<and>
    mr_masterInstanceID packet = ci_masterInstanceID item \<and> mr_minCachedVersion packet = is_version (hd (ci_versions item)) \<and>
    mr_maxCachedVersion packet = is_version (last (ci_versions item)) \<and>
    st_instanceCache st2 = Some c2 \<and> fst (cache_lookup i c2) = Some (ci_masterInstanceID item, ci_versions item2) \<and> keeps item item2"
proof -
  let ?s0 = "(new_store (Some (new_cache m)) heap, Map.empty)" and ?f = "\<lparr>fl_object = a, fl_id = i, fl_packet = packet, fl_attached = False\<rparr>"
  note ok = new_sys_ok [OF assms(4), of cf "Some (new_cache m)"]
  have p: "pins_ok (fst ?s0) (snd ?s0)" using new_pins_ok [of m heap] by simp
  have r1: "store_run cf ?s0 (st1, fl(request \<mapsto> ?f))"
    by (rule store_run.step [OF assms(1)]) (rule store_step.map_object [OF assms(5-9)])
  have "pins_ok st fl" using run_pins_ok [OF assms(1-3) ok p] by simp
  moreover obtain c where c: "st_instanceCache st = Some c"
    using map_cache [OF assms(9)] assms(10) by (cases "st_instanceCache st") simp_all
  ultimately have ne: "nonempty c" by (simp add: pins_ok_def)
  note mc = map_cache [OF assms(9), unfolded c, simplified]
  obtain item where item: "ic_items c i = Some item" using mc assms(10) by auto
  let ?item = "item\<lparr>ci_access := ci_access item + 1, ci_used := ci_used item + 1\<rparr>"
  have u: "uses_cache (fl(request \<mapsto> ?f)) i request" using assms(10) by (simp add: uses_cache_def)
  have l: "st_instanceCache st1 = Some (put_item i (?item, ic_size c) c)" using mc item by (simp add: cache_lookup_def)
  have a: "acc (put_item i (?item, ic_size c) c) i = ci_access ?item" by (simp add: acc_def)
  have "pins_ok st1 (fl(request \<mapsto> ?f))" using run_pins_ok [OF r1 assms(2,3) ok p] by simp
  then have "unat (ci_access ?item) = pins (fl(request \<mapsto> ?f)) i" unfolding a [symmetric] by (simp only: pins_ok_def l option.simps)
  then have "ci_access ?item \<noteq> 0" using pins_pos [OF u] by auto
  then have "pinned i ?item (put_item i (?item, ic_size c) c)" using ne item by (simp add: pinned_def nonempty_def)
  then have "holds_cached request i item (st1, fl(request \<mapsto> ?f))" using u l by (auto simp: holds_cached_def keeps_def)
  from holds_pending [OF assms(11) r1 ok p assms(2,3) this] obtain c2 item2 where
    "st_instanceCache st2 = Some c2" "pinned i item2 c2" "keeps item item2" by (auto simp: holds_cached_def)
  then show ?thesis using c item mc by (auto simp: cache_lookup_def pinned_def keeps_def)
qed

section \<open>A node with cached data\<close>

definition demo_packet :: ObjectDataPacket where
  "demo_packet = (cache_packet True 100)\<lparr>op_masterInstanceID := 2\<rparr>"

definition demo_item :: CacheItem where
  "demo_item = (new_item 2 7)\<lparr>ci_versions := [is_addDataPacket demo_packet new_istream], ci_times := [0]\<rparr>"

definition demo_cache :: InstanceCache where
  "demo_cache = \<lparr>ic_items = [5 \<mapsto> demo_item], ic_maxSize = 1000, ic_size = 100\<rparr>"

definition demo_start :: "InstanceCache \<Rightarrow> unit ObjectStore" where
  "demo_start c = new_store (Some c) (\<lambda>_. demo_object)"

definition demo_request :: MapRequest where
  "demo_request = map_request 1 0 1 (Some (2, ci_versions demo_item))"

definition demo_mapped :: "unit ObjectStore" where
  "demo_mapped = snd (mapObjectNB demo_config 9 3 5 1 7 True (demo_start demo_cache))"

lemma demo_receive:
  "cmdInstance demo_config 0 7 5 (demo_packet\<lparr>op_command := CMD_NODE_OBJECT_INSTANCE\<rparr>) (demo_start (new_cache 1000)) = Some (True, demo_start demo_cache)"
proof -
  have p: "demo_packet\<lparr>op_command := CMD_OBJECT_INSTANCE\<rparr> = demo_packet" by (simp add: demo_packet_def cache_packet_def)
  have "cache_add (cf_order demo_config) 0 \<lparr>ov_identifier = 5, ov_version = op_version demo_packet\<rparr> (op_masterInstanceID demo_packet) 7
      demo_packet 0 (new_cache 1000) = Some (True, demo_cache)"
    by (simp add: cache_add_def prepare_item_def Let_def new_cache_def new_item_def add_stream_def releaseItems_def is_isReady_def
      is_getDataSize_def is_addDataPacket_def is_getPendingVersion_def new_istream_def demo_packet_def cache_packet_def VERSION_INVALID_def
      word_le_nat_alt put_item_def demo_cache_def demo_item_def)
  then have "cache_instance demo_config 0 7 5 demo_packet (demo_start (new_cache 1000)) = Some (demo_start demo_cache)"
    by (simp add: cache_instance_def demo_start_def new_store_def)
  then show ?thesis using p by (simp add: cmdInstance_def Let_def deliver_instance_def)
qed

lemma demo_cached_run: "store_run demo_config (demo_start (new_cache 1000), Map.empty) (demo_start demo_cache, Map.empty)"
  by (rule store_run.step [OF store_run.refl]) (rule store_step.instance_data [OF demo_receive])

lemma demo_map: "mapObjectNB demo_config 9 3 5 1 7 True (demo_start demo_cache) = (Some demo_request, demo_mapped)"
    "st_instanceCache demo_mapped = Some (snd (cache_lookup 5 demo_cache))"
proof -
  have g: "genNextID 0xfffffff0 (- 0x7FFFFFFF) = (1, - 0x7FFFFFFE)" by (subst genNextID.simps) (simp add: Let_def)
  have l: "fst (cache_lookup 5 demo_cache) = Some (2, ci_versions demo_item)"
    by (simp add: cache_lookup_def demo_cache_def demo_item_def new_item_def)
  show "mapObjectNB demo_config 9 3 5 1 7 True (demo_start demo_cache) = (Some demo_request, demo_mapped)"
    "st_instanceCache demo_mapped = Some (snd (cache_lookup 5 demo_cache))"
    by (simp_all add: demo_mapped_def mapObjectNB_def demo_request_def l demo_start_def new_store_def demo_config_def demo_object_def
      isAttached_def g Let_def split_beta st_send_def)
qed

lemma demo_idle: "\<not> in_flight Map.empty a" "has_room demo_config (demo_start demo_cache)" "enumerates (cf_order demo_config)"
    "mr_useCache demo_request"
  by (simp_all add: in_flight_def has_room_def generated_def demo_start_def new_store_def demo_config_def enumerates_def demo_request_def
    map_request_def)

lemma demo_free: "insert (9 :: u32) (dom Map.empty) \<noteq> UNIV"
proof
  assume "insert (9 :: u32) (dom Map.empty) = UNIV"
  then have "(0 :: u32) \<in> insert 9 (dom Map.empty)" by blast
  then show False by simp
qed

lemma demo_flight: "store_run demo_config (demo_start (new_cache 1000), Map.empty)
    (demo_mapped, [9 \<mapsto> \<lparr>fl_object = 3, fl_id = 5, fl_packet = demo_request, fl_attached = False\<rparr>])"
  by (rule store_run.step [OF demo_cached_run], rule store_step.map_object [OF _ demo_free demo_idle(1,2) demo_map(1)]) simp

theorem cache_pins_exact_witness:
  "1 = card {r :: u32. \<exists>f. [9 \<mapsto> \<lparr>fl_object = 3, fl_id = 5, fl_packet = demo_request, fl_attached = False\<rparr>] r = Some f \<and>
     fl_id f = 5 \<and> mr_useCache (fl_packet f)}"
  using cache_pins_exact [OF demo_flight [unfolded demo_start_def] demo_room(1) demo_idle(3) demo_room(2) demo_map(2), of 5
      "demo_item\<lparr>ci_access := 1, ci_used := 1\<rparr>"]
  by (simp add: cache_lookup_def demo_cache_def demo_item_def new_item_def)

theorem announced_data_kept_witness:
  "\<exists>c item c2 item2. st_instanceCache (demo_start demo_cache) = Some c \<and> ic_items c 5 = Some item \<and>
    mr_masterInstanceID demo_request = ci_masterInstanceID item \<and> mr_minCachedVersion demo_request = is_version (hd (ci_versions item)) \<and>
    mr_maxCachedVersion demo_request = is_version (last (ci_versions item)) \<and>
    st_instanceCache (removeInstanceData demo_config 7 demo_mapped) = Some c2 \<and>
    fst (cache_lookup 5 c2) = Some (ci_masterInstanceID item, ci_versions item2) \<and> keeps item item2"
proof -
  let ?fl = "[9 \<mapsto> \<lparr>fl_object = 3, fl_id = 5, fl_packet = demo_request, fl_attached = False\<rparr>]"
  have p: "pending_run demo_config 9 (demo_mapped, ?fl) (removeInstanceData demo_config 7 demo_mapped, ?fl)"
    by (rule pending_run.step [OF pending_run.refl store_step.remove_data]) simp
  have n: "(9 :: u32) \<notin> dom Map.empty" by simp
  show ?thesis
    by (rule announced_data_kept [OF demo_cached_run [unfolded demo_start_def [of "new_cache 1000"]] demo_room(1) demo_idle(3) demo_room(2) n
      demo_free demo_idle(1,2) demo_map(1) demo_idle(4) p])
qed

end
