(* ===== verification/Store_Masters.thy ===== *)
theory Store_Masters
  imports Store_Dispatch
begin

text \<open>
  Finding the master of an object among the nodes that are connected, and the queue of registered
  objects that are sent when the node is idle.
\<close>

section \<open>Finding the master\<close>

text \<open>What an object knows of its master.\<close>

definition known_master :: "StoreConfig \<Rightarrow> 'o Object \<Rightarrow> NodeID" where
  "known_master cf ob = (if isMaster (ob_cm ob) then cf_nodeID cf else case getMasterNode (ob_cm ob) of None \<Rightarrow> 0 | Some node \<Rightarrow> node)"

lemma cmdFindMasterNodeID_eq:
  "cmdFindMasterNodeID cf i st = (case find (\<lambda>n. n \<noteq> 0) (map (\<lambda>a. known_master cf (st_heap st a)) (objects_of st i)) of None \<Rightarrow> 0 | Some node \<Rightarrow> node)"
  by (simp add: cmdFindMasterNodeID_def objects_of_def known_master_def split: option.split)

lemma find_nonzero_none: "(case find (\<lambda>n. n \<noteq> 0) ns of None \<Rightarrow> 0 | Some n \<Rightarrow> n) = (0 :: NodeID)" if "\<forall>n \<in> set ns. n = 0"
  using that by (induction ns) auto

lemma find_nonzero: "(case find (\<lambda>n. n \<noteq> 0) ns of None \<Rightarrow> 0 | Some n \<Rightarrow> n) = (m :: NodeID)"
  if "\<forall>n \<in> set ns. n = 0 \<or> n = m" "m \<in> set ns"
proof (cases "m = 0")
  case True
  with that(1) show ?thesis using find_nonzero_none [of ns] by auto
next
  case False
  with that show ?thesis by (induction ns) auto
qed

lemma ask_known:
  assumes "table_ok st" "\<And>a. isAttached (st_heap st a) \<Longrightarrow> ob_id (st_heap st a) = i \<Longrightarrow> known_master cf (st_heap st a) \<in> {0, m}"
  shows "cmdFindMasterNodeID cf i st =
    (if \<exists>a. isAttached (st_heap st a) \<and> ob_id (st_heap st a) = i \<and> known_master cf (st_heap st a) = m then m else 0)"
proof -
  let ?ns = "map (\<lambda>a. known_master cf (st_heap st a)) (objects_of st i)"
  have s: "set (objects_of st i) = {a. isAttached (st_heap st a) \<and> ob_id (st_heap st a) = i}"
    using assms(1) by (auto simp: table_ok_def attached_def)
  have all: "\<forall>n \<in> set ?ns. n = 0 \<or> n = m" using assms(2) s by auto
  show ?thesis
  proof (cases "m \<in> set ?ns")
    case True
    then show ?thesis using find_nonzero [OF all True] s by (auto simp: cmdFindMasterNodeID_eq)
  next
    case False
    then have "\<forall>n \<in> set ?ns. n = 0" using all by auto
    then show ?thesis using find_nonzero_none [of ?ns] False s by (auto simp: cmdFindMasterNodeID_eq)
  qed
qed

lemma findMasterNodeID_eq:
  "\<forall>n \<in> set nodes. ask n \<in> {0, m} \<Longrightarrow> findMasterNodeID ask nodes = (if \<exists>n \<in> set nodes. ask n = m then m else 0)"
  by (induction nodes) auto

text \<open>The master of an object is found exactly if a connected node knows it. Let every node be in a
  state of a run, and let the objects with an identifier, wherever they are attached, know node \<open>m\<close>
  as their master or none at all. Then the node that asks one node after the other gets \<open>m\<close> if the
  master, or a slave that knows it, is attached at one of them, and otherwise no master.\<close>

theorem master_found:
  assumes "\<And>n. store_run (cfs n) (new_store (caches n) (heaps n), Map.empty) (sts n, fls n)" "\<And>n. cf_instanceMax (cfs n) < EQ_INSTANCE_NONE"
    "\<And>n a. \<not> isAttached (heaps n a)"
    "\<And>n a. isAttached (st_heap (sts n) a) \<Longrightarrow> ob_id (st_heap (sts n) a) = i \<Longrightarrow> known_master (cfs n) (st_heap (sts n) a) \<in> {0, m}"
  shows "findMasterNodeID (\<lambda>n. cmdFindMasterNodeID (cfs n) i (sts n)) nodes =
    (if \<exists>n \<in> set nodes. \<exists>a. isAttached (st_heap (sts n) a) \<and> ob_id (st_heap (sts n) a) = i \<and> known_master (cfs n) (st_heap (sts n) a) = m
     then m else 0)"
proof -
  have ok: "table_ok (sts n)" for n
    using run_sys_ok [OF assms(1,2) new_sys_ok] assms(3) by (simp add: sys_ok_def)
  have a: "cmdFindMasterNodeID (cfs n) i (sts n) =
      (if \<exists>a. isAttached (st_heap (sts n) a) \<and> ob_id (st_heap (sts n) a) = i \<and> known_master (cfs n) (st_heap (sts n) a) = m then m else 0)" for n
    by (rule ask_known [OF ok assms(4)])
  have "\<forall>n \<in> set nodes. cmdFindMasterNodeID (cfs n) i (sts n) \<in> {0, m}" by (simp add: a)
  from findMasterNodeID_eq [OF this] show ?thesis by (auto simp: a)
qed

theorem master_found_witness:
  "findMasterNodeID (\<lambda>n. cmdFindMasterNodeID demo_config 5 demo_store) [1] = 1"
proof -
  have m: "known_master demo_config (st_heap demo_store 3) = 1"
    by (simp add: known_master_def demo_store_def registerObject_def Let_def attach_object_def upd_object_def new_store_def
      cmdRegisterObject_def setupChangeManager_def object_attach_def demo_config_def demo_object_def split: prod.split)
  show ?thesis
    using master_found [of "\<lambda>_. demo_config" "\<lambda>_. None" "\<lambda>_ _. demo_object" "\<lambda>_. demo_store" "\<lambda>_. Map.empty" 5 1 "[1]"]
      demo_store_run demo_room m by (auto simp: demo_members)
qed

section \<open>Registered objects that are sent when idle\<close>

lemma register_queued:
  assumes "0 < st_sendOnRegister st" "0 < cf_sendQueueSize cf"
  shows "a \<in> snd ` set (st_sendQueue (registerObject cf time a st))"
proof -
  have "drop (length q - n) (q @ [x]) = drop (length q - n) q @ [x]" for q :: "(int \<times> nat) list" and n x by simp
  then have "x \<in> set (drop (length (q @ [x]) - n) (q @ [x]))" if "0 < n" for q :: "(int \<times> nat) list" and n x
    using that by (cases n) auto
  then show ?thesis using assms
    by (force simp: registerObject_def Let_def cmdRegisterObject_def attach_object_def upd_object_def split: prod.split)
qed

text \<open>C39. Swapping leaves the old object in the queue of objects to send: it is detached, its owner may
  delete it, and deregistering the new object does not remove it either.\<close>

theorem swap_leaves_queued:
  assumes "0 < st_sendOnRegister st" "0 < cf_sendQueueSize cf" "\<not> isAttached (st_heap st a)" "has_room cf st" "a \<noteq> b"
    "cf_instanceMax cf < EQ_INSTANCE_NONE" "\<not> isAttached (st_heap st b)"
  shows "\<exists>st1. st1 = swapObject a b (registerObject cf time a st) \<and> \<not> isAttached (st_heap st1 a) \<and>
    isAttached (st_heap st1 b) \<and> a \<in> snd ` set (st_sendQueue st1) \<and>
    a \<in> snd ` set (st_sendQueue (deregisterObject cf request request2 b st1))"
proof -
  let ?st = "registerObject cf time a st" and ?i = "ob_id (st_heap st a)" and ?inst = "st_instanceIDs st + 1 + 0x7FFFFFFF"
  note inst = next_instance [OF assms(4,6)]
  have h: "isAttached (st_heap ?st a)" "ob_id (st_heap ?st a) = ?i" "\<exists>os. st_objects ?st ?i = Some os \<and> a \<in> set os"
    "ob_instanceID (st_heap ?st a) = ?inst"
    using inst(1,4) by (simp_all add: registerObject_def Let_def cmdRegisterObject_def attach_object_def upd_object_def object_attach_def
      setupChangeManager_def isAttached_def)
  let ?st1 = "swapObject a b ?st"
  have s: "st_heap ?st1 = (st_heap ?st)(b := fst (object_transfer (st_heap ?st a) (st_heap ?st b)), a := snd (object_transfer (st_heap ?st a) (st_heap ?st b)))"
    "st_sendQueue ?st1 = st_sendQueue ?st"
    using h(1-3) by (auto simp: swapObject_def Let_def split_beta)
  have q: "a \<in> snd ` set (st_sendQueue ?st1)" using register_queued [OF assms(1,2)] s(2) by simp
  have e: "a \<in> snd ` set xs \<Longrightarrow> a \<in> snd ` set (erase_first b xs)" for xs using assms(5) by (induction xs) auto
  have n: "st_sendQueue (fold (\<lambda>node. st_send node (p node)) ns st3) = st_sendQueue st3" for ns p st3
    by (induction ns arbitrary: st3) (simp_all add: st_send_def)
  have "a \<in> snd ` set (st_sendQueue (deregisterObject cf request request2 b st3))" if "a \<in> snd ` set (st_sendQueue st3)" for st3
    using that by (auto simp: deregisterObject_def Let_def upd_object_def detachObject_def cmdDetachObject_def serveRequest_def detach_object_def
      cmdDeregisterObject_def notifyDetach_def n e split: option.split)
  with q show ?thesis using s(1) h(1) assms(5) by (simp add: object_transfer_def isAttached_def)
qed

theorem swap_leaves_queued_witness:
  "\<exists>st1. st1 = swapObject 3 4 (registerObject demo_config 0 3 (enableSendOnRegister (new_store None (\<lambda>_. demo_object)))) \<and>
    \<not> isAttached (st_heap st1 3) \<and> isAttached (st_heap st1 4) \<and> 3 \<in> snd ` set (st_sendQueue st1) \<and>
    3 \<in> snd ` set (st_sendQueue (deregisterObject demo_config 8 9 4 st1))"
  by (rule swap_leaves_queued)
    (simp_all add: enableSendOnRegister_def new_store_def demo_config_def demo_object_def isAttached_def has_room_def generated_def
      EQ_INSTANCE_NONE_def)

end
