(* ===== verification/Connection_Description.thy ===== *)
theory Connection_Description
  imports Prelude
begin

text \<open>
  The texts by which nodes describe themselves to each other: descriptions of connections
  (\<open>libs/co/connectionDescription.cpp\<close>, \<open>connectionType.h\<close>), the node data of \<open>node.cpp\<close>, and the list
  of global attributes that is passed on command lines (\<open>global.cpp\<close>).

  A parser consumes the front of its input. It returns a flag, what it has set and the rest of the
  input, also when it fails. The text of a node identifier belongs to the base library and is a
  parameter.
\<close>

section \<open>Texts\<close>

definition CO_SEPARATOR :: char where
  "CO_SEPARATOR = CHR 0x23"

text \<open>\<open>find\<close> of a separator, with the texts before and behind it.\<close>

fun cut :: "char \<Rightarrow> string \<Rightarrow> (string \<times> string) option" where
  "cut c [] = None"
| "cut c (x # xs) = (if x = c then Some ([], xs) else map_option (\<lambda>(a, b). (x # a, b)) (cut c xs))"

definition isdigit :: "char \<Rightarrow> bool" where
  "isdigit c = (of_char c \<in> {48 ..< 58 :: nat})"

definition isspace :: "char \<Rightarrow> bool" where
  "isspace c = (c = CHR 0x20 \<or> of_char c \<in> {9 ..< 14 :: nat})"

fun digits_value :: "nat \<Rightarrow> string \<Rightarrow> nat" where
  "digits_value n [] = n"
| "digits_value n (c # cs) = (if isdigit c then digits_value (10 * n + (of_char c - 48)) cs else n)"

definition atoi :: "string \<Rightarrow> int" where
  "atoi s = (case dropWhile isspace s of
       [] \<Rightarrow> 0
     | c # cs \<Rightarrow> if c = CHR ''-'' then - int (digits_value 0 cs)
                else if c = CHR ''+'' then int (digits_value 0 cs)
                else int (digits_value 0 (c # cs)))"

fun dec :: "nat \<Rightarrow> string" where
  "dec n = (if n < 10 then [char_of (48 + n)] else dec (n div 10) @ [char_of (48 + n mod 10)])"

definition show_int :: "int \<Rightarrow> string" where
  "show_int i = (if i < 0 then CHR ''-'' # dec (nat (- i)) else dec (nat i))"

declare dec.simps [simp del]

section \<open>Descriptions of connections\<close>

datatype ConnectionType =
    CONNECTIONTYPE_NONE | CONNECTIONTYPE_TCPIP | CONNECTIONTYPE_SDP | CONNECTIONTYPE_PIPE | CONNECTIONTYPE_NAMEDPIPE
  | CONNECTIONTYPE_IB | CONNECTIONTYPE_RDMA | CONNECTIONTYPE_UDT | CONNECTIONTYPE_PGM | CONNECTIONTYPE_RSP

fun type_text :: "ConnectionType \<Rightarrow> string" where
  "type_text CONNECTIONTYPE_TCPIP = ''TCPIP''"
| "type_text CONNECTIONTYPE_SDP = ''SDP''"
| "type_text CONNECTIONTYPE_PIPE = ''ANON_PIPE''"
| "type_text CONNECTIONTYPE_NAMEDPIPE = ''PIPE''"
| "type_text CONNECTIONTYPE_IB = ''IB''"
| "type_text CONNECTIONTYPE_PGM = ''PGM''"
| "type_text CONNECTIONTYPE_RSP = ''RSP''"
| "type_text CONNECTIONTYPE_NONE = ''NONE''"
| "type_text CONNECTIONTYPE_RDMA = ''RDMA''"
| "type_text CONNECTIONTYPE_UDT = ''UDT''"

definition getConnectionType :: "string \<Rightarrow> ConnectionType" where
  "getConnectionType s =
     (if s = ''TCPIP'' then CONNECTIONTYPE_TCPIP
      else if s = ''TCP'' then CONNECTIONTYPE_TCPIP
      else if s = ''SDP'' then CONNECTIONTYPE_SDP
      else if s = ''ANON_PIPE'' then CONNECTIONTYPE_PIPE
      else if s = ''PIPE'' then CONNECTIONTYPE_NAMEDPIPE
      else if s = ''IB'' then CONNECTIONTYPE_IB
      else if s = ''PGM'' then CONNECTIONTYPE_PGM
      else if s = ''RSP'' then CONNECTIONTYPE_RSP
      else if s = ''RDMA'' then CONNECTIONTYPE_RDMA
      else if s = ''UDT'' then CONNECTIONTYPE_UDT
      else CONNECTIONTYPE_NONE)"

text \<open>The order of the types separates those for multicast from the others.\<close>

definition is_multicast :: "ConnectionType \<Rightarrow> bool" where
  "is_multicast type = (type = CONNECTIONTYPE_PGM \<or> type = CONNECTIONTYPE_RSP)"

record ConnectionDescription =
  cd_type :: ConnectionType
  cd_bandwidth :: u32
  cd_port :: u16
  cd_hostname :: string
  cd_interface :: string
  cd_filename :: string

definition new_description :: ConnectionDescription where
  "new_description = \<lparr>cd_type = CONNECTIONTYPE_TCPIP, cd_bandwidth = 0, cd_port = 0, cd_hostname = [],
     cd_interface = [], cd_filename = ''default''\<rparr>"

definition serialize_description :: "ConnectionDescription \<Rightarrow> string" where
  "serialize_description cd =
     type_text (cd_type cd) @ [CO_SEPARATOR] @ show_int (sint (cd_bandwidth cd)) @ [CO_SEPARATOR] @
     cd_hostname cd @ [CO_SEPARATOR] @ cd_interface cd @ [CO_SEPARATOR] @
     show_int (uint (cd_port cd)) @ [CO_SEPARATOR] @ cd_filename cd @ [CO_SEPARATOR]"

text \<open>One token behind the host name: a port or a type.\<close>

definition human_token :: "string \<Rightarrow> ConnectionDescription \<Rightarrow> bool \<times> ConnectionDescription" where
  "human_token token cd =
     (if token \<noteq> [] \<and> isdigit (hd token) then (True, cd\<lparr>cd_port := word_of_int (atoi token)\<rparr>)
      else
        let cd1 = cd\<lparr>cd_type := getConnectionType token\<rparr>
        in if cd_type cd1 = CONNECTIONTYPE_NAMEDPIPE then (True, cd1\<lparr>cd_filename := cd_hostname cd1, cd_hostname := []\<rparr>)
           else (cd_type cd1 \<noteq> CONNECTIONTYPE_NONE, cd1))"

lemma cut_length: "cut c s = Some (a, b) \<Longrightarrow> length b < length s"
  by (induction s arbitrary: a b) (auto split: if_splits)

function human_tokens :: "string \<Rightarrow> ConnectionDescription \<Rightarrow> bool \<times> ConnectionDescription \<times> string" where
  "human_tokens data cd =
     (case cut (CHR '':'') data of
        None \<Rightarrow> (case human_token data cd of (good, cd1) \<Rightarrow> (good, cd1, if good then [] else data))
      | Some (token, rest) \<Rightarrow>
          (case human_token token cd of (good, cd1) \<Rightarrow> if good then human_tokens rest cd1 else (False, cd1, rest)))"
  by auto
termination by (relation "measure (\<lambda>(data, cd). length data)") (auto dest: cut_length)

declare human_tokens.simps [simp del]

text \<open>The text of a person, or the fields one after the other; each field may be missing.\<close>

definition fromString :: "string \<Rightarrow> ConnectionDescription \<Rightarrow> bool \<times> ConnectionDescription \<times> string" where
  "fromString data cd =
     (case cut CO_SEPARATOR data of
        None \<Rightarrow>
          (let cd1 = cd\<lparr>cd_type := CONNECTIONTYPE_TCPIP\<rparr>
           in case cut (CHR '':'') data of
                None \<Rightarrow> (True, cd1\<lparr>cd_hostname := data\<rparr>, [])
              | Some (host, rest) \<Rightarrow> human_tokens rest (cd1\<lparr>cd_hostname := host\<rparr>))
      | Some (typeStr, data) \<Rightarrow>
          (let cd = cd\<lparr>cd_type := getConnectionType typeStr\<rparr>
           in if cd_type cd = CONNECTIONTYPE_NONE then (False, cd, data)
              else case cut CO_SEPARATOR data of
                None \<Rightarrow> (False, cd, data)
              | Some (bandwidthStr, data) \<Rightarrow>
                  let cd = cd\<lparr>cd_bandwidth := word_of_int (atoi bandwidthStr)\<rparr>
                  in case cut CO_SEPARATOR data of
                       None \<Rightarrow> (False, cd, data)
                     | Some (hostname, data) \<Rightarrow>
                         let cd = cd\<lparr>cd_hostname := hostname\<rparr>
                         in case cut CO_SEPARATOR data of
                              None \<Rightarrow> (False, cd, data)
                            | Some (interface, data) \<Rightarrow>
                                let cd = cd\<lparr>cd_interface := interface\<rparr>
                                in case cut CO_SEPARATOR data of
                                     None \<Rightarrow> (False, cd, data)
                                   | Some (portStr, data) \<Rightarrow>
                                       let cd = cd\<lparr>cd_port := word_of_int (atoi portStr)\<rparr>
                                       in case cut CO_SEPARATOR data of
                                            None \<Rightarrow> (False, cd, data)
                                          | Some (filename, data) \<Rightarrow> (True, cd\<lparr>cd_filename := filename\<rparr>, data)))"

definition isSameMulticastGroup :: "ConnectionDescription \<Rightarrow> ConnectionDescription \<Rightarrow> bool" where
  "isSameMulticastGroup lhs rhs = (cd_type lhs = cd_type rhs \<and> cd_hostname lhs = cd_hostname rhs \<and> cd_port lhs = cd_port rhs)"

section \<open>Lists of descriptions and node data\<close>

definition serialize_descriptions :: "ConnectionDescription list \<Rightarrow> string" where
  "serialize_descriptions ds = show_int (int (length ds)) @ [CO_SEPARATOR] @ concat (map serialize_description ds)"

fun read_items :: "(string \<Rightarrow> bool \<times> 'a \<times> string) \<Rightarrow> nat \<Rightarrow> string \<Rightarrow> 'a list \<Rightarrow> bool \<times> 'a list \<times> string" where
  "read_items get 0 data items = (True, items, data)"
| "read_items get (Suc n) data items =
     (case get data of (good, x, rest) \<Rightarrow> if good then read_items get n rest (items @ [x]) else (False, items, rest))"

definition deserialize_descriptions ::
  "string \<Rightarrow> ConnectionDescription list \<Rightarrow> bool \<times> ConnectionDescription list \<times> string" where
  "deserialize_descriptions data ds =
     (case cut CO_SEPARATOR data of
        None \<Rightarrow> (False, ds, data)
      | Some (sizeStr, rest) \<Rightarrow>
          if sizeStr = [] \<or> \<not> isdigit (hd sizeStr) then (False, ds, data)
          else read_items (\<lambda>s. fromString s new_description) (nat (atoi sizeStr)) rest ds)"

definition serialize_node :: "(u128 \<Rightarrow> string) \<Rightarrow> u128 \<Rightarrow> ConnectionDescription list \<Rightarrow> string" where
  "serialize_node idText identifier ds = idText identifier @ [CO_SEPARATOR] @ serialize_descriptions ds"

definition deserialize_node ::
  "(string \<Rightarrow> u128) \<Rightarrow> string \<Rightarrow> bool \<times> (u128 \<times> ConnectionDescription list) option \<times> string" where
  "deserialize_node idParse data =
     (case cut CO_SEPARATOR data of
        None \<Rightarrow> (False, None, data)
      | Some (idStr, rest) \<Rightarrow>
          if idStr = [] then (False, None, data)
          else case deserialize_descriptions rest [] of (good, ds, rest1) \<Rightarrow> (good, Some (idParse idStr, ds), rest1))"

section \<open>Global attributes\<close>

definition global_toString :: "u32 list \<Rightarrow> string" where
  "global_toString attributes =
     [CO_SEPARATOR, CO_SEPARATOR] @ concat (map (\<lambda>v. show_int (sint v) @ [CO_SEPARATOR]) attributes) @ [CO_SEPARATOR]"

text \<open>The argument is what follows a separator; the values are between that and the next one.\<close>

function global_values :: "string \<Rightarrow> u32 list" where
  "global_values data =
     (case cut CO_SEPARATOR data of
        None \<Rightarrow> []
      | Some (sub, rest) \<Rightarrow> if sub \<noteq> [] \<and> isdigit (hd sub) then word_of_int (atoi sub) # global_values rest else [])"
  by auto
termination by (relation "measure length") (auto dest: cut_length)

declare global_values.simps [simp del]

definition global_fromString :: "string \<Rightarrow> u32 list \<Rightarrow> bool \<times> u32 list" where
  "global_fromString data attributes =
     (if data = [] \<or> hd data \<noteq> CO_SEPARATOR then (False, attributes)
      else case cut CO_SEPARATOR (tl data) of
             None \<Rightarrow> (False, attributes)
           | Some (skipped, rest) \<Rightarrow>
               let newGlobals = global_values rest
               in if length newGlobals \<noteq> length attributes then (False, attributes) else (True, newGlobals))"

end
