(* ===== verification/Local_Node.thy ===== *)
theory Local_Node
  imports Object_Store Connection_Description
begin

text \<open>
  The local node (\<open>libs/co/localNode.cpp\<close>, \<open>node.cpp\<close>): its table of nodes and connections, the
  handshake by which two nodes connect, the handlers of the receiver and command threads, the token
  that serialises senders, and the commands that wait for an object.

  Nodes, connections and descriptions of connections are addresses. \<open>ln_incoming\<close> is the set of
  connections on which the node receives, in the order they were added; a handler gets the connection
  that has data. \<open>ln_commands\<close> holds the commands passed on to the command thread. What is sent is
  appended to \<open>ln_out\<close> with the connection used; what requests are served with to \<open>ln_served\<close>. \<open>None\<close>
  is the use of a null pointer.
\<close>

section \<open>Nodes and connections\<close>

datatype NodeState = STATE_CLOSED | STATE_CONNECTED | STATE_LISTENING | STATE_CLOSING

record MCData =
  mcd_connection :: nat
  mcd_node :: nat

record Node =
  nd_id :: u128
  nd_type :: u32
  nd_state :: NodeState
  nd_outgoing :: "nat option"
  nd_outMulticast :: "nat option"
  nd_multicasts :: "MCData list"
  nd_descriptions :: "nat list"
  nd_lastReceive :: int

definition isConnected :: "Node \<Rightarrow> bool" where
  "isConnected nd = (nd_state nd \<noteq> STATE_CLOSED)"

datatype ConnectionState = CONNECTION_CLOSED | CONNECTION_CONNECTED | CONNECTION_LISTENING

record Connection =
  cn_description :: nat
  cn_state :: ConnectionState

text \<open>The packets of the node protocol, with the fields the handlers read.\<close>

datatype NodePacket =
    NODE_STOP_RCV
  | NODE_STOP_CMD
  | NODE_CONNECT u128 u32 u32 string
  | NODE_CONNECT_REPLY u128 u32 u32 string
  | NODE_CONNECT_ACK
  | NODE_ID u128 u32 string
  | NODE_DISCONNECT u32
  | NODE_GET_NODE_DATA u128 u32
  | NODE_GET_NODE_DATA_REPLY u128 u32 u32 string
  | NODE_ACQUIRE_SEND_TOKEN u32
  | NODE_ACQUIRE_SEND_TOKEN_REPLY u32
  | NODE_RELEASE_SEND_TOKEN
  | NODE_ADD_LISTENER nat string
  | NODE_REMOVE_LISTENER u32 nat string
  | NODE_PING
  | NODE_PING_REPLY
  | NODE_ACK_REQUEST u32
  | NODE_REMOVE_NODE nat

datatype RequestResult = SERVED | SERVED_BOOL bool | SERVED_NODE "nat option"

type_synonym PendingCommand = "u128 \<times> u32 \<times> ObjectCommand"

text \<open>The configuration holds what other libraries provide: texts and values of identifiers, undefined requests.\<close>

record NodeConfig =
  nc_store :: StoreConfig
  nc_undefined :: u32
  nc_idText :: "u128 \<Rightarrow> string"
  nc_idParse :: "string \<Rightarrow> u128"
  nc_generateID :: "nat \<Rightarrow> u128"
  nc_defaultPort :: u16
  nc_timeout :: "int option"
  nc_order :: "(u128 \<rightharpoonup> nat) \<Rightarrow> u128 list"

record 'o LocalNode =
  ln_self :: nat
  ln_heap :: "nat \<Rightarrow> Node"
  ln_fresh :: nat
  ln_descs :: "nat \<Rightarrow> ConnectionDescription"
  ln_freshDesc :: nat
  ln_conns :: "nat \<Rightarrow> Connection"
  ln_connectionNodes :: "nat \<rightharpoonup> nat"
  ln_nodes :: "u128 \<rightharpoonup> nat"
  ln_incoming :: "nat list"
  ln_requests :: "u32 \<rightharpoonup> nat option"
  ln_served :: "(u32 \<times> RequestResult) list"
  ln_out :: "(nat \<times> NodePacket) list"
  ln_commands :: "(nat option \<times> NodePacket) list"
  ln_pending :: "PendingCommand list"
  ln_sendToken :: bool
  ln_lastSendToken :: int
  ln_sendTokenQueue :: "(nat option \<times> u32) list"
  ln_store :: "'o ObjectStore"

definition upd_node :: "nat \<Rightarrow> (Node \<Rightarrow> Node) \<Rightarrow> 'o LocalNode \<Rightarrow> 'o LocalNode" where
  "upd_node a f nl = nl\<lparr>ln_heap := (ln_heap nl)(a := f (ln_heap nl a))\<rparr>"

definition node :: "'o LocalNode \<Rightarrow> nat \<Rightarrow> Node" where
  "node nl a = ln_heap nl a"

definition ln_serve :: "u32 \<Rightarrow> RequestResult \<Rightarrow> 'o LocalNode \<Rightarrow> 'o LocalNode" where
  "ln_serve request result nl =
     nl\<lparr>ln_served := ln_served nl @ [(request, result)], ln_requests := (ln_requests nl)(request := None)\<rparr>"

text \<open>Writing on a closed connection fails.\<close>

definition conn_send :: "nat \<Rightarrow> NodePacket \<Rightarrow> 'o LocalNode \<Rightarrow> 'o LocalNode" where
  "conn_send c p nl = (if cn_state (ln_conns nl c) = CONNECTION_CLOSED then nl else nl\<lparr>ln_out := ln_out nl @ [(c, p)]\<rparr>)"

definition node_send :: "nat \<Rightarrow> NodePacket \<Rightarrow> 'o LocalNode \<Rightarrow> 'o LocalNode" where
  "node_send a p nl =
     (if \<not> isConnected (node nl a) then nl
      else case nd_outgoing (node nl a) of None \<Rightarrow> nl | Some c \<Rightarrow> conn_send c p nl)"

definition connection_type :: "'o LocalNode \<Rightarrow> nat \<Rightarrow> ConnectionType" where
  "connection_type nl c = cd_type (ln_descs nl (cn_description (ln_conns nl c)))"

definition add_connection :: "nat \<Rightarrow> 'o LocalNode \<Rightarrow> 'o LocalNode" where
  "add_connection c nl = nl\<lparr>ln_incoming := ln_incoming nl @ [c]\<rparr>"

definition close_connection :: "nat \<Rightarrow> 'o LocalNode \<Rightarrow> 'o LocalNode" where
  "close_connection c nl = nl\<lparr>ln_conns := (ln_conns nl)(c := (ln_conns nl c)\<lparr>cn_state := CONNECTION_CLOSED\<rparr>)\<rparr>"

definition remove_connection :: "nat \<Rightarrow> 'o LocalNode \<Rightarrow> 'o LocalNode" where
  "remove_connection c nl = close_connection c (nl\<lparr>ln_incoming := remove1 c (ln_incoming nl)\<rparr>)"

definition new_connection_descriptions :: "ConnectionDescription list \<Rightarrow> 'o LocalNode \<Rightarrow> nat list \<times> 'o LocalNode" where
  "new_connection_descriptions ds nl =
     ([ln_freshDesc nl ..< ln_freshDesc nl + length ds],
      nl\<lparr>ln_descs := (\<lambda>d. if ln_freshDesc nl \<le> d \<and> d < ln_freshDesc nl + length ds then ds ! (d - ln_freshDesc nl) else ln_descs nl d),
         ln_freshDesc := ln_freshDesc nl + length ds\<rparr>)"

definition createNode :: "NodeConfig \<Rightarrow> u32 \<Rightarrow> 'o LocalNode \<Rightarrow> nat \<times> 'o LocalNode" where
  "createNode cf type nl =
     (ln_fresh nl, (upd_node (ln_fresh nl) (\<lambda>_. \<lparr>nd_id = nc_generateID cf (ln_fresh nl), nd_type = type, nd_state = STATE_CLOSED,
        nd_outgoing = None, nd_outMulticast = None, nd_multicasts = [], nd_descriptions = [], nd_lastReceive = 0\<rparr>) nl)
        \<lparr>ln_fresh := ln_fresh nl + 1\<rparr>)"

definition node_serialize :: "NodeConfig \<Rightarrow> nat \<Rightarrow> 'o LocalNode \<Rightarrow> string" where
  "node_serialize cf a nl =
     serialize_node (nc_idText cf) (nd_id (node nl a)) (map (ln_descs nl) (nd_descriptions (node nl a)))"

definition node_deserialize :: "NodeConfig \<Rightarrow> nat \<Rightarrow> string \<Rightarrow> 'o LocalNode \<Rightarrow> 'o LocalNode" where
  "node_deserialize cf a data nl =
     (case deserialize_node (nc_idParse cf) data of
        (good, None, rest) \<Rightarrow> nl
      | (good, Some (identifier, ds), rest) \<Rightarrow>
          (case new_connection_descriptions ds nl of
             (refs, ln1) \<Rightarrow> upd_node a (\<lambda>nd. nd\<lparr>nd_id := identifier, nd_descriptions := refs\<rparr>) ln1))"

definition addConnectionDescription :: "NodeConfig \<Rightarrow> nat \<Rightarrow> nat \<Rightarrow> 'o LocalNode \<Rightarrow> 'o LocalNode" where
  "addConnectionDescription cf a d nl =
     (let cd = ln_descs nl d;
          ln1 = (if is_multicast (cd_type cd) \<and> cd_port cd = 0
                 then nl\<lparr>ln_descs := (ln_descs nl)(d := cd\<lparr>cd_port := nc_defaultPort cf\<rparr>)\<rparr> else nl)
      in upd_node a (\<lambda>nd. nd\<lparr>nd_descriptions := nd_descriptions nd @ [d]\<rparr>) ln1)"

fun erase_description :: "(nat \<Rightarrow> ConnectionDescription) \<Rightarrow> ConnectionDescription \<Rightarrow> nat list \<Rightarrow> bool \<times> nat list" where
  "erase_description descs cd [] = (False, [])"
| "erase_description descs cd (d # ds) =
     (if cd = descs d then (True, ds) else case erase_description descs cd ds of (found, ds1) \<Rightarrow> (found, d # ds1))"

definition removeConnectionDescription :: "nat \<Rightarrow> ConnectionDescription \<Rightarrow> 'o LocalNode \<Rightarrow> 'o LocalNode" where
  "removeConnectionDescription a cd nl =
     upd_node a (\<lambda>nd. nd\<lparr>nd_descriptions := snd (erase_description (ln_descs nl) cd (nd_descriptions nd))\<rparr>) nl"

text \<open>The first use of a multicast connection announces the sender to the group.\<close>

definition useMulticast :: "NodeConfig \<Rightarrow> nat \<Rightarrow> 'o LocalNode \<Rightarrow> nat option \<times> 'o LocalNode" where
  "useMulticast cf a nl =
     (if \<not> isConnected (node nl a) then (None, nl)
      else
        let found = (case nd_outMulticast (node nl a) of
              None \<Rightarrow> None
            | Some c \<Rightarrow> if cn_state (ln_conns nl c) = CONNECTION_CLOSED then None else Some c)
        in if found \<noteq> None then (found, nl)
           else if nd_multicasts (node nl a) = [] then (None, nl)
           else
             let data = last (nd_multicasts (node nl a));
                 ln1 = upd_node a (\<lambda>nd. nd\<lparr>nd_multicasts := butlast (nd_multicasts nd)\<rparr>) nl;
                 ln2 = conn_send (mcd_connection data)
                         (NODE_ID (nd_id (node ln1 (mcd_node data))) (nd_type (node ln1 a)) (node_serialize cf (mcd_node data) ln1)) ln1
             in (Some (mcd_connection data), upd_node a (\<lambda>nd. nd\<lparr>nd_outMulticast := Some (mcd_connection data)\<rparr>) ln2))"

section \<open>Commands that wait for an object\<close>

definition dispatch_pending :: "NodeConfig \<Rightarrow> PendingCommand \<Rightarrow> 'o ObjectStore \<Rightarrow> bool \<times> 'o ObjectStore" where
  "dispatch_pending cf command st = (case command of (identifier, inst, cmd) \<Rightarrow> dispatchObjectCommand (nc_store cf) identifier inst cmd st)"

fun try_pending :: "NodeConfig \<Rightarrow> PendingCommand list \<Rightarrow> 'o ObjectStore \<Rightarrow> bool \<times> PendingCommand list \<times> 'o ObjectStore" where
  "try_pending cf [] st = (False, [], st)"
| "try_pending cf (command # commands) st =
     (case dispatch_pending cf command st of
        (done, st1) \<Rightarrow>
          if done then (True, commands, st1)
          else case try_pending cf commands st1 of (changes, commands1, st2) \<Rightarrow> (changes, command # commands1, st2))"

lemma try_pending_length: "try_pending cf cs st = (True, cs1, st1) \<Longrightarrow> length cs1 < length cs"
  by (induction cs arbitrary: st cs1 st1) (auto split: prod.splits if_splits)

function redispatch :: "NodeConfig \<Rightarrow> PendingCommand list \<Rightarrow> 'o ObjectStore \<Rightarrow> PendingCommand list \<times> 'o ObjectStore" where
  "redispatch cf pending st =
     (case try_pending cf pending st of
        (changes, pending1, st1) \<Rightarrow> if changes then redispatch cf pending1 st1 else (pending1, st1))"
  by auto
termination
  by (relation "measure (\<lambda>(cf, pending, st). length pending)") (auto dest: try_pending_length [OF sym])

declare redispatch.simps [simp del]

definition redispatchCommands :: "NodeConfig \<Rightarrow> 'o LocalNode \<Rightarrow> 'o LocalNode" where
  "redispatchCommands cf nl =
     (case redispatch cf (ln_pending nl) (ln_store nl) of (pending, st) \<Rightarrow> nl\<lparr>ln_pending := pending, ln_store := st\<rparr>)"

definition dispatch_object :: "NodeConfig \<Rightarrow> PendingCommand \<Rightarrow> 'o LocalNode \<Rightarrow> 'o LocalNode" where
  "dispatch_object cf command nl =
     (case dispatch_pending cf command (ln_store nl) of
        (done, st) \<Rightarrow>
          let ln1 = redispatchCommands cf (nl\<lparr>ln_store := st\<rparr>)
          in if done then ln1 else ln1\<lparr>ln_pending := ln_pending ln1 @ [command]\<rparr>)"

definition push_command :: "nat option \<Rightarrow> NodePacket \<Rightarrow> 'o LocalNode \<Rightarrow> 'o LocalNode" where
  "push_command from p nl = nl\<lparr>ln_commands := ln_commands nl @ [(from, p)]\<rparr>"

end
