(* ===== verification/Node_Commands.thy ===== *)
theory Node_Commands
  imports Local_Node
begin

text \<open>
  The handlers of a local node (\<open>libs/co/localNode.cpp\<close>): starting and stopping to listen, connecting,
  disconnecting, listeners, node data, the send token, and the events of the receiver thread.
\<close>

section \<open>Looking up nodes\<close>

definition getNode :: "'o LocalNode \<Rightarrow> u128 \<Rightarrow> nat option" where
  "getNode nl identifier = ln_nodes nl identifier"

definition getNodes :: "NodeConfig \<Rightarrow> bool \<Rightarrow> 'o LocalNode \<Rightarrow> nat list" where
  "getNodes cf addSelf nl =
     filter (\<lambda>a. isConnected (node nl a) \<and> (addSelf \<or> a \<noteq> ln_self nl))
       (List.map_filter (ln_nodes nl) (nc_order cf (ln_nodes nl)))"

section \<open>Starting and stopping\<close>

definition connectSelf :: "nat \<Rightarrow> nat \<Rightarrow> 'o LocalNode \<Rightarrow> 'o LocalNode" where
  "connectSelf pipe other nl =
     (let nl1 = upd_node (ln_self nl) (\<lambda>nd. nd\<lparr>nd_outgoing := Some other\<rparr>) nl
      in add_connection pipe
           (nl1\<lparr>ln_connectionNodes := (ln_connectionNodes nl1)(pipe \<mapsto> ln_self nl1),
                ln_nodes := (ln_nodes nl1)(nd_id (node nl1 (ln_self nl1)) \<mapsto> ln_self nl1)\<rparr>))"

definition add_multicast :: "nat \<Rightarrow> 'o LocalNode \<Rightarrow> 'o LocalNode" where
  "add_multicast c nl =
     upd_node (ln_self nl) (\<lambda>nd. nd\<lparr>nd_multicasts := nd_multicasts nd @ [\<lparr>mcd_connection = c, mcd_node = ln_self nl\<rparr>]\<rparr>) nl"

definition add_listening :: "nat \<Rightarrow> 'o LocalNode \<Rightarrow> 'o LocalNode" where
  "add_listening c nl =
     (let nl1 = add_connection c (nl\<lparr>ln_connectionNodes := (ln_connectionNodes nl)(c \<mapsto> ln_self nl)\<rparr>)
      in if is_multicast (connection_type nl1 c) then add_multicast c nl1 else nl1)"

text \<open>\<open>created\<close> gives for each description the connection that listens, if it could be created.\<close>

fun listen_all :: "nat option list \<Rightarrow> 'o LocalNode \<Rightarrow> bool \<times> 'o LocalNode" where
  "listen_all [] nl = (True, nl)"
| "listen_all (None # created) nl = (False, nl)"
| "listen_all (Some c # created) nl = listen_all created (add_listening c nl)"

definition listen :: "(nat \<times> nat) option \<Rightarrow> nat option list \<Rightarrow> 'o LocalNode \<Rightarrow> bool \<times> 'o LocalNode" where
  "listen pipe created nl =
     (case pipe of
        None \<Rightarrow> (False, nl)
      | Some (c, other) \<Rightarrow>
          if nd_state (node nl (ln_self nl)) \<noteq> STATE_CLOSED then (False, nl)
          else case listen_all created (connectSelf c other nl) of
                 (good, nl1) \<Rightarrow>
                   (good, if good then upd_node (ln_self nl1) (\<lambda>nd. nd\<lparr>nd_state := STATE_LISTENING\<rparr>) nl1 else nl1))"

definition close_node :: "nat \<Rightarrow> 'o LocalNode \<Rightarrow> 'o LocalNode" where
  "close_node a = upd_node a (\<lambda>nd. nd\<lparr>nd_state := STATE_CLOSED, nd_outMulticast := None, nd_outgoing := None, nd_multicasts := []\<rparr>)"

function cleanup_connections :: "'o LocalNode \<Rightarrow> 'o LocalNode" where
  "cleanup_connections nl =
     (if ln_incoming nl = [] then nl
      else
        let c = last (ln_incoming nl);
            nl1 = (case ln_connectionNodes nl c of None \<Rightarrow> nl | Some a \<Rightarrow> close_node a nl);
            nl2 = nl1\<lparr>ln_connectionNodes := (ln_connectionNodes nl1)(c := None)\<rparr>;
            nl3 = (case ln_connectionNodes nl c of
                     None \<Rightarrow> nl2 | Some a \<Rightarrow> nl2\<lparr>ln_nodes := (ln_nodes nl2)(nd_id (node nl2 a) := None)\<rparr>)
        in cleanup_connections (remove_connection c nl3))"
  by auto
termination
  by (relation "measure (\<lambda>nl. length (ln_incoming nl))")
    (auto simp: remove_connection_def close_connection_def close_node_def upd_node_def length_remove1 split: option.splits)

declare cleanup_connections.simps [simp del]

definition cleanup :: "nat \<Rightarrow> 'o LocalNode \<Rightarrow> 'o LocalNode" where
  "cleanup pipe nl =
     (let nl1 = upd_node (ln_self nl) (\<lambda>nd. nd\<lparr>nd_multicasts := []\<rparr>) nl;
          nl2 = remove_connection pipe nl1;
          nl3 = nl2\<lparr>ln_connectionNodes := (ln_connectionNodes nl2)(pipe := None)\<rparr>;
          nl4 = upd_node (ln_self nl3) (\<lambda>nd. nd\<lparr>nd_outMulticast := None, nd_outgoing := None\<rparr>) nl3
      in (cleanup_connections nl4)\<lparr>ln_connectionNodes := Map.empty, ln_nodes := Map.empty\<rparr>)"

section \<open>Connecting\<close>

datatype ConnectResult = CONNECT_OK | CONNECT_TRY_AGAIN | CONNECT_BAD_STATE | CONNECT_TIMEOUT | CONNECT_UNREACHABLE

text \<open>The request, and what its sender makes of the answer; there is none after a timeout.\<close>

definition connect_request :: "NodeConfig \<Rightarrow> u32 \<Rightarrow> nat \<Rightarrow> nat \<Rightarrow> 'o LocalNode \<Rightarrow> ConnectResult option \<times> 'o LocalNode" where
  "connect_request cf request a c nl =
     (if nd_state (node nl (ln_self nl)) \<noteq> STATE_LISTENING \<or> cn_state (ln_conns nl c) \<noteq> CONNECTION_CONNECTED \<or>
         nd_state (node nl a) \<noteq> STATE_CLOSED then (Some CONNECT_BAD_STATE, nl)
      else
        let nl1 = add_connection c nl;
            nl2 = nl1\<lparr>ln_requests := (ln_requests nl1)(request \<mapsto> Some a)\<rparr>;
            self = node nl2 (ln_self nl2)
        in (None, conn_send c (NODE_CONNECT (nd_id self) request (nd_type self) (node_serialize cf (ln_self nl2) nl2)) nl2))"

definition connect_result :: "bool option \<Rightarrow> ConnectResult" where
  "connect_result answer =
     (case answer of None \<Rightarrow> CONNECT_TIMEOUT | Some good \<Rightarrow> if good then CONNECT_OK else CONNECT_TRY_AGAIN)"

text \<open>The connections that were created for the descriptions of the node; those for multicast are passed over.\<close>

fun connect_node :: "NodeConfig \<Rightarrow> u32 \<Rightarrow> nat \<Rightarrow> (nat \<times> nat option) list \<Rightarrow> 'o LocalNode \<Rightarrow> ConnectResult option \<times> 'o LocalNode" where
  "connect_node cf request a [] nl =
     (if isConnected (node nl a) then (Some CONNECT_OK, nl) else (Some CONNECT_UNREACHABLE, nl))"
| "connect_node cf request a ((d, created) # ds) nl =
     (if isConnected (node nl a) then (Some CONNECT_OK, nl)
      else if is_multicast (cd_type (ln_descs nl d)) then connect_node cf request a ds nl
      else case created of None \<Rightarrow> connect_node cf request a ds nl | Some c \<Rightarrow> connect_request cf request a c nl)"

definition add_node :: "nat \<Rightarrow> nat \<Rightarrow> 'o LocalNode \<Rightarrow> 'o LocalNode" where
  "add_node c a nl =
     (let nl1 = upd_node a (\<lambda>nd. nd\<lparr>nd_outgoing := Some c, nd_state := STATE_CONNECTED\<rparr>) nl
      in nl1\<lparr>ln_connectionNodes := (ln_connectionNodes nl1)(c \<mapsto> a), ln_nodes := (ln_nodes nl1)(nd_id (node nl1 a) \<mapsto> a)\<rparr>)"

definition accept_node :: "NodeConfig \<Rightarrow> nat \<Rightarrow> nat \<Rightarrow> u32 \<Rightarrow> string \<Rightarrow> 'o LocalNode \<Rightarrow> 'o LocalNode" where
  "accept_node cf c a request data nl =
     (let nl1 = add_node c a (node_deserialize cf a data nl);
          self = node nl1 (ln_self nl1)
      in conn_send c (NODE_CONNECT_REPLY (nd_id self) request (nd_type self) (node_serialize cf (ln_self nl1) nl1)) nl1)"

definition cmdConnect :: "NodeConfig \<Rightarrow> nat \<Rightarrow> u128 \<Rightarrow> u32 \<Rightarrow> u32 \<Rightarrow> string \<Rightarrow> 'o LocalNode \<Rightarrow> 'o LocalNode" where
  "cmdConnect cf c nodeID request type data nl =
     (case ln_nodes nl nodeID of
        Some a \<Rightarrow>
          if isConnected (node nl a) then remove_connection c (conn_send c (NODE_CONNECT_REPLY 0 request 0 []) nl)
          else accept_node cf c a request data nl
      | None \<Rightarrow> (case createNode cf type nl of (a, nl1) \<Rightarrow> accept_node cf c a request data nl1))"

text \<open>A connected peer gets the multicast connections of the groups that both are in.\<close>

definition connect_group :: "nat \<Rightarrow> nat \<Rightarrow> 'o LocalNode \<Rightarrow> 'o LocalNode" where
  "connect_group d a nl =
     (let self = node nl (ln_self nl); cd = ln_descs nl d
      in case nd_outMulticast self of
           Some c \<Rightarrow>
             if cn_description (ln_conns nl c) = d then upd_node a (\<lambda>nd. nd\<lparr>nd_outMulticast := Some c\<rparr>) nl
             else upd_node a (\<lambda>nd. nd\<lparr>nd_multicasts := nd_multicasts nd @
                    filter (\<lambda>data. isSameMulticastGroup cd (ln_descs nl (cn_description (ln_conns nl (mcd_connection data)))))
                      (nd_multicasts self)\<rparr>) nl
         | None \<Rightarrow>
             upd_node a (\<lambda>nd. nd\<lparr>nd_multicasts := nd_multicasts nd @
               filter (\<lambda>data. isSameMulticastGroup cd (ln_descs nl (cn_description (ln_conns nl (mcd_connection data)))))
                 (nd_multicasts self)\<rparr>) nl)"

definition connectMulticast :: "nat \<Rightarrow> 'o LocalNode \<Rightarrow> 'o LocalNode" where
  "connectMulticast a nl =
     (if nd_outMulticast (node nl a) \<noteq> None then nl
      else
        fold (\<lambda>d. fold (\<lambda>fromD nl. if isSameMulticastGroup (ln_descs nl d) (ln_descs nl fromD) then connect_group d a nl else nl)
                    (nd_descriptions (node nl a)))
          (filter (\<lambda>d. is_multicast (cd_type (ln_descs nl d))) (nd_descriptions (node nl (ln_self nl)))) nl)"

text \<open>A second connection to a connected peer is given up together with the first one.\<close>

definition drop_peer :: "u128 \<Rightarrow> nat \<Rightarrow> 'o LocalNode \<Rightarrow> 'o LocalNode" where
  "drop_peer nodeID a nl =
     (let connection = nd_outgoing (node nl a);
          nl1 = upd_node a (\<lambda>nd. nd\<lparr>nd_state := STATE_CLOSED, nd_outgoing := None\<rparr>) nl
      in nl1\<lparr>ln_connectionNodes := (case connection of None \<Rightarrow> ln_connectionNodes nl1 | Some d \<Rightarrow> (ln_connectionNodes nl1)(d := None)),
             ln_nodes := (ln_nodes nl1)(nodeID := None)\<rparr>)"

definition finish_connect :: "NodeConfig \<Rightarrow> nat \<Rightarrow> nat \<Rightarrow> u32 \<Rightarrow> string \<Rightarrow> 'o LocalNode \<Rightarrow> 'o LocalNode" where
  "finish_connect cf c a request data nl =
     connectMulticast a (node_send a NODE_CONNECT_ACK
       (ln_serve request (SERVED_BOOL True) (add_node c a (node_deserialize cf a data nl))))"

definition cmdConnectReply :: "NodeConfig \<Rightarrow> nat \<Rightarrow> u128 \<Rightarrow> u32 \<Rightarrow> u32 \<Rightarrow> string \<Rightarrow> 'o LocalNode \<Rightarrow> 'o LocalNode option" where
  "cmdConnectReply cf c nodeID request type data nl =
     (if nodeID = 0 then Some (ln_serve request (SERVED_BOOL False) (remove_connection c nl))
      else case ln_nodes nl nodeID of
             Some a \<Rightarrow>
               if isConnected (node nl a) then
                 Some (ln_serve request (SERVED_BOOL False) (drop_peer nodeID a (remove_connection c nl)))
               else Some (finish_connect cf c a request data nl)
           | None \<Rightarrow>
               if request = nc_undefined cf then
                 (case createNode cf type nl of (a, nl1) \<Rightarrow> Some (finish_connect cf c a request data nl1))
               else
                 (case ln_requests nl request of
                    Some (Some a) \<Rightarrow> Some (finish_connect cf c a request data nl)
                  | _ \<Rightarrow> None))"

definition cmdConnectAck :: "nat option \<Rightarrow> 'o LocalNode \<Rightarrow> 'o LocalNode option" where
  "cmdConnectAck from nl = (case from of None \<Rightarrow> None | Some a \<Rightarrow> Some (connectMulticast a nl))"

text \<open>A node announces itself on a multicast connection; unknown nodes are added without being connected.\<close>

definition id_node :: "NodeConfig \<Rightarrow> u128 \<Rightarrow> u32 \<Rightarrow> string \<Rightarrow> 'o LocalNode \<Rightarrow> nat \<times> 'o LocalNode" where
  "id_node cf nodeID type data nl =
     (if nodeID = nd_id (node nl (ln_self nl)) then (ln_self nl, nl)
      else case ln_nodes nl nodeID of
             Some a \<Rightarrow> (a, nl)
           | None \<Rightarrow>
               (case createNode cf type nl of
                  (a, nl1) \<Rightarrow>
                    let nl2 = node_deserialize cf a data nl1
                    in (a, nl2\<lparr>ln_nodes := (ln_nodes nl2)(nodeID \<mapsto> a)\<rparr>)))"

fun erase_multicast :: "nat \<Rightarrow> MCData list \<Rightarrow> MCData list" where
  "erase_multicast c [] = []"
| "erase_multicast c (data # ds) = (if mcd_connection data = c then ds else data # erase_multicast c ds)"

definition cmdID :: "NodeConfig \<Rightarrow> nat \<Rightarrow> nat option \<Rightarrow> u128 \<Rightarrow> u32 \<Rightarrow> string \<Rightarrow> 'o LocalNode \<Rightarrow> 'o LocalNode" where
  "cmdID cf c from nodeID type data nl =
     (if from \<noteq> None then nl
      else
        case id_node cf nodeID type data nl of
          (a, nl1) \<Rightarrow>
            let nd = node nl1 a; known = (c \<in> mcd_connection ` set (nd_multicasts nd));
                nl2 = (case nd_outMulticast nd of
                    Some d \<Rightarrow>
                      if d = c \<or> known then nl1
                      else upd_node a (\<lambda>nd. nd\<lparr>nd_multicasts := nd_multicasts nd @ [\<lparr>mcd_connection = c, mcd_node = ln_self nl1\<rparr>]\<rparr>) nl1
                  | None \<Rightarrow>
                      upd_node a (\<lambda>nd. nd\<lparr>nd_outMulticast := Some c, nd_multicasts := erase_multicast c (nd_multicasts nd)\<rparr>) nl1)
            in nl2\<lparr>ln_connectionNodes := (ln_connectionNodes nl2)(c \<mapsto> a)\<rparr>)"

section \<open>Disconnecting\<close>

definition forget_instances :: "NodeConfig \<Rightarrow> nat \<Rightarrow> 'o LocalNode \<Rightarrow> 'o LocalNode" where
  "forget_instances cf a nl = nl\<lparr>ln_store := removeInstanceData (nc_store cf) (nd_id (node nl a)) (ln_store nl)\<rparr>"

definition cmdDisconnect :: "NodeConfig \<Rightarrow> u32 \<Rightarrow> 'o LocalNode \<Rightarrow> 'o LocalNode option" where
  "cmdDisconnect cf request nl =
     (case ln_requests nl request of
        Some (Some a) \<Rightarrow>
          Some (ln_serve request SERVED
            (case nd_outgoing (node nl a) of
               None \<Rightarrow> nl
             | Some c \<Rightarrow>
                 let nl1 = upd_node a (\<lambda>nd. nd\<lparr>nd_state := STATE_CLOSED, nd_outgoing := None\<rparr>) nl;
                     nl2 = forget_instances cf a (remove_connection c nl1)
                 in nl2\<lparr>ln_connectionNodes := (ln_connectionNodes nl2)(c := None),
                        ln_nodes := (ln_nodes nl2)(nd_id (node nl2 a) := None)\<rparr>))
      | _ \<Rightarrow> None)"

definition run_remove_node :: "NodeConfig \<Rightarrow> u32 option \<Rightarrow> nat \<Rightarrow> 'o LocalNode \<Rightarrow> 'o LocalNode" where
  "run_remove_node cf request a nl =
     nl\<lparr>ln_store := cmdRemoveNode (nc_store cf) request (nd_id (node nl a)) (ln_store nl)\<rparr>"

definition disconnect :: "NodeConfig \<Rightarrow> u32 \<Rightarrow> u32 \<Rightarrow> nat \<Rightarrow> 'o LocalNode \<Rightarrow> (bool \<times> 'o LocalNode) option" where
  "disconnect cf request request2 a nl =
     (if nd_state (node nl (ln_self nl)) \<noteq> STATE_LISTENING then Some (False, nl)
      else if nd_state (node nl a) \<noteq> STATE_CONNECTED then Some (True, nl)
      else map_option (\<lambda>nl1. (True, run_remove_node cf (Some request2) a nl1))
             (cmdDisconnect cf request (nl\<lparr>ln_requests := (ln_requests nl)(request \<mapsto> Some a)\<rparr>)))"

text \<open>The event of a connection that the peer has closed, when all its data has been read.\<close>

definition lose_node :: "NodeConfig \<Rightarrow> nat \<Rightarrow> nat \<Rightarrow> 'o LocalNode \<Rightarrow> 'o LocalNode" where
  "lose_node cf c a nl =
     (let nl1 = upd_node a (\<lambda>nd. nd\<lparr>nd_state := STATE_CLOSED, nd_outgoing := None\<rparr>) (forget_instances cf a nl);
          nl2 = (case nd_outMulticast (node nl1 a) of None \<Rightarrow> nl1 | Some d \<Rightarrow> remove_connection d nl1);
          nl3 = upd_node a (\<lambda>nd. nd\<lparr>nd_outMulticast := None, nd_multicasts := []\<rparr>) nl2
      in nl3\<lparr>ln_connectionNodes := (ln_connectionNodes nl3)(c := None),
             ln_nodes := (ln_nodes nl3)(nd_id (node nl3 a) := None)\<rparr>)"

definition lose_multicast :: "nat \<Rightarrow> nat \<Rightarrow> 'o LocalNode \<Rightarrow> 'o LocalNode" where
  "lose_multicast c a nl =
     (if nd_outMulticast (node nl a) = Some c then upd_node a (\<lambda>nd. nd\<lparr>nd_outMulticast := None\<rparr>) nl
      else upd_node a (\<lambda>nd. nd\<lparr>nd_multicasts := erase_multicast c (nd_multicasts nd)\<rparr>) nl)"

definition handleDisconnect :: "NodeConfig \<Rightarrow> nat \<Rightarrow> 'o LocalNode \<Rightarrow> 'o LocalNode" where
  "handleDisconnect cf c nl =
     remove_connection c
       (case ln_connectionNodes nl c of
          None \<Rightarrow> nl
        | Some a \<Rightarrow>
            let nl1 = redispatchCommands cf (push_command (Some a) (NODE_REMOVE_NODE a) nl)
            in if nd_outgoing (node nl1 a) = Some c then lose_node cf c a nl1 else lose_multicast c a nl1)"

end
