(* ===== verification/Node_Events.thy ===== *)
theory Node_Events
  imports Node_Commands
begin

text \<open>
  Listeners, node data and the send token of a local node (\<open>libs/co/localNode.cpp\<close>), and the dispatch
  of packets: \<open>receive_data\<close> is the receiver thread, \<open>runCommand\<close> the command thread.
\<close>

section \<open>Listeners\<close>

definition description_of_text :: "string \<Rightarrow> ConnectionDescription" where
  "description_of_text data = fst (snd (fromString data new_description))"

definition addListener :: "NodeConfig \<Rightarrow> nat \<Rightarrow> 'o LocalNode \<Rightarrow> 'o LocalNode" where
  "addListener cf c nl =
     fold (\<lambda>a. node_send a (NODE_ADD_LISTENER c (serialize_description (ln_descs nl (cn_description (ln_conns nl c))))))
       (getNodes cf True nl) nl"

definition cmdAddListener :: "NodeConfig \<Rightarrow> nat \<Rightarrow> nat \<Rightarrow> string \<Rightarrow> 'o LocalNode \<Rightarrow> 'o LocalNode" where
  "cmdAddListener cf from c data nl =
     (case new_connection_descriptions [description_of_text data] nl of
        (refs, nl1) \<Rightarrow>
          let nl2 = addConnectionDescription cf from (hd refs) nl1
          in if from \<noteq> ln_self nl2 then nl2 else add_listening c nl2)"

definition removeListenerNB :: "NodeConfig \<Rightarrow> u32 \<Rightarrow> nat \<Rightarrow> 'o LocalNode \<Rightarrow> 'o LocalNode" where
  "removeListenerNB cf request c nl =
     fold (\<lambda>a. node_send a (NODE_REMOVE_LISTENER request c (serialize_description (ln_descs nl (cn_description (ln_conns nl c))))))
       (getNodes cf True nl) (nl\<lparr>ln_requests := (ln_requests nl)(request \<mapsto> None)\<rparr>)"

definition remove_listening :: "nat \<Rightarrow> 'o LocalNode \<Rightarrow> 'o LocalNode" where
  "remove_listening c nl =
     (let nl1 = (if is_multicast (connection_type nl c)
            then upd_node (ln_self nl) (\<lambda>nd. nd\<lparr>nd_multicasts := erase_multicast c (nd_multicasts nd)\<rparr>) nl else nl)
      in nl1\<lparr>ln_incoming := remove1 c (ln_incoming nl1), ln_connectionNodes := (ln_connectionNodes nl1)(c := None)\<rparr>)"

definition cmdRemoveListener :: "nat \<Rightarrow> u32 \<Rightarrow> nat \<Rightarrow> string \<Rightarrow> 'o LocalNode \<Rightarrow> 'o LocalNode" where
  "cmdRemoveListener from request c data nl =
     (let nl1 = removeConnectionDescription from (description_of_text data) nl
      in if from \<noteq> ln_self nl1 then nl1 else ln_serve request SERVED (remove_listening c nl1))"

section \<open>Node data and requests\<close>

definition NODETYPE_CO_INVALID :: u32 where
  "NODETYPE_CO_INVALID = 0"

definition cmdGetNodeData :: "NodeConfig \<Rightarrow> nat \<Rightarrow> u128 \<Rightarrow> u32 \<Rightarrow> 'o LocalNode \<Rightarrow> 'o LocalNode" where
  "cmdGetNodeData cf toNode nodeID request nl =
     node_send toNode
       (case getNode nl nodeID of
          Some a \<Rightarrow> NODE_GET_NODE_DATA_REPLY nodeID request (nd_type (node nl a)) (node_serialize cf a nl)
        | None \<Rightarrow> NODE_GET_NODE_DATA_REPLY nodeID request NODETYPE_CO_INVALID []) nl"

definition cmdGetNodeDataReply :: "NodeConfig \<Rightarrow> u128 \<Rightarrow> u32 \<Rightarrow> u32 \<Rightarrow> string \<Rightarrow> 'o LocalNode \<Rightarrow> 'o LocalNode" where
  "cmdGetNodeDataReply cf nodeID request type data nl =
     (case ln_nodes nl nodeID of
        Some a \<Rightarrow> ln_serve request (SERVED_NODE (Some a)) nl
      | None \<Rightarrow>
          if type = NODETYPE_CO_INVALID then ln_serve request (SERVED_NODE None) nl
          else case createNode cf type nl of
                 (a, nl1) \<Rightarrow> ln_serve request (SERVED_NODE (Some a)) (node_deserialize cf a data nl1))"

definition ackRequest :: "NodeConfig \<Rightarrow> nat \<Rightarrow> u32 \<Rightarrow> 'o LocalNode \<Rightarrow> 'o LocalNode" where
  "ackRequest cf a request nl =
     (if request = nc_undefined cf then nl
      else if a = ln_self nl then ln_serve request SERVED nl
      else node_send a (NODE_ACK_REQUEST request) nl)"

definition pingIdleNodes :: "NodeConfig \<Rightarrow> int \<Rightarrow> int \<Rightarrow> 'o LocalNode \<Rightarrow> bool \<times> 'o LocalNode" where
  "pingIdleNodes cf timeout now nl =
     (let idle = filter (\<lambda>a. timeout < now - nd_lastReceive (node nl a)) (getNodes cf False nl)
      in (idle \<noteq> [], fold (\<lambda>a. node_send a NODE_PING) idle nl))"

section \<open>The send token\<close>

definition grant_token :: "nat option \<Rightarrow> u32 \<Rightarrow> 'o LocalNode \<Rightarrow> 'o LocalNode option" where
  "grant_token to request nl = map_option (\<lambda>a. node_send a (NODE_ACQUIRE_SEND_TOKEN_REPLY request) nl) to"

text \<open>In the source the test for the token is \<open>!sendToken == 0\<close>.\<close>

definition cmdAcquireSendToken :: "NodeConfig \<Rightarrow> int \<Rightarrow> nat option \<Rightarrow> u32 \<Rightarrow> 'o LocalNode \<Rightarrow> 'o LocalNode option" where
  "cmdAcquireSendToken cf now from request nl =
     (let queue = ((\<not> ln_sendToken nl) = False)
      in if queue \<and> (case nc_timeout cf of None \<Rightarrow> True | Some timeout \<Rightarrow> now - ln_lastSendToken nl \<le> timeout)
         then Some (nl\<lparr>ln_sendTokenQueue := ln_sendTokenQueue nl @ [(from, request)]\<rparr>)
         else
           let nl1 = (if queue then nl\<lparr>ln_sendTokenQueue := []\<rparr> else nl)
           in grant_token from request (nl1\<lparr>ln_sendToken := False\<rparr>))"

definition cmdReleaseSendToken :: "int \<Rightarrow> 'o LocalNode \<Rightarrow> 'o LocalNode option" where
  "cmdReleaseSendToken now nl =
     (let nl1 = nl\<lparr>ln_lastSendToken := now\<rparr>
      in if ln_sendToken nl1 then Some nl1
         else case ln_sendTokenQueue nl1 of
                [] \<Rightarrow> Some (nl1\<lparr>ln_sendToken := True\<rparr>)
              | (to, request) # queue \<Rightarrow> grant_token to request (nl1\<lparr>ln_sendTokenQueue := queue\<rparr>))"

section \<open>Dispatch\<close>

text \<open>The commands whose handlers run in the command thread.\<close>

fun in_command_thread :: "NodePacket \<Rightarrow> bool" where
  "in_command_thread NODE_STOP_CMD = True"
| "in_command_thread (NODE_GET_NODE_DATA nodeID request) = True"
| "in_command_thread (NODE_ACQUIRE_SEND_TOKEN request) = True"
| "in_command_thread NODE_RELEASE_SEND_TOKEN = True"
| "in_command_thread NODE_PING = True"
| "in_command_thread (NODE_REMOVE_NODE a) = True"
| "in_command_thread _ = False"

fun receive_command :: "NodeConfig \<Rightarrow> nat \<Rightarrow> nat option \<Rightarrow> NodePacket \<Rightarrow> 'o LocalNode \<Rightarrow> 'o LocalNode option" where
  "receive_command cf c from NODE_STOP_RCV nl =
     Some (push_command from NODE_STOP_CMD (upd_node (ln_self nl) (\<lambda>nd. nd\<lparr>nd_state := STATE_CLOSING\<rparr>) nl))"
| "receive_command cf c from (NODE_CONNECT nodeID request type data) nl = Some (cmdConnect cf c nodeID request type data nl)"
| "receive_command cf c from (NODE_CONNECT_REPLY nodeID request type data) nl = cmdConnectReply cf c nodeID request type data nl"
| "receive_command cf c from NODE_CONNECT_ACK nl = cmdConnectAck from nl"
| "receive_command cf c from (NODE_ID nodeID type data) nl = Some (cmdID cf c from nodeID type data nl)"
| "receive_command cf c from (NODE_DISCONNECT request) nl = cmdDisconnect cf request nl"
| "receive_command cf c from (NODE_GET_NODE_DATA_REPLY nodeID request type data) nl =
     Some (cmdGetNodeDataReply cf nodeID request type data nl)"
| "receive_command cf c from (NODE_ACQUIRE_SEND_TOKEN_REPLY request) nl = Some (ln_serve request SERVED nl)"
| "receive_command cf c from (NODE_ADD_LISTENER connection data) nl =
     (case from of None \<Rightarrow> None | Some a \<Rightarrow> Some (cmdAddListener cf a connection data nl))"
| "receive_command cf c from (NODE_REMOVE_LISTENER request connection data) nl =
     (case from of None \<Rightarrow> None | Some a \<Rightarrow> Some (cmdRemoveListener a request connection data nl))"
| "receive_command cf c from (NODE_ACK_REQUEST request) nl = Some (ln_serve request SERVED nl)"
| "receive_command cf c from _ nl = Some nl"

definition dispatchCommand :: "NodeConfig \<Rightarrow> nat \<Rightarrow> nat option \<Rightarrow> NodePacket \<Rightarrow> 'o LocalNode \<Rightarrow> 'o LocalNode option" where
  "dispatchCommand cf c from p nl =
     map_option (redispatchCommands cf)
       (if in_command_thread p then Some (push_command from p nl) else receive_command cf c from p nl)"

definition receive_data :: "NodeConfig \<Rightarrow> int \<Rightarrow> nat \<Rightarrow> NodePacket \<Rightarrow> 'o LocalNode \<Rightarrow> 'o LocalNode option" where
  "receive_data cf now c p nl =
     dispatchCommand cf c (ln_connectionNodes nl c) p
       (case ln_connectionNodes nl c of None \<Rightarrow> nl | Some a \<Rightarrow> upd_node a (\<lambda>nd. nd\<lparr>nd_lastReceive := now\<rparr>) nl)"

definition handleConnect :: "nat option \<Rightarrow> 'o LocalNode \<Rightarrow> 'o LocalNode" where
  "handleConnect accepted nl = (case accepted of None \<Rightarrow> nl | Some c \<Rightarrow> add_connection c nl)"

fun thread_command :: "NodeConfig \<Rightarrow> int \<Rightarrow> nat option \<Rightarrow> NodePacket \<Rightarrow> 'o LocalNode \<Rightarrow> 'o LocalNode option" where
  "thread_command cf now from NODE_STOP_CMD nl = Some (upd_node (ln_self nl) (\<lambda>nd. nd\<lparr>nd_state := STATE_CLOSED\<rparr>) nl)"
| "thread_command cf now from (NODE_GET_NODE_DATA nodeID request) nl =
     (case from of None \<Rightarrow> None | Some a \<Rightarrow> Some (cmdGetNodeData cf a nodeID request nl))"
| "thread_command cf now from (NODE_ACQUIRE_SEND_TOKEN request) nl = cmdAcquireSendToken cf now from request nl"
| "thread_command cf now from NODE_RELEASE_SEND_TOKEN nl = cmdReleaseSendToken now nl"
| "thread_command cf now from NODE_PING nl = (case from of None \<Rightarrow> None | Some a \<Rightarrow> Some (node_send a NODE_PING_REPLY nl))"
| "thread_command cf now from (NODE_REMOVE_NODE a) nl = Some (run_remove_node cf None a nl)"
| "thread_command cf now from _ nl = Some nl"

definition runCommand :: "NodeConfig \<Rightarrow> int \<Rightarrow> 'o LocalNode \<Rightarrow> 'o LocalNode option" where
  "runCommand cf now nl =
     (case ln_commands nl of
        [] \<Rightarrow> Some nl
      | (from, p) # commands \<Rightarrow> thread_command cf now from p (nl\<lparr>ln_commands := commands\<rparr>))"

section \<open>A new node\<close>

text \<open>The application has added the descriptions; connections are as the operating system creates them.\<close>

definition new_local :: "u128 \<Rightarrow> u32 \<Rightarrow> ConnectionDescription list \<Rightarrow> (nat \<Rightarrow> Connection) \<Rightarrow> 'o ObjectStore \<Rightarrow> 'o LocalNode" where
  "new_local identifier type ds conns st =
     \<lparr>ln_self = 0, ln_heap = (\<lambda>_. \<lparr>nd_id = identifier, nd_type = type, nd_state = STATE_CLOSED, nd_outgoing = None,
        nd_outMulticast = None, nd_multicasts = [], nd_descriptions = [0 ..< length ds], nd_lastReceive = 0\<rparr>),
      ln_fresh = 1, ln_descs = (\<lambda>d. if d < length ds then ds ! d else new_description), ln_freshDesc = length ds, ln_conns = conns,
      ln_connectionNodes = Map.empty, ln_nodes = Map.empty, ln_incoming = [], ln_requests = Map.empty, ln_served = [],
      ln_out = [], ln_commands = [], ln_pending = [], ln_sendToken = True, ln_lastSendToken = 0, ln_sendTokenQueue = [],
      ln_store = st\<rparr>"

end
