(* ===== verification/Node_Table.thy ===== *)
theory Node_Table
  imports Node_Events
begin

text \<open>
  The table of nodes of a local node, for all packets and events in any order: each connected node is
  listed under its identifier and reached by a connection of its own.
\<close>

section \<open>A consistent table\<close>

definition linked :: "'o LocalNode \<Rightarrow> nat \<Rightarrow> bool" where
  "linked nl a = (case nd_outgoing (node nl a) of
     None \<Rightarrow> False | Some c \<Rightarrow> ln_connectionNodes nl c = Some a \<and> ln_nodes nl (nd_id (node nl a)) = Some a)"

text \<open>The connection to itself is read at one end and written at the other.\<close>

definition self_ok :: "'o LocalNode \<Rightarrow> bool" where
  "self_ok nl = (ln_self nl < ln_fresh nl \<and> isConnected (node nl (ln_self nl)) \<and>
     ln_nodes nl (nd_id (node nl (ln_self nl))) = Some (ln_self nl) \<and>
     (\<forall>c. nd_outgoing (node nl (ln_self nl)) = Some c \<longrightarrow> ln_connectionNodes nl c \<noteq> Some (ln_self nl)))"

definition nodes_ok :: "'o LocalNode \<Rightarrow> bool" where
  "nodes_ok nl = (self_ok nl \<and>
     (\<forall>identifier a. ln_nodes nl identifier = Some a \<longrightarrow> a < ln_fresh nl \<and> nd_id (node nl a) = identifier) \<and>
     (\<forall>a < ln_fresh nl. a \<noteq> ln_self nl \<longrightarrow> (if isConnected (node nl a) then linked nl a else nd_outgoing (node nl a) = None)) \<and>
     (\<forall>c a. ln_connectionNodes nl c = Some a \<longrightarrow> a < ln_fresh nl) \<and>
     (\<forall>r a. ln_requests nl r = Some (Some a) \<longrightarrow> a < ln_fresh nl \<and> a \<noteq> ln_self nl))"

lemma nodes_okI:
  assumes "self_ok nl" "\<And>i a. ln_nodes nl i = Some a \<Longrightarrow> a < ln_fresh nl" "\<And>i a. ln_nodes nl i = Some a \<Longrightarrow> nd_id (node nl a) = i"
    "\<And>a. a < ln_fresh nl \<Longrightarrow> a \<noteq> ln_self nl \<Longrightarrow> isConnected (node nl a) \<Longrightarrow> linked nl a"
    "\<And>a. a < ln_fresh nl \<Longrightarrow> a \<noteq> ln_self nl \<Longrightarrow> \<not> isConnected (node nl a) \<Longrightarrow> nd_outgoing (node nl a) = None"
    "\<And>c a. ln_connectionNodes nl c = Some a \<Longrightarrow> a < ln_fresh nl"
    "\<And>r a. ln_requests nl r = Some (Some a) \<Longrightarrow> a < ln_fresh nl" "\<And>r a. ln_requests nl r = Some (Some a) \<Longrightarrow> a \<noteq> ln_self nl"
  shows "nodes_ok nl"
  using assms by (simp add: nodes_ok_def)

lemma nodes_ok_self: "nodes_ok nl \<Longrightarrow> self_ok nl"
  by (simp add: nodes_ok_def)

lemma nodes_ok_table: "nodes_ok nl \<Longrightarrow> ln_nodes nl i = Some a \<Longrightarrow> a < ln_fresh nl \<and> nd_id (node nl a) = i"
  by (simp add: nodes_ok_def)

lemma nodes_ok_linked: "nodes_ok nl \<Longrightarrow> a < ln_fresh nl \<Longrightarrow> a \<noteq> ln_self nl \<Longrightarrow> isConnected (node nl a) \<Longrightarrow> linked nl a"
  by (simp add: nodes_ok_def)

lemma nodes_ok_closed:
  "nodes_ok nl \<Longrightarrow> a < ln_fresh nl \<Longrightarrow> a \<noteq> ln_self nl \<Longrightarrow> \<not> isConnected (node nl a) \<Longrightarrow> nd_outgoing (node nl a) = None"
  by (simp add: nodes_ok_def)

lemma nodes_ok_connection: "nodes_ok nl \<Longrightarrow> ln_connectionNodes nl c = Some a \<Longrightarrow> a < ln_fresh nl"
  by (simp add: nodes_ok_def)

lemma nodes_ok_request: "nodes_ok nl \<Longrightarrow> ln_requests nl r = Some (Some a) \<Longrightarrow> a < ln_fresh nl \<and> a \<noteq> ln_self nl"
  by (simp add: nodes_ok_def)

text \<open>What the invariant does not depend on.\<close>

definition same_nodes :: "'o LocalNode \<Rightarrow> 'o LocalNode \<Rightarrow> bool" where
  "same_nodes nl nl1 = (ln_self nl1 = ln_self nl \<and> ln_fresh nl1 = ln_fresh nl \<and> ln_nodes nl1 = ln_nodes nl \<and>
     ln_connectionNodes nl1 = ln_connectionNodes nl \<and>
     (\<forall>r a. ln_requests nl1 r = Some (Some a) \<longrightarrow> ln_requests nl r = Some (Some a)) \<and>
     (\<forall>a. nd_id (node nl1 a) = nd_id (node nl a) \<and> nd_state (node nl1 a) = nd_state (node nl a) \<and>
        nd_outgoing (node nl1 a) = nd_outgoing (node nl a)))"

lemma same_nodes_refl [simp]: "same_nodes nl nl"
  by (simp add: same_nodes_def)

lemma same_nodes_trans [trans]: "same_nodes nl nl1 \<Longrightarrow> same_nodes nl1 nl2 \<Longrightarrow> same_nodes nl nl2"
  by (simp add: same_nodes_def)

lemma same_nodes_ok:
  assumes s: "same_nodes nl nl1" and ok: "nodes_ok nl"
  shows "nodes_ok nl1"
proof (rule nodes_okI)
  have n: "nd_id (node nl1 a) = nd_id (node nl a)" "nd_state (node nl1 a) = nd_state (node nl a)"
    "nd_outgoing (node nl1 a) = nd_outgoing (node nl a)" for a
    using s by (simp_all add: same_nodes_def)
  have f: "ln_self nl1 = ln_self nl" "ln_fresh nl1 = ln_fresh nl" "ln_nodes nl1 = ln_nodes nl"
    "ln_connectionNodes nl1 = ln_connectionNodes nl"
    using s by (simp_all add: same_nodes_def)
  have i: "isConnected (node nl1 a) = isConnected (node nl a)" for a by (simp add: isConnected_def n)
  have l: "linked nl1 a = linked nl a" for a by (simp add: linked_def n f split: option.split)
  have r: "ln_requests nl r = Some (Some a)" if "ln_requests nl1 r = Some (Some a)" for r a
    using s that by (simp add: same_nodes_def)
  show "self_ok nl1" using nodes_ok_self [OF ok] by (simp add: self_ok_def f n i)
  show "a < ln_fresh nl1" if "ln_nodes nl1 i = Some a" for i a using nodes_ok_table [OF ok] that by (simp add: f)
  show "nd_id (node nl1 a) = i" if "ln_nodes nl1 i = Some a" for i a using nodes_ok_table [OF ok] that by (simp add: f n)
  show "linked nl1 a" if "a < ln_fresh nl1" "a \<noteq> ln_self nl1" "isConnected (node nl1 a)" for a
    using nodes_ok_linked [OF ok] that by (simp add: f i l)
  show "nd_outgoing (node nl1 a) = None" if "a < ln_fresh nl1" "a \<noteq> ln_self nl1" "\<not> isConnected (node nl1 a)" for a
    using nodes_ok_closed [OF ok] that by (simp add: f i n)
  show "a < ln_fresh nl1" if "ln_connectionNodes nl1 c = Some a" for c a using nodes_ok_connection [OF ok] that by (simp add: f)
  show "a < ln_fresh nl1" "a \<noteq> ln_self nl1" if "ln_requests nl1 r = Some (Some a)" for r a
    using nodes_ok_request [OF ok r [OF that]] by (simp_all add: f)
qed

lemma node_simps [simp]:
  "node (upd_node a f nl) b = (if b = a then f (node nl a) else node nl b)"
  "node (nl\<lparr>ln_fresh := n\<rparr>) = node nl" "node (nl\<lparr>ln_descs := ds\<rparr>) = node nl" "node (nl\<lparr>ln_freshDesc := n\<rparr>) = node nl"
  "node (nl\<lparr>ln_conns := cs\<rparr>) = node nl" "node (nl\<lparr>ln_connectionNodes := cn\<rparr>) = node nl" "node (nl\<lparr>ln_nodes := ns\<rparr>) = node nl"
  "node (nl\<lparr>ln_incoming := is\<rparr>) = node nl" "node (nl\<lparr>ln_requests := rs\<rparr>) = node nl" "node (nl\<lparr>ln_served := s\<rparr>) = node nl"
  "node (nl\<lparr>ln_out := out\<rparr>) = node nl" "node (nl\<lparr>ln_commands := cmds\<rparr>) = node nl" "node (nl\<lparr>ln_pending := ps\<rparr>) = node nl"
  "node (nl\<lparr>ln_sendToken := t\<rparr>) = node nl" "node (nl\<lparr>ln_lastSendToken := i\<rparr>) = node nl"
  "node (nl\<lparr>ln_sendTokenQueue := q\<rparr>) = node nl" "node (nl\<lparr>ln_store := st\<rparr>) = node nl"
  by (auto simp: node_def upd_node_def)

lemma upd_node_fields [simp]:
  "ln_self (upd_node a f nl) = ln_self nl" "ln_fresh (upd_node a f nl) = ln_fresh nl" "ln_descs (upd_node a f nl) = ln_descs nl"
  "ln_freshDesc (upd_node a f nl) = ln_freshDesc nl" "ln_conns (upd_node a f nl) = ln_conns nl"
  "ln_connectionNodes (upd_node a f nl) = ln_connectionNodes nl" "ln_nodes (upd_node a f nl) = ln_nodes nl"
  "ln_incoming (upd_node a f nl) = ln_incoming nl" "ln_requests (upd_node a f nl) = ln_requests nl"
  "ln_served (upd_node a f nl) = ln_served nl" "ln_out (upd_node a f nl) = ln_out nl"
  "ln_commands (upd_node a f nl) = ln_commands nl" "ln_pending (upd_node a f nl) = ln_pending nl"
  by (simp_all add: upd_node_def)

lemma same_nodes_upd:
  "(\<And>nd. nd_id (f nd) = nd_id nd \<and> nd_state (f nd) = nd_state nd \<and> nd_outgoing (f nd) = nd_outgoing nd) \<Longrightarrow> same_nodes nl (upd_node a f nl)"
  by (simp add: same_nodes_def)

lemma same_nodes_fold: "(\<And>x nl. same_nodes nl (f x nl)) \<Longrightarrow> same_nodes nl (fold f xs nl)"
  by (induction xs arbitrary: nl) (auto intro: same_nodes_trans)

lemma same_nodes_simple [simp]:
  "same_nodes nl (nl\<lparr>ln_descs := ds\<rparr>)" "same_nodes nl (nl\<lparr>ln_freshDesc := n\<rparr>)" "same_nodes nl (nl\<lparr>ln_conns := cs\<rparr>)"
  "same_nodes nl (nl\<lparr>ln_incoming := is\<rparr>)" "same_nodes nl (nl\<lparr>ln_out := out\<rparr>)" "same_nodes nl (nl\<lparr>ln_commands := cmds\<rparr>)"
  "same_nodes nl (nl\<lparr>ln_pending := ps\<rparr>)" "same_nodes nl (nl\<lparr>ln_store := st\<rparr>)" "same_nodes nl (nl\<lparr>ln_sendToken := t\<rparr>)"
  "same_nodes nl (nl\<lparr>ln_lastSendToken := i\<rparr>)" "same_nodes nl (nl\<lparr>ln_sendTokenQueue := q\<rparr>)"
  by (simp_all add: same_nodes_def)

lemma same_nodes_ops [simp]:
  "same_nodes nl (ln_serve r v nl)" "same_nodes nl (conn_send c p nl)" "same_nodes nl (node_send a p nl)"
  "same_nodes nl (add_connection c nl)" "same_nodes nl (close_connection c nl)" "same_nodes nl (remove_connection c nl)"
  "same_nodes nl (push_command from p nl)" "same_nodes nl (redispatchCommands cf nl)" "same_nodes nl (add_multicast c nl)"
  "same_nodes nl (forget_instances cf a nl)" "same_nodes nl (run_remove_node cf ro a nl)" "same_nodes nl (lose_multicast c a nl)"
  "same_nodes nl (addConnectionDescription cf a d nl)" "same_nodes nl (removeConnectionDescription a cd nl)"
  "same_nodes nl (snd (new_connection_descriptions ds nl))"
  by (auto simp: ln_serve_def conn_send_def node_send_def add_connection_def close_connection_def remove_connection_def push_command_def
      redispatchCommands_def add_multicast_def forget_instances_def run_remove_node_def lose_multicast_def addConnectionDescription_def
      removeConnectionDescription_def new_connection_descriptions_def same_nodes_def Let_def split: option.split prod.split)

lemma same_nodes_multicast: "same_nodes nl (connectMulticast a nl)"
proof -
  have "same_nodes nl (connect_group d b nl)" for d b and nl :: "'a LocalNode"
    by (auto simp: connect_group_def Let_def intro!: same_nodes_upd split: option.split)
  then show ?thesis by (auto simp: connectMulticast_def intro!: same_nodes_fold)
qed

lemmas keeps_node_ok = same_nodes_ops [THEN same_nodes_ok] same_nodes_simple [THEN same_nodes_ok]

section \<open>Adding and removing nodes\<close>

definition carries :: "NodeConfig \<Rightarrow> string \<Rightarrow> u128 \<Rightarrow> bool" where
  "carries cf data identifier = (\<exists>good ds rest. deserialize_node (nc_idParse cf) data = (good, Some (identifier, ds), rest))"

lemma deserialize_fields [simp]:
  "ln_self (node_deserialize cf a data nl) = ln_self nl" "ln_fresh (node_deserialize cf a data nl) = ln_fresh nl"
  "ln_nodes (node_deserialize cf a data nl) = ln_nodes nl" "ln_connectionNodes (node_deserialize cf a data nl) = ln_connectionNodes nl"
  "ln_requests (node_deserialize cf a data nl) = ln_requests nl" "ln_incoming (node_deserialize cf a data nl) = ln_incoming nl"
  "ln_conns (node_deserialize cf a data nl) = ln_conns nl" "ln_out (node_deserialize cf a data nl) = ln_out nl"
  "ln_served (node_deserialize cf a data nl) = ln_served nl" "ln_commands (node_deserialize cf a data nl) = ln_commands nl"
  "nd_state (node (node_deserialize cf a data nl) b) = nd_state (node nl b)"
  "nd_outgoing (node (node_deserialize cf a data nl) b) = nd_outgoing (node nl b)"
  "nd_type (node (node_deserialize cf a data nl) b) = nd_type (node nl b)"
  by (auto simp: node_deserialize_def new_connection_descriptions_def split: prod.split option.split)

lemma deserialize_id:
  "carries cf data identifier \<Longrightarrow> nd_id (node (node_deserialize cf a data nl) b) = (if b = a then identifier else nd_id (node nl b))"
  by (auto simp: carries_def node_deserialize_def new_connection_descriptions_def)

lemma deserialize_connected [simp]: "isConnected (node (node_deserialize cf a data nl) b) = isConnected (node nl b)"
  by (simp add: isConnected_def)

text \<open>A node that joins: it has been told its identifier, and no other node has it.\<close>

definition joins :: "'o LocalNode \<Rightarrow> nat \<Rightarrow> nat \<Rightarrow> u128 \<Rightarrow> bool" where
  "joins nl c a identifier = (a < ln_fresh nl \<and> a \<noteq> ln_self nl \<and> \<not> isConnected (node nl a) \<and> ln_connectionNodes nl c = None \<and>
     (\<forall>b. ln_nodes nl identifier = Some b \<longrightarrow> b = a) \<and> (\<forall>i. ln_nodes nl i = Some a \<longrightarrow> i = identifier))"

lemma add_node_ok:
  assumes nl: "nodes_ok nl" and j: "joins nl c a identifier" and d: "carries cf data identifier"
  shows "nodes_ok (add_node c a (node_deserialize cf a data nl))"
proof -
  let ?nl = "add_node c a (node_deserialize cf a data nl)"
  have n: "nd_id (node ?nl b) = (if b = a then identifier else nd_id (node nl b))"
    "nd_outgoing (node ?nl b) = (if b = a then Some c else nd_outgoing (node nl b))"
    "isConnected (node ?nl b) = (b = a \<or> isConnected (node nl b))" for b
    by (auto simp: add_node_def deserialize_id [OF d] Let_def isConnected_def)
  have f: "ln_self ?nl = ln_self nl" "ln_fresh ?nl = ln_fresh nl" "ln_requests ?nl = ln_requests nl"
    "ln_nodes ?nl = (ln_nodes nl)(identifier \<mapsto> a)" "ln_connectionNodes ?nl = (ln_connectionNodes nl)(c \<mapsto> a)"
    by (simp_all add: add_node_def Let_def deserialize_id [OF d])
  have l: "linked ?nl b" if "linked nl b" "b \<noteq> a" for b
    using that j by (auto simp: linked_def n f joins_def split: option.splits)
  show ?thesis
  proof (rule nodes_okI)
    show "self_ok ?nl" using nodes_ok_self [OF nl] j by (auto simp: self_ok_def n f joins_def)
    have "b < ln_fresh ?nl \<and> nd_id (node ?nl b) = i" if "ln_nodes ?nl i = Some b" for i b
    proof (cases "i = identifier")
      case False
      then have t: "ln_nodes nl i = Some b" using that by (simp add: f)
      then have "b \<noteq> a" using False j unfolding joins_def by metis
      then show ?thesis using nodes_ok_table [OF nl t] by (simp add: n f)
    next
      case True
      then have "b = a" using that by (simp add: f)
      then show ?thesis using True j by (simp add: n f joins_def)
    qed
    then show "b < ln_fresh ?nl" "nd_id (node ?nl b) = i" if "ln_nodes ?nl i = Some b" for i b
      using that by blast+
    show "linked ?nl b" if "b < ln_fresh ?nl" "b \<noteq> ln_self ?nl" "isConnected (node ?nl b)" for b
      using that nodes_ok_linked [OF nl, of b] l [of b] by (cases "b = a") (auto simp: n f linked_def)
    show "nd_outgoing (node ?nl b) = None" if "b < ln_fresh ?nl" "b \<noteq> ln_self ?nl" "\<not> isConnected (node ?nl b)" for b
      using that nodes_ok_closed [OF nl, of b] by (auto simp: n f)
    show "b < ln_fresh ?nl" if "ln_connectionNodes ?nl d = Some b" for d b
      using that nodes_ok_connection [OF nl, of d b] j by (auto simp: f joins_def split: if_splits)
    show "b < ln_fresh ?nl" "b \<noteq> ln_self ?nl" if "ln_requests ?nl r = Some (Some b)" for r b
      using that nodes_ok_request [OF nl, of r b] by (auto simp: f)
  qed
qed

lemma remove_node_ok:
  assumes nl: "nodes_ok nl" and a: "a \<noteq> ln_self nl" and c: "nd_outgoing (node nl a) = Some c" and m: "ln_connectionNodes nl c = Some a"
    and n: "\<And>b. nd_id (node nl1 b) = nd_id (node nl b)" "\<And>b. b \<noteq> a \<Longrightarrow> nd_state (node nl1 b) = nd_state (node nl b)"
      "\<And>b. b \<noteq> a \<Longrightarrow> nd_outgoing (node nl1 b) = nd_outgoing (node nl b)" "nd_state (node nl1 a) = STATE_CLOSED" "nd_outgoing (node nl1 a) = None"
    and f: "ln_self nl1 = ln_self nl" "ln_fresh nl1 = ln_fresh nl" "ln_nodes nl1 = (ln_nodes nl)(nd_id (node nl a) := None)"
      "ln_connectionNodes nl1 = (ln_connectionNodes nl)(c := None)"
      "\<And>r b. ln_requests nl1 r = Some (Some b) \<Longrightarrow> ln_requests nl r = Some (Some b)"
  shows "nodes_ok nl1"
proof -
  have fresh: "a < ln_fresh nl" by (rule nodes_ok_connection [OF nl m])
  then have t: "ln_nodes nl (nd_id (node nl a)) = Some a"
    using nodes_ok_linked [OF nl fresh a] nodes_ok_closed [OF nl fresh a] c by (auto simp: linked_def)
  have i: "isConnected (node nl1 b) = (b \<noteq> a \<and> isConnected (node nl b))" for b
    using n(2,4) by (cases "b = a") (auto simp: isConnected_def)
  have l: "linked nl1 b" if "linked nl b" "b \<noteq> a" for b
    using that m t by (auto simp: linked_def n f split: option.splits)
  show ?thesis
  proof (rule nodes_okI)
    show "self_ok nl1" using nodes_ok_self [OF nl] a t by (auto simp: self_ok_def n f i)
    show "b < ln_fresh nl1" "nd_id (node nl1 b) = j" if "ln_nodes nl1 j = Some b" for j b
      using that nodes_ok_table [OF nl, of j b] by (auto simp: n f split: if_splits)
    show "linked nl1 b" if "b < ln_fresh nl1" "b \<noteq> ln_self nl1" "isConnected (node nl1 b)" for b
      using that nodes_ok_linked [OF nl, of b] l [of b] by (auto simp: i f)
    show "nd_outgoing (node nl1 b) = None" if "b < ln_fresh nl1" "b \<noteq> ln_self nl1" "\<not> isConnected (node nl1 b)" for b
      using that nodes_ok_closed [OF nl, of b] n(3,5) by (cases "b = a") (auto simp: i f)
    show "b < ln_fresh nl1" if "ln_connectionNodes nl1 d = Some b" for d b
      using that nodes_ok_connection [OF nl, of d b] by (auto simp: f split: if_splits)
    show "b < ln_fresh nl1" "b \<noteq> ln_self nl1" if "ln_requests nl1 r = Some (Some b)" for r b
      using nodes_ok_request [OF nl f(5) [OF that]] by (simp_all add: f)
  qed
qed

lemma create_node:
  assumes "createNode cf type nl = (a, nl1)"
  shows "a = ln_fresh nl" "ln_fresh nl1 = Suc (ln_fresh nl)" "ln_self nl1 = ln_self nl" "ln_nodes nl1 = ln_nodes nl"
    "ln_connectionNodes nl1 = ln_connectionNodes nl" "ln_requests nl1 = ln_requests nl" "ln_incoming nl1 = ln_incoming nl"
    "ln_conns nl1 = ln_conns nl" "ln_out nl1 = ln_out nl" "ln_served nl1 = ln_served nl" "ln_commands nl1 = ln_commands nl"
    "b \<noteq> a \<Longrightarrow> node nl1 b = node nl b" "\<not> isConnected (node nl1 a)" "nd_outgoing (node nl1 a) = None" "nd_outMulticast (node nl1 a) = None"
  using assms by (auto simp: createNode_def isConnected_def)

lemma create_node_ok:
  assumes nl: "nodes_ok nl" and c: "createNode cf type nl = (a, nl1)"
  shows "nodes_ok nl1" "a < ln_fresh nl1" "a \<noteq> ln_self nl1" "ln_nodes nl1 i \<noteq> Some a"
proof -
  note n = create_node [OF c]
  have a: "a \<noteq> ln_self nl" "ln_nodes nl i \<noteq> Some a" for i
    using nodes_ok_self [OF nl] nodes_ok_table [OF nl, of i a] n(1) by (auto simp: self_ok_def)
  then show "a < ln_fresh nl1" "a \<noteq> ln_self nl1" "ln_nodes nl1 i \<noteq> Some a" by (auto simp: n)
  have same: "node nl1 b = node nl b" if "b < ln_fresh nl" for b using that n(1) n(12) [of b] by simp
  have l: "linked nl1 b" if "linked nl b" "b < ln_fresh nl" for b
    using that by (simp add: linked_def same n split: option.splits)
  have old: "b < ln_fresh nl" if "b < ln_fresh nl1" "b \<noteq> a" for b using that n(1,2) by simp
  show "nodes_ok nl1"
  proof (rule nodes_okI)
    show "self_ok nl1" using nodes_ok_self [OF nl] by (auto simp: self_ok_def same n)
    show "b < ln_fresh nl1" "nd_id (node nl1 b) = j" if "ln_nodes nl1 j = Some b" for j b
      using that nodes_ok_table [OF nl, of j b] by (auto simp: n same)
    show "linked nl1 b" if "b < ln_fresh nl1" "b \<noteq> ln_self nl1" "isConnected (node nl1 b)" for b
      using that n(13) old [of b] nodes_ok_linked [OF nl, of b] l [of b] same [of b] n(3) by (cases "b = a") auto
    show "nd_outgoing (node nl1 b) = None" if "b < ln_fresh nl1" "b \<noteq> ln_self nl1" "\<not> isConnected (node nl1 b)" for b
      using that n(14) old [of b] nodes_ok_closed [OF nl, of b] same [of b] n(3) by (cases "b = a") auto
    show "b < ln_fresh nl1" if "ln_connectionNodes nl1 d = Some b" for d b
      using that nodes_ok_connection [OF nl, of d b] by (simp add: n)
    show "b < ln_fresh nl1" "b \<noteq> ln_self nl1" if "ln_requests nl1 r = Some (Some b)" for r b
      using that nodes_ok_request [OF nl, of r b] by (auto simp: n)
  qed
qed

end
