(* ===== verification/Text_Roundtrip.thy ===== *)
theory Text_Roundtrip
  imports Connection_Description
begin

text \<open>
  What is written by the text operations of \<open>Connection_Description\<close> is read back. The locale
  \<open>text_codec\<close> is the contract of a writer and a parser that consumes what was written; connection
  descriptions, lists of them and node data interpret it.
\<close>

section \<open>Numbers\<close>

lemma cut_append [simp]: "c \<notin> set xs \<Longrightarrow> cut c (xs @ c # ys) = Some (xs, ys)"
  by (induction xs) auto

lemma cut_none [simp]: "c \<notin> set xs \<Longrightarrow> cut c xs = None"
  by (induction xs) auto

lemma of_char_digit: "n < 10 \<Longrightarrow> (of_char (char_of (48 + n :: nat) :: char) :: nat) = 48 + n"
  by simp

lemma isdigit_digit [simp]: "n < 10 \<Longrightarrow> isdigit (char_of (48 + n :: nat))"
  by (simp add: isdigit_def)

lemma dec_digits: "c \<in> set (dec n) \<Longrightarrow> isdigit c"
  by (induction n rule: dec.induct) (subst (asm) (2) dec.simps, auto split: if_splits)

lemma dec_nonempty [simp]: "dec n \<noteq> []"
  by (subst dec.simps) simp

lemma digits_value_append: "(\<And>c. c \<in> set xs \<Longrightarrow> isdigit c) \<Longrightarrow> digits_value m (xs @ ys) = digits_value (digits_value m xs) ys"
  by (induction xs arbitrary: m) auto

lemma digits_value_dec: "digits_value 0 (dec n) = n"
proof (induction n rule: dec.induct)
  case (1 n)
  then show ?case
    by (subst dec.simps) (simp add: digits_value_append dec_digits of_char_digit)
qed

lemma digit_facts: "isdigit c \<Longrightarrow> c \<noteq> CHR ''-''" "isdigit c \<Longrightarrow> c \<noteq> CHR ''+''" "isdigit c \<Longrightarrow> \<not> isspace c"
  "isdigit c \<Longrightarrow> c \<noteq> CO_SEPARATOR" "\<not> isspace (CHR ''-'')"
  by (auto simp: isdigit_def isspace_def CO_SEPARATOR_def)

lemma atoi_dec: "atoi (dec n) = int n"
proof -
  obtain c cs where d: "dec n = c # cs" by (metis dec_nonempty neq_Nil_conv)
  then have "isdigit c" by (auto intro: dec_digits [of c n])
  then show ?thesis using digits_value_dec [of n] d digit_facts by (simp add: atoi_def)
qed

lemma atoi_show_int [simp]: "atoi (show_int i) = i"
proof (cases "i < 0")
  case True
  then show ?thesis by (simp add: show_int_def atoi_def digit_facts digits_value_dec)
qed (simp add: show_int_def atoi_dec)

lemma show_int_no_separator [simp]: "CO_SEPARATOR \<notin> set (show_int i)"
  by (auto simp: show_int_def CO_SEPARATOR_def dest!: dec_digits digit_facts(4))

lemma show_int_digit [simp]: "show_int i \<noteq> []" "isdigit (hd (show_int i)) = (0 \<le> i)"
  using dec_digits [of "hd (dec (nat i))" "nat i"] by (auto simp: show_int_def isdigit_def)

section \<open>Descriptions\<close>

locale text_codec =
  fixes put :: "'a \<Rightarrow> string" and get :: "string \<Rightarrow> bool \<times> 'a \<times> string" and valid :: "'a \<Rightarrow> bool"
  assumes get_put: "valid x \<Longrightarrow> get (put x @ rest) = (True, x, rest)"
begin

lemma read_items_put:
  "(\<And>x. x \<in> set xs \<Longrightarrow> valid x) \<Longrightarrow>
   read_items get (length xs) (concat (map put xs) @ rest) items = (True, items @ xs, rest)"
  by (induction xs arbitrary: items) (simp_all add: get_put)

lemma put_inject: "valid x \<Longrightarrow> valid y \<Longrightarrow> put x = put y \<Longrightarrow> x = y"
  using get_put [of x "[]"] get_put [of y "[]"] by simp

end

definition plain_text :: "string \<Rightarrow> bool" where
  "plain_text s = (CO_SEPARATOR \<notin> set s)"

definition valid_description :: "ConnectionDescription \<Rightarrow> bool" where
  "valid_description cd = (cd_type cd \<noteq> CONNECTIONTYPE_NONE \<and> plain_text (cd_hostname cd) \<and> plain_text (cd_interface cd) \<and>
     plain_text (cd_filename cd))"

lemma type_text_plain [simp]: "CO_SEPARATOR \<notin> set (type_text type)"
  by (cases type) (simp_all add: CO_SEPARATOR_def)

lemma getConnectionType_text [simp]: "getConnectionType (type_text type) = type"
  by (cases type) (simp_all add: getConnectionType_def)

lemma description_roundtrip:
  assumes "valid_description cd"
  shows "fromString (serialize_description cd @ rest) old = (True, cd, rest)"
  using assms
  by (simp add: fromString_def serialize_description_def valid_description_def plain_text_def Let_def)

interpretation description_codec: text_codec serialize_description "\<lambda>s. fromString s new_description" valid_description
  by unfold_locales (rule description_roundtrip)

lemma descriptions_roundtrip:
  assumes "list_all valid_description ds"
  shows "deserialize_descriptions (serialize_descriptions ds @ rest) [] = (True, ds, rest)"
  using description_codec.read_items_put [of ds rest "[]"] assms
  by (simp add: deserialize_descriptions_def serialize_descriptions_def list_all_iff)

interpretation descriptions_codec: text_codec serialize_descriptions "\<lambda>s. deserialize_descriptions s []" "list_all valid_description"
  by unfold_locales (rule descriptions_roundtrip)

section \<open>Node data\<close>

definition text_of_ids :: "(u128 \<Rightarrow> string) \<Rightarrow> (string \<Rightarrow> u128) \<Rightarrow> bool" where
  "text_of_ids idText idParse = (\<forall>x. idText x \<noteq> [] \<and> plain_text (idText x) \<and> idParse (idText x) = x)"

lemma node_data_read:
  assumes "text_of_ids idText idParse" "list_all valid_description ds"
  shows "deserialize_node idParse (serialize_node idText identifier ds @ rest) = (True, Some (identifier, ds), rest)"
  using assms descriptions_codec.get_put [of ds rest]
  by (simp add: deserialize_node_def serialize_node_def text_of_ids_def plain_text_def)

text \<open>
  C25. A node that is told the data of another node, as a handshake and a query of node data do, has its identifier
  and its connection descriptions, and has consumed exactly the text of the node.
\<close>

theorem node_data_roundtrip:
  assumes "text_of_ids idText idParse" "list_all valid_description ds"
  shows "deserialize_node idParse (serialize_node idText identifier ds @ rest) = (True, Some (identifier, ds), rest)"
  using assms by (rule node_data_read)

definition demo_idText :: "u128 \<Rightarrow> string" where
  "demo_idText x = show_int (uint x)"

definition demo_idParse :: "string \<Rightarrow> u128" where
  "demo_idParse s = word_of_int (atoi s)"

lemma demo_ids: "text_of_ids demo_idText demo_idParse"
  by (simp add: text_of_ids_def demo_idText_def demo_idParse_def plain_text_def)

definition demo_description :: ConnectionDescription where
  "demo_description = new_description\<lparr>cd_type := CONNECTIONTYPE_RSP, cd_bandwidth := - 1, cd_port := 4242, cd_hostname := ''239.0.0.1''\<rparr>"

lemma node_data_roundtrip_witness:
  "deserialize_node demo_idParse (serialize_node demo_idText 7 [demo_description, new_description] @ ''x'') =
     (True, Some (7, [demo_description, new_description]), ''x'')"
  by (rule node_data_roundtrip [OF demo_ids])
    (simp add: valid_description_def demo_description_def new_description_def plain_text_def CO_SEPARATOR_def)

section \<open>Global attributes\<close>

lemma global_values_written:
  "global_values (concat (map (\<lambda>v. show_int (sint v) @ [CO_SEPARATOR]) vs) @ [CO_SEPARATOR]) = takeWhile (\<lambda>v. 0 \<le> sint v) vs"
proof (induction vs)
  case Nil
  then show ?case by (subst global_values.simps) simp
next
  case (Cons v vs)
  then show ?case by (subst global_values.simps) simp
qed

lemma length_takeWhile_all: "length (takeWhile P xs) = length xs \<longleftrightarrow> (\<forall>x \<in> set xs. P x)"
  by (induction xs) auto

text \<open>
  A process that is given the text of the global attributes of another one takes all of them over if none is
  negative; if any is negative, it rejects the text and keeps its own values.
\<close>

theorem globals_received_iff:
  assumes "length own = length sent"
  shows "global_fromString (global_toString sent) own =
     (if \<forall>v \<in> set sent. 0 \<le> sint v then (True, sent) else (False, own))"
proof -
  have "length (takeWhile (\<lambda>v. 0 \<le> sint v) sent) = length own \<longleftrightarrow> (\<forall>v \<in> set sent. 0 \<le> sint v)"
    using assms length_takeWhile_all [of _ sent] by simp
  moreover have "takeWhile (\<lambda>v. 0 \<le> sint v) sent = sent" if "\<forall>v \<in> set sent. 0 \<le> sint v" using that by simp
  ultimately show ?thesis
    by (auto simp: global_fromString_def global_toString_def global_values_written Let_def)
qed

lemma globals_received_iff_witness:
  "global_fromString (global_toString [100, - 5]) [1, 2] = (False, [1, 2]) \<and>
   global_fromString (global_toString [100, 5]) [1, 2] = (True, [100, 5])"
  using globals_received_iff [of "[1, 2]" "[100, - 5]"] globals_received_iff [of "[1, 2]" "[100, 5]"] by simp

end
