(* ===== verification/Node_Run.thy ===== *)
theory Node_Run
  imports Node_Table Text_Roundtrip Store_Dispatch
begin

text \<open>
  Runs of a local node: packets on its connections, lost connections, the commands of its own
  application. Peers tell the truth about their identifier.
\<close>

section \<open>The handlers keep the table consistent\<close>

lemma map_connection_ok:
  assumes nl: "nodes_ok nl" and c: "ln_connectionNodes nl c = None \<or> ln_connectionNodes nl c = Some a" and a: "a < ln_fresh nl"
    and o: "nd_outgoing (node nl (ln_self nl)) \<noteq> Some c"
  shows "nodes_ok (nl\<lparr>ln_connectionNodes := (ln_connectionNodes nl)(c \<mapsto> a)\<rparr>)" (is "nodes_ok ?nl")
proof (rule nodes_okI)
  have l: "linked ?nl b" if "linked nl b" for b
    using that c by (auto simp: linked_def split: option.splits)
  show "self_ok ?nl" using nodes_ok_self [OF nl] o by (auto simp: self_ok_def)
  show "linked ?nl b" if "b < ln_fresh ?nl" "b \<noteq> ln_self ?nl" "isConnected (node ?nl b)" for b
    using that nodes_ok_linked [OF nl, of b] l [of b] by simp
  show "b < ln_fresh ?nl" if "ln_connectionNodes ?nl d = Some b" for d b
    using that nodes_ok_connection [OF nl, of d b] a by (auto split: if_splits)
qed (use nodes_ok_table [OF nl] nodes_ok_closed [OF nl] nodes_ok_request [OF nl] in auto)

lemma unmap_listener_ok:
  assumes nl: "nodes_ok nl" and c: "ln_connectionNodes nl c = Some (ln_self nl)"
  shows "nodes_ok (nl\<lparr>ln_connectionNodes := (ln_connectionNodes nl)(c := None)\<rparr>)" (is "nodes_ok ?nl")
proof (rule nodes_okI)
  have l: "linked ?nl b" if "linked nl b" "b \<noteq> ln_self nl" for b
    using that c by (auto simp: linked_def split: option.splits)
  show "self_ok ?nl" using nodes_ok_self [OF nl] by (auto simp: self_ok_def)
  show "linked ?nl b" if "b < ln_fresh ?nl" "b \<noteq> ln_self ?nl" "isConnected (node ?nl b)" for b
    using that nodes_ok_linked [OF nl, of b] l [of b] by simp
  show "b < ln_fresh ?nl" if "ln_connectionNodes ?nl d = Some b" for d b
    using that nodes_ok_connection [OF nl, of d b] by (auto split: if_splits)
qed (use nodes_ok_table [OF nl] nodes_ok_closed [OF nl] nodes_ok_request [OF nl] in auto)

lemma request_ok:
  assumes nl: "nodes_ok nl" and a: "\<And>b. a = Some b \<Longrightarrow> b < ln_fresh nl \<and> b \<noteq> ln_self nl"
  shows "nodes_ok (nl\<lparr>ln_requests := (ln_requests nl)(r \<mapsto> a)\<rparr>)" (is "nodes_ok ?nl")
proof (rule nodes_okI)
  have l: "linked ?nl b = linked nl b" for b by (simp add: linked_def split: option.split)
  show "self_ok ?nl" using nodes_ok_self [OF nl] by (simp add: self_ok_def)
  show "linked ?nl b" if "b < ln_fresh ?nl" "b \<noteq> ln_self ?nl" "isConnected (node ?nl b)" for b
    using that nodes_ok_linked [OF nl, of b] by (simp add: l)
  show "b < ln_fresh ?nl" "b \<noteq> ln_self ?nl" if "ln_requests ?nl q = Some (Some b)" for q b
    using that nodes_ok_request [OF nl, of q b] a [of b] by (auto split: if_splits)
qed (use nodes_ok_table [OF nl] nodes_ok_closed [OF nl] nodes_ok_connection [OF nl] in auto)

lemma deserialize_ok:
  assumes nl: "nodes_ok nl" and a: "a \<noteq> ln_self nl" "\<not> isConnected (node nl a)" "\<And>i. ln_nodes nl i \<noteq> Some a"
  shows "nodes_ok (node_deserialize cf a data nl)" (is "nodes_ok ?nl")
proof (rule nodes_okI)
  have n: "nd_id (node ?nl b) = nd_id (node nl b)" if "b \<noteq> a" for b
    using that by (auto simp: node_deserialize_def new_connection_descriptions_def split: prod.split option.split)
  show "self_ok ?nl" using nodes_ok_self [OF nl] a n [of "ln_self nl"] by (simp add: self_ok_def)
  show "nd_id (node ?nl b) = i" if "ln_nodes ?nl i = Some b" for i b
    using that nodes_ok_table [OF nl, of i b] a(3) [of i] n [of b] by (cases "b = a") auto
  show "linked ?nl b" if "b < ln_fresh ?nl" "b \<noteq> ln_self ?nl" "isConnected (node ?nl b)" for b
    using that nodes_ok_linked [OF nl, of b] n [of b] a(2) by (cases "b = a") (auto simp: linked_def split: option.splits)
qed (use nodes_ok_table [OF nl] nodes_ok_closed [OF nl] nodes_ok_connection [OF nl] nodes_ok_request [OF nl] in auto)

lemma list_node_ok:
  assumes nl: "nodes_ok nl" and a: "a < ln_fresh nl" "nd_id (node nl a) = i" "ln_nodes nl i = None"
  shows "nodes_ok (nl\<lparr>ln_nodes := (ln_nodes nl)(i \<mapsto> a)\<rparr>)" (is "nodes_ok ?nl")
proof (rule nodes_okI)
  have l: "linked ?nl b" if "linked nl b" for b
    using that a by (auto simp: linked_def split: option.splits)
  show "self_ok ?nl" using nodes_ok_self [OF nl] a by (auto simp: self_ok_def)
  show "b < ln_fresh ?nl" "nd_id (node ?nl b) = j" if "ln_nodes ?nl j = Some b" for j b
    using that nodes_ok_table [OF nl, of j b] a by (auto split: if_splits)
  show "linked ?nl b" if "b < ln_fresh ?nl" "b \<noteq> ln_self ?nl" "isConnected (node ?nl b)" for b
    using that nodes_ok_linked [OF nl, of b] l [of b] by simp
qed (use nodes_ok_closed [OF nl] nodes_ok_connection [OF nl] nodes_ok_request [OF nl] in auto)

lemma accept_ok:
  "nodes_ok nl \<Longrightarrow> joins nl c a identifier \<Longrightarrow> carries cf data identifier \<Longrightarrow> nodes_ok (accept_node cf c a request data nl)"
  unfolding accept_node_def Let_def by (rule same_nodes_ok [OF same_nodes_ops(2)]) (rule add_node_ok)

lemma finish_ok:
  "nodes_ok nl \<Longrightarrow> joins nl c a identifier \<Longrightarrow> carries cf data identifier \<Longrightarrow> nodes_ok (finish_connect cf c a request data nl)"
  unfolding finish_connect_def
  by (rule same_nodes_ok [OF same_nodes_multicast], rule same_nodes_ok [OF same_nodes_ops(3)], rule same_nodes_ok [OF same_nodes_ops(1)])
    (rule add_node_ok)

lemma joins_listed:
  assumes nl: "nodes_ok nl" and t: "ln_nodes nl identifier = Some a" and "\<not> isConnected (node nl a)" "ln_connectionNodes nl c = None"
  shows "joins nl c a identifier"
proof -
  have "a \<noteq> ln_self nl" using nodes_ok_self [OF nl] assms(3) by (auto simp: self_ok_def)
  moreover have "i = identifier" if "ln_nodes nl i = Some a" for i
    using nodes_ok_table [OF nl that] nodes_ok_table [OF nl t] by simp
  moreover have "b = a" if "ln_nodes nl identifier = Some b" for b using that t by simp
  ultimately show ?thesis unfolding joins_def using assms nodes_ok_table [OF nl t] by blast
qed

lemma joins_created:
  assumes "nodes_ok nl" "createNode cf type nl = (a, nl1)" "ln_connectionNodes nl c = None" "ln_nodes nl identifier = None"
  shows "joins nl1 c a identifier"
  using create_node_ok [OF assms(1,2)] create_node [OF assms(2)] assms(3,4) by (simp add: joins_def)

lemma cmdConnect_ok:
  assumes nl: "nodes_ok nl" and c: "ln_connectionNodes nl c = None" and d: "carries cf data nodeID"
  shows "nodes_ok (cmdConnect cf c nodeID request type data nl)"
proof (cases "ln_nodes nl nodeID")
  case None
  obtain a nl1 where n: "createNode cf type nl = (a, nl1)" by (cases "createNode cf type nl")
  then show ?thesis using None accept_ok [OF create_node_ok(1) [OF nl n] joins_created [OF nl n c None] d] by (simp add: cmdConnect_def)
next
  case (Some a)
  have "nodes_ok (remove_connection c (conn_send c p nl))" for p
    by (rule same_nodes_ok [OF same_nodes_ops(6)], rule same_nodes_ok [OF same_nodes_ops(2)]) (rule nl)
  then show ?thesis using Some accept_ok [OF nl joins_listed [OF nl Some] d] c by (simp add: cmdConnect_def)
qed

lemma drop_peer_ok:
  assumes nl: "nodes_ok nl" and t: "ln_nodes nl nodeID = Some a" and a: "isConnected (node nl a)" "a \<noteq> ln_self nl"
  shows "nodes_ok (drop_peer nodeID a nl)"
proof -
  have f: "a < ln_fresh nl" "nd_id (node nl a) = nodeID" using nodes_ok_table [OF nl t] by simp_all
  then have "linked nl a" using nodes_ok_linked [OF nl] a by simp
  then obtain c where c: "nd_outgoing (node nl a) = Some c" "ln_connectionNodes nl c = Some a"
    by (auto simp: linked_def split: option.splits)
  show ?thesis
    by (rule remove_node_ok [OF nl a(2) c]) (auto simp: drop_peer_def Let_def c f split: if_splits)
qed

text \<open>The node of a request is not listed while the peer that answers is unknown.\<close>

definition unlisted :: "'o LocalNode \<Rightarrow> u32 \<Rightarrow> bool" where
  "unlisted nl request = (\<forall>a i. ln_requests nl request = Some (Some a) \<longrightarrow> ln_nodes nl i \<noteq> Some a)"

lemma joins_requested:
  assumes nl: "nodes_ok nl" and r: "ln_requests nl request = Some (Some a)" and u: "unlisted nl request"
    and c: "ln_connectionNodes nl c = None" and t: "ln_nodes nl identifier = None"
  shows "joins nl c a identifier"
proof -
  have a: "a < ln_fresh nl" "a \<noteq> ln_self nl" using nodes_ok_request [OF nl r] by simp_all
  have n: "ln_nodes nl i \<noteq> Some a" for i using u r by (simp add: unlisted_def)
  have "\<not> isConnected (node nl a)"
    using nodes_ok_linked [OF nl a] n by (auto simp: linked_def split: option.splits)
  then show ?thesis using a n c t by (simp add: joins_def)
qed

lemma cmdConnectReply_ok:
  assumes nl: "nodes_ok nl" and c: "ln_connectionNodes nl c = None" and s: "nodeID \<noteq> nd_id (node nl (ln_self nl))"
    and d: "nodeID \<noteq> 0 \<Longrightarrow> carries cf data nodeID" and u: "ln_nodes nl nodeID = None \<Longrightarrow> unlisted nl request"
    and h: "cmdConnectReply cf c nodeID request type data nl = Some nl1"
  shows "nodes_ok nl1"
proof (cases "nodeID = 0")
  case True
  have "nodes_ok (ln_serve request v (remove_connection c nl))" for v
    by (rule same_nodes_ok [OF same_nodes_ops(1)], rule same_nodes_ok [OF same_nodes_ops(6)]) (rule nl)
  then show ?thesis using True h by (auto simp: cmdConnectReply_def)
next
  case False
  note data = d [OF False]
  show ?thesis
  proof (cases "ln_nodes nl nodeID")
    case (Some a)
    have a: "a \<noteq> ln_self nl" using nodes_ok_table [OF nl Some] s by auto
    have nl2: "nodes_ok (remove_connection c nl)" by (rule same_nodes_ok [OF same_nodes_ops(6) nl])
    have "nodes_ok (ln_serve request v (drop_peer nodeID a (remove_connection c nl)))" if "isConnected (node nl a)" for v
      by (rule same_nodes_ok [OF same_nodes_ops(1)], rule drop_peer_ok [OF nl2])
        (use Some that a in \<open>simp_all add: remove_connection_def close_connection_def\<close>)
    then show ?thesis using h False Some finish_ok [OF nl joins_listed [OF nl Some _ c] data]
      by (auto simp: cmdConnectReply_def split: if_splits)
  next
    case None
    obtain a nl2 where n: "createNode cf type nl = (a, nl2)" by (cases "createNode cf type nl")
    show ?thesis
      using h False None n finish_ok [OF create_node_ok(1) [OF nl n] joins_created [OF nl n c None] data]
        finish_ok [OF nl joins_requested [OF nl _ u [OF None] c None] data]
      by (auto simp: cmdConnectReply_def split: if_splits option.splits)
  qed
qed

lemma cmdID_ok:
  assumes nl: "nodes_ok nl" and c: "from = None \<Longrightarrow> ln_connectionNodes nl c = None" and o: "nd_outgoing (node nl (ln_self nl)) \<noteq> Some c"
    and d: "carries cf data nodeID"
  shows "nodes_ok (cmdID cf c from nodeID type data nl)"
proof (cases "from")
  case None
  obtain a nl1 where i: "id_node cf nodeID type data nl = (a, nl1)" by (cases "id_node cf nodeID type data nl")
  have "nodes_ok nl1 \<and> a < ln_fresh nl1 \<and> ln_connectionNodes nl1 = ln_connectionNodes nl \<and> ln_self nl1 = ln_self nl \<and>
      nd_outgoing (node nl1 (ln_self nl)) = nd_outgoing (node nl (ln_self nl))"
  proof (cases "nodeID = nd_id (node nl (ln_self nl)) \<or> ln_nodes nl nodeID \<noteq> None")
    case True
    then show ?thesis using i nl nodes_ok_self [OF nl] nodes_ok_table [OF nl, of nodeID]
      by (auto simp: id_node_def self_ok_def split: if_splits)
  next
    case False
    obtain b nl2 where n: "createNode cf type nl = (b, nl2)" by (cases "createNode cf type nl")
    let ?nl = "node_deserialize cf b data nl2"
    note f = create_node [OF n] create_node_ok [OF nl n]
    have "nodes_ok ?nl" by (rule deserialize_ok) (use f in auto)
    then have "nodes_ok (?nl\<lparr>ln_nodes := (ln_nodes ?nl)(nodeID \<mapsto> b)\<rparr>)"
      by (rule list_node_ok) (use f False in \<open>simp_all add: deserialize_id [OF d]\<close>)
    moreover have "a = b" "nl1 = ?nl\<lparr>ln_nodes := (ln_nodes ?nl)(nodeID \<mapsto> b)\<rparr>"
      using i False n by (auto simp: id_node_def Let_def)
    ultimately show ?thesis using f by auto
  qed
  then have k: "nodes_ok nl1" "a < ln_fresh nl1" "ln_connectionNodes nl1 c = None" "nd_outgoing (node nl1 (ln_self nl1)) \<noteq> Some c"
    using c o None by auto
  have m: "nodes_ok (nl2\<lparr>ln_connectionNodes := (ln_connectionNodes nl1)(c \<mapsto> a)\<rparr>)" if s: "same_nodes nl1 nl2" for nl2
  proof -
    have "nodes_ok (nl2\<lparr>ln_connectionNodes := (ln_connectionNodes nl2)(c \<mapsto> a)\<rparr>)"
      by (rule map_connection_ok [OF same_nodes_ok [OF s k(1)]]) (use s k in \<open>auto simp: same_nodes_def\<close>)
    then show ?thesis using s by (simp add: same_nodes_def)
  qed
  then show ?thesis using None
    by (simp add: cmdID_def i Let_def) (auto intro!: m same_nodes_upd split: option.split)
qed (use nl in \<open>simp add: cmdID_def\<close>)

lemma same_disconnected: "same_nodes nl (forget_instances cf a (remove_connection c nl))"
  by (rule same_nodes_trans [OF same_nodes_ops(6) same_nodes_ops(10)])

lemma cmdDisconnect_ok:
  assumes nl: "nodes_ok nl" and h: "cmdDisconnect cf request nl = Some nl1"
  shows "nodes_ok nl1"
proof -
  obtain a where r: "ln_requests nl request = Some (Some a)" using h by (auto simp: cmdDisconnect_def split: option.splits)
  have a: "a < ln_fresh nl" "a \<noteq> ln_self nl" using nodes_ok_request [OF nl r] by simp_all
  show ?thesis
  proof (cases "nd_outgoing (node nl a)")
    case None
    then have "nl1 = ln_serve request SERVED nl" using h r by (simp add: cmdDisconnect_def)
    then show ?thesis using same_nodes_ok [OF same_nodes_ops(1) nl] by simp
  next
    case (Some c)
    then have "linked nl a" using nodes_ok_linked [OF nl a] nodes_ok_closed [OF nl a] by fastforce
    then have m: "ln_connectionNodes nl c = Some a" using Some by (simp add: linked_def)
    let ?nl = "upd_node a (\<lambda>nd. nd\<lparr>nd_state := STATE_CLOSED, nd_outgoing := None\<rparr>) nl"
    let ?nl2 = "forget_instances cf a (remove_connection c ?nl)"
    have e: "nl1 = ln_serve request SERVED (?nl2\<lparr>ln_connectionNodes := (ln_connectionNodes ?nl2)(c := None),
        ln_nodes := (ln_nodes ?nl2)(nd_id (node ?nl2 a) := None)\<rparr>)"
      using h r Some by (simp add: cmdDisconnect_def Let_def)
    show ?thesis
      unfolding e
      by (rule same_nodes_ok [OF same_nodes_ops(1)], rule remove_node_ok [OF nl a(2) Some m])
        (auto simp: forget_instances_def remove_connection_def close_connection_def)
  qed
qed

lemma handleDisconnect_ok:
  assumes nl: "nodes_ok nl"
  shows "nodes_ok (handleDisconnect cf c nl)"
proof (cases "ln_connectionNodes nl c")
  case None
  then show ?thesis using same_nodes_ok [OF same_nodes_ops(6) nl] by (simp add: handleDisconnect_def)
next
  case (Some a)
  let ?nl = "redispatchCommands cf (push_command (Some a) (NODE_REMOVE_NODE a) nl)"
  have s: "same_nodes nl ?nl" by (rule same_nodes_trans [OF same_nodes_ops(7) same_nodes_ops(8)])
  then have nl1: "nodes_ok ?nl" by (rule same_nodes_ok) (rule nl)
  have m: "ln_connectionNodes ?nl c = Some a" using s Some by (simp add: same_nodes_def)
  have "nodes_ok (lose_node cf c a ?nl)" if o: "nd_outgoing (node ?nl a) = Some c"
  proof -
    have "a \<noteq> ln_self ?nl" using nodes_ok_self [OF nl1] m o by (auto simp: self_ok_def)
    then show ?thesis
      by (rule remove_node_ok [OF nl1 _ o m])
        (auto simp: lose_node_def forget_instances_def remove_connection_def close_connection_def Let_def split: option.splits)
  qed
  then show ?thesis
    using Some same_nodes_ok [OF same_nodes_ops(12) nl1]
    by (simp add: handleDisconnect_def Let_def same_nodes_ok [OF same_nodes_ops(6)])
qed

section \<open>Runs\<close>

lemma add_listening_ok:
  assumes nl: "nodes_ok nl" and c: "ln_connectionNodes nl c = None \<or> ln_connectionNodes nl c = Some (ln_self nl)"
    and o: "nd_outgoing (node nl (ln_self nl)) \<noteq> Some c"
  shows "nodes_ok (add_listening c nl)"
proof -
  have "ln_self nl < ln_fresh nl" using nodes_ok_self [OF nl] by (simp add: self_ok_def)
  then have k: "nodes_ok (nl\<lparr>ln_connectionNodes := (ln_connectionNodes nl)(c \<mapsto> ln_self nl)\<rparr>)"
    by (rule map_connection_ok [OF nl c _ o])
  let ?nl = "add_connection c (nl\<lparr>ln_connectionNodes := (ln_connectionNodes nl)(c \<mapsto> ln_self nl)\<rparr>)"
  have "nodes_ok ?nl" by (rule same_nodes_ok [OF same_nodes_ops(4) k])
  then show ?thesis using same_nodes_ok [OF same_nodes_ops(9)] by (auto simp: add_listening_def Let_def)
qed

lemma remove_listening_ok:
  assumes nl: "nodes_ok nl" and c: "ln_connectionNodes nl c = Some (ln_self nl)"
  shows "nodes_ok (remove_listening c nl)"
proof -
  let ?nl = "if is_multicast (connection_type nl c)
    then upd_node (ln_self nl) (\<lambda>nd. nd\<lparr>nd_multicasts := erase_multicast c (nd_multicasts nd)\<rparr>) nl else nl"
  let ?nl1 = "?nl\<lparr>ln_incoming := remove1 c (ln_incoming ?nl)\<rparr>"
  have "same_nodes nl ?nl" by (auto intro: same_nodes_upd)
  then have s: "same_nodes nl ?nl1" by (rule same_nodes_trans [OF _ same_nodes_simple(4)])
  then have "ln_connectionNodes ?nl1 c = Some (ln_self ?nl1)" using c unfolding same_nodes_def by metis
  then have "nodes_ok (?nl1\<lparr>ln_connectionNodes := (ln_connectionNodes ?nl1)(c := None)\<rparr>)"
    by (rule unmap_listener_ok [OF same_nodes_ok [OF s nl]])
  then show ?thesis by (cases "is_multicast (connection_type nl c)") (simp_all add: remove_listening_def)
qed

text \<open>
  Packets as peers and the own application send them: a connection makes one handshake, node data is that of
  the announced identifier, an answer is not from the node itself, and listeners are connections of their own.
\<close>

fun admissible :: "NodeConfig \<Rightarrow> nat \<Rightarrow> NodePacket \<Rightarrow> 'o LocalNode \<Rightarrow> bool" where
  "admissible cf c (NODE_CONNECT nodeID request type data) nl = (ln_connectionNodes nl c = None \<and> carries cf data nodeID)"
| "admissible cf c (NODE_CONNECT_REPLY nodeID request type data) nl =
     (ln_connectionNodes nl c = None \<and> nodeID \<noteq> nd_id (node nl (ln_self nl)) \<and> (nodeID \<noteq> 0 \<longrightarrow> carries cf data nodeID) \<and>
      (ln_nodes nl nodeID = None \<longrightarrow> unlisted nl request))"
| "admissible cf c (NODE_ID nodeID type data) nl = (nd_outgoing (node nl (ln_self nl)) \<noteq> Some c \<and> carries cf data nodeID)"
| "admissible cf c (NODE_ADD_LISTENER d data) nl =
     ((ln_connectionNodes nl d = None \<or> ln_connectionNodes nl d = Some (ln_self nl)) \<and> nd_outgoing (node nl (ln_self nl)) \<noteq> Some d)"
| "admissible cf c (NODE_REMOVE_LISTENER request d data) nl =
     (ln_connectionNodes nl c = Some (ln_self nl) \<longrightarrow> ln_connectionNodes nl d = Some (ln_self nl))"
| "admissible cf c NODE_STOP_RCV nl = False"
| "admissible cf c NODE_STOP_CMD nl = False"
| "admissible cf c _ nl = True"

inductive node_step :: "NodeConfig \<Rightarrow> 'o LocalNode \<Rightarrow> 'o LocalNode \<Rightarrow> bool" for cf where
  data: "admissible cf c p nl \<Longrightarrow> receive_data cf now c p nl = Some nl1 \<Longrightarrow> node_step cf nl nl1"
| object_data: "node_step cf nl (dispatch_object cf command nl)"
| lost: "node_step cf nl (handleDisconnect cf c nl)"
| accepted: "node_step cf nl (handleConnect accepted nl)"
| run_command: "NODE_STOP_CMD \<notin> snd ` set (ln_commands nl) \<Longrightarrow> runCommand cf now nl = Some nl1 \<Longrightarrow> node_step cf nl nl1"
| create: "createNode cf type nl = (a, nl1) \<Longrightarrow> node_step cf nl nl1"
| connect: "a < ln_fresh nl \<Longrightarrow> a \<noteq> ln_self nl \<Longrightarrow> node_step cf nl (snd (connect_request cf request a c nl))"
| disconnect: "a < ln_fresh nl \<Longrightarrow> a \<noteq> ln_self nl \<Longrightarrow> disconnect cf request request2 a nl = Some (flag, nl1) \<Longrightarrow> node_step cf nl nl1"
| multicast: "node_step cf nl (snd (useMulticast cf a nl))"
| add_listener: "node_step cf nl (addListener cf c nl)"
| remove_listener: "node_step cf nl (removeListenerNB cf request c nl)"
| ack: "node_step cf nl (ackRequest cf a request nl)"
| ping: "node_step cf nl (snd (pingIdleNodes cf timeout now nl))"

inductive node_run :: "NodeConfig \<Rightarrow> 'o LocalNode \<Rightarrow> 'o LocalNode \<Rightarrow> bool" for cf where
  refl: "node_run cf nl nl"
| step: "node_run cf nl nl1 \<Longrightarrow> node_step cf nl1 nl2 \<Longrightarrow> node_run cf nl nl2"

lemma receive_command_ok:
  assumes nl: "nodes_ok nl" and p: "admissible cf c p nl" and h: "receive_command cf c (ln_connectionNodes nl c) p nl = Some nl1"
  shows "nodes_ok nl1"
proof (cases p)
  case (NODE_CONNECT nodeID request type data)
  then show ?thesis using cmdConnect_ok [OF nl] p h by auto
next
  case (NODE_CONNECT_REPLY nodeID request type data)
  then have "cmdConnectReply cf c nodeID request type data nl = Some nl1" using h by simp
  then show ?thesis by (rule cmdConnectReply_ok [OF nl, rotated 4]) (use p NODE_CONNECT_REPLY in auto)
next
  case NODE_CONNECT_ACK
  then show ?thesis using h same_nodes_ok [OF same_nodes_multicast nl] by (auto simp: cmdConnectAck_def split: option.splits)
next
  case (NODE_ID nodeID type data)
  then show ?thesis using cmdID_ok [OF nl] p h by auto
next
  case (NODE_DISCONNECT request)
  then show ?thesis using cmdDisconnect_ok [OF nl] h by auto
next
  case (NODE_GET_NODE_DATA_REPLY nodeID request type data)
  obtain a nl2 where n: "createNode cf type nl = (a, nl2)" by (cases "createNode cf type nl")
  note f = create_node [OF n] create_node_ok [OF nl n]
  have "nodes_ok (node_deserialize cf a data nl2)" by (rule deserialize_ok) (use f in auto)
  then show ?thesis using NODE_GET_NODE_DATA_REPLY h n nl same_nodes_ok [OF same_nodes_ops(1)]
    by (auto simp: cmdGetNodeDataReply_def split: option.splits if_splits)
next
  case (NODE_ADD_LISTENER d data)
  obtain b where b: "ln_connectionNodes nl c = Some b" using NODE_ADD_LISTENER h by (auto split: option.splits)
  let ?nl = "snd (new_connection_descriptions [description_of_text data] nl)"
  let ?nl2 = "addConnectionDescription cf b (hd (fst (new_connection_descriptions [description_of_text data] nl))) ?nl"
  have s: "same_nodes nl ?nl2" by (rule same_nodes_trans [OF same_nodes_ops(15) same_nodes_ops(13)])
  have k: "nodes_ok ?nl2" by (rule same_nodes_ok [OF s nl])
  have "nl1 = (if b \<noteq> ln_self nl then ?nl2 else add_listening d ?nl2)"
    using NODE_ADD_LISTENER h b s by (auto simp: cmdAddListener_def split_beta Let_def same_nodes_def)
  then show ?thesis using k add_listening_ok [OF k, of d] p s NODE_ADD_LISTENER by (auto simp: same_nodes_def)
next
  case (NODE_REMOVE_LISTENER request d data)
  obtain b where b: "ln_connectionNodes nl c = Some b" using NODE_REMOVE_LISTENER h by (auto split: option.splits)
  let ?nl = "removeConnectionDescription b (description_of_text data) nl"
  have s: "same_nodes nl ?nl" by simp
  have e: "nl1 = (if b \<noteq> ln_self nl then ?nl else ln_serve request SERVED (remove_listening d ?nl))"
    using NODE_REMOVE_LISTENER h b s by (simp add: cmdRemoveListener_def Let_def same_nodes_def)
  have "ln_connectionNodes ?nl d = Some (ln_self ?nl)" if "b = ln_self nl"
    using p NODE_REMOVE_LISTENER b s that by (simp add: same_nodes_def)
  then show ?thesis
    using e same_nodes_ok [OF s nl] same_nodes_ok [OF same_nodes_ops(1) remove_listening_ok [OF same_nodes_ok [OF s nl]]] by auto
qed (use p h nl same_nodes_ok [OF same_nodes_ops(1) nl] in auto)

lemma admissible_received [simp]:
  "admissible cf c p (upd_node a (\<lambda>nd. nd\<lparr>nd_lastReceive := now\<rparr>) nl) = admissible cf c p nl"
  by (cases p) (auto simp: unlisted_def)

lemma receive_data_ok:
  assumes nl: "nodes_ok nl" and p: "admissible cf c p nl" and h: "receive_data cf now c p nl = Some nl1"
  shows "nodes_ok nl1"
proof -
  let ?nl = "case ln_connectionNodes nl c of None \<Rightarrow> nl | Some a \<Rightarrow> upd_node a (\<lambda>nd. nd\<lparr>nd_lastReceive := now\<rparr>) nl"
  have s: "same_nodes nl ?nl" by (auto intro: same_nodes_upd split: option.split)
  have "admissible cf c p ?nl" using p by (simp split: option.split)
  moreover have "ln_connectionNodes ?nl c = ln_connectionNodes nl c" using s by (simp add: same_nodes_def)
  ultimately have "nodes_ok nl2" if "receive_command cf c (ln_connectionNodes nl c) p ?nl = Some nl2" for nl2
    using receive_command_ok [OF same_nodes_ok [OF s nl]] that by metis
  moreover have "nodes_ok (push_command from p ?nl)" for "from"
    by (rule same_nodes_ok [OF same_nodes_ops(7) same_nodes_ok [OF s nl]])
  ultimately show ?thesis
    using h same_nodes_ok [OF same_nodes_ops(8)] by (auto simp: receive_data_def dispatchCommand_def split: if_splits)
qed

lemma grant_token_ok: "nodes_ok nl \<Longrightarrow> grant_token to request nl = Some nl1 \<Longrightarrow> nodes_ok nl1"
  using same_nodes_ok [OF same_nodes_ops(3)] by (auto simp: grant_token_def)

lemma token_ok:
  assumes "nodes_ok nl"
  shows "cmdAcquireSendToken cf now a request nl = Some nl1 \<Longrightarrow> nodes_ok nl1" "cmdReleaseSendToken now nl = Some nl1 \<Longrightarrow> nodes_ok nl1"
  using assms
  by (auto simp: cmdAcquireSendToken_def cmdReleaseSendToken_def Let_def intro!: keeps_node_ok
      elim!: grant_token_ok [rotated] split: if_splits list.splits)

lemma runCommand_ok:
  assumes nl: "nodes_ok nl" and stop: "NODE_STOP_CMD \<notin> snd ` set (ln_commands nl)" and h: "runCommand cf now nl = Some nl1"
  shows "nodes_ok nl1"
proof (cases "ln_commands nl")
  case (Cons command commands)
  let ?nl = "nl\<lparr>ln_commands := commands\<rparr>"
  have k: "nodes_ok ?nl" by (rule same_nodes_ok [OF same_nodes_simple(6) nl])
  obtain "from" p where c: "command = (from, p)" by (cases command)
  then have "thread_command cf now from p ?nl = Some nl1" "p \<noteq> NODE_STOP_CMD"
    using h stop Cons by (auto simp: runCommand_def)
  then show ?thesis
    using k same_nodes_ok [OF same_nodes_ops(3)] same_nodes_ok [OF same_nodes_ops(11)] token_ok [OF k]
    by (cases p) (auto simp: cmdGetNodeData_def split: option.splits)
qed (use h nl in \<open>simp add: runCommand_def\<close>)

lemma send_all_ok: "nodes_ok nl \<Longrightarrow> nodes_ok (fold (\<lambda>a. node_send a p) as nl)"
  by (induction as arbitrary: nl) (auto intro: same_nodes_ok [OF same_nodes_ops(3)])

lemma dispatch_object_ok: "nodes_ok nl \<Longrightarrow> nodes_ok (dispatch_object cf command nl)"
  by (auto simp: dispatch_object_def Let_def intro!: keeps_node_ok split: prod.split)

lemma useMulticast_ok:
  assumes nl: "nodes_ok nl"
  shows "nodes_ok (snd (useMulticast cf a nl))"
proof -
  have k: "nodes_ok (upd_node a (\<lambda>nd. nd\<lparr>nd_outMulticast := m\<rparr>) (conn_send c p (upd_node a (\<lambda>nd. nd\<lparr>nd_multicasts := f nd\<rparr>) nl)))" for m c p f
    by (rule same_nodes_ok [OF same_nodes_trans [OF same_nodes_trans [OF same_nodes_upd same_nodes_ops(2)] same_nodes_upd] nl]) simp_all
  show ?thesis using nl by (auto simp: useMulticast_def Let_def intro!: k)
qed

lemma connect_request_ok:
  assumes nl: "nodes_ok nl" and a: "a < ln_fresh nl" "a \<noteq> ln_self nl"
  shows "nodes_ok (snd (connect_request cf request a c nl))"
proof -
  let ?nl = "add_connection c nl"
  have k: "nodes_ok ?nl" by (rule same_nodes_ok [OF same_nodes_ops(4) nl])
  have "nodes_ok (?nl\<lparr>ln_requests := (ln_requests ?nl)(request \<mapsto> Some a)\<rparr>)"
    by (rule request_ok [OF k]) (use a in \<open>auto simp: add_connection_def\<close>)
  then show ?thesis using nl same_nodes_ok [OF same_nodes_ops(2)] by (auto simp: connect_request_def Let_def)
qed

lemma node_step_ok: "node_step cf nl nl1 \<Longrightarrow> nodes_ok nl \<Longrightarrow> nodes_ok nl1"
proof (induction rule: node_step.induct)
  case (data c p nl now nl1)
  then show ?case by (blast intro: receive_data_ok)
next
  case (accepted accepted nl)
  then show ?case using same_nodes_ok [OF same_nodes_ops(4)] by (auto simp: handleConnect_def split: option.split)
next
  case (disconnect a nl request request2 flag nl1)
  have k: "nodes_ok (nl\<lparr>ln_requests := (ln_requests nl)(request \<mapsto> Some a)\<rparr>)"
    by (rule request_ok) (use disconnect in auto)
  show ?case
    using disconnect same_nodes_ok [OF same_nodes_ops(11) cmdDisconnect_ok [OF k]] by (auto simp: disconnect_def split: if_splits)
next
  case (remove_listener request c nl)
  then show ?case unfolding removeListenerNB_def by (intro send_all_ok request_ok) auto
next
  case (ack a request nl)
  then show ?case using same_nodes_ok [OF same_nodes_ops(1)] same_nodes_ok [OF same_nodes_ops(3)] by (auto simp: ackRequest_def)
qed (auto simp: addListener_def pingIdleNodes_def Let_def
      intro: dispatch_object_ok handleDisconnect_ok runCommand_ok create_node_ok connect_request_ok useMulticast_ok send_all_ok)

lemma node_run_ok: "node_run cf nl nl1 \<Longrightarrow> nodes_ok nl \<Longrightarrow> nodes_ok nl1"
  by (induction rule: node_run.induct) (auto intro: node_step_ok)

section \<open>A node that listens\<close>

lemma listen_all_fields:
  assumes "listen_all created nl = (True, nl1)" "Some other \<notin> set created"
  shows "ln_self nl1 = ln_self nl \<and> ln_fresh nl1 = ln_fresh nl \<and> ln_nodes nl1 = ln_nodes nl \<and> ln_requests nl1 = ln_requests nl \<and>
    ln_connectionNodes nl1 other = ln_connectionNodes nl other \<and>
    (\<forall>c a. ln_connectionNodes nl1 c = Some a \<longrightarrow> a \<noteq> ln_self nl \<longrightarrow> ln_connectionNodes nl c = Some a) \<and>
    (\<forall>a. nd_id (node nl1 a) = nd_id (node nl a) \<and> nd_state (node nl1 a) = nd_state (node nl a) \<and> nd_outgoing (node nl1 a) = nd_outgoing (node nl a))"
  using assms
proof (induction created nl rule: listen_all.induct)
  case (3 c created nl)
  have "ln_self (add_listening c nl) = ln_self nl" "ln_fresh (add_listening c nl) = ln_fresh nl" "ln_nodes (add_listening c nl) = ln_nodes nl"
    "ln_requests (add_listening c nl) = ln_requests nl" "ln_connectionNodes (add_listening c nl) = (ln_connectionNodes nl)(c \<mapsto> ln_self nl)"
    "nd_id (node (add_listening c nl) a) = nd_id (node nl a)" "nd_state (node (add_listening c nl) a) = nd_state (node nl a)"
    "nd_outgoing (node (add_listening c nl) a) = nd_outgoing (node nl a)" for a
    by (simp_all add: add_listening_def add_multicast_def add_connection_def Let_def)
  then show ?case using 3 by (simp add: fun_upd_def) (metis option.inject)
qed auto

lemma listen_ok:
  assumes l: "listen (Some (pipe, other)) created (new_local identifier type ds conns st) = (True, nl)"
    and p: "pipe \<noteq> other" "Some other \<notin> set created"
  shows "nodes_ok nl" "ln_self nl = 0"
proof -
  let ?nl = "connectSelf pipe other (new_local identifier type ds conns st)"
  have f: "ln_self ?nl = 0" "ln_fresh ?nl = 1" "ln_nodes ?nl = [identifier \<mapsto> 0]" "ln_requests ?nl = Map.empty"
    "ln_connectionNodes ?nl = [pipe \<mapsto> 0]" "nd_id (node ?nl 0) = identifier" "nd_outgoing (node ?nl 0) = Some other"
    by (simp_all add: new_local_def node_def connectSelf_def add_connection_def upd_node_def Let_def)
  obtain good nl1 where la: "listen_all created ?nl = (good, nl1)" by (cases "listen_all created ?nl")
  have "nd_state (node (new_local identifier type ds conns st) (ln_self (new_local identifier type ds conns st))) = STATE_CLOSED"
    by (simp add: new_local_def node_def)
  then have r: "good" "nl = upd_node (ln_self nl1) (\<lambda>nd. nd\<lparr>nd_state := STATE_LISTENING\<rparr>) nl1"
    using l la by (simp_all add: listen_def split: if_splits)
  then have a: "listen_all created ?nl = (True, nl1)" using la by simp
  note g = listen_all_fields [OF a p(2), unfolded f]
  then have nl: "nl = upd_node 0 (\<lambda>nd. nd\<lparr>nd_state := STATE_LISTENING\<rparr>) nl1" using r(2) by simp
  have n: "ln_connectionNodes nl1 c = Some b \<Longrightarrow> b = 0" "ln_connectionNodes nl1 other = None" for c b
    using g p by (cases "b = 0"; auto split: if_splits)+
  show "ln_self nl = 0" using g by (simp add: nl)
  have h: "ln_self nl = 0" "ln_fresh nl = 1" "ln_nodes nl = [identifier \<mapsto> 0]" "ln_requests nl = Map.empty"
    "ln_connectionNodes nl = ln_connectionNodes nl1" "nd_id (node nl 0) = identifier" "nd_outgoing (node nl 0) = Some other"
    "nd_state (node nl 0) = STATE_LISTENING"
    using g f(6,7) by (simp_all add: nl)
  have "self_ok nl" using n(2) by (simp add: self_ok_def h isConnected_def)
  then show "nodes_ok nl"
  proof (rule nodes_okI)
    show "b < ln_fresh nl" if "ln_connectionNodes nl c = Some b" for c b using n(1) [of c b] that by (simp add: h)
  qed (simp_all add: h split: if_splits)
qed

lemma redispatch_fields [simp]:
  "ln_self (redispatchCommands cf nl) = ln_self nl" "ln_nodes (redispatchCommands cf nl) = ln_nodes nl"
  "ln_connectionNodes (redispatchCommands cf nl) = ln_connectionNodes nl" "ln_requests (redispatchCommands cf nl) = ln_requests nl"
  "ln_out (redispatchCommands cf nl) = ln_out nl" "ln_conns (redispatchCommands cf nl) = ln_conns nl"
  "ln_incoming (redispatchCommands cf nl) = ln_incoming nl" "ln_served (redispatchCommands cf nl) = ln_served nl"
  "node (redispatchCommands cf nl) = node nl" "ln_fresh (redispatchCommands cf nl) = ln_fresh nl"
  by (simp_all add: redispatchCommands_def split: prod.split)

definition remote :: "'o LocalNode \<Rightarrow> nat \<Rightarrow> bool" where
  "remote nl a = (a < ln_fresh nl \<and> a \<noteq> ln_self nl \<and> isConnected (node nl a))"


text \<open>A node that two others have connected to.\<close>

definition demo_node_config :: NodeConfig where
  "demo_node_config = \<lparr>nc_store = demo_config, nc_undefined = 0xFFFFFFFF, nc_idText = demo_idText, nc_idParse = demo_idParse,
     nc_generateID = (\<lambda>_. 0), nc_defaultPort = 4242, nc_timeout = Some 300000, nc_order = (\<lambda>m. sorted_list_of_set (dom m))\<rparr>"

definition demo_conns :: "nat \<Rightarrow> Connection" where
  "demo_conns = (\<lambda>_. \<lparr>cn_description = 0, cn_state = CONNECTION_CONNECTED\<rparr>)"

definition demo_local :: "u128 \<Rightarrow> unit LocalNode" where
  "demo_local identifier = snd (listen (Some (0, 1)) [] (new_local identifier 1 [] demo_conns demo_store))"

lemma carries_serialized: "text_of_ids (nc_idText cf) (nc_idParse cf) \<Longrightarrow> carries cf (serialize_node (nc_idText cf) identifier ds) identifier"
  by (auto simp: carries_def deserialize_node_def serialize_node_def text_of_ids_def plain_text_def split: prod.split)

lemma demo_carries: "carries demo_node_config (serialize_node demo_idText identifier ds) identifier"
  using carries_serialized [of demo_node_config] demo_ids by (simp add: demo_node_config_def)

lemma demo_listens: "listen (Some (0, 1)) [] (new_local identifier 1 [] demo_conns demo_store) = (True, demo_local identifier)"
  by (simp add: demo_local_def listen_def new_local_def node_def)

definition demo_greeting :: "u128 \<Rightarrow> NodePacket" where
  "demo_greeting identifier = NODE_CONNECT identifier 1 1 (serialize_node demo_idText identifier [])"

definition demo_joined :: "unit LocalNode" where
  "demo_joined = (let nl = the (receive_data demo_node_config 0 5 (demo_greeting 7) (demo_local 2))
     in the (receive_data demo_node_config 0 6 (demo_greeting 8) nl))"

lemma redispatch_empty [simp]: "redispatch cf [] st = ([], st)"
  by (subst redispatch.simps) simp

lemma demo_fields:
  "ln_nodes (demo_local i) = [i \<mapsto> 0]" "ln_connectionNodes (demo_local i) = [0 \<mapsto> 0]" "ln_pending (demo_local i) = []"
  "ln_fresh (demo_local i) = 1" "ln_self (demo_local i) = 0" "ln_conns (demo_local i) = demo_conns"
  by (simp_all add: demo_local_def listen_def new_local_def node_def connectSelf_def add_connection_def upd_node_def Let_def)

lemma demo_node:
  "node (demo_local i) 0 = \<lparr>nd_id = i, nd_type = 1, nd_state = STATE_LISTENING, nd_outgoing = Some 1, nd_outMulticast = None,
     nd_multicasts = [], nd_descriptions = [], nd_lastReceive = 0\<rparr>"
  by (simp add: demo_local_def listen_def new_local_def node_def connectSelf_def add_connection_def upd_node_def Let_def)

definition demo_first :: "unit LocalNode" where
  "demo_first = the (receive_data demo_node_config 0 5 (demo_greeting 7) (demo_local 2))"

lemma demo_joined_eq: "demo_joined = the (receive_data demo_node_config 0 6 (demo_greeting 8) demo_first)"
  by (simp add: demo_joined_def demo_first_def)

text \<open>A peer that connects.\<close>

lemma greeting_accepted:
  assumes "ln_connectionNodes nl c = None" "ln_nodes nl i = None" "nl1 = the (receive_data demo_node_config 0 c (demo_greeting i) nl)"
  shows "receive_data demo_node_config 0 c (demo_greeting i) nl = Some nl1" "ln_fresh nl1 = Suc (ln_fresh nl)" "ln_self nl1 = ln_self nl"
    "ln_nodes nl1 = (ln_nodes nl)(i \<mapsto> ln_fresh nl)" "ln_connectionNodes nl1 = (ln_connectionNodes nl)(c \<mapsto> ln_fresh nl)"
    "ln_conns nl1 = ln_conns nl" "ln_lastSendToken nl1 = ln_lastSendToken nl"
    "isConnected (node nl1 b) = (b = ln_fresh nl \<or> isConnected (node nl b))"
    "nd_outgoing (node nl1 b) = (if b = ln_fresh nl then Some c else nd_outgoing (node nl b))"
    "nd_id (node nl1 b) = (if b = ln_fresh nl then i else nd_id (node nl b))"
proof -
  let ?nl = "accept_node demo_node_config c (ln_fresh nl) 1 (serialize_node demo_idText i []) (snd (createNode demo_node_config 1 nl))"
  have h: "receive_data demo_node_config 0 c (demo_greeting i) nl = Some (redispatchCommands demo_node_config ?nl)"
    using assms(1,2) by (simp add: receive_data_def dispatchCommand_def demo_greeting_def cmdConnect_def createNode_def)
  then show "receive_data demo_node_config 0 c (demo_greeting i) nl = Some nl1" using assms(3) by simp
  have e: "nl1 = redispatchCommands demo_node_config ?nl" using h assms(3) by simp
  show "ln_fresh nl1 = Suc (ln_fresh nl)" "ln_self nl1 = ln_self nl" "ln_nodes nl1 = (ln_nodes nl)(i \<mapsto> ln_fresh nl)"
    "ln_connectionNodes nl1 = (ln_connectionNodes nl)(c \<mapsto> ln_fresh nl)" "ln_conns nl1 = ln_conns nl"
    "isConnected (node nl1 b) = (b = ln_fresh nl \<or> isConnected (node nl b))"
    "nd_outgoing (node nl1 b) = (if b = ln_fresh nl then Some c else nd_outgoing (node nl b))"
    "nd_id (node nl1 b) = (if b = ln_fresh nl then i else nd_id (node nl b))"
    unfolding e by (auto simp: accept_node_def add_node_def createNode_def conn_send_def Let_def deserialize_id [OF demo_carries] isConnected_def)
  show "ln_lastSendToken nl1 = ln_lastSendToken nl"
    unfolding e by (simp add: accept_node_def add_node_def createNode_def conn_send_def upd_node_def node_deserialize_def
        new_connection_descriptions_def redispatchCommands_def Let_def split: prod.split option.split)
qed

lemmas demo_first_fields = greeting_accepted [of "demo_local 2" 5 7 demo_first, OF _ _ demo_first_def, simplified demo_fields, simplified]
lemmas demo_joined_fields = greeting_accepted [of demo_first 6 8 demo_joined, OF _ _ demo_joined_eq, simplified demo_first_fields, simplified]


end
