(* ===== verification/Node_Waiting.thy ===== *)
theory Node_Waiting
  imports Node_Run
begin

text \<open>
  Commands that wait for an object, and the send token. The loop of \<open>redispatch\<close> starts again after each
  command it could deliver; a single pass over the commands has the same effect.
\<close>

section \<open>Waiting commands\<close>

definition deliverable :: "NodeConfig \<Rightarrow> 'o ObjectStore \<Rightarrow> PendingCommand \<Rightarrow> bool" where
  "deliverable cf st command =
     (case command of (identifier, inst, cmd) \<Rightarrow>
        case st_objects st identifier of
          None \<Rightarrow> inst = EQ_INSTANCE_NONE
        | Some objects \<Rightarrow> cf_instanceMax (nc_store cf) < inst \<or> find_instance inst objects st \<noteq> None)"

definition deliver :: "NodeConfig \<Rightarrow> PendingCommand \<Rightarrow> 'o ObjectStore \<Rightarrow> 'o ObjectStore" where
  "deliver cf command st = snd (dispatch_pending cf command st)"

lemma dispatch_deliverable: "fst (dispatch_pending cf command st) = deliverable cf st command"
  by (auto simp: dispatch_pending_def dispatchObjectCommand_def deliverable_def not_le split: option.splits prod.splits)

lemma dispatch_waits: "\<not> deliverable cf st command \<Longrightarrow> dispatch_pending cf command st = (False, st)"
  by (auto simp: dispatch_pending_def dispatchObjectCommand_def deliverable_def not_le split: option.splits prod.splits)

lemma dispatch_delivers: "deliverable cf st command \<Longrightarrow> dispatch_pending cf command st = (True, deliver cf command st)"
  by (simp add: deliver_def prod_eq_iff dispatch_deliverable)

lemma same_table_dispatch: "same_table st (snd (dispatchObjectCommand cf identifier inst cmd st))"
  by (auto simp: dispatchObjectCommand_def object_dispatch_def intro!: same_table_fold same_table_upd split: option.split)

lemma find_instance_same: "same_table st st1 \<Longrightarrow> find_instance inst objects st1 = find_instance inst objects st"
  by (simp add: find_instance_def same_table_def)

lemma deliverable_same: "same_table st st1 \<Longrightarrow> deliverable cf st1 command = deliverable cf st command"
  by (simp add: deliverable_def find_instance_same split: prod.split option.split) (simp add: same_table_def)

lemma deliverable_deliver [simp]: "deliverable cf (deliver cf command st) other = deliverable cf st other"
  by (rule deliverable_same) (simp add: deliver_def dispatch_pending_def same_table_dispatch split: prod.split)

lemma try_pending_eq:
  "try_pending cf commands st =
     (case dropWhile (\<lambda>c. \<not> deliverable cf st c) commands of
        [] \<Rightarrow> (False, commands, st)
      | c # rest \<Rightarrow> (True, takeWhile (\<lambda>c. \<not> deliverable cf st c) commands @ rest, deliver cf c st))"
proof (induction commands)
  case (Cons command commands)
  then show ?case
    by (cases "deliverable cf st command") (simp_all add: dispatch_waits dispatch_delivers del: dropWhile_eq_Nil_conv split: list.split)
qed simp

text \<open>
  C26. When objects have been attached, the node delivers exactly the waiting commands that can be delivered, each once
  and in the order of their arrival; the others keep waiting, in their order. This does not depend on the loop, which
  starts anew after each delivery.
\<close>

theorem redispatch_single_pass:
  "redispatch cf pending st =
     (filter (\<lambda>c. \<not> deliverable cf st c) pending, fold (deliver cf) (filter (deliverable cf st) pending) st)"
proof (induction cf pending st rule: redispatch.induct)
  case (1 cf pending st)
  let ?waits = "\<lambda>c. \<not> deliverable cf st c"
  show ?case
  proof (cases "dropWhile ?waits pending")
    case Nil
    then have "filter (deliverable cf st) pending = []" by (auto simp: filter_empty_conv dropWhile_eq_Nil_conv)
    moreover have "filter ?waits pending = pending" using Nil by (auto simp: filter_id_conv dropWhile_eq_Nil_conv)
    moreover have "try_pending cf pending st = (False, pending, st)" by (simp only: try_pending_eq Nil list.case)
    ultimately show ?thesis by (subst redispatch.simps) simp
  next
    case (Cons c rest)
    then have p: "pending = takeWhile ?waits pending @ c # rest" by (metis takeWhile_dropWhile_id)
    have c: "deliverable cf st c" using Cons by (metis dropWhile_eq_Cons_conv)
    have t: "try_pending cf pending st = (True, takeWhile ?waits pending @ rest, deliver cf c st)"
      by (simp only: try_pending_eq Cons list.case)
    have "filter (deliverable cf st) (takeWhile ?waits pending) = []"
      by (auto simp: filter_empty_conv dest: set_takeWhileD)
    then have "filter (deliverable cf st) pending = c # filter (deliverable cf st) rest"
      using c by (subst p) simp
    moreover have "filter ?waits pending = filter ?waits (takeWhile ?waits pending @ rest)"
      using c by (subst p) simp
    moreover have "filter (deliverable cf st) (takeWhile ?waits pending @ rest) = filter (deliverable cf st) rest"
      by (simp add: \<open>filter (deliverable cf st) (takeWhile ?waits pending) = []\<close>)
    ultimately show ?thesis using 1 t by (subst redispatch.simps) simp
  qed
qed

section \<open>The send token\<close>

fun acquire_all :: "NodeConfig \<Rightarrow> (int \<times> nat \<times> u32) list \<Rightarrow> 'o LocalNode \<Rightarrow> 'o LocalNode option" where
  "acquire_all cf [] nl = Some nl"
| "acquire_all cf ((now, a, request) # rs) nl =
     Option.bind (cmdAcquireSendToken cf now (Some a) request nl) (acquire_all cf rs)"

definition can_send :: "'o LocalNode \<Rightarrow> nat \<Rightarrow> nat \<Rightarrow> bool" where
  "can_send nl a c = (isConnected (node nl a) \<and> nd_outgoing (node nl a) = Some c \<and> cn_state (ln_conns nl c) \<noteq> CONNECTION_CLOSED)"

lemma node_send_open: "can_send nl a c \<Longrightarrow> node_send a p nl = nl\<lparr>ln_out := ln_out nl @ [(c, p)]\<rparr>"
  by (simp add: can_send_def node_send_def conn_send_def)

lemma token_unchanged: "\<not> ln_sendToken nl \<Longrightarrow> nl\<lparr>ln_sendToken := False\<rparr> = nl"
  by (cases nl) simp

lemma free_token_queued:
  "ln_sendToken nl \<Longrightarrow> (\<forall>(now, a, request) \<in> set rs. \<forall>timeout. nc_timeout cf = Some timeout \<longrightarrow> now - ln_lastSendToken nl \<le> timeout) \<Longrightarrow>
   acquire_all cf rs nl = Some (nl\<lparr>ln_sendTokenQueue := ln_sendTokenQueue nl @ map (\<lambda>(now, a, request). (Some a, request)) rs\<rparr>)"
proof (induction rs arbitrary: nl)
  case (Cons r rs)
  obtain now a request where r: "r = (now, a, request)" by (cases r)
  let ?nl = "nl\<lparr>ln_sendTokenQueue := ln_sendTokenQueue nl @ [(Some a, request)]\<rparr>"
  have "cmdAcquireSendToken cf now (Some a) request nl = Some ?nl"
    using Cons.prems by (auto simp: cmdAcquireSendToken_def r split: option.split)
  moreover have "acquire_all cf rs ?nl =
      Some (?nl\<lparr>ln_sendTokenQueue := ln_sendTokenQueue ?nl @ map (\<lambda>(now, a, request). (Some a, request)) rs\<rparr>)"
    by (rule Cons.IH) (use Cons.prems in auto)
  ultimately show ?case by (simp add: r)
qed simp

lemma taken_token_granted:
  "\<not> ln_sendToken nl \<Longrightarrow> (\<forall>(now, a, request) \<in> set rs. can_send nl a (conn a)) \<Longrightarrow>
   acquire_all cf rs nl = Some (nl\<lparr>ln_out := ln_out nl @ map (\<lambda>(now, a, request). (conn a, NODE_ACQUIRE_SEND_TOKEN_REPLY request)) rs\<rparr>)"
proof (induction rs arbitrary: nl)
  case (Cons r rs)
  obtain now a request where r: "r = (now, a, request)" by (cases r)
  let ?nl = "nl\<lparr>ln_out := ln_out nl @ [(conn a, NODE_ACQUIRE_SEND_TOKEN_REPLY request)]\<rparr>"
  have "can_send nl a (conn a)" using Cons.prems by (auto simp: r)
  then have "cmdAcquireSendToken cf now (Some a) request nl = Some ?nl"
    using Cons.prems(1) by (simp add: cmdAcquireSendToken_def grant_token_def token_unchanged node_send_open)
  moreover have "acquire_all cf rs ?nl =
      Some (?nl\<lparr>ln_out := ln_out ?nl @ map (\<lambda>(now, a, request). (conn a, NODE_ACQUIRE_SEND_TOKEN_REPLY request)) rs\<rparr>)"
    by (rule Cons.IH) (use Cons.prems in \<open>auto simp: can_send_def node_def\<close>)
  ultimately show ?case by (simp add: r)
qed simp

text \<open>
  C37. The send token works the wrong way round: while it is available no request is answered before the timeout, and
  while somebody holds it every request is granted at once, so that any number of nodes hold it together.
\<close>

theorem send_token_inverted:
  assumes "\<forall>(now, a, request) \<in> set rs. can_send nl a (conn a)"
    and "\<forall>(now, a, request) \<in> set rs. \<forall>timeout. nc_timeout cf = Some timeout \<longrightarrow> now - ln_lastSendToken nl \<le> timeout"
  shows "map_option ln_out (acquire_all cf rs nl) = Some (ln_out nl @
     (if ln_sendToken nl then [] else map (\<lambda>(now, a, request). (conn a, NODE_ACQUIRE_SEND_TOKEN_REPLY request)) rs))"
  using free_token_queued [of nl rs cf] taken_token_granted [of nl rs conn cf] assms by (cases "ln_sendToken nl") auto

text \<open>Two peers ask for the token that a third one holds.\<close>

definition demo_taken :: "unit LocalNode" where
  "demo_taken = demo_joined\<lparr>ln_sendToken := False, ln_out := []\<rparr>"

theorem send_token_inverted_witness:
  "map_option ln_out (acquire_all demo_node_config [(0, 1, 21), (0, 2, 22)] demo_taken) =
     Some [(5, NODE_ACQUIRE_SEND_TOKEN_REPLY 21), (6, NODE_ACQUIRE_SEND_TOKEN_REPLY 22)]"
proof -
  let ?conn = "\<lambda>a :: nat. if a = 1 then 5 else (6 :: nat)" and ?rs = "[(0, 1, 21), (0, 2, 22)] :: (int \<times> nat \<times> u32) list"
  have "ln_lastSendToken demo_taken = 0"
    by (simp add: demo_taken_def demo_joined_fields(7) demo_first_fields(7)) (simp add: demo_local_def listen_def new_local_def node_def
        connectSelf_def add_connection_def upd_node_def Let_def)
  moreover have "can_send demo_taken 1 5" "can_send demo_taken 2 6"
    by (simp_all add: can_send_def demo_taken_def demo_joined_fields demo_first_fields demo_conns_def)
  ultimately show ?thesis
    using send_token_inverted [of ?rs demo_taken ?conn demo_node_config] by (simp add: demo_node_config_def demo_taken_def)
qed

end
