(* ===== verification/Node_View.thy ===== *)
theory Node_View
  imports Node_Run
begin

text \<open>
  What a local node knows about one other node, and how the packets of a handshake change it. The
  connections in \<open>own\<close> are the listeners and the pipe to itself.
\<close>

definition table_is :: "'o LocalNode \<Rightarrow> u128 \<Rightarrow> u128 \<Rightarrow> nat set \<Rightarrow> nat option \<Rightarrow> bool" where
  "table_is nl me p own v = (nodes_ok nl \<and> nd_id (node nl (ln_self nl)) = me \<and> nd_state (node nl (ln_self nl)) = STATE_LISTENING \<and> p \<noteq> me \<and>
     (case v of
        None \<Rightarrow> ln_nodes nl p = None
      | Some c \<Rightarrow> c \<notin> own \<and> (\<exists>a. ln_nodes nl p = Some a \<and> isConnected (node nl a) \<and> nd_outgoing (node nl a) = Some c)) \<and>
     (\<forall>c. ln_connectionNodes nl c = (if c \<in> own then Some (ln_self nl) else if v = Some c then ln_nodes nl p else None)))"

text \<open>What is sent, and the connection that is closed, if any.\<close>

definition effect :: "'o LocalNode \<Rightarrow> 'o LocalNode \<Rightarrow> (nat \<times> NodePacket) list \<Rightarrow> nat option \<Rightarrow> bool" where
  "effect nl nl1 out gone = (ln_out nl1 = ln_out nl @ out \<and>
     (case gone of
        None \<Rightarrow> ln_conns nl1 = ln_conns nl \<and> ln_incoming nl1 = ln_incoming nl
      | Some c \<Rightarrow> ln_conns nl1 = (ln_conns nl)(c := (ln_conns nl c)\<lparr>cn_state := CONNECTION_CLOSED\<rparr>) \<and>
          ln_incoming nl1 = remove1 c (ln_incoming nl)))"

definition is_open :: "'o LocalNode \<Rightarrow> nat \<Rightarrow> bool" where
  "is_open nl c = (cn_state (ln_conns nl c) \<noteq> CONNECTION_CLOSED)"

lemma known_ok: "table_is nl me p own v \<Longrightarrow> nodes_ok nl"
  by (simp add: table_is_def)

lemma same_nodes_table: "same_nodes nl nl1 \<Longrightarrow> table_is nl me p own v \<Longrightarrow> table_is nl1 me p own v"
  using same_nodes_ok [of nl nl1] by (simp add: table_is_def same_nodes_def isConnected_def split: option.splits)

lemma remove_fields [simp]:
  "ln_self (remove_connection c nl) = ln_self nl" "ln_nodes (remove_connection c nl) = ln_nodes nl"
  "ln_connectionNodes (remove_connection c nl) = ln_connectionNodes nl" "ln_requests (remove_connection c nl) = ln_requests nl"
  "ln_out (remove_connection c nl) = ln_out nl" "ln_conns (remove_connection c nl) = (ln_conns nl)(c := (ln_conns nl c)\<lparr>cn_state := CONNECTION_CLOSED\<rparr>)"
  "ln_incoming (remove_connection c nl) = remove1 c (ln_incoming nl)" "ln_served (remove_connection c nl) = ln_served nl"
  "node (remove_connection c nl) = node nl" "ln_fresh (remove_connection c nl) = ln_fresh nl"
  by (simp_all add: remove_connection_def close_connection_def)

lemma conn_send_fields [simp]:
  "ln_self (conn_send c p nl) = ln_self nl" "ln_nodes (conn_send c p nl) = ln_nodes nl"
  "ln_connectionNodes (conn_send c p nl) = ln_connectionNodes nl" "ln_requests (conn_send c p nl) = ln_requests nl"
  "ln_out (conn_send c p nl) = ln_out nl @ (if is_open nl c then [(c, p)] else [])" "ln_conns (conn_send c p nl) = ln_conns nl"
  "ln_incoming (conn_send c p nl) = ln_incoming nl" "ln_served (conn_send c p nl) = ln_served nl"
  "node (conn_send c p nl) = node nl" "ln_fresh (conn_send c p nl) = ln_fresh nl"
  by (simp_all add: conn_send_def is_open_def)

lemma serve_fields [simp]:
  "ln_self (ln_serve r v nl) = ln_self nl" "ln_nodes (ln_serve r v nl) = ln_nodes nl"
  "ln_connectionNodes (ln_serve r v nl) = ln_connectionNodes nl" "ln_requests (ln_serve r v nl) = (ln_requests nl)(r := None)"
  "ln_out (ln_serve r v nl) = ln_out nl" "ln_conns (ln_serve r v nl) = ln_conns nl"
  "ln_incoming (ln_serve r v nl) = ln_incoming nl" "ln_served (ln_serve r v nl) = ln_served nl @ [(r, v)]"
  "node (ln_serve r v nl) = node nl" "ln_fresh (ln_serve r v nl) = ln_fresh nl"
  by (simp_all add: ln_serve_def)

lemma connect_group_fields:
  "ln_nodes (connect_group d a nl) = ln_nodes nl" "ln_requests (connect_group d a nl) = ln_requests nl"
  "ln_out (connect_group d a nl) = ln_out nl" "ln_conns (connect_group d a nl) = ln_conns nl"
  "ln_incoming (connect_group d a nl) = ln_incoming nl" "ln_served (connect_group d a nl) = ln_served nl"
  by (simp_all add: connect_group_def Let_def split: option.split)

lemma fold_keeps: "(\<And>x nl. g (f x nl) = g nl) \<Longrightarrow> g (fold f xs nl) = g nl"
  by (induction xs arbitrary: nl) auto

lemma multicast_fields [simp]:
  "ln_nodes (connectMulticast a nl) = ln_nodes nl" "ln_requests (connectMulticast a nl) = ln_requests nl"
  "ln_out (connectMulticast a nl) = ln_out nl" "ln_conns (connectMulticast a nl) = ln_conns nl"
  "ln_incoming (connectMulticast a nl) = ln_incoming nl" "ln_served (connectMulticast a nl) = ln_served nl"
  unfolding connectMulticast_def by (auto intro!: fold_keeps simp: connect_group_fields)

lemma add_node_fields [simp]:
  "ln_self (add_node c a nl) = ln_self nl" "ln_nodes (add_node c a nl) = (ln_nodes nl)(nd_id (node nl a) \<mapsto> a)"
  "ln_connectionNodes (add_node c a nl) = (ln_connectionNodes nl)(c \<mapsto> a)" "ln_requests (add_node c a nl) = ln_requests nl"
  "ln_out (add_node c a nl) = ln_out nl" "ln_conns (add_node c a nl) = ln_conns nl" "ln_incoming (add_node c a nl) = ln_incoming nl"
  "ln_served (add_node c a nl) = ln_served nl" "ln_fresh (add_node c a nl) = ln_fresh nl"
  "node (add_node c a nl) b = (if b = a then (node nl a)\<lparr>nd_outgoing := Some c, nd_state := STATE_CONNECTED\<rparr> else node nl b)"
  by (simp_all add: add_node_def Let_def)

text \<open>A node joins, a node is dropped.\<close>

lemma joined_table:
  assumes t: "table_is nl me p own None" and j: "joins nl c a p" and d: "carries cf data p" and c: "c \<notin> own"
  shows "table_is (add_node c a (node_deserialize cf a data nl)) me p own (Some c)"
proof -
  have "nodes_ok (add_node c a (node_deserialize cf a data nl))" by (rule add_node_ok [OF known_ok [OF t] j d])
  then show ?thesis using t j c by (auto simp: table_is_def deserialize_id [OF d] joins_def isConnected_def)
qed

lemma dropped_table:
  assumes t: "table_is nl me p own (Some d)" and a: "ln_nodes nl p = Some a"
  shows "table_is (drop_peer p a nl) me p own None"
proof -
  have n: "isConnected (node nl a)" "nd_outgoing (node nl a) = Some d" "d \<notin> own" using t a by (auto simp: table_is_def)
  have s: "a \<noteq> ln_self nl" using t nodes_ok_table [OF known_ok [OF t] a] by (auto simp: table_is_def)
  have "nodes_ok (drop_peer p a nl)" by (rule drop_peer_ok [OF known_ok [OF t] a n(1) s])
  moreover have "ln_connectionNodes (drop_peer p a nl) = (ln_connectionNodes nl)(d := None)" "ln_nodes (drop_peer p a nl) = (ln_nodes nl)(p := None)"
    "ln_self (drop_peer p a nl) = ln_self nl" "node (drop_peer p a nl) (ln_self nl) = node nl (ln_self nl)"
    using n s by (auto simp: drop_peer_def Let_def)
  ultimately show ?thesis using t n by (auto simp: table_is_def)
qed

section \<open>Packets\<close>

definition told_id :: "NodeConfig \<Rightarrow> bool" where
  "told_id cf = text_of_ids (nc_idText cf) (nc_idParse cf)"

lemma unmapped: "table_is nl me p own v \<Longrightarrow> c \<notin> own \<Longrightarrow> v \<noteq> Some c \<Longrightarrow> ln_connectionNodes nl c = None"
  by (simp add: table_is_def)

lemma node_text_carries: "told_id cf \<Longrightarrow> carries cf (node_serialize cf a nl) (nd_id (node nl a))"
  unfolding told_id_def node_serialize_def by (rule carries_serialized)

lemma connect_accepted:
  assumes t: "table_is nl me p own None" and c: "c \<notin> own" "is_open nl c" and d: "carries cf data p" and i: "told_id cf"
  shows "\<exists>nl1 t2 data2. receive_data cf now c (NODE_CONNECT p r t1 data) nl = Some nl1 \<and> table_is nl1 me p own (Some c) \<and>
     effect nl nl1 [(c, NODE_CONNECT_REPLY me r t2 data2)] None \<and> carries cf data2 me \<and> ln_requests nl1 = ln_requests nl \<and>
     ln_served nl1 = ln_served nl \<and> (\<forall>q. unlisted nl q \<longrightarrow> unlisted nl1 q)"
proof -
  obtain a nl2 where n: "createNode cf t1 nl = (a, nl2)" by (cases "createNode cf t1 nl")
  note f = create_node [OF n]
  have nl: "nodes_ok nl" by (rule known_ok [OF t])
  have m: "ln_connectionNodes nl c = None" "ln_nodes nl p = None" using unmapped [OF t c(1)] t by (simp_all add: table_is_def)
  have s: "ln_self nl \<noteq> a" using nodes_ok_self [OF nl] f(1) by (auto simp: self_ok_def)
  let ?nl = "add_node c a (node_deserialize cf a data nl2)"
  have t2: "table_is nl2 me p own None"
    using t create_node_ok(1) [OF nl n] f(12) [OF s] by (simp add: table_is_def f)
  have j: "table_is ?nl me p own (Some c)" by (rule joined_table [OF t2 joins_created [OF nl n m] d c(1)])
  have "receive_data cf now c (NODE_CONNECT p r t1 data) nl = Some (redispatchCommands cf (accept_node cf c a r data nl2))"
    using m by (simp add: receive_data_def dispatchCommand_def cmdConnect_def n)
  moreover have "table_is (redispatchCommands cf (accept_node cf c a r data nl2)) me p own (Some c)"
    unfolding accept_node_def Let_def
    by (rule same_nodes_table [OF same_nodes_ops(8)], rule same_nodes_table [OF same_nodes_ops(2)]) (rule j)
  moreover have "ln_out (accept_node cf c a r data nl2) = ln_out nl @ [(c, NODE_CONNECT_REPLY me r (nd_type (node ?nl (ln_self ?nl)))
      (node_serialize cf (ln_self ?nl) ?nl))]"
    using j c(2) by (simp add: accept_node_def Let_def f is_open_def table_is_def)
  moreover have "carries cf (node_serialize cf (ln_self ?nl) ?nl) me"
    using node_text_carries [OF i, of "ln_self ?nl" ?nl] j by (simp add: table_is_def)
  moreover have "unlisted (accept_node cf c a r data nl2) q" if "unlisted nl q" for q
    using that nodes_ok_request [OF nl, of q] f(1) by (auto simp: unlisted_def accept_node_def Let_def f deserialize_id [OF d])
  ultimately show ?thesis by (auto simp: effect_def accept_node_def Let_def f unlisted_def)
qed

lemma connect_refused:
  assumes t: "table_is nl me p own (Some v)" and c: "c \<notin> own" "c \<noteq> v" "is_open nl c"
  shows "\<exists>nl1. receive_data cf now c (NODE_CONNECT p r t1 data) nl = Some nl1 \<and> table_is nl1 me p own (Some v) \<and>
     effect nl nl1 [(c, NODE_CONNECT_REPLY 0 r 0 [])] (Some c) \<and> ln_requests nl1 = ln_requests nl \<and> ln_served nl1 = ln_served nl \<and>
     (\<forall>q. unlisted nl q \<longrightarrow> unlisted nl1 q)"
proof -
  let ?nl = "remove_connection c (conn_send c (NODE_CONNECT_REPLY 0 r 0 []) nl)"
  obtain a where a: "ln_nodes nl p = Some a" "isConnected (node nl a)" using t by (auto simp: table_is_def)
  have "receive_data cf now c (NODE_CONNECT p r t1 data) nl = Some (redispatchCommands cf ?nl)"
    using unmapped [OF t c(1)] c(2) a by (simp add: receive_data_def dispatchCommand_def cmdConnect_def)
  moreover have "table_is (redispatchCommands cf ?nl) me p own (Some v)"
    by (rule same_nodes_table [OF same_nodes_ops(8)], rule same_nodes_table [OF same_nodes_ops(6)],
        rule same_nodes_table [OF same_nodes_ops(2) t])
  ultimately show ?thesis using c(3) by (auto simp: effect_def unlisted_def)
qed

lemma reply_connects:
  assumes t: "table_is nl me p own None" and c: "c \<notin> own" "is_open nl c" and d: "carries cf data p" and p: "p \<noteq> 0"
    and r: "ln_requests nl r = Some (Some a)" "r \<noteq> nc_undefined cf" "unlisted nl r"
  shows "\<exists>nl1. receive_data cf now c (NODE_CONNECT_REPLY p r t1 data) nl = Some nl1 \<and> table_is nl1 me p own (Some c) \<and>
     effect nl nl1 [(c, NODE_CONNECT_ACK)] None \<and> ln_requests nl1 = (ln_requests nl)(r := None) \<and>
     ln_served nl1 = ln_served nl @ [(r, SERVED_BOOL True)]"
proof -
  have nl: "nodes_ok nl" by (rule known_ok [OF t])
  have m: "ln_connectionNodes nl c = None" "ln_nodes nl p = None" using unmapped [OF t c(1)] t by (simp_all add: table_is_def)
  let ?nl = "add_node c a (node_deserialize cf a data nl)"
  let ?nl1 = "ln_serve r (SERVED_BOOL True) ?nl"
  have j: "table_is ?nl me p own (Some c)" by (rule joined_table [OF t joins_requested [OF nl r(1,3) m] d c(1)])
  have "receive_data cf now c (NODE_CONNECT_REPLY p r t1 data) nl = Some (redispatchCommands cf (finish_connect cf c a r data nl))"
    using m p r by (simp add: receive_data_def dispatchCommand_def cmdConnectReply_def)
  moreover have "table_is (redispatchCommands cf (finish_connect cf c a r data nl)) me p own (Some c)"
    unfolding finish_connect_def
    by (rule same_nodes_table [OF same_nodes_ops(8)], rule same_nodes_table [OF same_nodes_multicast], rule same_nodes_table [OF same_nodes_ops(3)],
        rule same_nodes_table [OF same_nodes_ops(1)]) (rule j)
  moreover have "node_send a NODE_CONNECT_ACK ?nl1 = conn_send c NODE_CONNECT_ACK ?nl1"
    by (simp add: node_send_def isConnected_def)
  ultimately show ?thesis using c(2) by (simp add: effect_def finish_connect_def is_open_def)
qed

lemma reply_drops:
  assumes t: "table_is nl me p own (Some v)" and c: "c \<notin> own" "c \<noteq> v" and p: "p \<noteq> 0"
  shows "\<exists>nl1. receive_data cf now c (NODE_CONNECT_REPLY p r t1 data) nl = Some nl1 \<and> table_is nl1 me p own None \<and>
     effect nl nl1 [] (Some c) \<and> ln_requests nl1 = (ln_requests nl)(r := None) \<and> ln_served nl1 = ln_served nl @ [(r, SERVED_BOOL False)]"
proof -
  obtain a where a: "ln_nodes nl p = Some a" "isConnected (node nl a)" using t by (auto simp: table_is_def)
  let ?nl = "drop_peer p a (remove_connection c nl)"
  have "table_is (remove_connection c nl) me p own (Some v)" by (rule same_nodes_table [OF same_nodes_ops(6) t])
  then have d: "table_is ?nl me p own None" by (rule dropped_table) (simp add: a)
  have "receive_data cf now c (NODE_CONNECT_REPLY p r t1 data) nl = Some (redispatchCommands cf (ln_serve r (SERVED_BOOL False) ?nl))"
    using unmapped [OF t c(1)] c(2) a p by (simp add: receive_data_def dispatchCommand_def cmdConnectReply_def)
  moreover have "table_is (redispatchCommands cf (ln_serve r (SERVED_BOOL False) ?nl)) me p own None"
    by (rule same_nodes_table [OF same_nodes_ops(8)], rule same_nodes_table [OF same_nodes_ops(1) d])
  ultimately show ?thesis by (auto simp: effect_def drop_peer_def Let_def)
qed

lemma reply_refuses:
  assumes t: "table_is nl me p own v" and c: "c \<notin> own" "v \<noteq> Some c"
  shows "\<exists>nl1. receive_data cf now c (NODE_CONNECT_REPLY 0 r t1 data) nl = Some nl1 \<and> table_is nl1 me p own v \<and>
     effect nl nl1 [] (Some c) \<and> ln_requests nl1 = (ln_requests nl)(r := None) \<and> ln_served nl1 = ln_served nl @ [(r, SERVED_BOOL False)]"
proof -
  let ?nl = "ln_serve r (SERVED_BOOL False) (remove_connection c nl)"
  have "receive_data cf now c (NODE_CONNECT_REPLY 0 r t1 data) nl = Some (redispatchCommands cf ?nl)"
    using unmapped [OF t c] by (simp add: receive_data_def dispatchCommand_def cmdConnectReply_def)
  moreover have "table_is (redispatchCommands cf ?nl) me p own v"
    by (rule same_nodes_table [OF same_nodes_ops(8)], rule same_nodes_table [OF same_nodes_ops(1)], rule same_nodes_table [OF same_nodes_ops(6) t])
  ultimately show ?thesis by (auto simp: effect_def)
qed

lemma ack_handled:
  assumes t: "table_is nl me p own (Some c)"
  shows "\<exists>nl1. receive_data cf now c NODE_CONNECT_ACK nl = Some nl1 \<and> table_is nl1 me p own (Some c) \<and>
     effect nl nl1 [] None \<and> ln_requests nl1 = ln_requests nl \<and> ln_served nl1 = ln_served nl \<and> (\<forall>q. unlisted nl q \<longrightarrow> unlisted nl1 q)"
proof -
  obtain a where a: "ln_nodes nl p = Some a" using t by (auto simp: table_is_def)
  then have m: "ln_connectionNodes nl c = Some a" using t by (auto simp: table_is_def)
  let ?nl = "upd_node a (\<lambda>nd. nd\<lparr>nd_lastReceive := now\<rparr>) nl"
  have "receive_data cf now c NODE_CONNECT_ACK nl = Some (redispatchCommands cf (connectMulticast a ?nl))"
    using m by (simp add: receive_data_def dispatchCommand_def cmdConnectAck_def)
  moreover have "table_is (redispatchCommands cf (connectMulticast a ?nl)) me p own (Some c)"
    by (rule same_nodes_table [OF same_nodes_ops(8)], rule same_nodes_table [OF same_nodes_multicast], rule same_nodes_table [OF same_nodes_upd t])
      simp
  ultimately show ?thesis by (auto simp: effect_def unlisted_def)
qed

text \<open>An acknowledgement that the receiver cannot attribute to a node.\<close>

lemma acknowledged_unknown: "ln_connectionNodes nl c = None \<Longrightarrow> receive_data cf now c NODE_CONNECT_ACK nl = None"
  by (simp add: receive_data_def dispatchCommand_def cmdConnectAck_def)

section \<open>Connections\<close>

lemma lost_unknown:
  assumes t: "table_is nl me p own v" and c: "c \<notin> own" "v \<noteq> Some c"
  shows "table_is (handleDisconnect cf c nl) me p own v \<and> effect nl (handleDisconnect cf c nl) [] (Some c) \<and>
     ln_requests (handleDisconnect cf c nl) = ln_requests nl \<and> ln_served (handleDisconnect cf c nl) = ln_served nl \<and>
     (\<forall>q. unlisted nl q \<longrightarrow> unlisted (handleDisconnect cf c nl) q)"
proof -
  have "handleDisconnect cf c nl = remove_connection c nl" using unmapped [OF t c] by (simp add: handleDisconnect_def)
  then show ?thesis using same_nodes_table [OF same_nodes_ops(6) t] by (simp add: effect_def unlisted_def)
qed

lemma lost_known:
  assumes t: "table_is nl me p own (Some c)" and m: "\<And>a. ln_nodes nl p = Some a \<Longrightarrow> nd_outMulticast (node nl a) = None"
  shows "table_is (handleDisconnect cf c nl) me p own None \<and> effect nl (handleDisconnect cf c nl) [] (Some c) \<and>
     ln_requests (handleDisconnect cf c nl) = ln_requests nl \<and> ln_served (handleDisconnect cf c nl) = ln_served nl \<and>
     (\<forall>q. unlisted nl q \<longrightarrow> unlisted (handleDisconnect cf c nl) q)"
proof -
  obtain a where a: "ln_nodes nl p = Some a" "nd_outgoing (node nl a) = Some c" "c \<notin> own" using t by (auto simp: table_is_def)
  have n: "ln_connectionNodes nl c = Some a" "nd_id (node nl a) = p" "a \<noteq> ln_self nl"
    using t a nodes_ok_table [OF known_ok [OF t] a(1)] by (auto simp: table_is_def)
  let ?nl = "redispatchCommands cf (push_command (Some a) (NODE_REMOVE_NODE a) nl)"
  have e: "handleDisconnect cf c nl = remove_connection c (lose_node cf c a ?nl)"
    using n a by (simp add: handleDisconnect_def Let_def push_command_def)
  have "nodes_ok (handleDisconnect cf c nl)" by (rule handleDisconnect_ok [OF known_ok [OF t]])
  then show ?thesis
    using t a n m [OF a(1)] unfolding e
    by (auto simp: table_is_def effect_def lose_node_def forget_instances_def push_command_def Let_def unlisted_def)
qed

lemma new_connection:
  assumes "table_is nl me p own v"
  shows "table_is (add_connection c (nl\<lparr>ln_conns := cs\<rparr>)) me p own v"
  by (rule same_nodes_table [OF same_nodes_ops(4)], rule same_nodes_table [OF same_nodes_simple(3) assms])

lemma request_sent:
  assumes t: "table_is nl me p own v" and n: "createNode cf type nl = (a, nl1)" and i: "told_id cf"
    and h: "connect_request cf request a c (nl1\<lparr>ln_conns := cs\<rparr>) = (None, nl2)" and o: "cn_state (cs c) = CONNECTION_CONNECTED"
  shows "table_is nl2 me p own v \<and> ln_conns nl2 = cs \<and> ln_incoming nl2 = ln_incoming nl @ [c] \<and>
     (\<exists>t data. ln_out nl2 = ln_out nl @ [(c, NODE_CONNECT me request t data)] \<and> carries cf data me) \<and>
     ln_requests nl2 = (ln_requests nl)(request \<mapsto> Some a) \<and> unlisted nl2 request \<and> ln_served nl2 = ln_served nl"
proof -
  have nl: "nodes_ok nl" by (rule known_ok [OF t])
  note f = create_node [OF n] create_node_ok [OF nl n]
  have s: "ln_self nl \<noteq> a" using f by auto
  let ?nl = "nl1\<lparr>ln_conns := cs\<rparr>"
  let ?nl1 = "(add_connection c ?nl)\<lparr>ln_requests := (ln_requests (add_connection c ?nl))(request \<mapsto> Some a)\<rparr>"
  have e: "nl2 = conn_send c (NODE_CONNECT (nd_id (node ?nl1 (ln_self ?nl1))) request (nd_type (node ?nl1 (ln_self ?nl1)))
      (node_serialize cf (ln_self ?nl1) ?nl1)) ?nl1"
    using h by (simp add: connect_request_def Let_def split: if_splits)
  have ex: "ln_nodes nl1 p = Some b \<Longrightarrow> b \<noteq> a" for b using f(19) by auto
  have "table_is nl1 me p own v"
    using t f(12) [OF s] f(12) ex by (auto simp: table_is_def f(1-11,15) f(16-19) split: option.splits)
  then have k: "table_is (add_connection c ?nl) me p own v" by (rule new_connection)
  have "nodes_ok ?nl1"
    by (rule request_ok [OF known_ok [OF k]]) (use f in \<open>auto simp: add_connection_def\<close>)
  then have k1: "table_is ?nl1 me p own v" using k by (simp add: table_is_def split: option.splits)
  then have t2: "table_is nl2 me p own v" unfolding e by (rule same_nodes_table [OF same_nodes_ops(2)])
  have "carries cf (node_serialize cf (ln_self ?nl1) ?nl1) me"
    using node_text_carries [OF i, of "ln_self ?nl1" ?nl1] k1 by (simp add: table_is_def)
  moreover have "nd_id (node ?nl1 (ln_self ?nl1)) = me" using k1 by (simp add: table_is_def)
  moreover have "is_open ?nl1 c" using o by (simp add: is_open_def add_connection_def)
  ultimately show ?thesis using t2 f by (simp add: e add_connection_def unlisted_def)
qed

end
