(* ===== verification/Handshake_Spec.thy ===== *)
theory Handshake_Spec
  imports Prelude
begin

text \<open>
  What the handshake of two nodes promises, without packets and tables: each of the sides \<open>True\<close> and \<open>False\<close>
  knows the connection by which it is connected to the other, if any, and tries to connect again and again, with one
  attempt at a time. If both are trying, both attempts are given up.
\<close>

datatype phase = Asking | Granted | Refused

record handshake =
  hs_view :: "bool \<Rightarrow> nat option"
  hs_try :: "bool \<Rightarrow> (nat \<times> phase) option"
  hs_open :: "bool \<Rightarrow> nat set"
  hs_acks :: "bool \<Rightarrow> nat set"
  hs_told :: "bool \<Rightarrow> bool"
  hs_next :: nat

definition hs_start :: "nat \<Rightarrow> handshake" where
  "hs_start first = \<lparr>hs_view = (\<lambda>_. None), hs_try = (\<lambda>_. None), hs_open = (\<lambda>_. {}), hs_acks = (\<lambda>_. {}),
     hs_told = (\<lambda>_. False), hs_next = first\<rparr>"

definition hs_ask :: "bool \<Rightarrow> handshake \<Rightarrow> handshake" where
  "hs_ask s hs = hs\<lparr>hs_try := (hs_try hs)(s := Some (hs_next hs, Asking)), hs_open := (\<lambda>x. insert (hs_next hs) (hs_open hs x)),
     hs_next := Suc (hs_next hs)\<rparr>"

text \<open>The other side answers the attempt of \<open>s\<close>, then \<open>s\<close> receives the answer.\<close>

definition hs_answer :: "bool \<Rightarrow> nat \<Rightarrow> handshake \<Rightarrow> handshake" where
  "hs_answer s c hs =
     (if hs_view hs (\<not> s) = None
      then hs\<lparr>hs_view := (hs_view hs)((\<not> s) := Some c), hs_try := (hs_try hs)(s := Some (c, Granted))\<rparr>
      else hs\<lparr>hs_try := (hs_try hs)(s := Some (c, Refused)), hs_open := (hs_open hs)((\<not> s) := hs_open hs (\<not> s) - {c})\<rparr>)"

definition hs_granted :: "bool \<Rightarrow> nat \<Rightarrow> handshake \<Rightarrow> handshake" where
  "hs_granted s c hs =
     (if hs_view hs s = None
      then hs\<lparr>hs_view := (hs_view hs)(s := Some c), hs_try := (hs_try hs)(s := None),
             hs_acks := (hs_acks hs)((\<not> s) := insert c (hs_acks hs (\<not> s))), hs_told := (hs_told hs)(s := True)\<rparr>
      else hs\<lparr>hs_view := (hs_view hs)(s := None), hs_try := (hs_try hs)(s := None), hs_open := (hs_open hs)(s := hs_open hs s - {c})\<rparr>)"

definition hs_refused :: "bool \<Rightarrow> nat \<Rightarrow> handshake \<Rightarrow> handshake" where
  "hs_refused s c hs = hs\<lparr>hs_try := (hs_try hs)(s := None), hs_open := (hs_open hs)(s := hs_open hs s - {c})\<rparr>"

definition hs_lost :: "bool \<Rightarrow> nat \<Rightarrow> handshake \<Rightarrow> handshake" where
  "hs_lost s c hs = hs\<lparr>hs_view := (hs_view hs)(s := if hs_view hs s = Some c then None else hs_view hs s),
     hs_open := (hs_open hs)(s := hs_open hs s - {c})\<rparr>"

text \<open>Nothing travels to \<open>s\<close>, on one connection or on any.\<close>

definition hs_idle_on :: "bool \<Rightarrow> nat \<Rightarrow> handshake \<Rightarrow> bool" where
  "hs_idle_on s c hs = (hs_try hs (\<not> s) \<noteq> Some (c, Asking) \<and> hs_try hs s \<noteq> Some (c, Granted) \<and> hs_try hs s \<noteq> Some (c, Refused) \<and>
     c \<notin> hs_acks hs s)"

definition hs_idle :: "bool \<Rightarrow> handshake \<Rightarrow> bool" where
  "hs_idle s hs = (\<forall>c. hs_idle_on s c hs)"

inductive hs_step :: "bool \<Rightarrow> handshake \<Rightarrow> handshake \<Rightarrow> bool" for ordered where
  ask: "hs_try hs s = None \<Longrightarrow> hs_step ordered hs (hs_ask s hs)"
| answer: "hs_try hs s = Some (c, Asking) \<Longrightarrow> hs_step ordered hs (hs_answer s c hs)"
| granted: "hs_try hs s = Some (c, Granted) \<Longrightarrow> hs_step ordered hs (hs_granted s c hs)"
| refused: "hs_try hs s = Some (c, Refused) \<Longrightarrow> hs_step ordered hs (hs_refused s c hs)"
| acknowledged: "c \<in> hs_acks hs s \<Longrightarrow> hs_view hs s = Some c \<Longrightarrow>
    hs_step ordered hs (hs\<lparr>hs_acks := (hs_acks hs)(s := hs_acks hs s - {c})\<rparr>)"
| lost: "c \<notin> hs_open hs (\<not> s) \<Longrightarrow> hs_idle_on s c hs \<Longrightarrow> (ordered \<longrightarrow> hs_idle s hs) \<Longrightarrow> hs_step ordered hs (hs_lost s c hs)"

section \<open>The invariant of ordered runs\<close>

text \<open>
  \<open>v\<close> and \<open>w\<close> are the connections the sides know, \<open>p\<close> and \<open>q\<close> their attempts: they differ only while an attempt has
  been granted and the answer travels.
\<close>

fun is_granted :: "(nat \<times> phase) option \<Rightarrow> bool" where
  "is_granted (Some (c, Granted)) = True"
| "is_granted _ = False"

definition agree :: "nat option \<Rightarrow> (nat \<times> phase) option \<Rightarrow> nat option \<Rightarrow> (nat \<times> phase) option \<Rightarrow> bool" where
  "agree v p w q =
     (if is_granted p \<and> is_granted q then v = map_option fst q \<and> w = map_option fst p
      else if is_granted p then v = None \<and> w = map_option fst p \<or> w = None \<and> v \<noteq> None
      else if is_granted q then w = None \<and> v = map_option fst q \<or> v = None \<and> w \<noteq> None
      else v = w)"

text \<open>One side: its open connections \<open>os\<close> and those of the other \<open>oo\<close>, acknowledgements, whether it was told to be connected.\<close>

definition side ::
  "nat option \<Rightarrow> (nat \<times> phase) option \<Rightarrow> nat set \<Rightarrow> nat set \<Rightarrow> bool \<Rightarrow> nat option \<Rightarrow> (nat \<times> phase) option \<Rightarrow> nat set \<Rightarrow> nat \<Rightarrow> bool" where
  "side v p os acks told w q oo bound =
     ((told \<or> acks \<noteq> {} \<longrightarrow> v = w \<and> v \<noteq> None \<and> \<not> is_granted p \<and> \<not> is_granted q) \<and>
      (\<forall>c \<in> acks. v = Some c) \<and>
      (case v of None \<Rightarrow> True | Some c \<Rightarrow> c \<in> os \<and> c < bound \<and> (c \<in> oo \<or> is_granted p)) \<and>
      (case p of None \<Rightarrow> True
       | Some (c, ph) \<Rightarrow> c \<in> os \<and> c < bound \<and> v \<noteq> Some c \<and> (ph = Asking \<longrightarrow> w \<noteq> Some c) \<and> (c \<in> oo) = (ph \<noteq> Refused) \<and>
           map_option fst q \<noteq> Some c))"

definition sides ::
  "nat option \<Rightarrow> (nat \<times> phase) option \<Rightarrow> nat set \<Rightarrow> nat set \<Rightarrow> bool \<Rightarrow>
   nat option \<Rightarrow> (nat \<times> phase) option \<Rightarrow> nat set \<Rightarrow> nat set \<Rightarrow> bool \<Rightarrow> nat \<Rightarrow> bool" where
  "sides v p os acks told w q oo acks2 told2 bound =
     (agree v p w q \<and> acks \<inter> acks2 = {} \<and> side v p os acks told w q oo bound \<and> side w q oo acks2 told2 v p os bound)"

definition hs_ok :: "handshake \<Rightarrow> bool" where
  "hs_ok hs = sides (hs_view hs True) (hs_try hs True) (hs_open hs True) (hs_acks hs True) (hs_told hs True)
     (hs_view hs False) (hs_try hs False) (hs_open hs False) (hs_acks hs False) (hs_told hs False) (hs_next hs)"

lemma sides_sym: "sides v p os acks told w q oo acks2 told2 n = sides w q oo acks2 told2 v p os acks told n"
  by (auto simp: sides_def agree_def)

lemma hs_ok_sides:
  "hs_ok hs = sides (hs_view hs s) (hs_try hs s) (hs_open hs s) (hs_acks hs s) (hs_told hs s)
     (hs_view hs (\<not> s)) (hs_try hs (\<not> s)) (hs_open hs (\<not> s)) (hs_acks hs (\<not> s)) (hs_told hs (\<not> s)) (hs_next hs)"
  using sides_sym by (cases s) (simp_all add: hs_ok_def)

lemma phase_cases [cases type]:
  obtains "p = (None :: (nat \<times> phase) option)" | c where "p = Some (c, Asking)" | c where "p = Some (c, Granted)" | c where "p = Some (c, Refused)"
  by (cases p; cases "snd (the p)"; force)

lemmas sides_defs = sides_def side_def agree_def

lemma sides_ask:
  "sides v None os acks told w q oo acks2 told2 n \<Longrightarrow>
   sides v (Some (n, Asking)) (insert n os) acks told w q (insert n oo) acks2 told2 (Suc n)"
  by (cases q rule: phase_cases; cases v; cases w; auto simp: sides_defs)

lemma sides_grant:
  "sides v (Some (c, Asking)) os acks told None q oo acks2 told2 n \<Longrightarrow>
   sides v (Some (c, Granted)) os acks told (Some c) q oo acks2 told2 n"
  by (cases q rule: phase_cases; cases v; auto simp: sides_defs)

lemma sides_refuse:
  "sides v (Some (c, Asking)) os acks told (Some d) q oo acks2 told2 n \<Longrightarrow>
   sides v (Some (c, Refused)) os acks told (Some d) q (oo - {c}) acks2 told2 n"
  by (cases q rule: phase_cases; cases v; auto simp: sides_defs)

lemma sides_connected:
  "sides None (Some (c, Granted)) os acks told w q oo acks2 told2 n \<Longrightarrow>
   sides (Some c) None os acks True w q oo (insert c acks2) told2 n"
  by (cases q rule: phase_cases; cases w; auto simp: sides_defs)

lemma sides_dropped:
  "sides (Some d) (Some (c, Granted)) os acks told w q oo acks2 told2 n \<Longrightarrow>
   sides None None (os - {c}) acks told w q oo acks2 told2 n"
  by (cases q rule: phase_cases; cases w; auto simp: sides_defs)

lemma sides_refused:
  "sides v (Some (c, Refused)) os acks told w q oo acks2 told2 n \<Longrightarrow> sides v None (os - {c}) acks told w q oo acks2 told2 n"
  by (cases q rule: phase_cases; cases v; cases w; auto simp: sides_defs)

lemma sides_acknowledged:
  "sides v p os acks told w q oo acks2 told2 n \<Longrightarrow> sides v p os (acks - {c}) told w q oo acks2 told2 n"
  by (cases p rule: phase_cases; cases q rule: phase_cases; cases v; cases w; auto simp: sides_defs)

text \<open>While nothing travels to a side it has no attempt under way but one that asks.\<close>

definition in_phase :: "phase set \<Rightarrow> (nat \<times> phase) option \<Rightarrow> bool" where
  "in_phase phs p = (case p of None \<Rightarrow> False | Some (c, ph) \<Rightarrow> ph \<in> phs)"

lemma sides_lost:
  assumes "sides v p os acks told w q oo acks2 told2 n" "c \<notin> oo" "\<not> in_phase {Asking} q" "\<not> in_phase {Granted, Refused} p"
  shows "v \<noteq> Some c" "sides v p (os - {c}) acks told w q oo acks2 told2 n"
  using assms
  by (cases p rule: phase_cases; cases q rule: phase_cases; cases v; cases w; auto simp: sides_defs in_phase_def)+

lemma sides_idle:
  assumes "sides v p os acks told w q oo acks2 told2 n" "\<not> in_phase {Asking, Granted, Refused} p" "\<not> in_phase {Asking, Granted, Refused} q"
  shows "v = w"
  using assms by (cases p rule: phase_cases; cases q rule: phase_cases; cases v; cases w; auto simp: sides_defs in_phase_def)

lemma hs_idle_phase: "hs_idle s hs \<Longrightarrow> \<not> in_phase {Asking} (hs_try hs (\<not> s)) \<and> \<not> in_phase {Granted, Refused} (hs_try hs s)"
  by (auto simp: hs_idle_def hs_idle_on_def in_phase_def split: option.split)

section \<open>Runs\<close>

lemma other_side [simp]: "(if (\<not> s) = s then x else y) = y" "(if s = (\<not> s) then x else y) = y"
  by (cases s; simp)+

lemma hs_ok_start: "hs_ok (hs_start first)"
  by (simp add: hs_ok_def hs_start_def sides_defs)

lemma hs_ok_answer:
  assumes "hs_ok hs" "hs_try hs s = Some (c, Asking)"
  shows "hs_ok (hs_answer s c hs)"
  using assms sides_grant sides_refuse unfolding hs_ok_sides [of _ s] hs_answer_def
  by (cases "hs_view hs (\<not> s)") (simp_all add: fun_upd_def)

lemma hs_ok_granted:
  assumes "hs_ok hs" "hs_try hs s = Some (c, Granted)"
  shows "hs_ok (hs_granted s c hs)"
  using assms sides_connected sides_dropped unfolding hs_ok_sides [of _ s] hs_granted_def
  by (cases "hs_view hs s") (simp_all add: fun_upd_def)

lemma hs_ok_lost:
  assumes ok: "hs_ok hs" and c: "c \<notin> hs_open hs (\<not> s)" and i: "hs_idle s hs"
  shows "hs_view hs s \<noteq> Some c" "hs_ok (hs_lost s c hs)"
proof -
  have n: "\<not> in_phase {Asking} (hs_try hs (\<not> s))" "\<not> in_phase {Granted, Refused} (hs_try hs s)"
    using hs_idle_phase [OF i] by simp_all
  note l = sides_lost [OF ok [unfolded hs_ok_sides [of _ s]] c n]
  show v: "hs_view hs s \<noteq> Some c" by (rule l(1))
  show "hs_ok (hs_lost s c hs)" using l(2) v unfolding hs_ok_sides [of _ s] hs_lost_def by (simp add: fun_upd_def)
qed

lemma hs_step_ok: "hs_step True hs hs1 \<Longrightarrow> hs_ok hs \<Longrightarrow> hs_ok hs1"
proof (induction rule: hs_step.induct)
  case (ask hs s)
  then show ?case using sides_ask unfolding hs_ok_sides [of _ s] hs_ask_def by (simp add: fun_upd_def)
next
  case (refused hs s c)
  then show ?case using sides_refused unfolding hs_ok_sides [of _ s] hs_refused_def by (simp add: fun_upd_def)
next
  case (acknowledged c hs s)
  then show ?case using sides_acknowledged unfolding hs_ok_sides [of _ s] by (simp add: fun_upd_def)
qed (auto intro: hs_ok_answer hs_ok_granted hs_ok_lost)

inductive hs_run :: "bool \<Rightarrow> handshake \<Rightarrow> handshake \<Rightarrow> bool" for ordered where
  refl: "hs_run ordered hs hs"
| step: "hs_run ordered hs hs1 \<Longrightarrow> hs_step ordered hs1 hs2 \<Longrightarrow> hs_run ordered hs hs2"

lemma hs_run_ok: "hs_run True hs hs1 \<Longrightarrow> hs_ok hs \<Longrightarrow> hs_ok hs1"
  by (induction rule: hs_run.induct) (auto intro: hs_step_ok)

text \<open>Who is told to be connected is; without packets under way both sides know the same connection.\<close>

lemma hs_ok_told: "hs_ok hs \<Longrightarrow> hs_told hs s \<Longrightarrow> hs_view hs s \<noteq> None \<and> hs_view hs (\<not> s) = hs_view hs s"
  unfolding hs_ok_sides [of _ s] by (auto simp: sides_defs)

lemma hs_ok_idle:
  assumes "hs_ok hs" "hs_idle True hs" "hs_idle False hs"
  shows "hs_view hs True = hs_view hs False"
proof -
  have "\<not> in_phase {Asking, Granted, Refused} (hs_try hs True)" "\<not> in_phase {Asking, Granted, Refused} (hs_try hs False)"
    using hs_idle_phase [OF assms(2)] hs_idle_phase [OF assms(3)] by (auto simp: in_phase_def split: option.splits)
  then show ?thesis using assms(1) sides_idle unfolding hs_ok_def by blast
qed

lemma sides_try:
  assumes "sides v (Some (c, ph)) os acks told w q oo acks2 told2 n"
  shows "c \<in> os" "c < n" "v \<noteq> Some c" "ph = Asking \<Longrightarrow> w \<noteq> Some c" "c \<in> oo \<longleftrightarrow> ph \<noteq> Refused" "q \<noteq> Some (c, ph2)" "c \<notin> acks"
proof -
  have h: "c \<in> os \<and> c < n \<and> v \<noteq> Some c \<and> (ph = Asking \<longrightarrow> w \<noteq> Some c) \<and> (c \<in> oo) = (ph \<noteq> Refused) \<and> map_option fst q \<noteq> Some c"
    and a: "\<forall>d \<in> acks. v = Some d"
    using assms unfolding sides_def side_def by simp_all
  then show "c \<in> os" "c < n" "v \<noteq> Some c" "ph = Asking \<Longrightarrow> w \<noteq> Some c" "c \<in> oo \<longleftrightarrow> ph \<noteq> Refused" by blast+
  show "q \<noteq> Some (c, ph2)" using h by auto
  show "c \<notin> acks" using a h by metis
qed

lemma sides_acks:
  assumes "sides v p os acks told w q oo acks2 told2 n" "c \<in> acks"
  shows "v = Some c" "w = Some c" "c < n"
proof -
  have s: "side v p os acks told w q oo n" using assms(1) by (simp add: sides_def)
  have "\<forall>d \<in> acks. v = Some d" "acks \<noteq> {} \<longrightarrow> v = w" using s unfolding side_def by blast+
  then show v: "v = Some c" and "w = Some c" using assms(2) by (metis empty_iff)+
  show "c < n" using s v unfolding side_def by simp
qed

lemma hs_ok_try:
  assumes "hs_ok hs" "hs_try hs s = Some (c, ph)"
  shows "c \<in> hs_open hs s" "c < hs_next hs" "hs_view hs s \<noteq> Some c" "ph = Asking \<Longrightarrow> hs_view hs (\<not> s) \<noteq> Some c"
    "c \<in> hs_open hs (\<not> s) \<longleftrightarrow> ph \<noteq> Refused" "hs_try hs (\<not> s) \<noteq> Some (c, ph2)" "c \<notin> hs_acks hs s"
  using sides_try [OF assms(1) [unfolded hs_ok_sides [of _ s] assms(2)]] by simp_all

lemma hs_ok_ack:
  assumes "hs_ok hs" "c \<in> hs_acks hs s"
  shows "hs_view hs s = Some c" "hs_view hs (\<not> s) = Some c" "c < hs_next hs"
  using sides_acks [OF assms(1) [unfolded hs_ok_sides [of _ s]] assms(2)] by simp_all

lemma hs_ok_one_ack: "hs_ok hs \<Longrightarrow> c \<in> hs_acks hs s \<Longrightarrow> c \<notin> hs_acks hs (\<not> s)"
  unfolding hs_ok_sides [of _ s] sides_def by blast

lemma hs_ok_fresh: "hs_ok hs \<Longrightarrow> hs_idle_on s (hs_next hs) hs"
  using hs_ok_try(2) [of hs s "hs_next hs"] hs_ok_try(2) [of hs "\<not> s" "hs_next hs"] hs_ok_ack(3) [of hs "hs_next hs" s]
  by (auto simp: hs_idle_on_def)

lemma hs_ok_known: "hs_ok hs \<Longrightarrow> hs_view hs s = Some c \<Longrightarrow> c \<in> hs_open hs s"
  unfolding hs_ok_sides [of _ s] by (auto simp: sides_def side_def)

text \<open>The packets that a handshake still takes.\<close>

fun phase_work :: "(nat \<times> phase) option \<Rightarrow> nat" where
  "phase_work None = 0"
| "phase_work (Some (c, Asking)) = 3"
| "phase_work (Some (c, Granted)) = 2"
| "phase_work (Some (c, Refused)) = 1"

definition side_work :: "bool \<Rightarrow> handshake \<Rightarrow> nat" where
  "side_work s hs = phase_work (hs_try hs s) + (if hs_acks hs s = {} then 0 else 1)"

definition hs_work :: "handshake \<Rightarrow> nat" where
  "hs_work hs = side_work True hs + side_work False hs"

lemma hs_work_sides: "hs_work hs = side_work s hs + side_work (\<not> s) hs"
  by (cases s) (simp_all add: hs_work_def)

lemma hs_work_answer: "hs_try hs s = Some (c, Asking) \<Longrightarrow> hs_work (hs_answer s c hs) < hs_work hs"
  by (simp add: hs_work_sides [of _ s] side_work_def hs_answer_def)

lemma hs_work_granted: "hs_try hs s = Some (c, Granted) \<Longrightarrow> hs_work (hs_granted s c hs) < hs_work hs"
  by (simp add: hs_work_sides [of _ s] side_work_def hs_granted_def)

lemma hs_work_refused: "hs_try hs s = Some (c, Refused) \<Longrightarrow> hs_work (hs_refused s c hs) < hs_work hs"
  by (simp add: hs_work_sides [of _ s] side_work_def hs_refused_def)

lemma hs_work_acknowledged:
  assumes "hs_ok hs" "c \<in> hs_acks hs s"
  shows "hs_work (hs\<lparr>hs_acks := (hs_acks hs)(s := hs_acks hs s - {c})\<rparr>) < hs_work hs"
proof -
  have "d = c" if "d \<in> hs_acks hs s" for d using hs_ok_ack(1) [OF assms(1) that] hs_ok_ack(1) [OF assms] by simp
  then have "hs_acks hs s - {c} = {}" by blast
  then show ?thesis using assms(2) by (auto simp: hs_work_sides [of _ s] side_work_def)
qed

end
