(* ===== verification/Node_Handshake.thy ===== *)
theory Node_Handshake
  imports Node_View Handshake_Spec
begin

text \<open>
  Two local nodes that connect to each other at the same time, with the packets that travel between
  them. A step of a node is the handler of its receiver thread or a call of its application. The
  packets of one connection stay in order; different connections are independent.
\<close>

section \<open>The network\<close>

text \<open>\<open>nt_link net s c\<close> are the packets that travel on the connection \<open>c\<close> to the side \<open>s\<close>.\<close>

record 'o Net =
  nt_node :: "bool \<Rightarrow> 'o LocalNode"
  nt_link :: "bool \<Rightarrow> nat \<Rightarrow> NodePacket list"
  nt_first :: nat
  nt_next :: nat

definition transmit :: "bool \<Rightarrow> 'o LocalNode \<Rightarrow> 'o Net \<Rightarrow> 'o Net" where
  "transmit s nl net = net\<lparr>nt_node := (nt_node net)(s := nl\<lparr>ln_out := []\<rparr>),
     nt_link := (nt_link net)((\<not> s) := (\<lambda>c. nt_link net (\<not> s) c @ map snd (filter (\<lambda>m. fst m = c) (ln_out nl))))\<rparr>"

definition opened :: "nat \<Rightarrow> nat \<Rightarrow> 'o LocalNode \<Rightarrow> 'o LocalNode" where
  "opened c d nl = nl\<lparr>ln_conns := (ln_conns nl)(c := \<lparr>cn_description = d, cn_state = CONNECTION_CONNECTED\<rparr>)\<rparr>"

text \<open>
  An application connects to a new node object when its last attempt has been answered; the other node accepts the
  connection. A closed connection is noticed when its packets have been handled; in ordered runs, when no packet
  that was sent before is left on any connection.
\<close>

inductive net_step :: "NodeConfig \<Rightarrow> bool \<Rightarrow> 'o Net \<Rightarrow> 'o Net \<Rightarrow> bool" for cf ordered where
  connect: "ln_requests (nt_node net s) = Map.empty \<Longrightarrow> request \<noteq> nc_undefined cf \<Longrightarrow> c = nt_next net \<Longrightarrow>
    createNode cf type (nt_node net s) = (a, nl) \<Longrightarrow> connect_request cf request a c (opened c d nl) = (None, nl1) \<Longrightarrow>
    net_step cf ordered net (transmit s nl1
      (net\<lparr>nt_node := (nt_node net)((\<not> s) := handleConnect (Some c) (opened c d2 (nt_node net (\<not> s)))), nt_next := Suc c\<rparr>))"
| deliver: "nt_link net s c = p # ps \<Longrightarrow> c \<in> set (ln_incoming (nt_node net s)) \<Longrightarrow>
    receive_data cf now c p (nt_node net s) = Some nl \<Longrightarrow>
    net_step cf ordered net (transmit s nl (net\<lparr>nt_link := (nt_link net)(s := (nt_link net s)(c := ps))\<rparr>))"
| lost: "nt_first net \<le> c \<Longrightarrow> c < nt_next net \<Longrightarrow> \<not> is_open (nt_node net (\<not> s)) c \<Longrightarrow> c \<in> set (ln_incoming (nt_node net s)) \<Longrightarrow>
    nt_link net s c = [] \<Longrightarrow> (ordered \<longrightarrow> (\<forall>d. nt_link net s d = [])) \<Longrightarrow>
    net_step cf ordered net (transmit s (handleDisconnect cf c (nt_node net s)) net)"

inductive net_run :: "NodeConfig \<Rightarrow> bool \<Rightarrow> 'o Net \<Rightarrow> 'o Net \<Rightarrow> bool" for cf ordered where
  refl: "net_run cf ordered net net"
| step: "net_run cf ordered net net1 \<Longrightarrow> net_step cf ordered net1 net2 \<Longrightarrow> net_run cf ordered net net2"

text \<open>At first both nodes listen and know only themselves; the connections between them are numbered from \<open>nt_first\<close>.\<close>

definition just_listens :: "u128 \<Rightarrow> nat \<Rightarrow> 'o LocalNode \<Rightarrow> bool" where
  "just_listens identifier first nl = (\<exists>pipe other created type ds conns st.
     listen (Some (pipe, other)) created (new_local identifier type ds conns st) = (True, nl) \<and> pipe \<noteq> other \<and>
     Some other \<notin> set created \<and> pipe < first \<and> (\<forall>c. Some c \<in> set created \<longrightarrow> c < first))"

definition net_start :: "(bool \<Rightarrow> u128) \<Rightarrow> 'o Net \<Rightarrow> bool" where
  "net_start ids net = (nt_next net = nt_first net \<and> (\<forall>s c. nt_link net s c = []) \<and> ids True \<noteq> ids False \<and>
     (\<forall>s. ids s \<noteq> 0 \<and> just_listens (ids s) (nt_first net) (nt_node net s)))"

section \<open>The simulation\<close>

definition sim_node :: "(bool \<Rightarrow> u128) \<Rightarrow> nat set \<Rightarrow> u32 \<Rightarrow> nat \<Rightarrow> handshake \<Rightarrow> bool \<Rightarrow> 'o LocalNode \<Rightarrow> bool" where
  "sim_node ids own rq first hs s nl =
     (table_is nl (ids s) (ids (\<not> s)) own (hs_view hs s) \<and> ln_out nl = [] \<and>
      (\<forall>c. c \<in> hs_open hs s \<longleftrightarrow> first \<le> c \<and> c < hs_next hs \<and> is_open nl c) \<and> hs_open hs s \<subseteq> set (ln_incoming nl) \<and>
      (case hs_try hs s of
         None \<Rightarrow> ln_requests nl = Map.empty
       | Some t \<Rightarrow> (\<exists>a. ln_requests nl = [rq \<mapsto> Some a]) \<and> unlisted nl rq) \<and>
      (\<forall>r. (r, SERVED_BOOL True) \<in> set (ln_served nl) \<longrightarrow> hs_told hs s))"

definition travels :: "NodeConfig \<Rightarrow> (bool \<Rightarrow> u128) \<Rightarrow> (bool \<Rightarrow> u32) \<Rightarrow> handshake \<Rightarrow> bool \<Rightarrow> nat \<Rightarrow> NodePacket list \<Rightarrow> bool" where
  "travels cf ids rq hs s c ps =
     (if hs_try hs (\<not> s) = Some (c, Asking) then
        \<exists>t data. ps = [NODE_CONNECT (ids (\<not> s)) (rq (\<not> s)) t data] \<and> carries cf data (ids (\<not> s))
      else if hs_try hs s = Some (c, Granted) then
        \<exists>t data. ps = [NODE_CONNECT_REPLY (ids (\<not> s)) (rq s) t data] \<and> carries cf data (ids (\<not> s))
      else if hs_try hs s = Some (c, Refused) then ps = [NODE_CONNECT_REPLY 0 (rq s) 0 []]
      else if c \<in> hs_acks hs s then ps = [NODE_CONNECT_ACK]
      else ps = [])"

definition sim :: "NodeConfig \<Rightarrow> (bool \<Rightarrow> u128) \<Rightarrow> (bool \<Rightarrow> nat set) \<Rightarrow> (bool \<Rightarrow> u32) \<Rightarrow> 'o Net \<Rightarrow> handshake \<Rightarrow> bool" where
  "sim cf ids own rq net hs = (hs_next hs = nt_next net \<and> nt_first net \<le> nt_next net \<and>
     (\<forall>s. ids s \<noteq> 0 \<and> own s \<subseteq> {..< nt_first net} \<and> rq s \<noteq> nc_undefined cf \<and> sim_node ids (own s) (rq s) (nt_first net) hs s (nt_node net s) \<and>
        (\<forall>c. travels cf ids rq hs s c (nt_link net s c))))"

lemma travels_idle: "travels cf ids rq hs s c [] \<longleftrightarrow> hs_idle_on s c hs"
  by (auto simp: travels_def hs_idle_on_def)

lemma all_sides: "(\<forall>x. P x) \<longleftrightarrow> P s \<and> P (\<not> s)"
  by (cases s) (auto simp: all_bool_eq)

text \<open>A step of one side: its new state, what it sends, and what the packets that travel become.\<close>

lemma sim_transmit:
  assumes "sim cf ids own rq net hs" and "nt_next net1 = hs_next hs1" "nt_first net1 = nt_first net" "hs_next hs \<le> hs_next hs1"
    and "rq1 s \<noteq> nc_undefined cf" "rq1 (\<not> s) = rq (\<not> s)"
    and "sim_node ids (own s) (rq1 s) (nt_first net) hs1 s (nl\<lparr>ln_out := []\<rparr>)"
    and "sim_node ids (own (\<not> s)) (rq (\<not> s)) (nt_first net) hs1 (\<not> s) (nt_node net1 (\<not> s))"
    and "\<And>c. travels cf ids rq1 hs1 s c (nt_link net1 s c)"
    and "\<And>c. travels cf ids rq1 hs1 (\<not> s) c (nt_link net1 (\<not> s) c @ map snd (filter (\<lambda>m. fst m = c) (ln_out nl)))"
  shows "sim cf ids own rq1 (transmit s nl net1) hs1"
  using assms by (simp add: sim_def transmit_def all_sides [of _ s])

lemma sim_side:
  assumes "sim cf ids own rq net hs"
  shows "sim_node ids (own s) (rq s) (nt_first net) hs s (nt_node net s)" "travels cf ids rq hs s c (nt_link net s c)"
    "ids s \<noteq> 0" "rq s \<noteq> nc_undefined cf" "own s \<subseteq> {..< nt_first net}"
  using assms by (auto simp: sim_def)

lemma sim_next: "sim cf ids own rq net hs \<Longrightarrow> hs_next hs = nt_next net \<and> nt_first net \<le> nt_next net"
  by (simp add: sim_def)

lemma sim_node_cong:
  assumes "sim_node ids own rq first hs s nl" "hs_view hs1 s = hs_view hs s" "hs_open hs1 s = hs_open hs s" "hs_next hs1 = hs_next hs"
    "hs_try hs1 s = None \<longleftrightarrow> hs_try hs s = None" "hs_told hs1 s = hs_told hs s"
  shows "sim_node ids own rq first hs1 s nl"
  using assms by (auto simp: sim_node_def split: option.splits)

lemma is_open_out [simp]: "is_open (nl\<lparr>ln_out := out\<rparr>) = is_open nl"
  by (simp add: is_open_def fun_eq_iff)

lemma unlisted_out [simp]: "unlisted (nl\<lparr>ln_out := out\<rparr>) = unlisted nl"
  by (simp add: unlisted_def fun_eq_iff)

lemma table_is_out [simp]: "table_is nl me p own v \<Longrightarrow> table_is (nl\<lparr>ln_out := out\<rparr>) me p own v"
  by (rule same_nodes_table [OF same_nodes_simple(5)])

lemma is_open_effect:
  "effect nl nl1 out gone \<Longrightarrow> is_open nl1 c = (is_open nl c \<and> gone \<noteq> Some c)"
  by (auto simp: effect_def is_open_def split: option.splits)

lemma effect_incoming:
  "effect nl nl1 out gone \<Longrightarrow> c \<in> set (ln_incoming nl) \<Longrightarrow> gone \<noteq> Some c \<Longrightarrow> c \<in> set (ln_incoming nl1)"
  by (auto simp: effect_def in_set_remove1 split: option.splits)

text \<open>The node that handles a packet.\<close>

lemma sim_node_effect:
  assumes s: "sim_node ids own rq first hs s nl" and e: "effect nl nl1 out gone"
    and t: "table_is nl1 (ids s) (ids (\<not> s)) own (hs_view hs1 s)"
    and o: "hs_open hs1 s = (case gone of None \<Rightarrow> hs_open hs s | Some c \<Rightarrow> hs_open hs s - {c})" and n: "hs_next hs1 = hs_next hs"
    and r: "if hs_try hs1 s = None then ln_requests nl1 = Map.empty
      else hs_try hs s \<noteq> None \<and> ln_requests nl1 = ln_requests nl \<and> (\<forall>q. unlisted nl q \<longrightarrow> unlisted nl1 q)"
    and v: "hs_told hs s \<Longrightarrow> hs_told hs1 s" "\<And>q. (q, SERVED_BOOL True) \<in> set (ln_served nl1) \<Longrightarrow> (q, SERVED_BOOL True) \<in> set (ln_served nl) \<or> hs_told hs1 s"
  shows "sim_node ids own rq first hs1 s (nl1\<lparr>ln_out := []\<rparr>)"
proof -
  have op: "\<forall>c. c \<in> hs_open hs s \<longleftrightarrow> first \<le> c \<and> c < hs_next hs \<and> is_open nl c" "hs_open hs s \<subseteq> set (ln_incoming nl)"
    and rq: "hs_try hs s \<noteq> None \<Longrightarrow> (\<exists>a. ln_requests nl = [rq \<mapsto> Some a]) \<and> unlisted nl rq"
    and sv: "\<forall>r. (r, SERVED_BOOL True) \<in> set (ln_served nl) \<longrightarrow> hs_told hs s"
    using s by (auto simp: sim_node_def)
  have "c \<in> hs_open hs1 s \<longleftrightarrow> first \<le> c \<and> c < hs_next hs1 \<and> is_open nl1 c" for c
    using op(1) o n is_open_effect [OF e, of c] by (cases gone) auto
  moreover have "hs_open hs1 s \<subseteq> set (ln_incoming nl1)"
    using op(2) o effect_incoming [OF e] by (cases gone) auto
  moreover have "case hs_try hs1 s of None \<Rightarrow> ln_requests nl1 = Map.empty
      | Some t \<Rightarrow> (\<exists>a. ln_requests nl1 = [rq \<mapsto> Some a]) \<and> unlisted nl1 rq"
    using r rq by (cases "hs_try hs1 s") auto
  moreover have "\<forall>r. (r, SERVED_BOOL True) \<in> set (ln_served nl1) \<longrightarrow> hs_told hs1 s" using v sv by blast
  ultimately show ?thesis using t by (cases "hs_try hs1 s") (simp_all add: sim_node_def)
qed

lemma sends: "effect nl nl1 out gone \<Longrightarrow> ln_out nl = [] \<Longrightarrow> ln_out nl1 = out"
  by (simp add: effect_def)

end
