(* ===== verification/Handshake_Sim.thy ===== *)
theory Handshake_Sim
  imports Node_Handshake
begin

text \<open>
  Each step of the two nodes is a step of the specification \<open>Handshake_Spec\<close>, and no packet of a
  handshake finds its receiver unable to handle it, as long as the runs are ordered.
\<close>

lemma link_fields [simp]:
  "nt_node (net\<lparr>nt_link := l\<rparr>) = nt_node net" "nt_link (net\<lparr>nt_link := l\<rparr>) = l" "nt_next (net\<lparr>nt_link := l\<rparr>) = nt_next net"
  "nt_first (net\<lparr>nt_link := l\<rparr>) = nt_first net"
  by simp_all

lemma travels_other:
  assumes "travels cf ids rq hs s c ps" "hs_try hs1 (\<not> s) = Some (c, Asking) \<longleftrightarrow> hs_try hs (\<not> s) = Some (c, Asking)"
    "hs_try hs1 s = Some (c, Granted) \<longleftrightarrow> hs_try hs s = Some (c, Granted)"
    "hs_try hs1 s = Some (c, Refused) \<longleftrightarrow> hs_try hs s = Some (c, Refused)" "c \<in> hs_acks hs1 s \<longleftrightarrow> c \<in> hs_acks hs s"
  shows "travels cf ids rq hs1 s c ps"
  using assms by (simp add: travels_def)

text \<open>The side \<open>s\<close> handles the only packet of the connection \<open>c\<close>.\<close>

lemma sim_deliver:
  assumes sim: "sim cf ids own rq net hs" and out: "ln_out nl = out" "\<And>d. d \<noteq> c \<Longrightarrow> filter (\<lambda>m. fst m = d) out = []" "filter (\<lambda>m. fst m = c) out = out"
    and n: "sim_node ids (own s) (rq s) (nt_first net) hs1 s (nl\<lparr>ln_out := []\<rparr>)"
    and f: "hs_next hs1 = hs_next hs" "hs_view hs1 (\<not> s) = hs_view hs (\<not> s)" "hs_open hs1 (\<not> s) = hs_open hs (\<not> s)"
      "hs_told hs1 (\<not> s) = hs_told hs (\<not> s)" "hs_try hs1 (\<not> s) = None \<longleftrightarrow> hs_try hs (\<not> s) = None"
    and o: "\<And>x d ph. d \<noteq> c \<Longrightarrow> hs_try hs1 x = Some (d, ph) \<longleftrightarrow> hs_try hs x = Some (d, ph)" "\<And>x d. d \<noteq> c \<Longrightarrow> d \<in> hs_acks hs1 x \<longleftrightarrow> d \<in> hs_acks hs x"
    and i: "hs_idle_on s c hs1" "hs_idle_on (\<not> s) c hs" and t: "travels cf ids rq hs1 (\<not> s) c (map snd out)"
  shows "sim cf ids own rq (transmit s nl (net\<lparr>nt_link := (nt_link net)(s := (nt_link net s)(c := []))\<rparr>)) hs1"
proof (rule sim_transmit [OF sim])
  note side = sim_side [OF sim, of s] sim_side [OF sim, of "\<not> s"]
  let ?net = "net\<lparr>nt_link := (nt_link net)(s := (nt_link net s)(c := []))\<rparr>"
  show "sim_node ids (own (\<not> s)) (rq (\<not> s)) (nt_first net) hs1 (\<not> s) (nt_node ?net (\<not> s))"
    using side(6) f by (auto intro: sim_node_cong)
  show "travels cf ids rq hs1 s d (nt_link ?net s d)" for d
    using i(1) travels_idle [of cf ids rq hs1 s c] travels_other [OF side(2), of hs1 d] o by (cases "d = c") auto
  have "nt_link net (\<not> s) c = []" using i(2) side(7) [of c] by (simp add: travels_def hs_idle_on_def)
  then show "travels cf ids rq hs1 (\<not> s) d (nt_link ?net (\<not> s) d @ map snd (filter (\<lambda>m. fst m = d) (ln_out nl)))" for d
    using t out travels_other [OF side(7), of hs1 d] o by (cases "d = c") auto
qed (use n f sim_next [OF sim] sim_side(4) [OF sim] in simp_all)

lemma deliver_asking:
  assumes sim: "sim cf ids own rq net hs" and ok: "hs_ok hs" and i: "told_id cf"
    and t: "hs_try hs (\<not> s) = Some (c, Asking)" and l: "nt_link net s c = p # ps"
  shows "\<exists>nl. receive_data cf now c p (nt_node net s) = Some nl \<and>
    sim cf ids own rq (transmit s nl (net\<lparr>nt_link := (nt_link net)(s := (nt_link net s)(c := ps))\<rparr>)) (hs_answer (\<not> s) c hs)"
proof -
  let ?nl = "nt_node net s" and ?hs = "hs_answer (\<not> s) c hs"
  note side = sim_side [OF sim, of s] sim_side [OF sim, of "\<not> s"] and att = hs_ok_try [OF ok t]
  obtain t1 data where p: "p = NODE_CONNECT (ids (\<not> s)) (rq (\<not> s)) t1 data" "ps = []" "carries cf data (ids (\<not> s))"
    using side(2) [of c] t l by (auto simp: travels_def)
  have o: "nt_first net \<le> c" "is_open ?nl c" "c \<notin> own s" using side att by (auto simp: sim_node_def)
  have v: "hs_view hs s \<noteq> Some c" using att(4) by simp
  have tab: "table_is ?nl (ids s) (ids (\<not> s)) (own s) (hs_view hs s)" and out: "ln_out ?nl = []" using side(1) by (simp_all add: sim_node_def)
  have e: "\<exists>nl. receive_data cf now c p ?nl = Some nl \<and> table_is nl (ids s) (ids (\<not> s)) (own s) (hs_view ?hs s) \<and>
      (\<exists>q gone. effect ?nl nl [(c, q)] gone \<and> hs_open ?hs s = (case gone of None \<Rightarrow> hs_open hs s | Some c \<Rightarrow> hs_open hs s - {c}) \<and>
         travels cf ids rq ?hs (\<not> s) c [q]) \<and>
      ln_requests nl = ln_requests ?nl \<and> ln_served nl = ln_served ?nl \<and> (\<forall>q. unlisted ?nl q \<longrightarrow> unlisted nl q)"
  proof (cases "hs_view hs s")
    case None
    then obtain nl t2 data2 where a: "receive_data cf now c p ?nl = Some nl" "table_is nl (ids s) (ids (\<not> s)) (own s) (Some c)"
      "effect ?nl nl [(c, NODE_CONNECT_REPLY (ids s) (rq (\<not> s)) t2 data2)] None" "carries cf data2 (ids s)"
      "ln_requests nl = ln_requests ?nl" "ln_served nl = ln_served ?nl" "\<forall>q. unlisted ?nl q \<longrightarrow> unlisted nl q"
      using connect_accepted [OF _ o(3,2) p(3) i, of "ids s" now "rq (\<not> s)" t1] tab unfolding p(1) by metis
    have r: "hs_view ?hs s = Some c" "hs_open ?hs s = hs_open hs s" "hs_try ?hs (\<not> s) = Some (c, Granted)"
      using None by (simp_all add: hs_answer_def)
    then have "travels cf ids rq ?hs (\<not> s) c [NODE_CONNECT_REPLY (ids s) (rq (\<not> s)) t2 data2]"
      using a(4) att(6) by (auto simp: travels_def hs_answer_def)
    then show ?thesis using a r by (metis option.simps(4))
  next
    case (Some w)
    then obtain nl where a: "receive_data cf now c p ?nl = Some nl" "table_is nl (ids s) (ids (\<not> s)) (own s) (Some w)"
      "effect ?nl nl [(c, NODE_CONNECT_REPLY 0 (rq (\<not> s)) 0 [])] (Some c)"
      "ln_requests nl = ln_requests ?nl" "ln_served nl = ln_served ?nl" "\<forall>q. unlisted ?nl q \<longrightarrow> unlisted nl q"
      using connect_refused [OF _ o(3) _ o(2), of "ids s" "ids (\<not> s)" w cf now "rq (\<not> s)" t1 data] tab v unfolding p(1) by metis
    have r: "hs_view ?hs s = Some w" "hs_open ?hs s = hs_open hs s - {c}" "hs_try ?hs (\<not> s) = Some (c, Refused)"
      using Some by (simp_all add: hs_answer_def)
    then have "travels cf ids rq ?hs (\<not> s) c [NODE_CONNECT_REPLY 0 (rq (\<not> s)) 0 []]"
      using att(6) by (auto simp: travels_def hs_answer_def)
    then show ?thesis using a r by (metis option.simps(5))
  qed
  then obtain nl q gone where h: "receive_data cf now c p ?nl = Some nl" "table_is nl (ids s) (ids (\<not> s)) (own s) (hs_view ?hs s)"
    "effect ?nl nl [(c, q)] gone" "hs_open ?hs s = (case gone of None \<Rightarrow> hs_open hs s | Some c \<Rightarrow> hs_open hs s - {c})"
    "travels cf ids rq ?hs (\<not> s) c [q]" "ln_requests nl = ln_requests ?nl" "ln_served nl = ln_served ?nl"
    "\<forall>q. unlisted ?nl q \<longrightarrow> unlisted nl q" by blast
  have f: "hs_next ?hs = hs_next hs" "hs_told ?hs = hs_told hs" "hs_acks ?hs = hs_acks hs" "hs_try ?hs s = hs_try hs s"
    "hs_view ?hs (\<not> s) = hs_view hs (\<not> s)" "hs_open ?hs (\<not> s) = hs_open hs (\<not> s)"
    "\<exists>ph. hs_try ?hs (\<not> s) = Some (c, ph) \<and> ph \<noteq> Asking"
    by (auto simp: hs_answer_def)
  have "sim cf ids own rq (transmit s nl (net\<lparr>nt_link := (nt_link net)(s := (nt_link net s)(c := []))\<rparr>)) ?hs"
  proof (rule sim_deliver [OF sim])
    show "sim_node ids (own s) (rq s) (nt_first net) ?hs s (nl\<lparr>ln_out := []\<rparr>)"
      by (rule sim_node_effect [OF side(1) h(3) h(2) h(4)]) (use side(1) h f in \<open>auto simp: sim_node_def split: option.splits\<close>)
    show "hs_idle_on s c ?hs" "hs_idle_on (\<not> s) c hs" using f t att hs_ok_ack(2) [OF ok, of c s] by (auto simp: hs_idle_on_def)
    show "hs_try ?hs x = Some (d, ph) \<longleftrightarrow> hs_try hs x = Some (d, ph)" if "d \<noteq> c" for x d ph
      using that f t by (cases "x = s") auto
  qed (use f t h(5) sends [OF h(3) out] in auto)
  then show ?thesis using h(1) p(2) by simp
qed

lemma requests_served:
  assumes "sim_node ids own rq first hs s nl" "hs_try hs s \<noteq> None"
  shows "(ln_requests nl)(rq := None) = Map.empty"
proof -
  obtain a where "ln_requests nl = [rq \<mapsto> Some a]" using assms unfolding sim_node_def by (cases "hs_try hs s") auto
  then show ?thesis by simp
qed

lemma deliver_granted:
  assumes sim: "sim cf ids own rq net hs" and ok: "hs_ok hs"
    and t: "hs_try hs s = Some (c, Granted)" and l: "nt_link net s c = p # ps"
  shows "\<exists>nl. receive_data cf now c p (nt_node net s) = Some nl \<and>
    sim cf ids own rq (transmit s nl (net\<lparr>nt_link := (nt_link net)(s := (nt_link net s)(c := ps))\<rparr>)) (hs_granted s c hs)"
proof -
  let ?nl = "nt_node net s" and ?hs = "hs_granted s c hs"
  note side = sim_side [OF sim, of s] sim_side [OF sim, of "\<not> s"] and att = hs_ok_try [OF ok t]
  obtain t1 data where p: "p = NODE_CONNECT_REPLY (ids (\<not> s)) (rq s) t1 data" "ps = []" "carries cf data (ids (\<not> s))"
    using side(2) [of c] unfolding travels_def l by (auto simp: t att(6))
  have o: "nt_first net \<le> c" "is_open ?nl c" "c \<notin> own s" using side att by (auto simp: sim_node_def)
  have tab: "table_is ?nl (ids s) (ids (\<not> s)) (own s) (hs_view hs s)" and out: "ln_out ?nl = []" using side(1) by (simp_all add: sim_node_def)
  obtain a where r: "ln_requests ?nl (rq s) = Some (Some a)" "unlisted ?nl (rq s)" using side(1) t by (auto simp: sim_node_def)
  have e: "\<exists>nl sent gone. receive_data cf now c p ?nl = Some nl \<and> table_is nl (ids s) (ids (\<not> s)) (own s) (hs_view ?hs s) \<and>
      effect ?nl nl (map (Pair c) sent) gone \<and> hs_open ?hs s = (case gone of None \<Rightarrow> hs_open hs s | Some c \<Rightarrow> hs_open hs s - {c}) \<and>
      travels cf ids rq ?hs (\<not> s) c sent \<and> ln_requests nl = (ln_requests ?nl)(rq s := None) \<and>
      (\<exists>b. ln_served nl = ln_served ?nl @ [(rq s, SERVED_BOOL b)] \<and> (b \<longrightarrow> hs_told ?hs s))"
  proof (cases "hs_view hs s")
    case None
    then obtain nl where a: "receive_data cf now c p ?nl = Some nl" "table_is nl (ids s) (ids (\<not> s)) (own s) (Some c)"
      "effect ?nl nl [(c, NODE_CONNECT_ACK)] None" "ln_requests nl = (ln_requests ?nl)(rq s := None)"
      "ln_served nl = ln_served ?nl @ [(rq s, SERVED_BOOL True)]"
      using reply_connects [OF _ o(3,2) p(3) side(8) r(1) side(4) r(2), of "ids s" now t1] tab unfolding p(1) by metis
    have r: "hs_view ?hs s = Some c" "hs_open ?hs s = hs_open hs s" "hs_told ?hs s"
      using None by (simp_all add: hs_granted_def)
    moreover have "travels cf ids rq ?hs (\<not> s) c [NODE_CONNECT_ACK]"
      using None att(6) by (auto simp: travels_def hs_granted_def)
    ultimately show ?thesis using a by (intro exI [of _ nl] exI [of _ "[NODE_CONNECT_ACK]"] exI [of _ None]) auto
  next
    case (Some w)
    then have "c \<noteq> w" using att(3) by simp
    then obtain nl where a: "receive_data cf now c p ?nl = Some nl" "table_is nl (ids s) (ids (\<not> s)) (own s) None"
      "effect ?nl nl [] (Some c)" "ln_requests nl = (ln_requests ?nl)(rq s := None)"
      "ln_served nl = ln_served ?nl @ [(rq s, SERVED_BOOL False)]"
      using reply_drops [OF _ o(3) _ side(8), of ?nl "ids s" w cf now "rq s" t1 data] tab Some unfolding p(1) by metis
    have r: "hs_view ?hs s = None" "hs_open ?hs s = hs_open hs s - {c}" using Some by (simp_all add: hs_granted_def)
    moreover have "travels cf ids rq ?hs (\<not> s) c []"
      using Some att(6) hs_ok_ack(2) [OF ok, of c "\<not> s"] att(3) by (auto simp: travels_def hs_granted_def)
    ultimately show ?thesis using a by (intro exI [of _ nl] exI [of _ "[]"] exI [of _ "Some c"]) auto
  qed
  then obtain nl sent gone b where h: "receive_data cf now c p ?nl = Some nl" "table_is nl (ids s) (ids (\<not> s)) (own s) (hs_view ?hs s)"
    "effect ?nl nl (map (Pair c) sent) gone" "hs_open ?hs s = (case gone of None \<Rightarrow> hs_open hs s | Some c \<Rightarrow> hs_open hs s - {c})"
    "travels cf ids rq ?hs (\<not> s) c sent" "ln_requests nl = (ln_requests ?nl)(rq s := None)"
    "ln_served nl = ln_served ?nl @ [(rq s, SERVED_BOOL b)]" "b \<Longrightarrow> hs_told ?hs s" by blast
  have f: "hs_next ?hs = hs_next hs" "hs_told ?hs (\<not> s) = hs_told hs (\<not> s)" "hs_told hs s \<Longrightarrow> hs_told ?hs s"
    "hs_acks ?hs s = hs_acks hs s" "\<And>d. d \<noteq> c \<Longrightarrow> d \<in> hs_acks ?hs (\<not> s) \<longleftrightarrow> d \<in> hs_acks hs (\<not> s)"
    "hs_try ?hs (\<not> s) = hs_try hs (\<not> s)" "hs_view ?hs (\<not> s) = hs_view hs (\<not> s)" "hs_open ?hs (\<not> s) = hs_open hs (\<not> s)" "hs_try ?hs s = None"
    by (auto simp: hs_granted_def)
  have "sim cf ids own rq (transmit s nl (net\<lparr>nt_link := (nt_link net)(s := (nt_link net s)(c := []))\<rparr>)) ?hs"
  proof (rule sim_deliver [OF sim])
    show "sim_node ids (own s) (rq s) (nt_first net) ?hs s (nl\<lparr>ln_out := []\<rparr>)"
      by (rule sim_node_effect [OF side(1) h(3) h(2) h(4)]) (use requests_served [OF side(1)] h(6-8) f t in auto)
    show "ln_out nl = map (Pair c) sent" by (rule sends [OF h(3) out])
    show "hs_idle_on s c ?hs" "hs_idle_on (\<not> s) c hs"
      using f t att hs_ok_ack(2) [OF ok, of c "\<not> s"] by (auto simp: hs_idle_on_def)
    show "hs_try ?hs x = Some (d, ph) \<longleftrightarrow> hs_try hs x = Some (d, ph)" if "d \<noteq> c" for x d ph
      using that f t by (cases "x = s") auto
    show "d \<in> hs_acks ?hs x \<longleftrightarrow> d \<in> hs_acks hs x" if "d \<noteq> c" for x d
      using that f(4) f(5) [OF that] by (cases "x = s") auto
    show "travels cf ids rq ?hs (\<not> s) c (map snd (map (Pair c) sent))" using h(5) by (simp add: comp_def)
  qed (use f in \<open>auto simp: filter_map comp_def\<close>)
  then show ?thesis using h(1) p(2) by simp
qed

lemma deliver_refused:
  assumes sim: "sim cf ids own rq net hs" and ok: "hs_ok hs"
    and t: "hs_try hs s = Some (c, Refused)" and l: "nt_link net s c = p # ps"
  shows "\<exists>nl. receive_data cf now c p (nt_node net s) = Some nl \<and>
    sim cf ids own rq (transmit s nl (net\<lparr>nt_link := (nt_link net)(s := (nt_link net s)(c := ps))\<rparr>)) (hs_refused s c hs)"
proof -
  let ?nl = "nt_node net s" and ?hs = "hs_refused s c hs"
  note side = sim_side [OF sim, of s] sim_side [OF sim, of "\<not> s"] and att = hs_ok_try [OF ok t]
  have p: "p = NODE_CONNECT_REPLY 0 (rq s) 0 []" "ps = []" using side(2) [of c] unfolding travels_def l by (auto simp: t att(6))
  have o: "c \<notin> own s" using side att by (auto simp: sim_node_def)
  have tab: "table_is ?nl (ids s) (ids (\<not> s)) (own s) (hs_view hs s)" and out: "ln_out ?nl = []" using side(1) by (simp_all add: sim_node_def)
  obtain nl where a: "receive_data cf now c p ?nl = Some nl" "table_is nl (ids s) (ids (\<not> s)) (own s) (hs_view hs s)"
    "effect ?nl nl [] (Some c)" "ln_requests nl = (ln_requests ?nl)(rq s := None)" "ln_served nl = ln_served ?nl @ [(rq s, SERVED_BOOL False)]"
    using reply_refuses [OF tab o att(3), of cf now "rq s" 0 "[]"] unfolding p(1) by metis
  have f: "hs_next ?hs = hs_next hs" "hs_told ?hs = hs_told hs" "hs_acks ?hs = hs_acks hs" "hs_try ?hs (\<not> s) = hs_try hs (\<not> s)"
    "hs_view ?hs = hs_view hs" "hs_open ?hs (\<not> s) = hs_open hs (\<not> s)" "hs_open ?hs s = hs_open hs s - {c}" "hs_try ?hs s = None"
    by (simp_all add: hs_refused_def)
  have "sim cf ids own rq (transmit s nl (net\<lparr>nt_link := (nt_link net)(s := (nt_link net s)(c := []))\<rparr>)) ?hs"
  proof (rule sim_deliver [OF sim])
    show "sim_node ids (own s) (rq s) (nt_first net) ?hs s (nl\<lparr>ln_out := []\<rparr>)"
      by (rule sim_node_effect [OF side(1) a(3)]) (use requests_served [OF side(1)] a f t in auto)
    show "ln_out nl = []" by (rule sends [OF a(3) out])
    show "hs_idle_on s c ?hs" "hs_idle_on (\<not> s) c hs"
      using f t att hs_ok_ack(2) [OF ok, of c "\<not> s"] by (auto simp: hs_idle_on_def)
    show "hs_try ?hs x = Some (d, ph) \<longleftrightarrow> hs_try hs x = Some (d, ph)" if "d \<noteq> c" for x d ph
      using that f t by (cases "x = s") auto
    show "travels cf ids rq ?hs (\<not> s) c (map snd [])"
      using f t att hs_ok_ack(2) [OF ok, of c "\<not> s"] by (auto simp: travels_def)
  qed (use f in auto)
  then show ?thesis using a(1) p(2) by simp
qed

lemma deliver_ack:
  assumes sim: "sim cf ids own rq net hs" and ok: "hs_ok hs" and k: "c \<in> hs_acks hs s" and l: "nt_link net s c = p # ps"
  shows "\<exists>nl. receive_data cf now c p (nt_node net s) = Some nl \<and>
    sim cf ids own rq (transmit s nl (net\<lparr>nt_link := (nt_link net)(s := (nt_link net s)(c := ps))\<rparr>))
      (hs\<lparr>hs_acks := (hs_acks hs)(s := hs_acks hs s - {c})\<rparr>)"
proof -
  let ?nl = "nt_node net s" and ?hs = "hs\<lparr>hs_acks := (hs_acks hs)(s := hs_acks hs s - {c})\<rparr>"
  note side = sim_side [OF sim, of s] sim_side [OF sim, of "\<not> s"] and ack = hs_ok_ack [OF ok k]
  have t: "hs_try hs x \<noteq> Some (c, ph)" for x ph
  proof (cases "x = s")
    case True
    then show ?thesis using hs_ok_try(3) [OF ok, of s c ph] ack by auto
  next
    case False
    then have "x = (\<not> s)" by auto
    then show ?thesis using hs_ok_try(3) [OF ok, of "\<not> s" c ph] ack by auto
  qed
  have p: "p = NODE_CONNECT_ACK" "ps = []" using side(2) [of c] unfolding travels_def l by (auto simp: t k)
  have tab: "table_is ?nl (ids s) (ids (\<not> s)) (own s) (Some c)" and out: "ln_out ?nl = []" using side(1) ack by (simp_all add: sim_node_def)
  obtain nl where a: "receive_data cf now c p ?nl = Some nl" "table_is nl (ids s) (ids (\<not> s)) (own s) (Some c)"
    "effect ?nl nl [] None" "ln_requests nl = ln_requests ?nl" "ln_served nl = ln_served ?nl" "\<forall>q. unlisted ?nl q \<longrightarrow> unlisted nl q"
    using ack_handled [OF tab, of cf now] unfolding p(1) by metis
  have i: "c \<notin> hs_acks hs (\<not> s)" by (rule hs_ok_one_ack [OF ok k])
  have "sim cf ids own rq (transmit s nl (net\<lparr>nt_link := (nt_link net)(s := (nt_link net s)(c := []))\<rparr>)) ?hs"
  proof (rule sim_deliver [OF sim])
    show "sim_node ids (own s) (rq s) (nt_first net) ?hs s (nl\<lparr>ln_out := []\<rparr>)"
      by (rule sim_node_effect [OF side(1) a(3)]) (use side(1) a ack in \<open>auto simp: sim_node_def split: option.splits\<close>)
    show "ln_out nl = []" by (rule sends [OF a(3) out])
    show "hs_idle_on s c ?hs" "hs_idle_on (\<not> s) c hs" using t i by (auto simp: hs_idle_on_def)
    show "travels cf ids rq ?hs (\<not> s) c (map snd [])" using t i by (auto simp: travels_def)
  qed auto
  then show ?thesis using a(1) p(2) by simp
qed

lemma lost_sim:
  assumes sim: "sim cf ids own rq net hs" and ok: "hs_ok hs" and c: "nt_first net \<le> c" "c < nt_next net"
    and o: "\<not> is_open (nt_node net (\<not> s)) c" and l: "\<forall>d. nt_link net s d = []"
  shows "hs_step True hs (hs_lost s c hs) \<and> sim cf ids own rq (transmit s (handleDisconnect cf c (nt_node net s)) net) (hs_lost s c hs)"
proof -
  let ?nl = "nt_node net s" and ?hs = "hs_lost s c hs"
  note side = sim_side [OF sim, of s] sim_side [OF sim, of "\<not> s"]
  have h: "c \<notin> hs_open hs (\<not> s)" using side(6) o by (simp add: sim_node_def)
  have i: "hs_idle_on s d hs" for d using side(2) [of d] l by (simp add: travels_idle)
  then have idle: "hs_idle s hs" by (simp add: hs_idle_def)
  have v: "hs_view hs s \<noteq> Some c" by (rule hs_ok_lost(1) [OF ok h idle])
  have tab: "table_is ?nl (ids s) (ids (\<not> s)) (own s) (hs_view hs s)" and out: "ln_out ?nl = []" using side(1) by (simp_all add: sim_node_def)
  have "c \<notin> own s" using side(5) c(1) by auto
  then have a: "table_is (handleDisconnect cf c ?nl) (ids s) (ids (\<not> s)) (own s) (hs_view hs s)"
    "effect ?nl (handleDisconnect cf c ?nl) [] (Some c)" "ln_requests (handleDisconnect cf c ?nl) = ln_requests ?nl"
    "ln_served (handleDisconnect cf c ?nl) = ln_served ?nl" "\<forall>q. unlisted ?nl q \<longrightarrow> unlisted (handleDisconnect cf c ?nl) q"
    using lost_unknown [OF tab _ v, of cf] by simp_all
  have f: "hs_next ?hs = hs_next hs" "hs_told ?hs = hs_told hs" "hs_acks ?hs = hs_acks hs" "hs_try ?hs = hs_try hs"
    "hs_view ?hs = hs_view hs" "hs_open ?hs (\<not> s) = hs_open hs (\<not> s)" "hs_open ?hs s = hs_open hs s - {c}"
    using v by (auto simp: hs_lost_def)
  have t: "travels cf ids rq ?hs x d ps = travels cf ids rq hs x d ps" for x d ps by (simp add: travels_def f)
  have "sim cf ids own rq (transmit s (handleDisconnect cf c ?nl) net) ?hs"
  proof (rule sim_transmit [OF sim])
    show "sim_node ids (own s) (rq s) (nt_first net) ?hs s ((handleDisconnect cf c ?nl)\<lparr>ln_out := []\<rparr>)"
      by (rule sim_node_effect [OF side(1) a(2)]) (use side(1) a f in \<open>auto simp: sim_node_def split: option.splits\<close>)
    show "sim_node ids (own (\<not> s)) (rq (\<not> s)) (nt_first net) ?hs (\<not> s) (nt_node net (\<not> s))"
      by (rule sim_node_cong [OF side(6)]) (simp_all add: f)
    show "travels cf ids rq ?hs s d (nt_link net s d)" for d using side(2) by (simp add: t)
    show "travels cf ids rq ?hs (\<not> s) d (nt_link net (\<not> s) d @ map snd (filter (\<lambda>m. fst m = d) (ln_out (handleDisconnect cf c ?nl))))" for d
      using side(7) sends [OF a(2) out] by (simp add: t)
  qed (use side f sim_next [OF sim] in simp_all)
  then show ?thesis using h i idle by (blast intro: hs_step.lost)
qed

lemma opened_open [simp]: "is_open (opened c d nl) e = (e = c \<or> is_open nl e)"
  by (simp add: opened_def is_open_def)

lemma no_request:
  assumes "sim_node ids own rq first hs s nl" "ln_requests nl = Map.empty"
  shows "hs_try hs s = None"
proof (rule ccontr)
  assume "hs_try hs s \<noteq> None"
  then obtain a where "ln_requests nl = [rq \<mapsto> Some a]" using assms unfolding sim_node_def by (cases "hs_try hs s") auto
  then show False using assms(2) by (metis map_upd_nonempty)
qed

lemma sim_node_accepts:
  assumes s: "sim_node ids own rq first hs s nl"
    and "hs_view hs1 s = hs_view hs s" "hs_try hs1 s = hs_try hs s" "hs_told hs1 s = hs_told hs s"
    and n: "hs_next hs1 = Suc (hs_next hs)" "hs_open hs1 s = insert (hs_next hs) (hs_open hs s)" "first \<le> hs_next hs"
    and t: "table_is nl1 (ids s) (ids (\<not> s)) own (hs_view hs s)" and o: "\<And>x. is_open nl1 x = (x = hs_next hs \<or> is_open nl x)"
    and "ln_out nl1 = ln_out nl" "ln_requests nl1 = ln_requests nl" "ln_served nl1 = ln_served nl" "\<And>q. unlisted nl1 q = unlisted nl q"
    "ln_incoming nl1 = ln_incoming nl @ [hs_next hs]"
  shows "sim_node ids own rq first hs1 s nl1"
proof -
  have "x \<in> hs_open hs1 s \<longleftrightarrow> first \<le> x \<and> x < hs_next hs1 \<and> is_open nl1 x" for x
    using s n o by (auto simp: sim_node_def less_Suc_eq)
  then show ?thesis using assms by (cases "hs_try hs s") (auto simp: sim_node_def)
qed

lemma connect_sim:
  assumes sim: "sim cf ids own rq net hs" and ok: "hs_ok hs" and i: "told_id cf"
    and r: "ln_requests (nt_node net s) = Map.empty" and u: "request \<noteq> nc_undefined cf" and c: "c = nt_next net"
    and n: "createNode cf type (nt_node net s) = (a, nl)" and h: "connect_request cf request a c (opened c d nl) = (None, nl1)"
  shows "hs_step True hs (hs_ask s hs) \<and> sim cf ids own (rq(s := request)) (transmit s nl1
      (net\<lparr>nt_node := (nt_node net)((\<not> s) := handleConnect (Some c) (opened c d2 (nt_node net (\<not> s)))), nt_next := Suc c\<rparr>)) (hs_ask s hs)"
proof -
  let ?other = "handleConnect (Some c) (opened c d2 (nt_node net (\<not> s)))" and ?hs = "hs_ask s hs" and ?rq = "rq(s := request)"
  let ?net = "net\<lparr>nt_node := (nt_node net)((\<not> s) := ?other), nt_next := Suc c\<rparr>"
  note side = sim_side [OF sim, of s] sim_side [OF sim, of "\<not> s"]
  have t: "hs_try hs s = None" by (rule no_request [OF side(1) r])
  have k: "c = hs_next hs" using c sim_next [OF sim] by simp
  have fresh: "hs_idle_on x c hs" for x using hs_ok_fresh [OF ok] k by simp
  have f: "hs_next ?hs = Suc (hs_next hs)" "hs_told ?hs = hs_told hs" "hs_acks ?hs = hs_acks hs" "hs_try ?hs s = Some (c, Asking)"
    "hs_try ?hs (\<not> s) = hs_try hs (\<not> s)" "hs_view ?hs = hs_view hs" "\<And>x. hs_open ?hs x = insert c (hs_open hs x)"
    by (auto simp: hs_ask_def k)
  have first: "nt_first net \<le> c" using c sim_next [OF sim] by simp
  have tab: "table_is (nt_node net x) (ids x) (ids (\<not> x)) (own x) (hs_view hs x)" for x using sim_side(1) [OF sim] by (simp add: sim_node_def)
  have q: "table_is nl1 (ids s) (ids (\<not> s)) (own s) (hs_view hs s)" "ln_conns nl1 = ln_conns (opened c d nl)"
    "\<exists>t data. ln_out nl1 = ln_out (nt_node net s) @ [(c, NODE_CONNECT (ids s) request t data)] \<and> carries cf data (ids s)"
    "ln_requests nl1 = (ln_requests (nt_node net s))(request \<mapsto> Some a)" "unlisted nl1 request" "ln_served nl1 = ln_served (nt_node net s)"
    "ln_incoming nl1 = ln_incoming (nt_node net s) @ [c]"
    using request_sent [OF tab n i h [unfolded opened_def]] by (simp_all add: opened_def)
  have "ln_requests nl1 = [request \<mapsto> Some a]" using q(4) r by simp
  then have request: "\<exists>b. ln_requests nl1 = [request \<mapsto> Some b]" by blast
  obtain t1 data where out: "ln_out nl1 = [(c, NODE_CONNECT (ids s) request t1 data)]" "carries cf data (ids s)"
    using q(3) side(1) by (auto simp: sim_node_def)
  have e: "is_open nl1 x = (x = c \<or> is_open (nt_node net s) x)" for x
    using create_node(8) [OF n] q(2) by (simp add: is_open_def opened_def)
  have n2: "is_open ?other x = (x = c \<or> is_open (nt_node net (\<not> s)) x)" "ln_out ?other = ln_out (nt_node net (\<not> s))"
    "ln_requests ?other = ln_requests (nt_node net (\<not> s))" "ln_served ?other = ln_served (nt_node net (\<not> s))"
    "unlisted ?other z = unlisted (nt_node net (\<not> s)) z" "ln_incoming ?other = ln_incoming (nt_node net (\<not> s)) @ [c]" for x z
    by (auto simp: handleConnect_def add_connection_def opened_def is_open_def unlisted_def)
  have "sim cf ids own ?rq (transmit s nl1 ?net) ?hs"
  proof (rule sim_transmit [OF sim])
    have "x \<in> hs_open ?hs s \<longleftrightarrow> nt_first net \<le> x \<and> x < hs_next ?hs \<and> is_open nl1 x" for x
      using side(1) f(1,7) e first k by (auto simp: sim_node_def less_Suc_eq)
    then show "sim_node ids (own s) (?rq s) (nt_first net) ?hs s (nl1\<lparr>ln_out := []\<rparr>)"
      using side(1) q(1,5-7) request f by (auto simp: sim_node_def)
    have "table_is ?other (ids (\<not> s)) (ids (\<not> \<not> s)) (own (\<not> s)) (hs_view hs (\<not> s))"
      unfolding handleConnect_def opened_def option.case by (rule new_connection [OF tab])
    then show "sim_node ids (own (\<not> s)) (rq (\<not> s)) (nt_first net) ?hs (\<not> s) (nt_node ?net (\<not> s))"
      using sim_node_accepts [OF side(6), of ?hs ?other] f first k n2 by simp
    show "travels cf ids ?rq ?hs s x (nt_link ?net s x)" for x
      using side(2) [of x] fresh [of s] f t by (cases "x = c") (auto simp: travels_def hs_idle_on_def)
    show "travels cf ids ?rq ?hs (\<not> s) x (nt_link ?net (\<not> s) x @ map snd (filter (\<lambda>m. fst m = x) (ln_out nl1)))" for x
      using side(7) [of x] fresh [of "\<not> s"] f t out by (cases "x = c") (auto simp: travels_def hs_idle_on_def)
  qed (use u f k in simp_all)
  then show ?thesis using t by (blast intro: hs_step.ask)
qed

end
