(* ===== verification/Handshake_Runs.thy ===== *)
theory Handshake_Runs
  imports Handshake_Sim
begin

text \<open>
  The runs of two nodes that connect to each other. Ordered runs are runs of the specification; what it
  promises holds of the nodes. In runs that notice a closed connection too early it does not.
\<close>

section \<open>Ordered runs\<close>

lemma travelling:
  assumes "travels cf ids rq hs s c (p # ps)"
  obtains "hs_try hs (\<not> s) = Some (c, Asking)" | "hs_try hs s = Some (c, Granted)" | "hs_try hs s = Some (c, Refused)" | "c \<in> hs_acks hs s"
  using assms by (auto simp: travels_def split: if_splits)

lemma deliver_sim:
  assumes sim: "sim cf ids own rq net hs" and ok: "hs_ok hs" and i: "told_id cf" and l: "nt_link net s c = p # ps"
  shows "\<exists>nl hs1. receive_data cf now c p (nt_node net s) = Some nl \<and> hs_step True hs hs1 \<and>
    sim cf ids own rq (transmit s nl (net\<lparr>nt_link := (nt_link net)(s := (nt_link net s)(c := ps))\<rparr>)) hs1 \<and> hs_work hs1 < hs_work hs"
proof -
  have "travels cf ids rq hs s c (p # ps)" using sim_side(2) [OF sim, of s c] l by simp
  then show ?thesis
  proof (cases rule: travelling)
    case 1
    then show ?thesis using deliver_asking [OF sim ok i 1 l] hs_step.answer [OF 1] hs_work_answer [OF 1] by blast
  next
    case 2
    then show ?thesis using deliver_granted [OF sim ok 2 l] hs_step.granted [OF 2] hs_work_granted [OF 2] by blast
  next
    case 3
    then show ?thesis using deliver_refused [OF sim ok 3 l] hs_step.refused [OF 3] hs_work_refused [OF 3] by blast
  next
    case 4
    then show ?thesis using deliver_ack [OF sim ok 4 l] hs_step.acknowledged [OF 4 hs_ok_ack(1) [OF ok 4]] hs_work_acknowledged [OF ok 4] by blast
  qed
qed

lemma net_step_sim:
  assumes "net_step cf True net net1" "sim cf ids own rq net hs" "hs_ok hs" "told_id cf"
  shows "\<exists>rq1 hs1. hs_step True hs hs1 \<and> sim cf ids own rq1 net1 hs1"
  using assms
proof (induction rule: net_step.induct)
  case (connect net s request c type a nl d nl1 d2)
  then show ?case using connect_sim by blast
next
  case (deliver net s c p ps now nl)
  then show ?case using deliver_sim [OF deliver.prems deliver.hyps(1), of now] by fastforce
next
  case (lost c net s)
  then show ?case using lost_sim by blast
qed

lemma net_run_sim:
  assumes "net_run cf True net net1" "sim cf ids own rq net hs" "hs_ok hs" "told_id cf"
  shows "\<exists>rq1 hs1. hs_ok hs1 \<and> sim cf ids own rq1 net1 hs1"
  using assms
proof (induction rule: net_run.induct)
  case (step net net1 net2)
  then obtain rq1 hs1 where h: "hs_ok hs1" "sim cf ids own rq1 net1 hs1" by blast
  then obtain rq2 hs2 where "hs_step True hs1 hs2" "sim cf ids own rq2 net2 hs2"
    using net_step_sim [OF step.hyps(2)] step.prems(3) by blast
  then show ?case using hs_step_ok h(1) by blast
qed blast

section \<open>The start\<close>

lemma listen_all_rest:
  assumes "listen_all created nl = (True, nl1)" "\<forall>c. Some c \<in> set created \<longrightarrow> c < first"
    "dom (ln_connectionNodes nl) \<subseteq> {..< first}" "\<forall>c a. ln_connectionNodes nl c = Some a \<longrightarrow> a = ln_self nl"
  shows "ln_out nl1 = ln_out nl \<and> ln_served nl1 = ln_served nl \<and> ln_pending nl1 = ln_pending nl \<and> dom (ln_connectionNodes nl1) \<subseteq> {..< first} \<and>
    (\<forall>c a. ln_connectionNodes nl1 c = Some a \<longrightarrow> a = ln_self nl1)"
  using assms
proof (induction created nl rule: listen_all.induct)
  case (3 c created nl)
  have f: "ln_self (add_listening c nl) = ln_self nl" "ln_out (add_listening c nl) = ln_out nl" "ln_served (add_listening c nl) = ln_served nl"
    "ln_connectionNodes (add_listening c nl) = (ln_connectionNodes nl)(c \<mapsto> ln_self nl)" "ln_pending (add_listening c nl) = ln_pending nl"
    by (simp_all add: add_listening_def add_multicast_def add_connection_def Let_def upd_node_def)
  have "dom (ln_connectionNodes (add_listening c nl)) \<subseteq> {..< first}" using "3.prems"(2,3) f(4) by simp
  moreover have "\<forall>d a. ln_connectionNodes (add_listening c nl) d = Some a \<longrightarrow> a = ln_self (add_listening c nl)"
    using "3.prems"(4) f(1,4) by simp
  moreover have "listen_all created (add_listening c nl) = (True, nl1)" "\<forall>c. Some c \<in> set created \<longrightarrow> c < first"
    using "3.prems"(1,2) by simp_all
  ultimately show ?case using "3.IH" f by metis
qed auto

lemma listening_table:
  assumes l: "just_listens me first nl" and p: "p \<noteq> me"
  shows "table_is nl me p (dom (ln_connectionNodes nl)) None" "ln_out nl = []" "ln_requests nl = Map.empty" "ln_served nl = []"
    "dom (ln_connectionNodes nl) \<subseteq> {..< first}"
proof -
  obtain pipe other created type ds conns st where
    h: "listen (Some (pipe, other)) created (new_local me type ds conns st) = (True, nl)" "pipe \<noteq> other" "Some other \<notin> set created"
      "pipe < first" "\<forall>c. Some c \<in> set created \<longrightarrow> c < first"
    using l unfolding just_listens_def by blast
  let ?nl = "connectSelf pipe other (new_local me type ds conns st)"
  have f: "ln_self ?nl = 0" "ln_nodes ?nl = [me \<mapsto> 0]" "ln_requests ?nl = Map.empty" "ln_out ?nl = []" "ln_served ?nl = []"
    "ln_connectionNodes ?nl = [pipe \<mapsto> 0]" "nd_id (node ?nl 0) = me"
    by (simp_all add: new_local_def node_def connectSelf_def add_connection_def upd_node_def Let_def)
  obtain nl1 where a: "listen_all created ?nl = (True, nl1)" "nl = upd_node (ln_self nl1) (\<lambda>nd. nd\<lparr>nd_state := STATE_LISTENING\<rparr>) nl1"
    using h(1) by (auto simp: listen_def split: if_splits prod.splits)
  note g = listen_all_fields [OF a(1) h(3), unfolded f] and r = listen_all_rest [OF a(1) h(5), unfolded f]
  have "dom [pipe \<mapsto> 0] \<subseteq> {..< first}" "\<forall>c a. [pipe \<mapsto> 0] c = Some a \<longrightarrow> a = (0::nat)" using h(4) by simp_all
  then have r1: "ln_out nl1 = []" "ln_served nl1 = []" "dom (ln_connectionNodes nl1) \<subseteq> {..< first}" "\<And>c a. ln_connectionNodes nl1 c = Some a \<Longrightarrow> a = 0"
    using r g by blast+
  show "ln_out nl = []" "ln_served nl = []" "ln_requests nl = Map.empty" "dom (ln_connectionNodes nl) \<subseteq> {..< first}"
    using r1 g by (simp_all add: a(2))
  have "nodes_ok nl" by (rule listen_ok(1) [OF h(1-3)])
  moreover have "nd_id (node nl 0) = me" "nd_state (node nl 0) = STATE_LISTENING" "ln_self nl = 0" "ln_nodes nl p = None"
    using g f(7) p by (simp_all add: a(2))
  moreover have "ln_connectionNodes nl c = (if c \<in> dom (ln_connectionNodes nl) then Some 0 else None)" for c
    using r1(4) [of c] g by (auto simp: a(2))
  ultimately show "table_is nl me p (dom (ln_connectionNodes nl)) None" using p unfolding table_is_def by simp
qed

lemma start_sim:
  assumes "net_start ids net" "rq True \<noteq> nc_undefined cf" "rq False \<noteq> nc_undefined cf"
  shows "sim cf ids (\<lambda>s. dom (ln_connectionNodes (nt_node net s))) rq net (hs_start (nt_first net))"
proof -
  have start: "ids True \<noteq> ids False" "\<forall>s. ids s \<noteq> 0 \<and> just_listens (ids s) (nt_first net) (nt_node net s)" "\<forall>s c. nt_link net s c = []"
    "nt_next net = nt_first net"
    using assms(1) unfolding net_start_def by blast+
  have n: "just_listens (ids s) (nt_first net) (nt_node net s)" "ids (\<not> s) \<noteq> ids s" "ids s \<noteq> 0" "rq s \<noteq> nc_undefined cf" "nt_link net s c = []" for s c
  proof -
    show "ids (\<not> s) \<noteq> ids s" using start(1) by (cases s) simp_all
    show "rq s \<noteq> nc_undefined cf" using assms(2,3) by (cases s) simp_all
  qed (use start(2,3) in blast)+
  note l = listening_table [OF n(1,2)]
  have "sim_node ids (dom (ln_connectionNodes (nt_node net s))) (rq s) (nt_first net) (hs_start (nt_first net)) s (nt_node net s)" for s
    using l [of s] by (simp add: sim_node_def hs_start_def)
  then show ?thesis using n l start(4) by (simp add: sim_def travels_def hs_start_def)
qed

lemma ordered_sim:
  assumes "net_start ids net" "net_run cf True net net1" "told_id cf"
  obtains own rq hs where "sim cf ids own rq net1 hs" "hs_ok hs"
proof -
  let ?rq = "\<lambda>_. nc_undefined cf + 1"
  have "sim cf ids (\<lambda>s. dom (ln_connectionNodes (nt_node net s))) ?rq net (hs_start (nt_first net))" by (rule start_sim [OF assms(1)]) auto
  then show ?thesis using net_run_sim [OF assms(2) _ hs_ok_start assms(3)] that by blast
qed

definition peer_connection :: "'o LocalNode \<Rightarrow> u128 \<Rightarrow> nat option" where
  "peer_connection nl identifier =
     (case getNode nl identifier of None \<Rightarrow> None | Some a \<Rightarrow> if isConnected (node nl a) then nd_outgoing (node nl a) else None)"

lemma table_peer: "table_is nl me p own v \<Longrightarrow> peer_connection nl p = v"
  by (auto simp: table_is_def peer_connection_def getNode_def split: option.splits)

lemma sim_peer: "sim cf ids own rq net hs \<Longrightarrow> peer_connection (nt_node net s) (ids (\<not> s)) = hs_view hs s"
  using sim_side(1) [of cf ids own rq net hs s] table_peer by (auto simp: sim_node_def)

text \<open>Nothing travels.\<close>

definition quiet :: "'o Net \<Rightarrow> bool" where
  "quiet net = (\<forall>s c. nt_link net s c = [])"

lemma sim_all_idle: "sim cf ids own rq net hs \<Longrightarrow> \<forall>c. nt_link net s c = [] \<Longrightarrow> hs_idle s hs"
  using sim_side(2) [of cf ids own rq net hs s] by (auto simp: hs_idle_def travels_idle)

lemma sim_arrives:
  assumes sim: "sim cf ids own rq net hs" and ok: "hs_ok hs" and l: "nt_link net s c = p # ps"
  shows "c \<in> set (ln_incoming (nt_node net s))"
proof -
  have "travels cf ids rq hs s c (p # ps)" using sim_side(2) [OF sim, of s c] l by simp
  then have "c \<in> hs_open hs s"
  proof (cases rule: travelling)
    case 1
    then show ?thesis using hs_ok_try(5) [OF ok 1] by simp
  next
    case 4
    then show ?thesis using hs_ok_known [OF ok] hs_ok_ack(1) [OF ok 4] by blast
  qed (use hs_ok_try(1) [OF ok] in auto)
  then show ?thesis using sim_side(1) [OF sim, of s] by (auto simp: sim_node_def)
qed

lemma sim_quiet_agrees:
  assumes sim: "sim cf ids own rq net hs" and ok: "hs_ok hs" and q: "quiet net"
  shows "peer_connection (nt_node net True) (ids False) = peer_connection (nt_node net False) (ids True)"
    "ln_requests (nt_node net s) = Map.empty"
proof -
  have i: "hs_idle x hs" for x using sim_all_idle [OF sim] q by (simp add: quiet_def)
  then have "hs_view hs True = hs_view hs False" by (intro hs_ok_idle [OF ok])
  then show "peer_connection (nt_node net True) (ids False) = peer_connection (nt_node net False) (ids True)"
    using sim_peer [OF sim, of True] sim_peer [OF sim, of False] by simp
  have "hs_try hs s = None" using i [of s] i [of "\<not> s"] by (cases "hs_try hs s" rule: phase_cases) (auto simp: hs_idle_def hs_idle_on_def)
  then show "ln_requests (nt_node net s) = Map.empty" using sim_side(1) [OF sim, of s] by (simp add: sim_node_def)
qed

end
