(* ===== verification/Handshake.thy ===== *)
theory Handshake
  imports Handshake_Runs
begin

text \<open>
  What the handshake of two nodes guarantees in ordered runs, and what goes wrong when a closed
  connection is noticed before the packets of another one have been handled.
\<close>

section \<open>What a side can do\<close>

lemma transmit_first: "nt_first (transmit s nl net) = nt_first net"
  by (simp add: transmit_def)

lemma may_ask:
  assumes sim: "sim cf ids own rq net hs" and ok: "hs_ok hs" and i: "told_id cf" and t: "hs_try hs s = None"
  shows "\<exists>net1 rq1. net_step cf ordered net net1 \<and> sim cf ids own rq1 net1 (hs_ask s hs) \<and> nt_first net1 = nt_first net"
proof -
  let ?nl = "nt_node net s" and ?c = "nt_next net" and ?request = "nc_undefined cf + 1"
  have r: "ln_requests ?nl = Map.empty" "nd_state (node ?nl (ln_self ?nl)) = STATE_LISTENING" "nodes_ok ?nl"
    using sim_side(1) [OF sim, of s] t by (simp_all add: sim_node_def table_is_def)
  obtain a nl where n: "createNode cf 0 ?nl = (a, nl)" by (cases "createNode cf 0 ?nl")
  note f = create_node [OF n]
  have "ln_self ?nl \<noteq> a" using f(1) r(3) by (auto simp: nodes_ok_def self_ok_def)
  then have "nd_state (node nl (ln_self nl)) = STATE_LISTENING" "nd_state (node nl a) = STATE_CLOSED"
    using r(2) f(3) f(12) [of "ln_self ?nl"] f(13) by (simp_all add: isConnected_def)
  then obtain nl1 where h: "connect_request cf ?request a ?c (opened ?c 0 nl) = (None, nl1)"
    by (simp add: connect_request_def opened_def Let_def node_def)
  have u: "?request \<noteq> nc_undefined cf" by simp
  note s = net_step.connect [OF r(1) u HOL.refl n h, of ordered 0] connect_sim [OF sim ok i r(1) u HOL.refl n h, of 0]
  show ?thesis by (rule exI, rule exI, rule conjI, rule s(1), rule conjI, rule conjunct2 [OF s(2)],
        simp add: transmit_first)
qed

lemma may_deliver:
  assumes sim: "sim cf ids own rq net hs" and ok: "hs_ok hs" and l: "\<not> hs_idle_on s c hs"
    and d: "\<And>p ps. nt_link net s c = p # ps \<Longrightarrow> \<exists>nl. receive_data cf 0 c p (nt_node net s) = Some nl \<and>
      sim cf ids own rq (transmit s nl (net\<lparr>nt_link := (nt_link net)(s := (nt_link net s)(c := ps))\<rparr>)) hs1"
  shows "\<exists>net1. net_step cf ordered net net1 \<and> sim cf ids own rq net1 hs1 \<and> nt_first net1 = nt_first net"
proof -
  have "nt_link net s c \<noteq> []" using sim_side(2) [OF sim, of s c] travels_idle l by metis
  then obtain p ps where p: "nt_link net s c = p # ps" by (cases "nt_link net s c") auto
  obtain nl where nl: "receive_data cf 0 c p (nt_node net s) = Some nl"
    "sim cf ids own rq (transmit s nl (net\<lparr>nt_link := (nt_link net)(s := (nt_link net s)(c := ps))\<rparr>)) hs1"
    using d [OF p] by blast
  show ?thesis
    by (rule exI, rule conjI, rule net_step.deliver [OF p sim_arrives [OF sim ok p] nl(1)]) (use nl(2) in \<open>simp add: transmit_first\<close>)
qed

lemma may_answer:
  assumes "sim cf ids own rq net hs" "hs_ok hs" "told_id cf" "hs_try hs s = Some (c, Asking)"
  shows "\<exists>net1. net_step cf ordered net net1 \<and> sim cf ids own rq net1 (hs_answer s c hs) \<and> nt_first net1 = nt_first net"
  using may_deliver [OF assms(1,2), of "\<not> s" c "hs_answer s c hs" ordered] deliver_asking [OF assms(1-3), of "\<not> s" c] assms(4)
  by (auto simp: hs_idle_on_def)

lemma may_grant:
  assumes "sim cf ids own rq net hs" "hs_ok hs" "hs_try hs s = Some (c, Granted)"
  shows "\<exists>net1. net_step cf ordered net net1 \<and> sim cf ids own rq net1 (hs_granted s c hs) \<and> nt_first net1 = nt_first net"
  using may_deliver [OF assms(1,2), of s c "hs_granted s c hs" ordered] deliver_granted [OF assms] assms(3)
  by (auto simp: hs_idle_on_def)

section \<open>The events that are left\<close>

fun of_handshake :: "NodePacket \<Rightarrow> bool" where
  "of_handshake (NODE_CONNECT nodeID request type data) = True"
| "of_handshake (NODE_CONNECT_REPLY nodeID request type data) = True"
| "of_handshake NODE_CONNECT_ACK = True"
| "of_handshake p = False"

lemma sim_handshake: "sim cf ids own rq net hs \<Longrightarrow> nt_link net s c = p # ps \<Longrightarrow> of_handshake p"
  using sim_side(2) [of cf ids own rq net hs s c] by (auto simp: travels_def split: if_splits)

definition no_more :: "'o LocalNode \<Rightarrow> 'o LocalNode \<Rightarrow> bool" where
  "no_more nl nl1 = (length (ln_incoming nl1) \<le> length (ln_incoming nl))"

lemma no_more_remove: "no_more nl (remove_connection c nl)"
  by (simp add: no_more_def length_remove1)

lemma no_more_same: "ln_incoming nl1 = ln_incoming nl \<Longrightarrow> no_more nl nl1"
  by (simp add: no_more_def)

lemma no_more_trans: "no_more nl nl1 \<Longrightarrow> no_more nl1 nl2 \<Longrightarrow> no_more nl nl2"
  by (simp add: no_more_def)

lemma create_incoming: "createNode cf type nl = (a, nl1) \<Longrightarrow> ln_incoming nl1 = ln_incoming nl"
  by (auto simp: createNode_def)

lemma accept_incoming: "ln_incoming (accept_node cf c a request data nl) = ln_incoming nl"
  by (simp add: accept_node_def Let_def)

lemma finish_incoming: "ln_incoming (finish_connect cf c a request data nl) = ln_incoming nl"
  by (simp add: finish_connect_def node_send_def split: option.split)

lemma receive_no_more:
  assumes "of_handshake p" "receive_command cf c from p nl = Some nl1"
  shows "no_more nl nl1"
proof (cases p)
  case (NODE_CONNECT nodeID request type data)
  have "no_more nl (remove_connection c (conn_send c q nl))" for q
    using no_more_remove [of "conn_send c q nl" c] by (simp add: no_more_def)
  then show ?thesis using NODE_CONNECT assms create_incoming [of cf type nl]
    by (auto simp: cmdConnect_def accept_incoming intro: no_more_same split: option.splits if_splits prod.splits)
next
  case (NODE_CONNECT_REPLY nodeID request type data)
  have "no_more nl (ln_serve request v (remove_connection c nl))" "no_more nl (ln_serve request v (drop_peer nodeID a (remove_connection c nl)))" for v a
    using no_more_remove [of nl c] by (simp_all add: no_more_def drop_peer_def Let_def)
  then show ?thesis using NODE_CONNECT_REPLY assms create_incoming [of cf type nl]
    by (auto simp: cmdConnectReply_def finish_incoming intro: no_more_same split: option.splits if_splits prod.splits)
next
  case NODE_CONNECT_ACK
  then show ?thesis using assms by (auto simp: cmdConnectAck_def intro: no_more_same split: option.splits)
qed (use assms in auto)

lemma data_no_more:
  assumes "of_handshake p" "receive_data cf now c p nl = Some nl1"
  shows "no_more nl nl1"
proof -
  let ?nl = "case ln_connectionNodes nl c of None \<Rightarrow> nl | Some a \<Rightarrow> upd_node a (\<lambda>nd. nd\<lparr>nd_lastReceive := now\<rparr>) nl"
  have k: "ln_incoming ?nl = ln_incoming nl" by (simp split: option.split)
  have "\<not> in_command_thread p" using assms(1) by (cases p) auto
  then obtain nl2 where r: "receive_command cf c (ln_connectionNodes nl c) p ?nl = Some nl2" "nl1 = redispatchCommands cf nl2"
    using assms(2) by (auto simp: receive_data_def dispatchCommand_def)
  show ?thesis using receive_no_more [OF assms(1) r(1)] k r(2) by (simp add: no_more_def)
qed

lemma length_remove1_less: "c \<in> set xs \<Longrightarrow> length (remove1 c xs) < length xs"
  using length_pos_if_in_set [of c xs] by (simp add: length_remove1)

lemma length_remove1_twice: "c \<in> set xs \<Longrightarrow> length (remove1 c (remove1 d xs)) < length xs"
  using length_remove1_less [of c xs] length_remove1_less [of d xs] length_remove1_less [of c "remove1 d xs"]
  by (cases "d = c"; cases "d \<in> set xs") (auto simp: length_remove1 remove1_idem)

lemma lost_incoming:
  assumes "c \<in> set (ln_incoming nl)"
  shows "length (ln_incoming (handleDisconnect cf c nl)) < length (ln_incoming nl)"
  using length_remove1_less [OF assms] length_remove1_twice [OF assms]
  by (auto simp: handleDisconnect_def lose_node_def lose_multicast_def forget_instances_def push_command_def Let_def
      split: option.split)

text \<open>Connections to be noticed, on both sides.\<close>

definition net_incoming :: "'o Net \<Rightarrow> nat" where
  "net_incoming net = length (ln_incoming (nt_node net True)) + length (ln_incoming (nt_node net False))"

lemma net_incoming_side: "net_incoming net = length (ln_incoming (nt_node net s)) + length (ln_incoming (nt_node net (\<not> s)))"
  by (cases s) (simp_all add: net_incoming_def)

lemma net_incoming_transmit:
  "net_incoming (transmit s nl net) = length (ln_incoming nl) + length (ln_incoming (nt_node net (\<not> s)))"
  by (simp add: net_incoming_side [of _ s] transmit_def)

lemma event_work:
  assumes "net_step cf True net net1" "nt_next net1 = nt_next net" "sim cf ids own rq net hs" "hs_ok hs" "told_id cf"
  shows "\<exists>hs1. sim cf ids own rq net1 hs1 \<and> hs_ok hs1 \<and> hs_work hs1 + net_incoming net1 < hs_work hs + net_incoming net"
  using assms
proof (induction rule: net_step.induct)
  case (connect net s request c type a nl d nl1 d2)
  then show ?case by (simp add: transmit_def)
next
  case (deliver net s c p ps now nl)
  let ?net = "net\<lparr>nt_link := (nt_link net)(s := (nt_link net s)(c := ps))\<rparr>"
  obtain hs1 where h: "hs_step True hs hs1" "sim cf ids own rq (transmit s nl ?net) hs1" "hs_work hs1 < hs_work hs"
    using deliver_sim [OF deliver.prems(2-4) deliver.hyps(1), of now] deliver.hyps(3) by auto
  have "no_more (nt_node net s) nl" by (rule data_no_more [OF sim_handshake [OF deliver.prems(2) deliver.hyps(1)] deliver.hyps(3)])
  then have "net_incoming (transmit s nl ?net) \<le> net_incoming net"
    by (simp add: net_incoming_transmit net_incoming_side [of net s] no_more_def)
  then show ?case using h hs_step_ok deliver.prems(3) by fastforce
next
  case (lost net c s)
  have l: "hs_step True hs (hs_lost s c hs)" "sim cf ids own rq (transmit s (handleDisconnect cf c (nt_node net s)) net) (hs_lost s c hs)"
    using lost_sim [OF lost.prems(2,3) lost.hyps(1-3)] lost.hyps(6) by blast+
  have "net_incoming (transmit s (handleDisconnect cf c (nt_node net s)) net) < net_incoming net"
    using lost_incoming [OF lost.hyps(4), of cf] by (simp add: net_incoming_transmit net_incoming_side [of net s])
  moreover have "hs_work (hs_lost s c hs) = hs_work hs"
    by (simp add: hs_lost_def hs_work_def side_work_def)
  ultimately show ?case using l hs_step_ok lost.prems(3) by fastforce
qed

text \<open>
  Events of the packets and connections that exist: steps in which no application makes a new attempt, counted.
\<close>

inductive net_events :: "NodeConfig \<Rightarrow> bool \<Rightarrow> nat \<Rightarrow> 'o Net \<Rightarrow> 'o Net \<Rightarrow> bool" for cf ordered where
  none: "net_events cf ordered 0 net net"
| more: "net_events cf ordered k net net1 \<Longrightarrow> net_step cf ordered net1 net2 \<Longrightarrow> nt_next net2 = nt_next net1 \<Longrightarrow>
    net_events cf ordered (Suc k) net net2"

lemma hs_work_bound: "hs_work hs \<le> 8"
proof -
  have "phase_work t \<le> 3" for t by (cases t rule: phase_work.cases) simp_all
  then have "side_work s hs \<le> 4" for s using add_mono [of "phase_work (hs_try hs s)" 3 "if hs_acks hs s = {} then 0 else 1" 1]
    by (simp add: side_work_def)
  then show ?thesis using add_mono [of "side_work True hs" 4 "side_work False hs" 4] by (simp add: hs_work_def)
qed

lemma events_work:
  assumes "net_events cf True k net net1" "sim cf ids own rq net hs" "hs_ok hs" "told_id cf"
  shows "\<exists>hs1. sim cf ids own rq net1 hs1 \<and> hs_ok hs1 \<and> k + hs_work hs1 + net_incoming net1 \<le> hs_work hs + net_incoming net"
  using assms
proof (induction rule: net_events.induct)
  case (more k net net1 net2)
  then obtain hs1 where h: "sim cf ids own rq net1 hs1" "hs_ok hs1" "k + hs_work hs1 + net_incoming net1 \<le> hs_work hs + net_incoming net"
    by blast
  obtain hs2 where "sim cf ids own rq net2 hs2" "hs_ok hs2" "hs_work hs2 + net_incoming net2 < hs_work hs1 + net_incoming net1"
    using event_work [OF more.hyps(2,3) h(1,2) more.prems(3)] by blast
  then show ?case using h(3) by (intro exI [of _ hs2]) simp
qed auto

lemma sim_delivery:
  assumes sim: "sim cf ids own rq net hs" and ok: "hs_ok hs" and i: "told_id cf" and q: "\<not> quiet net"
  shows "\<exists>net1. net_step cf ordered net net1 \<and> nt_next net1 = nt_next net"
proof -
  obtain s c p ps where l: "nt_link net s c = p # ps" using q unfolding quiet_def by (metis neq_Nil_conv)
  obtain nl where nl: "receive_data cf 0 c p (nt_node net s) = Some nl" using deliver_sim [OF sim ok i l] by blast
  let ?net = "transmit s nl (net\<lparr>nt_link := (nt_link net)(s := (nt_link net s)(c := ps))\<rparr>)"
  have "net_step cf ordered net ?net" by (rule net_step.deliver [OF l sim_arrives [OF sim ok l] nl])
  moreover have "nt_next ?net = nt_next net" by (simp add: transmit_def)
  ultimately show ?thesis by blast
qed

definition settled :: "(bool \<Rightarrow> u128) \<Rightarrow> 'o Net \<Rightarrow> bool" where
  "settled ids net = (quiet net \<and> (\<forall>s. ln_requests (nt_node net s) = Map.empty) \<and>
     peer_connection (nt_node net True) (ids False) = peer_connection (nt_node net False) (ids True))"

section \<open>Guarantees\<close>

text \<open>
  C8. If an application has been told that its node is connected to another, each of the two is connected to the other, by
  the same connection; and whenever no packet is under way, both nodes know the same connection or both know none.
\<close>

theorem handshake_agrees:
  assumes "told_id cf" "net_start ids net" "net_run cf True net net1"
  shows "(\<forall>s r. (r, SERVED_BOOL True) \<in> set (ln_served (nt_node net1 s)) \<longrightarrow>
      peer_connection (nt_node net1 s) (ids (\<not> s)) \<noteq> None \<and>
      peer_connection (nt_node net1 (\<not> s)) (ids s) = peer_connection (nt_node net1 s) (ids (\<not> s))) \<and>
    (quiet net1 \<longrightarrow> peer_connection (nt_node net1 True) (ids False) = peer_connection (nt_node net1 False) (ids True))"
proof -
  obtain own rq hs where h: "sim cf ids own rq net1 hs" "hs_ok hs" by (rule ordered_sim [OF assms(2,3,1)])
  have p: "peer_connection (nt_node net1 s) (ids (\<not> s)) = hs_view hs s" "peer_connection (nt_node net1 (\<not> s)) (ids s) = hs_view hs (\<not> s)" for s
    using sim_peer [OF h(1), of s] sim_peer [OF h(1), of "\<not> s"] by simp_all
  have "hs_view hs s \<noteq> None \<and> hs_view hs (\<not> s) = hs_view hs s" if "(r, SERVED_BOOL True) \<in> set (ln_served (nt_node net1 s))" for s r
    using sim_side(1) [OF h(1), of s] that hs_ok_told [OF h(2), of s] unfolding sim_node_def by blast
  then show ?thesis using sim_quiet_agrees(1) [OF h] unfolding p by blast
qed

text \<open>
  C19. Every packet of two nodes that connect to each other is handled where it arrives; and however the
  packets and the closed connections are handled from then on, without new attempts there are at
  most eight more events and one per connection of the two nodes, and where no further event is possible nothing
  travels, no application waits, and the nodes agree.
\<close>

theorem handshake_settles:
  assumes "told_id cf" "net_start ids net" "net_run cf True net net1"
  shows "(\<forall>s c p ps now. nt_link net1 s c = p # ps \<longrightarrow> receive_data cf now c p (nt_node net1 s) \<noteq> None) \<and>
    (\<forall>k net2. net_events cf True k net1 net2 \<longrightarrow> k \<le> 8 + net_incoming net1 \<and>
       ((\<exists>net3. net_step cf True net2 net3 \<and> nt_next net3 = nt_next net2) \<or> settled ids net2))"
proof -
  obtain own rq hs where h: "sim cf ids own rq net1 hs" "hs_ok hs" by (rule ordered_sim [OF assms(2,3,1)])
  have "k \<le> 8 + net_incoming net1 \<and> ((\<exists>net3. net_step cf True net2 net3 \<and> nt_next net3 = nt_next net2) \<or> settled ids net2)"
    if e: "net_events cf True k net1 net2" for k net2
  proof -
    obtain hs2 where s: "sim cf ids own rq net2 hs2" "hs_ok hs2" "k + hs_work hs2 + net_incoming net2 \<le> hs_work hs + net_incoming net1"
      using events_work [OF e h assms(1)] by blast
    have "settled ids net2" if "quiet net2" using that sim_quiet_agrees [OF s(1,2) that] by (simp add: settled_def)
    then show ?thesis using s(3) hs_work_bound [of hs] sim_delivery [OF s(1,2) assms(1)] by fastforce
  qed
  then show ?thesis using deliver_sim [OF h assms(1)] by (metis option.distinct(1))
qed

lemma events_end:
  assumes "net_events cf True 0 net net"
    and "\<forall>k net2. net_events cf True k net net2 \<longrightarrow> k \<le> b \<and> ((\<exists>net3. net_step cf True net2 net3 \<and> nt_next net3 = nt_next net2) \<or> settled ids net2)"
  shows "\<exists>k net2. net_events cf True k net net2 \<and> k \<le> b \<and> settled ids net2"
proof -
  let ?P = "\<lambda>k. \<exists>net2. net_events cf True k net net2"
  obtain k where k: "?P k" "\<forall>j. ?P j \<longrightarrow> j \<le> k"
    using ex_has_greatest_nat [of ?P 0 id "Suc b"] assms by (auto simp: less_Suc_eq_le)
  then obtain net2 where e: "net_events cf True k net net2" by blast
  have "\<not> (\<exists>net3. net_step cf True net2 net3 \<and> nt_next net3 = nt_next net2)"
    using net_events.more [OF e] k(2) by fastforce
  then show ?thesis using assms(2) e by blast
qed

section \<open>A closed connection that is noticed too early\<close>

definition mc_free :: "'o LocalNode \<Rightarrow> bool" where
  "mc_free nl = (\<forall>a. nd_outMulticast (node nl a) = None)"

lemma mc_free_same: "(\<And>a. node nl1 a = node nl a) \<Longrightarrow> mc_free nl \<Longrightarrow> mc_free nl1"
  by (simp add: mc_free_def)

lemma mc_free_upd: "mc_free nl \<Longrightarrow> (\<And>nd. nd_outMulticast nd = None \<Longrightarrow> nd_outMulticast (f nd) = None) \<Longrightarrow> mc_free (upd_node a f nl)"
  by (simp add: mc_free_def)

lemma mc_free_fold: "(\<And>x nl. mc_free nl \<Longrightarrow> mc_free (f x nl)) \<Longrightarrow> mc_free nl \<Longrightarrow> mc_free (fold f xs nl)"
  by (induction xs arbitrary: nl) auto

lemma mc_free_group: "mc_free nl \<Longrightarrow> mc_free (connect_group d a nl)"
  by (auto simp: connect_group_def Let_def mc_free_def split: option.split)

lemma mc_free_multicast: "mc_free nl \<Longrightarrow> mc_free (connectMulticast a nl)"
  unfolding connectMulticast_def by (auto intro!: mc_free_fold mc_free_group)

lemma mc_free_create: "createNode cf type nl = (a, nl1) \<Longrightarrow> mc_free nl \<Longrightarrow> mc_free nl1"
  by (auto simp: createNode_def mc_free_def)

lemma mc_free_add: "mc_free nl \<Longrightarrow> mc_free (add_node c a (node_deserialize cf a data nl))"
  by (auto simp: mc_free_def node_deserialize_def new_connection_descriptions_def split: prod.split option.split)

lemma mc_free_finish: "mc_free nl \<Longrightarrow> mc_free (finish_connect cf c a request data nl)"
  unfolding finish_connect_def
  by (rule mc_free_multicast, rule mc_free_same [OF _ mc_free_add]) (auto simp: node_send_def split: option.split)

lemma mc_free_accept: "mc_free nl \<Longrightarrow> mc_free (accept_node cf c a request data nl)"
  unfolding accept_node_def Let_def by (rule mc_free_same [OF _ mc_free_add]) auto

lemma mc_free_receive:
  assumes "mc_free nl" "of_handshake p" "receive_command cf c from p nl = Some nl1"
  shows "mc_free nl1"
proof (cases p)
  case (NODE_CONNECT nodeID request type data)
  have "mc_free (remove_connection c (conn_send c q nl))" for q by (rule mc_free_same [OF _ assms(1)]) simp
  then show ?thesis using NODE_CONNECT assms mc_free_accept mc_free_create [of cf type nl]
    by (auto simp: cmdConnect_def split: option.splits if_splits prod.splits)
next
  case (NODE_CONNECT_REPLY nodeID request type data)
  have "mc_free (ln_serve request v (remove_connection c nl))" for v by (rule mc_free_same [OF _ assms(1)]) simp
  moreover have "mc_free (ln_serve request v (drop_peer nodeID a (remove_connection c nl)))" for v a
    using assms(1) by (auto simp: mc_free_def drop_peer_def Let_def)
  ultimately show ?thesis using NODE_CONNECT_REPLY assms mc_free_finish mc_free_create [of cf type nl]
    by (auto simp: cmdConnectReply_def split: option.splits if_splits prod.splits)
next
  case NODE_CONNECT_ACK
  then show ?thesis using assms mc_free_multicast by (auto simp: cmdConnectAck_def split: option.splits)
qed (use assms in auto)

lemma mc_free_data:
  assumes "mc_free nl" "of_handshake p" "receive_data cf now c p nl = Some nl1"
  shows "mc_free nl1"
proof -
  let ?nl = "case ln_connectionNodes nl c of None \<Rightarrow> nl | Some a \<Rightarrow> upd_node a (\<lambda>nd. nd\<lparr>nd_lastReceive := now\<rparr>) nl"
  have k: "mc_free ?nl" using assms(1) by (auto intro: mc_free_upd split: option.split)
  have "\<not> in_command_thread p" using assms(2) by (cases p) auto
  then obtain nl2 where r: "receive_command cf c (ln_connectionNodes nl c) p ?nl = Some nl2" "nl1 = redispatchCommands cf nl2"
    using assms(3) by (auto simp: receive_data_def dispatchCommand_def)
  have "mc_free nl2" by (rule mc_free_receive [OF k assms(2) r(1)])
  then show ?thesis using r(2) by (simp add: mc_free_def)
qed

lemma mc_free_lost:
  assumes "mc_free nl"
  shows "mc_free (handleDisconnect cf c nl)"
  using assms by (auto simp: handleDisconnect_def lose_node_def lose_multicast_def forget_instances_def push_command_def Let_def mc_free_def
      split: option.split)

lemma mc_free_asked:
  assumes "mc_free nl" "createNode cf type nl = (a, nl1)" "connect_request cf request a c (opened c d nl1) = (None, nl2)"
  shows "mc_free nl2"
proof -
  have "mc_free nl1" by (rule mc_free_create [OF assms(2,1)])
  moreover have "node nl2 b = node nl1 b" for b
    using assms(3) by (auto simp: connect_request_def opened_def add_connection_def Let_def node_def conn_send_def split: if_splits)
  ultimately show ?thesis by (rule mc_free_same [rotated])
qed

definition mc_net :: "'o Net \<Rightarrow> bool" where
  "mc_net net = (\<forall>s. mc_free (nt_node net s))"

lemma mc_net_transmit: "mc_free nl \<Longrightarrow> mc_free (nt_node net (\<not> s)) \<Longrightarrow> mc_net (transmit s nl net)"
  unfolding mc_net_def transmit_def all_sides [of _ s] by (simp add: mc_free_def node_def)

lemma mc_net_step:
  assumes "net_step cf ordered net net1" "sim cf ids own rq net hs" "mc_net net"
  shows "mc_net net1"
  using assms
proof (induction rule: net_step.induct)
  case (connect net s request c type a nl d nl1 d2)
  have "mc_free (handleConnect (Some c) (opened c d2 (nt_node net (\<not> s))))"
    by (rule mc_free_same [of _ "nt_node net (\<not> s)"]) (use connect.prems in \<open>simp_all add: mc_net_def handleConnect_def add_connection_def opened_def node_def\<close>)
  moreover have "mc_free nl1" using mc_free_asked [OF _ connect.hyps(4,5)] connect.prems(2) by (simp add: mc_net_def)
  ultimately show ?case by (intro mc_net_transmit) simp_all
next
  case (deliver net s c p ps now nl)
  have "mc_free nl" using mc_free_data [OF _ sim_handshake [OF deliver.prems(1) deliver.hyps(1)] deliver.hyps(3)] deliver.prems(2)
    by (simp add: mc_net_def)
  then show ?case using deliver.prems(2) by (intro mc_net_transmit) (simp_all add: mc_net_def)
next
  case (lost c net s)
  then show ?case by (intro mc_net_transmit mc_free_lost) (simp_all add: mc_net_def)
qed

lemma mc_free_listen_all: "listen_all created nl = (good, nl1) \<Longrightarrow> mc_free nl \<Longrightarrow> mc_free nl1"
proof (induction created nl rule: listen_all.induct)
  case (3 c created nl)
  have "mc_free (add_listening c nl)" using "3.prems"(2) by (auto simp: add_listening_def add_multicast_def add_connection_def Let_def mc_free_def)
  then show ?case using 3 by simp
qed auto

lemma mc_free_start:
  assumes "just_listens me first nl"
  shows "mc_free nl"
proof -
  obtain pipe other created type ds conns and st :: "'a ObjectStore" where
    h: "listen (Some (pipe, other)) created (new_local me type ds conns st) = (True, nl)"
    using assms unfolding just_listens_def by blast
  have "mc_free (connectSelf pipe other (new_local me type ds conns st))"
    by (simp add: connectSelf_def new_local_def add_connection_def Let_def mc_free_def node_def upd_node_def)
  moreover obtain nl1 where "listen_all created (connectSelf pipe other (new_local me type ds conns st)) = (True, nl1)"
    "nl = upd_node (ln_self nl1) (\<lambda>nd. nd\<lparr>nd_state := STATE_LISTENING\<rparr>) nl1"
    using h by (auto simp: listen_def split: if_splits prod.splits)
  ultimately show ?thesis using mc_free_listen_all mc_free_upd by (metis Node.select_convs(5) Node.surjective Node.update_convs(3))
qed

text \<open>States of the specification that the nodes reach.\<close>

definition reached :: "NodeConfig \<Rightarrow> bool \<Rightarrow> (bool \<Rightarrow> u128) \<Rightarrow> 'o Net \<Rightarrow> handshake \<Rightarrow> bool" where
  "reached cf ordered ids net hs = (\<exists>net1 own rq. net_run cf ordered net net1 \<and> sim cf ids own rq net1 hs \<and> hs_ok hs \<and> mc_net net1 \<and>
     nt_first net1 = nt_first net)"

lemma reached_start:
  assumes "net_start ids net"
  shows "reached cf ordered ids net (hs_start (nt_first net))"
proof -
  have "mc_net net" using assms mc_free_start unfolding mc_net_def net_start_def by blast
  moreover have "sim cf ids (\<lambda>s. dom (ln_connectionNodes (nt_node net s))) (\<lambda>_. nc_undefined cf + 1) net (hs_start (nt_first net))"
    by (rule start_sim [OF assms]) simp_all
  ultimately show ?thesis unfolding reached_def using hs_ok_start net_run.refl by blast
qed

lemma reached_next:
  assumes "net_run cf ordered net net1" "sim cf ids own rq net1 hs" "hs_ok hs" "mc_net net1" "nt_first net1 = nt_first net"
    and "\<exists>net2 rq2. net_step cf ordered net1 net2 \<and> sim cf ids own rq2 net2 hs2 \<and> nt_first net2 = nt_first net1" "hs_step True hs hs2"
  shows "reached cf ordered ids net hs2"
proof -
  obtain net2 rq2 where n: "net_step cf ordered net1 net2" "sim cf ids own rq2 net2 hs2" "nt_first net2 = nt_first net1" using assms(6) by blast
  then show ?thesis
    using net_run.step [OF assms(1) n(1)] hs_step_ok [OF assms(7,3)] mc_net_step [OF n(1) assms(2,4)] assms(5) unfolding reached_def by metis
qed

lemma reached_ask:
  assumes "reached cf ordered ids net hs" "told_id cf" "hs_try hs s = None"
  shows "reached cf ordered ids net (hs_ask s hs)"
proof -
  obtain net1 own rq where h: "net_run cf ordered net net1" "sim cf ids own rq net1 hs" "hs_ok hs" "mc_net net1" "nt_first net1 = nt_first net"
    using assms(1) unfolding reached_def by blast
  show ?thesis by (rule reached_next [OF h may_ask [OF h(2,3) assms(2,3)] hs_step.ask [OF assms(3)]])
qed

lemma reached_answer:
  assumes "reached cf ordered ids net hs" "told_id cf" "hs_try hs s = Some (c, Asking)"
  shows "reached cf ordered ids net (hs_answer s c hs)"
proof -
  obtain net1 own rq where h: "net_run cf ordered net net1" "sim cf ids own rq net1 hs" "hs_ok hs" "mc_net net1" "nt_first net1 = nt_first net"
    using assms(1) unfolding reached_def by blast
  show ?thesis by (rule reached_next [OF h _ hs_step.answer [OF assms(3)]]) (use may_answer [OF h(2,3) assms(2,3)] in blast)
qed

lemma reached_granted:
  assumes "reached cf ordered ids net hs" "hs_try hs s = Some (c, Granted)"
  shows "reached cf ordered ids net (hs_granted s c hs)"
proof -
  obtain net1 own rq where h: "net_run cf ordered net net1" "sim cf ids own rq net1 hs" "hs_ok hs" "mc_net net1" "nt_first net1 = nt_first net"
    using assms(1) unfolding reached_def by blast
  show ?thesis by (rule reached_next [OF h _ hs_step.granted [OF assms(2)]]) (use may_grant [OF h(2,3) assms(2)] in blast)
qed

text \<open>Both sides ask; one has given up its own attempt, the other does not know yet and waits for its answer.\<close>

definition crossed :: "nat \<Rightarrow> handshake" where
  "crossed f = hs_granted False (Suc f) (hs_answer False (Suc f) (hs_answer True f (hs_ask False (hs_ask True (hs_start f)))))"

lemma crossed_fields:
  "hs_view (crossed f) True = Some (Suc f)" "hs_view (crossed f) False = None" "hs_try (crossed f) True = Some (f, Granted)"
  "hs_try (crossed f) False = None" "Suc f \<notin> hs_open (crossed f) False" "f \<in> hs_open (crossed f) False" "Suc f \<in> hs_open (crossed f) True"
  "f \<in> hs_open (crossed f) True" "hs_acks (crossed f) s = {}" "hs_next (crossed f) = Suc (Suc f)"
  by (simp_all add: crossed_def hs_start_def hs_ask_def hs_answer_def hs_granted_def)

lemma reached_crossed: "net_start ids net \<Longrightarrow> told_id cf \<Longrightarrow> reached cf ordered ids net (crossed (nt_first net))"
  unfolding crossed_def
  by (intro reached_granted reached_answer reached_ask reached_start) (simp_all add: hs_start_def hs_ask_def hs_answer_def)

lemma crossed_lost:
  assumes sim: "sim cf ids own rq net (crossed (nt_first net))" and mc: "mc_net net" and c: "c = nt_first net"
  shows "\<exists>nl t data. net_step cf False net (transmit True nl net) \<and> table_is nl (ids True) (ids False) (own True) None \<and>
    ln_out nl = [] \<and> is_open nl c \<and> c \<in> set (ln_incoming nl) \<and> nt_link net True c = [NODE_CONNECT_REPLY (ids False) (rq True) t data] \<and>
    carries cf data (ids False) \<and> (\<exists>a. ln_requests nl (rq True) = Some (Some a)) \<and> unlisted nl (rq True)"
proof -
  let ?nl = "nt_node net True" and ?d = "Suc (nt_first net)"
  note side = sim_side [OF sim, of True] sim_side [OF sim, of False] and f = crossed_fields [of "nt_first net"]
  have tab: "table_is ?nl (ids True) (ids False) (own True) (Some ?d)" using side(1) f(1) by (simp add: sim_node_def)
  have "nd_outMulticast (node ?nl a) = None" for a using mc by (simp add: mc_net_def mc_free_def)
  note l = lost_known [OF tab this, of cf]
  have o: "ln_out ?nl = []" "is_open ?nl c" "c \<in> set (ln_incoming ?nl)" "?d \<in> set (ln_incoming ?nl)" "\<not> is_open (nt_node net False) ?d"
    "\<exists>a. ln_requests ?nl (rq True) = Some (Some a)" "unlisted ?nl (rq True)"
    using side(1,6) f c by (auto simp: sim_node_def)
  have t: "nt_link net True ?d = []" "\<exists>t data. nt_link net True c = [NODE_CONNECT_REPLY (ids False) (rq True) t data] \<and> carries cf data (ids False)"
    using side(2) [of ?d] side(2) [of c] f c by (simp_all add: travels_def)
  have "net_step cf False net (transmit True (handleDisconnect cf ?d ?nl) net)"
    by (rule net_step.lost) (use o t sim_next [OF sim] f in simp_all)
  moreover have "is_open (handleDisconnect cf ?d ?nl) c" "c \<in> set (ln_incoming (handleDisconnect cf ?d ?nl))"
    using l o c is_open_effect effect_incoming by fastforce+
  ultimately show ?thesis using l o t sends by (intro exI [of _ "handleDisconnect cf ?d ?nl"]) (auto simp: effect_def)
qed

text \<open>
  C35. When a node notices that the other has given up a connection before it handles the answer on another one, it loses the
  other node and connects again; the other, which has given up that connection too, gets an acknowledgement from no node
  and uses a null pointer.
\<close>

theorem early_disconnect_loses_node:
  assumes i: "told_id cf" and start: "net_start ids net"
  shows "\<exists>net1 c. net_run cf False net net1 \<and> c \<in> set (ln_incoming (nt_node net1 False)) \<and>
    nt_link net1 False c = [NODE_CONNECT_ACK] \<and> (\<forall>now. receive_data cf now c NODE_CONNECT_ACK (nt_node net1 False) = None)"
proof -
  let ?c = "nt_first net"
  obtain net1 own rq where r: "net_run cf False net net1" "sim cf ids own rq net1 (crossed ?c)" "mc_net net1" "nt_first net1 = ?c"
    using reached_crossed [OF start i] unfolding reached_def by blast
  note side = sim_side [OF r(2), of True] sim_side [OF r(2), of False] and f = crossed_fields [of ?c]
  obtain nl t data where n: "net_step cf False net1 (transmit True nl net1)" "table_is nl (ids True) (ids False) (own True) None"
    "ln_out nl = []" "is_open nl ?c" "?c \<in> set (ln_incoming nl)" "nt_link net1 True ?c = [NODE_CONNECT_REPLY (ids False) (rq True) t data]"
    "carries cf data (ids False)" "\<exists>a. ln_requests nl (rq True) = Some (Some a)" "unlisted nl (rq True)"
    using crossed_lost [of cf ids own rq net1 ?c] r by metis
  let ?net = "transmit True nl net1" and ?nl = "nl\<lparr>ln_out := []\<rparr>"
  have c: "?c \<notin> own True" "?c \<notin> own False" using side(5,10) r(4) by auto
  obtain b where b: "ln_requests ?nl (rq True) = Some (Some b)" using n(8) by auto
  have o: "is_open ?nl ?c" "unlisted ?nl (rq True)" using n(4,9) by simp_all
  obtain nl2 where a: "receive_data cf 0 ?c (NODE_CONNECT_REPLY (ids False) (rq True) t data) ?nl = Some nl2"
    "effect ?nl nl2 [(?c, NODE_CONNECT_ACK)] None"
    using reply_connects [OF table_is_out [OF n(2)] c(1) o(1) n(7) side(8) b side(4) o(2), of 0 t] by blast
  then have out: "ln_out nl2 = [(?c, NODE_CONNECT_ACK)]" by (simp add: effect_def)
  have l: "nt_link ?net True ?c = [NODE_CONNECT_REPLY (ids False) (rq True) t data]" "nt_node ?net True = ?nl"
    using n(3,6) by (simp_all add: transmit_def)
  let ?net2 = "transmit True nl2 (?net\<lparr>nt_link := (nt_link ?net)(True := (nt_link ?net True)(?c := []))\<rparr>)"
  have "net_step cf False ?net ?net2"
    by (rule net_step.deliver [OF l(1)]) (use l(2) n(5) a(1) in simp_all)
  then have run: "net_run cf False net ?net2" using r(1) n(1) by (blast intro: net_run.step)
  have node: "nt_node ?net2 False = nt_node net1 False" by (simp add: transmit_def)
  have "nt_link net1 False ?c = []" using side(7) [of ?c] f by (simp add: travels_def)
  then have ack: "nt_link ?net2 False ?c = [NODE_CONNECT_ACK]" using out n(3) by (simp add: transmit_def)
  have tab: "table_is (nt_node net1 False) (ids False) (ids True) (own False) None" "?c \<in> set (ln_incoming (nt_node net1 False))"
    using side(6) f by (auto simp: sim_node_def)
  then have "receive_data cf now ?c NODE_CONNECT_ACK (nt_node ?net2 False) = None" for now
    unfolding node using acknowledged_unknown [OF unmapped [OF tab(1) c(2)]] by simp
  then show ?thesis using run ack tab(2) node by metis
qed

section \<open>Two nodes\<close>

lemma granted_serves:
  assumes sim: "sim cf ids own rq net hs" and ok: "hs_ok hs" and t: "hs_try hs s = Some (c, Granted)" "hs_view hs s = None"
    and l: "nt_link net s c = p # ps" and h: "receive_data cf now c p (nt_node net s) = Some nl"
  shows "(rq s, SERVED_BOOL True) \<in> set (ln_served nl)"
proof -
  let ?nl = "nt_node net s"
  note side = sim_side [OF sim, of s] sim_side [OF sim, of "\<not> s"] and att = hs_ok_try [OF ok t(1)]
  obtain t1 data where p: "p = NODE_CONNECT_REPLY (ids (\<not> s)) (rq s) t1 data" "carries cf data (ids (\<not> s))"
    using side(2) [of c] unfolding travels_def l by (auto simp: t att(6))
  have o: "is_open ?nl c" "c \<notin> own s" using side att by (auto simp: sim_node_def)
  have tab: "table_is ?nl (ids s) (ids (\<not> s)) (own s) None" using side(1) t(2) by (simp add: sim_node_def)
  obtain a where r: "ln_requests ?nl (rq s) = Some (Some a)" "unlisted ?nl (rq s)" using side(1) t by (auto simp: sim_node_def)
  have "\<exists>nl1. receive_data cf now c p ?nl = Some nl1 \<and> ln_served nl1 = ln_served ?nl @ [(rq s, SERVED_BOOL True)]"
    unfolding p(1) using reply_connects [OF tab o(2,1) p(2) side(8) r(1) side(4) r(2), of now t1] by blast
  then show ?thesis using h by auto
qed

definition demo_sides :: "bool \<Rightarrow> u128" where
  "demo_sides s = (if s then 2 else 7)"

definition demo_pair :: "unit Net" where
  "demo_pair = \<lparr>nt_node = (\<lambda>s. demo_local (demo_sides s)), nt_link = (\<lambda>_ _. []), nt_first = 10, nt_next = 10\<rparr>"

lemma demo_pair_first: "nt_first demo_pair = 10"
  by (simp add: demo_pair_def)

lemma demo_told: "told_id demo_node_config"
  using demo_ids by (simp add: told_id_def demo_node_config_def)

lemma demo_pair_start: "net_start demo_sides demo_pair"
proof -
  have "just_listens i 10 (demo_local i)" for i
    unfolding just_listens_def
    by (rule exI [of _ 0], rule exI [of _ 1], rule exI [of _ "[]"], rule exI [of _ 1], rule exI [of _ "[]"], rule exI [of _ demo_conns],
        rule exI [of _ demo_store]) (simp add: demo_listens [simplified])
  then show ?thesis by (simp add: net_start_def demo_pair_def demo_sides_def)
qed

lemma demo_served:
  "\<exists>net r. net_run demo_node_config ordered demo_pair net \<and> (r, SERVED_BOOL True) \<in> set (ln_served (nt_node net True)) \<and>
     peer_connection (nt_node net True) 7 = Some 10"
proof -
  let ?hs = "hs_answer True 10 (hs_ask True (hs_start 10))" and ?cf = demo_node_config
  have t: "hs_try ?hs True = Some (10, Granted)" "hs_view ?hs True = None" "hs_view (hs_granted True 10 ?hs) True = Some 10"
    by (simp_all add: hs_answer_def hs_ask_def hs_start_def hs_granted_def)
  have "reached ?cf ordered demo_sides demo_pair ?hs"
    using reached_start [OF demo_pair_start, of ?cf ordered] unfolding demo_pair_first
    by (intro reached_answer reached_ask demo_told) (simp_all add: hs_ask_def hs_start_def)
  then obtain net own rq where h: "net_run ?cf ordered demo_pair net" "sim ?cf demo_sides own rq net ?hs" "hs_ok ?hs"
    unfolding reached_def by blast
  have "nt_link net True 10 \<noteq> []"
    using sim_side(2) [OF h(2), of True 10] t travels_idle [of ?cf demo_sides rq ?hs True 10] by (auto simp: hs_idle_on_def)
  then obtain p ps where l: "nt_link net True 10 = p # ps" by (cases "nt_link net True 10") auto
  let ?net = "\<lambda>nl. transmit True nl (net\<lparr>nt_link := (nt_link net)(True := (nt_link net True)(10 := ps))\<rparr>)"
  obtain nl where nl: "receive_data ?cf 0 10 p (nt_node net True) = Some nl" "sim ?cf demo_sides own rq (?net nl) (hs_granted True 10 ?hs)"
    using deliver_granted [OF h(2,3) t(1) l, of 0] by blast
  have "net_run ?cf ordered demo_pair (?net nl)"
    by (rule net_run.step [OF h(1) net_step.deliver [OF l sim_arrives [OF h(2,3) l] nl(1)]])
  moreover have "(rq True, SERVED_BOOL True) \<in> set (ln_served (nt_node (?net nl) True))"
    using granted_serves [OF h(2,3) t(1,2) l nl(1)] by (simp add: transmit_def)
  moreover have "peer_connection (nt_node (?net nl) True) 7 = Some 10"
    using sim_peer [OF nl(2), of True] t(3) by (simp add: demo_sides_def)
  ultimately show ?thesis by blast
qed

theorem handshake_agrees_witness:
  "\<exists>net r. net_run demo_node_config True demo_pair net \<and> (r, SERVED_BOOL True) \<in> set (ln_served (nt_node net True)) \<and>
     peer_connection (nt_node net True) 7 = Some 10 \<and> peer_connection (nt_node net False) 2 = Some 10"
proof -
  obtain net r where h: "net_run demo_node_config True demo_pair net" "(r, SERVED_BOOL True) \<in> set (ln_served (nt_node net True))"
    "peer_connection (nt_node net True) 7 = Some 10" using demo_served by blast
  have s: "demo_sides True = 2" "demo_sides False = 7" by (simp_all add: demo_sides_def)
  have "peer_connection (nt_node net (\<not> True)) (demo_sides True) = peer_connection (nt_node net True) (demo_sides (\<not> True))"
    using handshake_agrees [OF demo_told demo_pair_start h(1)] h(2) by blast
  then show ?thesis using h s by auto
qed

theorem handshake_settles_witness:
  "\<exists>net k net2. net_run demo_node_config True demo_pair net \<and> \<not> quiet net \<and> net_events demo_node_config True k net net2 \<and> 0 < k \<and>
     k \<le> 8 + net_incoming net \<and> settled demo_sides net2"
proof -
  let ?hs = "hs_ask True (hs_start 10)" and ?cf = demo_node_config
  have t: "hs_try ?hs True = Some (10, Asking)" by (simp add: hs_ask_def hs_start_def)
  have "reached ?cf True demo_sides demo_pair ?hs"
    using reached_start [OF demo_pair_start, of ?cf True] unfolding demo_pair_first
    by (intro reached_ask demo_told) (simp_all add: hs_start_def)
  then obtain net own rq where h: "net_run ?cf True demo_pair net" "sim ?cf demo_sides own rq net ?hs"
    unfolding reached_def by blast
  have "nt_link net False 10 \<noteq> []" using sim_side(2) [OF h(2), of False 10] t by (auto simp: travels_def)
  then have q: "\<not> quiet net" by (auto simp: quiet_def)
  obtain k net2 where e: "net_events ?cf True k net net2" "k \<le> 8 + net_incoming net" "settled demo_sides net2"
    using events_end [OF net_events.none conjunct2 [OF handshake_settles [OF demo_told demo_pair_start h(1)]]] by blast
  have "k \<noteq> 0"
  proof
    assume "k = 0"
    then have "net2 = net" using e(1) by (auto elim: net_events.cases)
    then show False using q e(3) by (simp add: settled_def)
  qed
  then show ?thesis using h(1) q e by blast
qed

theorem early_disconnect_loses_node_witness:
  "\<exists>net1 c. net_run demo_node_config False demo_pair net1 \<and> c \<in> set (ln_incoming (nt_node net1 False)) \<and>
     nt_link net1 False c = [NODE_CONNECT_ACK] \<and> (\<forall>now. receive_data demo_node_config now c NODE_CONNECT_ACK (nt_node net1 False) = None)"
  by (rule early_disconnect_loses_node [OF demo_told demo_pair_start])

end
