(* ===== verification/Spec2Isabelle.thy ===== *)
theory Spec2Isabelle
  imports Tile_Queue Compressors Rle4bu Rsp_Group Master_Flow Object_Sync Queue_Return Barrier_Sync Store_Pins Store_Masters Node_Waiting
    Handshake
begin

text \<open>
  Equalizer is a framework for parallel and distributed OpenGL applications. Its network library
  Collage (\<open>src/libs/co\<close>) distributes versioned objects between nodes; the server
  (\<open>src/libs/eq/server\<close>) divides the frames of an application among rendering channels; the client
  library (\<open>src/libs/eq/client\<close>) renders and moves pixels. This development models the parts of the
  program that carry its own logic and proves what makes them correct.

  \<^bold>\<open>How the parts interact.\<close> An application commits objects. The master of an object writes it into
  a data stream, which may be compressed by a plugin and is cut into packets; the packets travel
  to the slaves over a connection, for instance the reliable multicast; each slave reassembles
  them into input streams, queues the versions and applies them when it is synced. The server
  cuts the viewport of a compound into tiles and pushes them into a distributed queue, from which
  the channels pop what they render. Barriers synchronise the swap of several nodes. Pixels that
  are read back are compressed by the run-length engines.

  \<^bold>\<open>Theories and sources.\<close>
  \<^item> \<open>Prelude\<close>: widths of the machine integers, the division of C++, shared lemmas.
  \<^item> \<open>Tiles\<close>, \<open>Tile_Queue\<close>: the strategies of \<open>eq/server/tiles/*.h\<close>, the tile part of
    \<open>compoundUpdateOutputVisitor.cpp\<close>, and the latency queues of \<open>tileQueue.cpp\<close>. The locale
    \<open>tile_strategy\<close> is the contract of a strategy; raster, zigzag and spiral are its interpretations.
  \<^item> \<open>Pixel_Viewport\<close>: \<open>eq/fabric/pixelViewport.h\<close> and \<open>pixel.h\<close>, the integer operations.
  \<^item> \<open>Swizzle\<close>, \<open>Rle_Stream\<close>, \<open>Float32\<close>, \<open>Rle_Engine\<close>, \<open>Compressors\<close>: the run-length engines of
    \<open>co/compressor/\<close> for pixels. \<open>Float32\<close> is the rounding of binary32 that the arithmetic of the
    chunk bounds depends on. The locales \<open>chunk_coder\<close> and \<open>pixel_codec\<close> are the contracts
    between the chunked engine and its token streams and pixel formats; every engine of the
    plugin interprets the second.
  \<^item> \<open>Byte_Compressors\<close>, \<open>Rle4bu\<close>: the engines for untyped data (\<open>compressorRLEB.cpp\<close>,
    \<open>compressorRLE4BU.cpp\<close>).
  \<^item> \<open>Rsp\<close>, \<open>Rsp_Reader\<close>, \<open>Rsp_Nack\<close>, \<open>Rsp_Writer\<close>, \<open>Rsp_Group\<close>: the reliable multicast protocol
    (\<open>co/rspConnection.cpp\<close>): datagrams, reading in order, requests for repetition, the writer with
    its repeat queue, negotiation of identifiers and membership of the group.
  \<^item> \<open>Data_Stream\<close>, \<open>Data_Roundtrip\<close>: \<open>co/dataOStream.cpp\<close>, \<open>dataIStream.cpp\<close> and the object
    streams that derive from them. The locale \<open>lossless_plugin\<close> is what the streams rely on in a
    compression plugin; the byte engine of \<open>Byte_Compressors\<close> interprets it.
  \<^item> \<open>Serialization\<close>: the typed stream operators. The locale \<open>codec\<close> relates an operator \<open><<\<close> to its
    \<open>>>\<close>; words, strings, vectors and object versions interpret it.
  \<^item> \<open>Object_Master\<close>, \<open>Master_Versions\<close>, \<open>Master_Run\<close>, \<open>Master_Flow\<close>: the change managers of master
    objects (\<open>co/objectCM.cpp\<close>, \<open>versionedMasterCM.cpp\<close>, \<open>fullMasterCM.cpp\<close>, \<open>deltaMasterCM.cpp\<close>,
    \<open>unbufferedMasterCM.cpp\<close>).
  \<^item> \<open>Object_Slave\<close>, \<open>Object_Sync\<close>: the change managers of slaves (\<open>co/versionedSlaveCM.cpp\<close>,
    \<open>staticSlaveCM.cpp\<close>) and the queue of slave commits (\<open>dataIStreamQueue.cpp\<close>).
  \<^item> \<open>Distributed_Queue\<close>, \<open>Queue_Delivery\<close>, \<open>Queue_Drain\<close>, \<open>Queue_Return\<close>: the queue between
    \<open>co/queueMaster.cpp\<close> and \<open>queueSlave.cpp\<close> as a system of interleaved events.
  \<^item> \<open>Barrier\<close>, \<open>Barrier_Sync\<close>: \<open>co/barrier.cpp\<close>, its handlers and the system of nodes.
  \<^item> \<open>Instance_Cache\<close>, \<open>Cache_Accounting\<close>, \<open>Cache_Safety\<close>: the cache of instance data of a node
    (\<open>co/instanceCache.cpp\<close>), the termination and the effect of releasing, and its promises.
  \<^item> \<open>Object_Store\<close>, \<open>Store_Objects\<close>, \<open>Store_Run\<close>, \<open>Store_Dispatch\<close>, \<open>Cache_Frame\<close>, \<open>Store_Pins\<close>,
    \<open>Store_Masters\<close>: the object store of a local node (\<open>co/objectStore.cpp\<close>, with the members of
    \<open>co/object.cpp\<close> it uses): attaching, mapping, registering and swapping objects, finding a
    master node, delivering instance data and commands, and their use of the instance cache.
    \<open>Store_Run\<close> holds the interleavings of these operations as a step relation.
  \<^item> \<open>Connection_Description\<close>, \<open>Text_Roundtrip\<close>: the texts of nodes and connections
    (\<open>co/connectionDescription.cpp\<close>, \<open>node.cpp\<close>) and of the global attributes (\<open>global.cpp\<close>). The
    locale \<open>text_codec\<close> is the contract of a text and its parser.
  \<^item> \<open>Local_Node\<close>, \<open>Node_Commands\<close>, \<open>Node_Events\<close>, \<open>Node_Table\<close>, \<open>Node_Run\<close>, \<open>Node_Waiting\<close>: the local
    node (\<open>co/localNode.cpp\<close>): its handlers, listeners, the send token and the commands that wait
    for an object; the invariant of its table of nodes and all interleavings of its operations.
  \<^item> \<open>Node_View\<close>, \<open>Handshake_Spec\<close>, \<open>Node_Handshake\<close>, \<open>Handshake_Sim\<close>, \<open>Handshake_Runs\<close>, \<open>Handshake\<close>: two
    local nodes that connect to each other. \<open>Handshake_Spec\<close> is the abstract protocol with its
    invariant; the system of nodes and links of \<open>Node_Handshake\<close> simulates it in ordered runs.

  \<^bold>\<open>Conventions.\<close> A class is a record whose fields are its members; a method is a function on that
  record with the source's name, prefixed by the class where names clash. Integers have the
  width of the source. A call that waits is \<open>None\<close>. What is sent is appended to a list in the
  state. A command that a local thread sends itself and waits for runs in place; an object is an
  address into a heap. Where the order of events matters (multicast, queue, barrier, runs of a master), a step
  relation or a list of events gives all interleavings. The thread-safe queues of the base
  library, which is not in the repository, are lists, and the text of an identifier, which the base
  library writes and reads, is a parameter. Assertions are those of a release build,
  that is, none; \<open>checkConsistency\<close> models the one debug check of its own.

  \<^bold>\<open>What the lemmas show.\<close> Tiles: every pixel of the viewport is in exactly one tile, and queues
  still in use are not recycled. Compressors: decompression inverts compression for every engine
  and input for which the chunk bounds are exact; with chunks of equal size no pixel engine writes beyond the
  buffers that are reserved (\<open>reserved\<close>), the byte engine does so exactly for wide tokens that alternate
  with the marker; the pixels that single-precision chunk bounds lose. Multicast: what a reader
  delivers is a prefix of what the writer wrote, requests for repetition name every missing
  datagram, buffers are released by the slowest reader, and membership stays consistent.
  Streams: mirrored reads return what was written, for every grouping into packets; typed values
  arrive; serialized children arrive exactly if no packet boundary falls between them. Objects:
  a master keeps a gap-free range of versions (and makes empty ones after its last slave has left), mapping delivers each version not cached, a slave
  that syncs holds the committed value, commits block exactly for the slowest slave. Queue: each
  item is delivered once and in order, an exhausted queue has been consumed, and \<open>pop\<close> returns.
  Barrier: as long as no wait has timed out, no node is ahead of another and all are released, whatever timeouts
  the nodes gave; a timeout breaks this.
  Cache: pinned data stays, the size is right and within its limit as long as no incomplete stream
  is released, and what happens when one is. Object store: its table holds exactly the attached
  objects under their identifiers, instance identifiers are unique, a command reaches exactly the
  instances it names, the cache is pinned exactly by the mappings without a reply and keeps what
  it announced until then, a master is found iff a node that is asked knows it, and a swap of
  objects leaves queue entries of the old object behind. Local node: connected peers have
  identifiers and connections of their own, node data is read back, waiting commands are delivered
  once and in order, and the test for the send token is inverted. Handshake: nodes that connect to
  each other at the same time come to agree, after a bounded number of events in whatever order, and whoever is told to be connected is, if a closed
  connection is noticed after the packets that were sent before; otherwise a node can be lost.

  \<^bold>\<open>Bounds.\<close> Version numbers of runs stay below \<open>2 ^ 63\<close> and commit counters below \<open>2 ^ 31\<close>, so that
  their words do not wrap; sequence numbers of the multicast wrap at \<open>2 ^ 16\<close> as in the code.
  The largest instance identifier is a parameter of the object store below \<open>EQ_INSTANCE_NONE\<close>; an
  identifier that is drawn for an instance is the next free one, as in the code.
  No definition uses fuel: loops are structural recursions or have a termination proof, except for
  the loop of the cache that releases streams, a partial function that is shown to return.

  \<^bold>\<open>Not modelled.\<close> Sockets and the other connection types (TCP, UDT, PGM, RDMA, InfiniBand, pipes),
  threads and the command queues are operating-system or library calls. Of the local node, the
  search for an unknown node with its retries, zeroconf, custom command handlers and thread
  affinity are left out; a connection that could be created is an argument of the operation.
  The client library (windows, pipes, channels, compositing,
  GPU transfer), the window-system code, \<open>seq\<close>, \<open>admin\<close>, the examples and the tools drive OpenGL or
  a user interface. The load balancers and the frustum and viewport arithmetic of compounds
  compute with floating-point numbers. The parser of configuration files is generated.
\<close>

end
